(* ===== verification/Prelude.thy ===== *)
theory Prelude
  imports Main "HOL-Library.Word"
begin

unbundle bit_operations_syntax

text \<open>
  What every component shares: the names of the machine integer types, the little-endian layout
  of integers in byte buffers (the target is a little-endian Cortex-M4), reading and writing a
  buffer at an offset, and the lemma collections that the component proofs draw on.
\<close>

named_theorems buf_simps "reads and writes of byte buffers"
named_theorems word_conv "conversions of machine words to int and nat"

section \<open>Machine integers\<close>

text \<open>A signed type has the words of the unsigned type of its width, read with \<open>sint\<close>.\<close>

type_synonym u8 = "8 word"
type_synonym u16 = "16 word"
type_synonym u32 = "32 word"
type_synonym u64 = "64 word"
type_synonym i32 = "32 word"
type_synonym i64 = "64 word"
type_synonym bytes = "u8 list"

lemma unat_u8_lt [simp]: "unat (b :: u8) < 256"
  using unsigned_less [of b] by simp

lemma unat_u16_lt [simp]: "unat (w :: u16) < 65536"
  using unsigned_less [of w] by simp

lemma unat_u32_lt [simp]: "unat (w :: u32) < 4294967296"
  using unsigned_less [of w] by simp

lemma uint_u32_range: "0 \<le> uint (w :: u32)" "uint (w :: u32) < 4294967296"
  using unsigned_less [of w, where 'a = int] by simp_all

lemma sint_i32_range: "- 2147483648 \<le> sint (w :: i32)" "sint (w :: i32) < 2147483648"
  using sint_greater_eq [of w] sint_less [of w] by simp_all

lemma sint_i64_range:
  "- 9223372036854775808 \<le> sint (w :: i64)" "sint (w :: i64) < 9223372036854775808"
  using sint_greater_eq [of w] sint_less [of w] by simp_all

text \<open>A signed word holds an \<open>int\<close> exactly when the \<open>int\<close> is in the signed range.\<close>

lemma sint_of_int_64 [word_conv]:
  "- 9223372036854775808 \<le> x \<Longrightarrow> x < 9223372036854775808 \<Longrightarrow> sint (word_of_int x :: i64) = x"
  by (simp add: sint_sbintrunc' signed_take_bit_int_eq_self)

lemma sint_of_int_32 [word_conv]:
  "- 2147483648 \<le> x \<Longrightarrow> x < 2147483648 \<Longrightarrow> sint (word_of_int x :: i32) = x"
  by (simp add: sint_sbintrunc' signed_take_bit_int_eq_self)

lemma uint_of_int_32 [word_conv]: "uint (word_of_int x :: u32) = x mod 4294967296"
  by (simp add: uint_word_of_int)

lemma uint_of_int_64 [word_conv]: "uint (word_of_int x :: u64) = x mod 18446744073709551616"
  by (simp add: uint_word_of_int)

text \<open>The low and the high half of a 64-bit word that holds an \<open>int\<close>.\<close>

lemma low_half_of_int [word_conv]: "(ucast (word_of_int x :: u64) :: u32) = word_of_int x"
  by (rule bit_word_eqI) (simp add: bit_simps)

lemma high_half_of_int [word_conv]:
  "(ucast (drop_bit 32 (word_of_int x :: u64)) :: u32) = word_of_int (x div 4294967296)"
proof -
  have "x div 4294967296 = drop_bit 32 x" by (simp add: drop_bit_eq_div)
  then show ?thesis by (auto intro!: bit_word_eqI simp: bit_simps)
qed

lemma high_half_of_int_signed [word_conv]:
  "(ucast (signed_drop_bit 32 (word_of_int x :: i64)) :: u32) = word_of_int (x div 4294967296)"
proof -
  have "x div 4294967296 = drop_bit 32 x" by (simp add: drop_bit_eq_div)
  then show ?thesis by (auto intro!: bit_word_eqI simp: bit_simps)
qed

lemma scast_of_int [word_conv]: "(scast (w :: i32) :: i64) = word_of_int (sint w)"
  by (rule bit_word_eqI) (auto simp: bit_simps min_def not_le)

lemma ucast_of_int [word_conv]: "(ucast (w :: u32) :: u64) = word_of_int (uint w)"
  by (rule bit_word_eqI) (auto simp: bit_simps)


lemma drop_bit_of_int_32 [word_conv]:
  "drop_bit n (word_of_int x :: u32) = word_of_int (x mod 4294967296 div 2 ^ n)"
proof (rule word_uint_eqI)
  have "x mod 4294967296 div 2 ^ n \<le> x mod 4294967296 div 1"
    by (rule zdiv_mono2) simp_all
  also have "\<dots> < 4294967296" by simp
  finally have "x mod 4294967296 div 2 ^ n < 4294967296" .
  moreover have t: "take_bit LENGTH(32) (x mod 4294967296) = x mod 4294967296"
    by (simp add: take_bit_eq_mod)
  moreover have "0 \<le> x mod 4294967296 div 2 ^ n"
    by (simp add: pos_imp_zdiv_nonneg_iff)
  ultimately show "uint (drop_bit n (word_of_int x :: u32)) = uint (word_of_int (x mod 4294967296 div 2 ^ n) :: u32)"
    unfolding unsigned_drop_bit_eq uint_of_int_32 t unfolding drop_bit_eq_div
    by (simp only: mod_pos_pos_trivial)
qed

lemma uint_drop_bit [word_conv]: "uint (drop_bit n w) = uint w div 2 ^ n"
proof -
  have "uint (drop_bit n w) = drop_bit n (uint w)"
    by (rule bit_eqI) (auto simp: bit_simps dest: bit_imp_le_length)
  then show ?thesis by (simp only: drop_bit_eq_div)
qed

lemma uint_ucast_32_64 [word_conv]: "uint (ucast (w :: u32) :: u64) = uint w"
proof -
  have "uint w < 18446744073709551616" using uint_u32_range (2) [of w] by linarith
  then show ?thesis by (simp add: unsigned_ucast_eq take_bit_eq_mod)
qed

lemma uint_ucast_64_32 [word_conv]: "uint (ucast (w :: u64) :: u32) = uint w mod 4294967296"
  by (simp add: unsigned_ucast_eq take_bit_eq_mod)

section \<open>Byte buffers\<close>

text \<open>
  A frame or a message buffer is a list of bytes. \<open>rd f i n\<close> is the \<open>n\<close> bytes at offset \<open>i\<close>,
  \<open>wr f i bs\<close> stores \<open>bs\<close> from offset \<open>i\<close> on and keeps the length of the buffer.
\<close>

definition rd :: "bytes \<Rightarrow> nat \<Rightarrow> nat \<Rightarrow> bytes" where
  "rd f i n = take n (drop i f)"

primrec wr :: "bytes \<Rightarrow> nat \<Rightarrow> bytes \<Rightarrow> bytes" where
  "wr f i [] = f"
| "wr f i (b # bs) = wr (f[i := b]) (Suc i) bs"

lemma length_wr [simp, buf_simps]: "length (wr f i bs) = length f"
  by (induction bs arbitrary: f i) simp_all

lemma nth_wr: "k < length f \<Longrightarrow>
    wr f i bs ! k = (if i \<le> k \<and> k < i + length bs then bs ! (k - i) else f ! k)"
  by (induction bs arbitrary: f i) (auto simp: nth_list_update nth_Cons')

lemma length_rd [buf_simps]: "i + n \<le> length f \<Longrightarrow> length (rd f i n) = n"
  by (simp add: rd_def)

lemma nth_rd [buf_simps]: "k < n \<Longrightarrow> i + n \<le> length f \<Longrightarrow> rd f i n ! k = f ! (i + k)"
  by (simp add: rd_def)

lemma rd_wr_same [buf_simps]: "n = length bs \<Longrightarrow> i + n \<le> length f \<Longrightarrow> rd (wr f i bs) i n = bs"
  by (rule nth_equalityI) (auto simp: nth_rd nth_wr length_rd)

lemma rd_wr_disj [buf_simps]:
  "j + n \<le> i \<or> i + length bs \<le> j \<Longrightarrow> rd (wr f i bs) j n = rd f j n"
  by (rule nth_equalityI) (auto simp: rd_def nth_wr)

lemma wr_rd_id [buf_simps]: "wr f i (rd f i n) = f"
  by (rule nth_equalityI) (auto simp: rd_def nth_wr)

lemma rd_take: "i + n \<le> k \<Longrightarrow> rd (take k f) i n = rd f i n"
  by (simp add: rd_def drop_take min_def)

lemma rd_middle: "i = length xs \<Longrightarrow> n = length ys \<Longrightarrow> rd (xs @ ys @ zs) i n = ys"
  by (simp add: rd_def)

lemma rd_whole: "length f = n \<Longrightarrow> rd f 0 n = f"
  by (simp add: rd_def)

lemma wr_whole: "length bs = length f \<Longrightarrow> wr f 0 bs = bs"
  by (rule nth_equalityI) (simp_all add: nth_wr)

lemma rd_rd [buf_simps]: "i + n \<le> m \<Longrightarrow> rd (rd f j m) i n = rd f (j + i) n"
  by (simp add: rd_def drop_take min_def add.commute)

text \<open>\<open>sits f i bs\<close>: the buffer has the bytes \<open>bs\<close> at offset \<open>i\<close>.\<close>

definition sits :: "bytes \<Rightarrow> nat \<Rightarrow> bytes \<Rightarrow> bool" where
  "sits f i bs \<longleftrightarrow> i + length bs \<le> length f \<and> rd f i (length bs) = bs"

lemma sits_append: "sits f i (xs @ ys) \<longleftrightarrow> sits f i xs \<and> sits f (i + length xs) ys"
proof (cases "i + length xs + length ys \<le> length f")
  case True
  have "rd f i (length xs + length ys) = rd f i (length xs) @ rd f (i + length xs) (length ys)"
    by (simp add: rd_def take_add add.commute)
  moreover have "length (rd f i (length xs)) = length xs" using True by (simp add: length_rd)
  ultimately show ?thesis using True by (auto simp: sits_def add.assoc)
qed (auto simp: sits_def)

lemma sits_Cons: "sits f i (x # xs) \<longleftrightarrow> i < length f \<and> f ! i = x \<and> sits f (Suc i) xs"
proof -
  have "sits f i [x] \<longleftrightarrow> i < length f \<and> f ! i = x"
    by (auto simp: sits_def rd_def hd_drop_conv_nth take_Suc_conv_app_nth simp flip: Cons_nth_drop_Suc)
  then show ?thesis using sits_append [of f i "[x]" xs] by simp
qed

lemma sits_Nil [simp]: "sits f i [] \<longleftrightarrow> i \<le> length f"
  by (simp add: sits_def rd_def)

lemma sitsI: "i = length xs \<Longrightarrow> sits (xs @ bs @ ys) i bs"
  by (simp add: sits_def rd_middle)

lemma rd_append_left [buf_simps]: "i + n \<le> length f \<Longrightarrow> rd (f @ g) i n = rd f i n"
  by (simp add: rd_def)

section \<open>Little-endian integers\<close>

definition enc8 :: "u8 \<Rightarrow> bytes" where
  "enc8 w = [w]"

definition dec8 :: "bytes \<Rightarrow> u8" where
  "dec8 bs = hd bs"

definition enc16 :: "u16 \<Rightarrow> bytes" where
  "enc16 w = [ucast w, ucast (drop_bit 8 w)]"

definition dec16 :: "bytes \<Rightarrow> u16" where
  "dec16 bs = ucast (bs ! 0) OR push_bit 8 (ucast (bs ! 1))"

definition enc32 :: "u32 \<Rightarrow> bytes" where
  "enc32 w = enc16 (ucast w) @ enc16 (ucast (drop_bit 16 w))"

definition dec32 :: "bytes \<Rightarrow> u32" where
  "dec32 bs = ucast (dec16 bs) OR push_bit 16 (ucast (dec16 (drop 2 bs)))"

definition enc64 :: "u64 \<Rightarrow> bytes" where
  "enc64 w = enc32 (ucast w) @ enc32 (ucast (drop_bit 32 w))"

definition dec64 :: "bytes \<Rightarrow> u64" where
  "dec64 bs = ucast (dec32 bs) OR push_bit 32 (ucast (dec32 (drop 4 bs)))"

lemma length_enc [simp]:
  "length (enc8 a) = 1" "length (enc16 b) = 2" "length (enc32 c) = 4" "length (enc64 d) = 8"
  by (simp_all add: enc8_def enc16_def enc32_def enc64_def)

lemma dec16_append: "2 \<le> length bs \<Longrightarrow> dec16 (bs @ cs) = dec16 bs"
  by (auto simp: dec16_def nth_append)

lemma dec32_append: "4 \<le> length bs \<Longrightarrow> dec32 (bs @ cs) = dec32 bs"
  by (simp add: dec32_def dec16_append)

lemma dec16_enc16: "dec16 (enc16 w) = w"
  by (rule bit_word_eqI) (auto simp: dec16_def enc16_def bit_simps not_less)

lemma dec32_enc32: "dec32 (enc32 w) = w"
  by (rule bit_word_eqI)
     (auto simp: dec32_def enc32_def dec16_append dec16_enc16 bit_simps not_less)

lemma dec64_enc64: "dec64 (enc64 w) = w"
  by (rule bit_word_eqI)
     (auto simp: dec64_def enc64_def dec32_append dec32_enc32 bit_simps not_less)

lemma enc16_dec16: "length bs = 2 \<Longrightarrow> enc16 (dec16 bs) = bs"
proof -
  assume "length bs = 2"
  then obtain a b where bs: "bs = [a, b]"
    by (auto simp: numeral_2_eq_2 length_Suc_conv)
  have "ucast (ucast a OR push_bit 8 (ucast b :: u16)) = a"
    by (rule bit_word_eqI) (auto simp: bit_simps)
  moreover have "ucast (drop_bit 8 (ucast a OR push_bit 8 (ucast b :: u16))) = b"
    by (rule bit_word_eqI) (auto simp: bit_simps dest: bit_imp_le_length)
  ultimately show ?thesis by (simp add: bs enc16_def dec16_def)
qed

lemma enc32_dec32: "length bs = 4 \<Longrightarrow> enc32 (dec32 bs) = bs"
proof -
  assume l: "length bs = 4"
  have "ucast (ucast a OR push_bit 16 (ucast b :: u32)) = a" for a b :: u16
    by (rule bit_word_eqI) (auto simp: bit_simps)
  moreover have "ucast (drop_bit 16 (ucast a OR push_bit 16 (ucast b :: u32))) = b" for a b :: u16
    by (rule bit_word_eqI) (auto simp: bit_simps dest: bit_imp_le_length)
  moreover have "enc16 (dec16 bs) = take 2 bs"
    using enc16_dec16 [of "take 2 bs"] dec16_append [of "take 2 bs" "drop 2 bs"] l by simp
  ultimately show ?thesis using l enc16_dec16 [of "drop 2 bs"] by (simp add: enc32_def dec32_def)
qed

lemma enc64_dec64: "length bs = 8 \<Longrightarrow> enc64 (dec64 bs) = bs"
proof -
  assume l: "length bs = 8"
  have "ucast (ucast a OR push_bit 32 (ucast b :: u64)) = a" for a b :: u32
    by (rule bit_word_eqI) (auto simp: bit_simps)
  moreover have "ucast (drop_bit 32 (ucast a OR push_bit 32 (ucast b :: u64))) = b" for a b :: u32
    by (rule bit_word_eqI) (auto simp: bit_simps dest: bit_imp_le_length)
  moreover have "enc32 (dec32 bs) = take 4 bs"
    using enc32_dec32 [of "take 4 bs"] dec32_append [of "take 4 bs" "drop 4 bs"] l by simp
  ultimately show ?thesis using l enc32_dec32 [of "drop 4 bs"] by (simp add: enc64_def dec64_def)
qed

lemma unat_dec16: "unat (dec16 [a, b]) = unat a + 256 * unat b"
proof -
  have "(ucast a :: u16) AND push_bit 8 (ucast b) = 0"
    by (rule bit_word_eqI) (auto simp: bit_simps dest: bit_imp_le_length)
  then have "dec16 [a, b] = ucast a + push_bit 8 (ucast b)"
    by (simp add: dec16_def disjunctive_add_eq_or)
  moreover have "unat a mod 65536 = unat a" "unat b mod 65536 = unat b"
    "unat b * 256 mod 65536 = unat b * 256" "(unat a + unat b * 256) mod 65536 = unat a + unat b * 256"
    using unat_u8_lt [of a] unat_u8_lt [of b] by (simp_all del: unat_u8_lt)
  ultimately show ?thesis
    by (simp add: push_bit_eq_mult unat_word_ariths unsigned_ucast_eq take_bit_eq_mod)
qed

subsection \<open>The interface of a fixed-width field\<close>

text \<open>
  Every packed struct field is read and written through one of four codecs. The laws of the
  codec give the laws of the field: what is written is read back, other fields are untouched,
  and writing back what was read changes nothing.
\<close>

locale field_codec =
  fixes enc :: "'w \<Rightarrow> bytes" and dec :: "bytes \<Rightarrow> 'w" and width :: nat
  assumes dec_enc: "dec (enc w) = w"
    and enc_dec: "length bs = width \<Longrightarrow> enc (dec bs) = bs"
    and length_encode: "length (enc w) = width"
begin

lemma codec_get_put_same: "i + width \<le> length f \<Longrightarrow> dec (rd (wr f i (enc w)) i width) = w"
  by (simp add: rd_wr_same length_encode dec_enc)

lemma get_put_other:
  "j + n \<le> i \<or> i + width \<le> j \<Longrightarrow> rd (wr f i (enc w)) j n = rd f j n"
  by (simp add: rd_wr_disj length_encode)

lemma put_get_id: "i + width \<le> length f \<Longrightarrow> wr f i (enc (dec (rd f i width))) = f"
  by (simp add: enc_dec length_rd wr_rd_id)

lemma enc_inj: "enc w = enc v \<longleftrightarrow> w = v"
  by (metis dec_enc)

end

interpretation c8: field_codec enc8 dec8 1
  by unfold_locales (auto simp: enc8_def dec8_def length_Suc_conv)

interpretation c16: field_codec enc16 dec16 2
  by unfold_locales (simp_all add: dec16_enc16 enc16_dec16)

interpretation c32: field_codec enc32 dec32 4
  by unfold_locales (simp_all add: dec32_enc32 enc32_dec32)

interpretation c64: field_codec enc64 dec64 8
  by unfold_locales (simp_all add: dec64_enc64 enc64_dec64)

definition get8 :: "bytes \<Rightarrow> nat \<Rightarrow> u8" where "get8 f i = dec8 (rd f i 1)"
definition get16 :: "bytes \<Rightarrow> nat \<Rightarrow> u16" where "get16 f i = dec16 (rd f i 2)"
definition get32 :: "bytes \<Rightarrow> nat \<Rightarrow> u32" where "get32 f i = dec32 (rd f i 4)"
definition get64 :: "bytes \<Rightarrow> nat \<Rightarrow> u64" where "get64 f i = dec64 (rd f i 8)"

definition put8 :: "bytes \<Rightarrow> nat \<Rightarrow> u8 \<Rightarrow> bytes" where "put8 f i w = wr f i (enc8 w)"
definition put16 :: "bytes \<Rightarrow> nat \<Rightarrow> u16 \<Rightarrow> bytes" where "put16 f i w = wr f i (enc16 w)"
definition put32 :: "bytes \<Rightarrow> nat \<Rightarrow> u32 \<Rightarrow> bytes" where "put32 f i w = wr f i (enc32 w)"
definition put64 :: "bytes \<Rightarrow> nat \<Rightarrow> u64 \<Rightarrow> bytes" where "put64 f i w = wr f i (enc64 w)"

lemmas put_defs = put8_def put16_def put32_def put64_def
lemmas get_defs = get8_def get16_def get32_def get64_def

lemma length_put [simp]:
  "length (put8 f i a) = length f" "length (put16 f i b) = length f"
  "length (put32 f i c) = length f" "length (put64 f i d) = length f"
  by (simp_all add: put_defs)

lemma get_put_same [buf_simps]:
  "i + 1 \<le> length f \<Longrightarrow> get8 (put8 f i a) i = a"
  "i + 2 \<le> length f \<Longrightarrow> get16 (put16 f i b) i = b"
  "i + 4 \<le> length f \<Longrightarrow> get32 (put32 f i c) i = c"
  "i + 8 \<le> length f \<Longrightarrow> get64 (put64 f i d) i = d"
  unfolding put_defs get_defs
  by (rule c8.codec_get_put_same c16.codec_get_put_same c32.codec_get_put_same c64.codec_get_put_same; simp)+

lemma rd_put_other [buf_simps]:
  "j + n \<le> i \<or> i + 1 \<le> j \<Longrightarrow> rd (put8 f i a) j n = rd f j n"
  "j + n \<le> i \<or> i + 2 \<le> j \<Longrightarrow> rd (put16 f i b) j n = rd f j n"
  "j + n \<le> i \<or> i + 4 \<le> j \<Longrightarrow> rd (put32 f i c) j n = rd f j n"
  "j + n \<le> i \<or> i + 8 \<le> j \<Longrightarrow> rd (put64 f i d) j n = rd f j n"
  unfolding put_defs
  by (rule c8.get_put_other c16.get_put_other c32.get_put_other c64.get_put_other; simp)+

text \<open>A field read next to a write elsewhere, for each width.\<close>

lemma get8_other [buf_simps]:
  "j + 1 \<le> i \<or> i + length bs \<le> j \<Longrightarrow> get8 (wr f i bs) j = get8 f j"
  "j + 1 \<le> i \<or> i + 1 \<le> j \<Longrightarrow> get8 (put8 f i a) j = get8 f j"
  "j + 1 \<le> i \<or> i + 2 \<le> j \<Longrightarrow> get8 (put16 f i b) j = get8 f j"
  "j + 1 \<le> i \<or> i + 4 \<le> j \<Longrightarrow> get8 (put32 f i c) j = get8 f j"
  "j + 1 \<le> i \<or> i + 8 \<le> j \<Longrightarrow> get8 (put64 f i d) j = get8 f j"
  by (simp_all add: get8_def buf_simps)

lemma get16_other [buf_simps]:
  "j + 2 \<le> i \<or> i + length bs \<le> j \<Longrightarrow> get16 (wr f i bs) j = get16 f j"
  "j + 2 \<le> i \<or> i + 1 \<le> j \<Longrightarrow> get16 (put8 f i a) j = get16 f j"
  "j + 2 \<le> i \<or> i + 2 \<le> j \<Longrightarrow> get16 (put16 f i b) j = get16 f j"
  "j + 2 \<le> i \<or> i + 4 \<le> j \<Longrightarrow> get16 (put32 f i c) j = get16 f j"
  "j + 2 \<le> i \<or> i + 8 \<le> j \<Longrightarrow> get16 (put64 f i d) j = get16 f j"
  by (simp_all add: get16_def buf_simps)

lemma get32_other [buf_simps]:
  "j + 4 \<le> i \<or> i + length bs \<le> j \<Longrightarrow> get32 (wr f i bs) j = get32 f j"
  "j + 4 \<le> i \<or> i + 1 \<le> j \<Longrightarrow> get32 (put8 f i a) j = get32 f j"
  "j + 4 \<le> i \<or> i + 2 \<le> j \<Longrightarrow> get32 (put16 f i b) j = get32 f j"
  "j + 4 \<le> i \<or> i + 4 \<le> j \<Longrightarrow> get32 (put32 f i c) j = get32 f j"
  "j + 4 \<le> i \<or> i + 8 \<le> j \<Longrightarrow> get32 (put64 f i d) j = get32 f j"
  by (simp_all add: get32_def buf_simps)

lemma get64_other [buf_simps]:
  "j + 8 \<le> i \<or> i + length bs \<le> j \<Longrightarrow> get64 (wr f i bs) j = get64 f j"
  "j + 8 \<le> i \<or> i + 1 \<le> j \<Longrightarrow> get64 (put8 f i a) j = get64 f j"
  "j + 8 \<le> i \<or> i + 2 \<le> j \<Longrightarrow> get64 (put16 f i b) j = get64 f j"
  "j + 8 \<le> i \<or> i + 4 \<le> j \<Longrightarrow> get64 (put32 f i c) j = get64 f j"
  "j + 8 \<le> i \<or> i + 8 \<le> j \<Longrightarrow> get64 (put64 f i d) j = get64 f j"
  by (simp_all add: get64_def buf_simps)

section \<open>Byte order\<close>

text \<open>
  \<open>htons\<close>, \<open>htonl\<close> and \<open>htonll\<close> of net/util.hpp are byte swaps; network order is the reverse
  of the host's little-endian order.
\<close>

definition htons :: "u16 \<Rightarrow> u16" where "htons w = dec16 (rev (enc16 w))"
definition htonl :: "u32 \<Rightarrow> u32" where "htonl w = dec32 (rev (enc32 w))"
definition htonll :: "u64 \<Rightarrow> u64" where "htonll w = dec64 (rev (enc64 w))"

lemma enc_hton:
  "enc16 (htons a) = rev (enc16 a)" "enc32 (htonl b) = rev (enc32 b)"
  "enc64 (htonll c) = rev (enc64 c)"
  by (simp_all add: htons_def htonl_def htonll_def enc16_dec16 enc32_dec32 enc64_dec64)

lemma hton_involutive [simp]: "htons (htons a) = a" "htonl (htonl b) = b" "htonll (htonll c) = c"
  by (simp_all add: htons_def htonl_def htonll_def enc16_dec16 enc32_dec32 enc64_dec64
      dec16_enc16 dec32_enc32 dec64_enc64)

lemma hton_inject [simp]:
  "htons a = htons a' \<longleftrightarrow> a = a'" "htonl b = htonl b' \<longleftrightarrow> b = b'" "htonll c = htonll c' \<longleftrightarrow> c = c'"
  by (metis hton_involutive)+

end
