(* ===== verification/ClockMath.thy ===== *)
theory ClockMath
  imports Prelude
begin

text \<open>
  Fixed-point arithmetic of the clocks (lib/clock/util.cpp, util.hpp): nanoseconds to binary
  fractions, and the offset a frequency trim accumulates over an interval. A timestamp is a
  64-bit word in 32.32 format, the union \<open>fixed_32_32\<close> gives its two halves; trims are signed
  0.31 fractions. The lemmas reduce each routine to exact integer arithmetic.
\<close>

section \<open>The routines\<close>

definition nanosToFrac :: "u32 \<Rightarrow> u32" where
  "nanosToFrac nanos0 =
     (let nanos1 = push_bit 2 nanos0;
          correction = (ucast nanos1 :: u64) * 0x12E0BE82;
          nanos2 = nanos1 + drop_bit 31 (ucast correction :: u32)
      in nanos2 + ucast (drop_bit 32 correction))"

definition corrValue :: "i32 \<Rightarrow> i64 \<Rightarrow> i64" where
  "corrValue rate delta0 =
     (let neg = sint delta0 < 0;
          delta = (if neg then - delta0 else delta0);
          scratch = ucast (ucast (signed_drop_bit 32 delta) :: u32) * scast rate;
          frac = ucast (ucast delta :: u32) * (scast rate :: u64);
          sum = scratch + scast (ucast (drop_bit 32 frac) :: i32)
      in if neg then - sum else sum)"

definition corrFracRem :: "i32 \<Rightarrow> i32 \<Rightarrow> u32 \<Rightarrow> i32 \<times> u32" where
  "corrFracRem rate delta rem =
     (let scratch0 = (scast delta :: i64) * scast rate;
          scratch1 = scratch0 + ucast rem
      in (ucast (signed_drop_bit 32 scratch1), ucast scratch1))"

definition corrFracRem_u64 :: "i32 \<Rightarrow> u64 \<Rightarrow> u32 \<Rightarrow> i32 \<times> u32" where
  "corrFracRem_u64 rate delta rem = corrFracRem rate (ucast delta) rem"

definition fx_full :: "u32 \<Rightarrow> u32 \<Rightarrow> u64" where
  "fx_full ipart fpart = push_bit 32 (ucast ipart) OR ucast fpart"

definition fx_ipart :: "u64 \<Rightarrow> u32" where "fx_ipart full = ucast (drop_bit 32 full)"
definition fx_fpart :: "u64 \<Rightarrow> u32" where "fx_fpart full = ucast full"

lemma fx_parts [simp]: "fx_ipart (fx_full i f) = i" "fx_fpart (fx_full i f) = f"
  by (rule bit_word_eqI; auto simp: fx_ipart_def fx_fpart_def fx_full_def bit_simps
      dest: bit_imp_le_length)+

lemma uint_fx_full: "uint (fx_full i f) = uint i * 4294967296 + uint f"
proof -
  have "push_bit 32 (ucast i) AND (ucast f :: u64) = 0"
    by (rule bit_word_eqI) (auto simp: bit_simps dest: bit_imp_le_length)
  then have "fx_full i f = push_bit 32 (ucast i) + ucast f"
    by (simp add: fx_full_def disjunctive_add_eq_or)
  also have "\<dots> = word_of_int (uint i * 4294967296 + uint f)"
    by (simp add: push_bit_eq_mult mult.commute)
  finally show ?thesis
    using uint_u32_range [of i] uint_u32_range [of f] by (simp only: uint_of_int_64) (rule mod_pos_pos_trivial; linarith)
qed

section \<open>Exact integer readings\<close>

lemma div_range:
  assumes "0 < k" "a * k \<le> x" "x < b * k"
  shows "a \<le> x div k \<and> x div k < (b :: int)"
proof
  have "a * k div k \<le> x div k" using assms by (intro zdiv_mono1) simp_all
  then show "a \<le> x div k" using assms by simp
  have "x div k * k \<le> x"
    using pos_mod_sign [OF \<open>0 < k\<close>, of x] div_mult_mod_eq [of x k] by linarith
  with assms have "x div k * k < b * k" by linarith
  then show "x div k < b" using assms by (simp add: mult_less_cancel_right)
qed

lemma product_range:
  assumes "- A \<le> (x::int)" "x \<le> A" "- B \<le> y" "y \<le> B"
  shows "- (A * B) \<le> x * y" "x * y \<le> A * B"
proof -
  have "\<bar>x * y\<bar> \<le> A * B"
    unfolding abs_mult using assms by (intro mult_mono) auto
  then show "- (A * B) \<le> x * y" "x * y \<le> A * B" by auto
qed

lemma corrFracRem_eq:
  "corrFracRem rate delta rem =
     (let x = sint delta * sint rate + uint rem
      in (word_of_int (x div 4294967296), word_of_int x))"
  by (simp only: corrFracRem_def Let_def word_conv wi_homs)

lemma corrFracRem_int:
  "sint (fst (corrFracRem rate delta rem)) * 4294967296 + uint (snd (corrFracRem rate delta rem))
     = sint delta * sint rate + uint rem"
proof -
  define x where "x = sint delta * sint rate + uint rem"
  have "- (2147483648 * 2147483648) \<le> sint delta * sint rate"
    "sint delta * sint rate \<le> 2147483648 * 2147483648"
    using product_range [of 2147483648 "sint delta" 2147483648 "sint rate"]
      sint_i32_range [of delta] sint_i32_range [of rate] by linarith+
  with uint_u32_range [of rem]
  have "- 2147483648 * 4294967296 \<le> x" "x < 2147483648 * 4294967296"
    unfolding x_def by linarith+
  then have "- 2147483648 \<le> x div 4294967296 \<and> x div 4294967296 < 2147483648"
    by (intro div_range) simp_all
  then have "sint (word_of_int (x div 4294967296) :: i32) = x div 4294967296"
    by (intro sint_of_int_32) simp_all
  then show ?thesis
    by (simp only: corrFracRem_eq Let_def uint_of_int_32 fst_conv snd_conv div_mult_mod_eq flip: x_def)
qed

lemma corrValue_abs:
  fixes rate :: i32
  assumes "0 \<le> d" "d < 9223372036854775808"
  shows "(ucast (ucast (signed_drop_bit 32 (word_of_int d :: u64)) :: u32) * scast rate
     + scast (ucast (drop_bit 32 (ucast (ucast (word_of_int d :: u64) :: u32) * (scast rate :: u64))) :: i32) :: u64)
     = word_of_int (d * sint rate div 4294967296)"
proof -
  define lo where "lo = d mod 4294967296"
  define hi where "hi = d div 4294967296"
  have hi: "hi mod 4294967296 = hi" using assms by (auto simp: hi_def)
  have lo: "0 \<le> lo" "lo < 4294967296" by (auto simp: lo_def)
  have d: "d = hi * 4294967296 + lo" by (simp add: hi_def lo_def)
  have "- (4294967295 * 2147483648) \<le> lo * sint rate" "lo * sint rate \<le> 4294967295 * 2147483648"
    using product_range [of 4294967295 lo 2147483648 "sint rate"] lo sint_i32_range [of rate] by auto
  then have q: "- 2147483648 \<le> lo * sint rate div 4294967296 \<and> lo * sint rate div 4294967296 < 2147483648"
    by (intro div_range) simp_all
  have "d * sint rate = lo * sint rate + hi * sint rate * 4294967296" 
    by (simp add: d algebra_simps)
  then have e: "d * sint rate div 4294967296 = hi * sint rate + lo * sint rate div 4294967296"
    by (simp only: div_mult_self1 [of 4294967296])
  have "(ucast (word_of_int d :: u64) :: u32) = word_of_int lo"
    by (simp only: lo_def word_conv) (simp add: word_of_int_eq_iff take_bit_eq_mod)
  moreover have "(ucast (word_of_int lo :: u32) :: u64) = word_of_int lo"
    using lo by (simp only: word_conv mod_pos_pos_trivial)
  moreover have "(ucast (word_of_int hi :: u32) :: u64) = word_of_int hi"
    using hi by (simp only: word_conv)
  moreover have "sint (word_of_int (lo * sint rate div 4294967296) :: i32) = lo * sint rate div 4294967296"
    using q by (intro sint_of_int_32) simp_all
  ultimately show ?thesis
    by (simp only: word_conv wi_homs e flip: hi_def)
qed

lemma corrValue_floor:
  assumes "sint delta \<noteq> - 9223372036854775808"
  shows "sint (corrValue rate delta) = sgn (sint delta) * (\<bar>sint delta\<bar> * sint rate div 4294967296)"
proof -
  define d where "d = \<bar>sint delta\<bar>"
  have d: "0 \<le> d" "d < 9223372036854775808"
    using assms sint_i64_range [of delta] by (simp_all add: d_def)
  define q where "q = d * sint rate div 4294967296"
  have "- (9223372036854775808 * 2147483648) \<le> d * sint rate" "d * sint rate \<le> 9223372036854775808 * 2147483648"
    using product_range [of 9223372036854775808 d 2147483648 "sint rate"] d sint_i32_range [of rate] 
    by linarith+
  then have "- 4611686018427387904 \<le> q \<and> q < 4611686018427387905"
    unfolding q_def by (intro div_range) linarith+
  then have q: "sint (word_of_int q :: i64) = q" "sint (word_of_int (- q) :: i64) = - q"
    by (auto intro!: sint_of_int_64 simp del: of_int_minus)
  show ?thesis
  proof (cases "sint delta < 0")
    case True
    then have "- delta = word_of_int d" by (simp add: d_def)
    with True show ?thesis
      by (simp only: corrValue_def Let_def corrValue_abs [OF d, of rate] if_True q wi_homs
          flip: d_def q_def) simp
  next
    case False
    then have e: "delta = word_of_int d" by (simp add: d_def)
    have "corrValue rate delta = word_of_int q"
      using False by (simp only: corrValue_def Let_def if_False q_def) (simp only: e corrValue_abs [OF d, of rate])
    moreover have "sgn (sint delta) = (if d = 0 then 0 else 1)" using False by (simp add: d_def sgn_if)
    ultimately show ?thesis using q by (auto simp: q_def simp flip: d_def)
  qed
qed

lemma nanosToFrac_int:
  assumes "uint n < 1000000000"
  shows "uint (nanosToFrac n) =
    4 * uint n + (4 * uint n * 316718722 mod 4294967296) div 2147483648 + 4 * uint n * 316718722 div 4294967296"
proof -
  define m where "m = 4 * uint n"
  have m: "0 \<le> m" "m < 4000000000" using assms by (simp_all add: m_def)
  have p: "push_bit 2 n = word_of_int m"
    by (simp add: m_def push_bit_eq_mult)
  have c: "(ucast (word_of_int m :: u32) :: u64) * 0x12E0BE82 = word_of_int (m * 316718722)"
    using m by (simp add: word_conv wi_homs)
  have "nanosToFrac n = word_of_int (m + m * 316718722 mod 4294967296 div 2147483648 + m * 316718722 div 4294967296)"
    unfolding nanosToFrac_def Let_def p c by (simp only: word_conv wi_homs) simp
  moreover have "m * 316718722 div 4294967296 < 294967296"
    "0 \<le> m * 316718722 div 4294967296" 
    "0 \<le> m * 316718722 mod 4294967296 div 2147483648" "m * 316718722 mod 4294967296 div 2147483648 < 2"
    using m div_range [of 4294967296 0 "m * 316718722" 294967296]
      div_range [of 2147483648 0 "m * 316718722 mod 4294967296" 2] by simp_all
  ultimately show ?thesis
    using m unfolding m_def by (simp only: uint_of_int_32) (intro mod_pos_pos_trivial; linarith)
qed

lemma nanosToFrac_error:
  assumes "uint n < 1000000000"
  shows "1000000000 * uint (nanosToFrac n) - uint n * 4294967296 \<in> {- 900000000 .. 500000000}"
proof -
  define c where "c = 4 * uint n * 316718722"
  define hi lo r where "hi = c div 4294967296" and "lo = c mod 4294967296" and "r = lo div 2147483648"
  have lo: "0 \<le> lo" "lo < 4294967296" and c: "c = hi * 4294967296 + lo"
    by (simp_all add: lo_def hi_def)
  have r: "r * 2147483648 \<le> lo" "lo < r * 2147483648 + 2147483648" "0 \<le> r" "r \<le> 1"
    using lo div_mult_mod_eq [of lo 2147483648] pos_mod_bound [of 2147483648 lo] pos_mod_sign [of 2147483648 lo]
    unfolding r_def by linarith+
  have "uint (nanosToFrac n) = 4 * uint n + r + hi"
    using assms by (simp only: nanosToFrac_int c_def r_def lo_def hi_def)
  then show ?thesis
    using assms c lo r uint_u32_range [of n] unfolding c_def atLeastAtMost_iff by linarith
qed

lemma corrFracRem_u64_int:
  "corrFracRem_u64 rate d r =
     (let x = sint (ucast d :: i32) * sint rate + uint r in (word_of_int (x div 4294967296), word_of_int x))"
  by (simp add: corrFracRem_u64_def corrFracRem_eq)

lemma frac_range:
  "- 2147483648 \<le> (sint (d :: i32) * sint (rate :: i32) + uint (r :: u32)) div 4294967296
   \<and> (sint d * sint rate + uint r) div 4294967296 < 2147483648"
proof -
  have "- (2147483648 * 2147483648) \<le> sint d * sint rate" "sint d * sint rate \<le> 2147483648 * 2147483648"
    using product_range [of 2147483648 "sint d" 2147483648 "sint rate"]
      sint_i32_range [of d] sint_i32_range [of rate] by linarith+
  with uint_u32_range [of r] show ?thesis
    by (intro div_range) linarith+
qed

lemma scast_corr:
  "scast (fst (corrFracRem_u64 rate d r)) = (word_of_int ((sint (ucast d :: i32) * sint rate + uint r) div 4294967296) :: u64)"
  using frac_range [of "ucast d" rate r]
  by (simp only: corrFracRem_u64_int Let_def fst_conv scast_of_int) (subst sint_of_int_32; simp)

lemma corrValue_half_second:
  assumes "- 2147483648 \<le> sint e" "sint e < 2147483648"
  shows "sint (corrValue rate e) - sint (ucast e :: i32) * sint rate div 4294967296 \<in> {0, 1}"
proof -
  have u: "sint (ucast e :: i32) = sint e"
  proof -
    have "(ucast e :: i32) = word_of_int (sint e)" by (rule bit_word_eqI) (simp add: bit_simps)
    with assms show ?thesis by (simp only: sint_of_int_32)
  qed
  have c: "sint (corrValue rate e) = sgn (sint e) * (\<bar>sint e\<bar> * sint rate div 4294967296)"
    using assms by (intro corrValue_floor) simp
  show ?thesis
  proof (cases "sint e < 0")
    case True
    have m: "- ((- x) div 4294967296) = (if x mod 4294967296 = 0 then x div 4294967296 else x div 4294967296 + 1)" for x :: int
      by (subst zdiv_zminus1_eq_if) simp_all
    have "sint (corrValue rate e) = - ((- (sint e * sint rate)) div 4294967296)"
      using True unfolding c by (simp add: sgn_if)
    then show ?thesis unfolding u m by simp
  next
    case False
    then show ?thesis unfolding u c by (auto simp add: sgn_if)
  qed
qed


section \<open>Properties\<close>

text \<open>
  The 64-bit correction of \<open>corrValue\<close> is exact up to its last bit: for every rate and every
  elapsed time except the most negative one it is the magnitude of the elapsed time times the
  rate, divided by \<open>2 ^ 32\<close> and rounded down, with the sign of the elapsed time. The splitting
  into halves and the unsigned multiplications of signed rates never wrap into the result.
\<close>
theorem corrValue_exact:
  assumes "sint delta \<noteq> - (2 ^ 63)"
  shows "sint (corrValue rate delta) = sgn (sint delta) * (\<bar>sint delta\<bar> * sint rate div 2 ^ 32)"
  using corrValue_floor [of delta rate] assms by simp

theorem corrValue_exact_witness:
  "sint (corrValue (- 3) (- 5)) = sgn (sint (- 5 :: i64)) * (\<bar>sint (- 5 :: i64)\<bar> * sint (- 3 :: i32) div 2 ^ 32)"
  by (rule corrValue_exact) simp

end
