(* ===== verification/Clocks.thy ===== *)
theory Clocks
  imports ClockMath
begin

text \<open>
  The clock domains (lib/clock/mono.cpp, comp.cpp, tai.cpp, capture.cpp): the monotonic clock
  counts ticks of the 125 MHz system timer, the compensated clock adds a temperature trim, the
  TAI clock a trim and an offset from the phase-locked loop, and the capture unit turns timer edge
  captures into timestamps. The state of each file is a record that extends the one below, since
  every clock reads the one below. A function that reads the timer takes the value read as its
  argument \<open>raw\<close>, registers that the interrupt handlers write are fields
  (\<open>tamatchr\<close>, \<open>frq_tailr\<close>, \<open>pps_tcact\<close>, \<open>pps_tailr\<close>).
\<close>

abbreviation CLK_FREQ :: "'a :: numeral" where "CLK_FREQ \<equiv> 125000000"
abbreviation CLK_NANOS :: "'a :: numeral" where "CLK_NANOS \<equiv> 8"

section \<open>The monotonic clock\<close>

record mono_clk =
  clkMonoInt :: u32
  clkMonoOff :: u32
  tamatchr :: u32

definition mono_init :: mono_clk where
  "mono_init = \<lparr>clkMonoInt = 0, clkMonoOff = 0, tamatchr = CLK_FREQ\<rparr>"

definition ISR_Timer0A :: "'a mono_clk_scheme \<Rightarrow> 'a mono_clk_scheme" where
  "ISR_Timer0A s =
     (let off = clkMonoOff s + CLK_FREQ
      in s\<lparr>clkMonoOff := off, clkMonoInt := clkMonoInt s + 1, tamatchr := off + CLK_FREQ\<rparr>)"

definition mono_seconds :: "'a mono_clk_scheme \<Rightarrow> u32" where
  "mono_seconds s = clkMonoInt s"

function borrow_seconds :: "int \<Rightarrow> u32 \<Rightarrow> int \<times> u32" where
  "borrow_seconds ticks integer =
     (if ticks < 0 then borrow_seconds (ticks + CLK_FREQ) (integer - 1) else (ticks, integer))"
  by pat_completeness auto
termination by (relation "measure (\<lambda>(ticks, _). nat (- ticks))") auto

function carry_seconds :: "int \<Rightarrow> u32 \<Rightarrow> int \<times> u32" where
  "carry_seconds ticks integer =
     (if ticks \<ge> CLK_FREQ then carry_seconds (ticks - CLK_FREQ) (integer + 1) else (ticks, integer))"
  by pat_completeness auto
termination by (relation "measure (\<lambda>(ticks, _). nat ticks)") auto

declare borrow_seconds.simps [simp del] carry_seconds.simps [simp del]

definition mono_fromRaw :: "'a mono_clk_scheme \<Rightarrow> u32 \<Rightarrow> u64" where
  "mono_fromRaw s monoRaw =
     (let (ticks, integer) = borrow_seconds (sint (monoRaw - clkMonoOff s)) (clkMonoInt s);
          (ticks, integer) = carry_seconds ticks integer
      in fx_full integer (nanosToFrac (word_of_int (ticks * CLK_NANOS))))"

definition mono_now :: "'a mono_clk_scheme \<Rightarrow> u32 \<Rightarrow> u64" where
  "mono_now s raw = mono_fromRaw s raw"

lemma borrow_seconds_div:
  "ticks < CLK_FREQ \<Longrightarrow> borrow_seconds ticks n = (if ticks < 0 then (ticks mod CLK_FREQ, n + word_of_int (ticks div CLK_FREQ)) else (ticks, n))"
proof (induction ticks n rule: borrow_seconds.induct)
  case (1 t n)
  have e: "t div CLK_FREQ = (t + CLK_FREQ) div CLK_FREQ - 1" "t mod CLK_FREQ = (t + CLK_FREQ) mod CLK_FREQ"
    by simp_all
  show ?case
  proof (cases "t < 0 \<and> 0 \<le> t + CLK_FREQ")
    case True
    then have "(t + CLK_FREQ) div CLK_FREQ = 0" "(t + CLK_FREQ) mod CLK_FREQ = t + CLK_FREQ"
      by (auto intro: div_pos_pos_trivial mod_pos_pos_trivial simp del: div_add_self2 mod_add_self2)
    with True e have "t div CLK_FREQ = - 1" "t mod CLK_FREQ = t + CLK_FREQ" by linarith+
    with True show ?thesis
      by (simp add: borrow_seconds.simps [of t n] borrow_seconds.simps [of "t + CLK_FREQ"])
  next
    case False
    with 1 e show ?thesis
      by (auto simp: borrow_seconds.simps [of t n])
  qed
qed

lemma carry_seconds_div:
  "0 \<le> ticks \<Longrightarrow> carry_seconds ticks n = (ticks mod CLK_FREQ, n + word_of_int (ticks div CLK_FREQ))"
proof (induction ticks n rule: carry_seconds.induct)
  case (1 t n)
  have e: "(t - CLK_FREQ) div CLK_FREQ = t div CLK_FREQ - 1" "(t - CLK_FREQ) mod CLK_FREQ = t mod CLK_FREQ"
    by (simp_all add: minus_mod_self2 )
  from 1 show ?case
    by (auto simp: carry_seconds.simps [of t n] e)
qed

lemma not_CLK_le_mod: "\<not> CLK_FREQ \<le> x mod (CLK_FREQ :: int)"
  by (simp add: not_le)

lemma mono_fromRaw_div:
  "mono_fromRaw s raw =
     (let t = sint (raw - clkMonoOff s)
      in fx_full (clkMonoInt s + word_of_int (t div CLK_FREQ)) (nanosToFrac (word_of_int (t mod CLK_FREQ * CLK_NANOS))))"
proof (cases "sint (raw - clkMonoOff s) < 0")
  case True
  then show ?thesis
    by (simp add: mono_fromRaw_def Let_def borrow_seconds_div carry_seconds.simps not_CLK_le_mod)
next
  case False
  then show ?thesis
    by (simp add: mono_fromRaw_def Let_def borrow_seconds.simps carry_seconds_div)
qed

lemma Timer0A_iterate:
  "(ISR_Timer0A ^^ n) \<lparr>clkMonoInt = 0, clkMonoOff = 0, tamatchr = m\<rparr> =
   \<lparr>clkMonoInt = of_nat n, clkMonoOff = of_nat n * CLK_FREQ, tamatchr = (if n = 0 then m else of_nat (Suc n) * CLK_FREQ)\<rparr>"
  by (induction n) (simp_all add: ISR_Timer0A_def Let_def algebra_simps)

lemma mono_time_error:
  fixes n :: nat and tick :: int
  assumes "0 \<le> tick" "tick div CLK_FREQ < 2 ^ 32" "\<bar>tick - int n * CLK_FREQ\<bar> < 2 ^ 31"
  shows "1000000000 * uint (mono_fromRaw ((ISR_Timer0A ^^ n) \<lparr>clkMonoInt = 0, clkMonoOff = 0, tamatchr = CLK_FREQ\<rparr>) (word_of_int tick))
     - tick * CLK_NANOS * 2 ^ 32 \<in> {- 900000000 .. 500000000}"
proof -
  define t where "t = tick - int n * CLK_FREQ"
  have t: "sint (word_of_int tick - of_nat n * CLK_FREQ :: u32) = t"
  proof -
    have "word_of_int tick - of_nat n * CLK_FREQ = (word_of_int t :: u32)"
      by (simp add: t_def)
    then show ?thesis using assms(3) by (simp add: t_def sint_of_int_32 del: of_int_diff of_int_mult)
  qed
  have d: "t div CLK_FREQ = tick div CLK_FREQ - int n" "t mod CLK_FREQ = tick mod CLK_FREQ"
    using mod_mult_self1 [of tick "- int n" CLK_FREQ] by (simp_all add: t_def)
  define f where "f = tick mod CLK_FREQ * CLK_NANOS"
  have f: "uint (word_of_int f :: u32) = f" "f < 1000000000"
    unfolding f_def uint_of_int_32 using pos_mod_bound [of "CLK_FREQ :: int" tick] pos_mod_sign [of "CLK_FREQ :: int" tick]
    by (auto intro!: mod_pos_pos_trivial)
  have sec: "uint (word_of_int (tick div CLK_FREQ) :: u32) = tick div CLK_FREQ"
    using assms(1,2) by (simp add: uint_of_int_32 pos_imp_zdiv_nonneg_iff)
  have "1000000000 * uint (nanosToFrac (word_of_int f)) - f * 4294967296 \<in> {- 900000000 .. 500000000}"
    using nanosToFrac_error [of "word_of_int f"] f by simp
  moreover have "uint (mono_fromRaw ((ISR_Timer0A ^^ n) \<lparr>clkMonoInt = 0, clkMonoOff = 0, tamatchr = CLK_FREQ\<rparr>)
      (word_of_int tick)) = tick div CLK_FREQ * 4294967296 + uint (nanosToFrac (word_of_int f))"
    by (simp add: Timer0A_iterate mono_fromRaw_div Let_def t d uint_fx_full sec f_def)
  moreover have "tick = tick div CLK_FREQ * CLK_FREQ + tick mod CLK_FREQ" by simp
  then have "tick * CLK_NANOS * 4294967296 = tick div CLK_FREQ * (1000000000 * 4294967296) + f * 4294967296"
    unfolding f_def by linarith
  ultimately show ?thesis by simp
qed


section \<open>Clocks disciplined by a rate\<close>

fun elapsed :: "u64 \<Rightarrow> u64 list \<Rightarrow> int" where
  "elapsed r [] = 0"
| "elapsed r (t # ts) = sint (ucast (t - r) :: i32) + elapsed t ts"

locale disciplined_clock =
  fixes off :: "'s \<Rightarrow> u64" and ref :: "'s \<Rightarrow> u64" and rate :: "'s \<Rightarrow> i32" and rem :: "'s \<Rightarrow> u32"
    and upd :: "u64 \<Rightarrow> 's \<Rightarrow> 's"
  assumes ref_upd: "ref (upd t s) = t"
    and rate_upd: "rate (upd t s) = rate s"
    and off_upd: "off (upd t s) = off s + scast (fst (corrFracRem_u64 (rate s) (t - ref s) (rem s)))"
    and rem_upd: "rem (upd t s) = snd (corrFracRem_u64 (rate s) (t - ref s) (rem s))"
begin

lemma upd_once:
  defines "d \<equiv> \<lambda>t s. sint (ucast (t - ref s) :: i32)"
  shows "\<exists>q. off (upd t s) = off s + word_of_int q
    \<and> d t s * sint (rate s) + uint (rem s) = q * 4294967296 + uint (rem (upd t s))"
proof (intro exI conjI)
  let ?q = "sint (fst (corrFracRem_u64 (rate s) (t - ref s) (rem s)))"
  show "off (upd t s) = off s + word_of_int ?q"
    by (simp only: off_upd scast_of_int)
  show "d t s * sint (rate s) + uint (rem s) = ?q * 4294967296 + uint (rem (upd t s))"
    using corrFracRem_int [of "rate s" "ucast (t - ref s)" "rem s"]
    by (simp only: d_def corrFracRem_u64_def rem_upd)
qed

lemma upd_total:
  defines "acc \<equiv> \<lambda>r ts s. elapsed r ts * sint (rate s) + uint (rem s)"
  shows "off (fold upd ts s) = off s + word_of_int (acc (ref s) ts s div 4294967296)
   \<and> uint (rem (fold upd ts s)) = acc (ref s) ts s mod 4294967296"
proof (induction ts arbitrary: s)
  case Nil
  then show ?case using uint_u32_range [of "rem s"] by (simp add: acc_def)
next
  case (Cons t ts)
  obtain q where o: "off (upd t s) = off s + word_of_int q"
    and x: "sint (ucast (t - ref s) :: i32) * sint (rate s) + uint (rem s) = q * 4294967296 + uint (rem (upd t s))"
    using upd_once by blast
  have "acc (ref s) (t # ts) s = acc t ts (upd t s) + q * 4294967296"
    using x by (simp add: acc_def rate_upd algebra_simps)
  then have "acc (ref s) (t # ts) s div 4294967296 = q + acc t ts (upd t s) div 4294967296"
    "acc (ref s) (t # ts) s mod 4294967296 = acc t ts (upd t s) mod 4294967296"
    by (simp_all only: div_mult_self1 mod_mult_self1)
  with Cons [of "upd t s"] show ?case
    by (simp add: o ref_upd)
qed

end

section \<open>The compensated clock and the frequency output\<close>

abbreviation INTERVAL :: "'a :: numeral" where "INTERVAL \<equiv> 62500"

record comp_clk = mono_clk +
  clkCompOffset :: u64
  clkCompRef :: u64
  clkCompRate :: i32
  clkCompRem :: u32
  frqInc :: u64
  frqRem :: u32
  frq_tailr :: u32

definition ISR_Timer1A :: "'a comp_clk_scheme \<Rightarrow> 'a comp_clk_scheme" where
  "ISR_Timer1A s =
     (let scratch = frqInc s + ucast (frqRem s)
      in s\<lparr>frqRem := ucast scratch, frq_tailr := ucast (drop_bit 32 scratch)\<rparr>)"

definition runClkComp :: "u64 \<Rightarrow> 'a comp_clk_scheme \<Rightarrow> 'a comp_clk_scheme" where
  "runClkComp now s =
     (let (offset, rem) = corrFracRem_u64 (clkCompRate s) (now - clkCompRef s) (clkCompRem s)
      in s\<lparr>clkCompRem := rem, clkCompRef := now, clkCompOffset := clkCompOffset s + scast offset\<rparr>)"

definition comp_now :: "'a comp_clk_scheme \<Rightarrow> u32 \<Rightarrow> u64" where
  "comp_now s raw =
     (let clkMono = mono_now s raw;
          scratch = (scast (ucast (clkMono - clkCompRef s) :: i32) :: i64) * scast (clkCompRate s)
      in clkMono + clkCompOffset s + scast (ucast (signed_drop_bit 32 scratch) :: i32))"

definition comp_fromMono :: "'a comp_clk_scheme \<Rightarrow> u64 \<Rightarrow> u64" where
  "comp_fromMono s ts0 =
     (let ts1 = ts0 + corrValue (clkCompRate s) (ts0 - clkCompRef s)
      in ts1 + clkCompOffset s)"

definition comp_setTrim :: "i32 \<Rightarrow> u32 \<Rightarrow> 'a comp_clk_scheme \<Rightarrow> 'a comp_clk_scheme" where
  "comp_setTrim rate raw s =
     (let now = mono_now s raw;
          (adj, rem) = corrFracRem_u64 (clkCompRate s) (now - clkCompRef s) (clkCompRem s);
          offset = clkCompOffset s + scast adj;
          incr = scast rate * - INTERVAL + push_bit 32 (INTERVAL - 1)
      in s\<lparr>clkCompRem := rem, clkCompRate := rate, clkCompRef := now, clkCompOffset := offset,
           frqInc := incr\<rparr>)"

definition comp_getTrim :: "'a comp_clk_scheme \<Rightarrow> i32" where
  "comp_getTrim s = clkCompRate s"

interpretation comp_clock:
  disciplined_clock clkCompOffset clkCompRef clkCompRate clkCompRem runClkComp
  by unfold_locales (simp_all add: runClkComp_def Let_def case_prod_unfold)

section \<open>The TAI clock and the PPS output\<close>

abbreviation PPS_HIGH :: "'a :: numeral" where "PPS_HIGH \<equiv> 12500000"
abbreviation EDGE_MASK :: u32 where "EDGE_MASK \<equiv> 0xFFFFFF"

record tai_clk = comp_clk +
  clkTaiUtcOffset :: u64
  clkTaiOffset :: u64
  clkTaiRef :: u64
  clkTaiRate :: i32
  clkTaiRem :: u32
  clkPpsLow :: u32
  clkMonoPps :: u32
  pps_tcact :: u8
  pps_tailr :: u32

definition ISR_Timer2A :: "'a tai_clk_scheme \<Rightarrow> 'a tai_clk_scheme" where
  "ISR_Timer2A s =
     (let isHi = (pps_tcact s = 3)
      in s\<lparr>pps_tcact := (if isHi then 2 else 3),
           pps_tailr := (if isHi then PPS_HIGH - 1 else clkPpsLow s)\<rparr>)"

definition edge_time :: "u32 \<Rightarrow> u32 \<Rightarrow> u32" where
  "edge_time timer capture = timer - ((timer - capture) AND EDGE_MASK)"

definition ISR_Timer4A :: "u32 \<Rightarrow> u32 \<Rightarrow> 'a tai_clk_scheme \<Rightarrow> 'a tai_clk_scheme" where
  "ISR_Timer4A raw tar s = s\<lparr>clkMonoPps := edge_time raw tar\<rparr>"

definition tai_update :: "u64 \<Rightarrow> 'a tai_clk_scheme \<Rightarrow> 'a tai_clk_scheme" where
  "tai_update now s =
     (let (offset, rem) = corrFracRem_u64 (clkTaiRate s) (now - clkTaiRef s) (clkTaiRem s)
      in s\<lparr>clkTaiRem := rem, clkTaiRef := now, clkTaiOffset := clkTaiOffset s + scast offset\<rparr>)"

definition runClkTai :: "u32 \<Rightarrow> 'a tai_clk_scheme \<Rightarrow> 'a tai_clk_scheme" where
  "runClkTai raw s = tai_update (comp_now s raw) s"

interpretation tai_clock:
  disciplined_clock clkTaiOffset clkTaiRef clkTaiRate clkTaiRem tai_update
  by unfold_locales (simp_all add: tai_update_def Let_def case_prod_unfold)

function pps_raise :: "int \<Rightarrow> int" where
  "pps_raise delta = (if delta \<le> CLK_FREQ div 2 then pps_raise (delta + CLK_FREQ) else delta)"
  by pat_completeness auto
termination by (relation "measure (\<lambda>d. nat (CLK_FREQ - d))") auto

function pps_lower :: "int \<Rightarrow> int" where
  "pps_lower delta = (if delta \<ge> CLK_FREQ * 2 then pps_lower (delta - CLK_FREQ) else delta)"
  by pat_completeness auto
termination by (relation "measure nat") auto

declare pps_raise.simps [simp del] pps_lower.simps [simp del]

text \<open>The monotonic time of the next TAI second, and its count of timer ticks.\<close>

definition pps_mono :: "'a tai_clk_scheme \<Rightarrow> u64 \<Rightarrow> u64" where
  "pps_mono s full0 =
     (let full1 = fx_full (fx_ipart full0 + 1) 0;
          full2 = full1 - clkTaiOffset s;
          (adj1, rem1) = corrFracRem_u64 (- clkTaiRate s) (full2 - clkTaiRef s) 0;
          full3 = full2 + scast adj1;
          full4 = full3 - clkCompOffset s;
          (adj2, rem2) = corrFracRem_u64 (- clkCompRate s) (full4 - clkCompRef s) rem1
      in full4 + scast adj2)"

definition pps_boundary :: "'a tai_clk_scheme \<Rightarrow> u64 \<Rightarrow> u32" where
  "pps_boundary s full0 = fx_ipart (pps_mono s full0 * CLK_FREQ)"

definition runPpsTai :: "u32 \<Rightarrow> 'a tai_clk_scheme \<Rightarrow> 'a tai_clk_scheme" where
  "runPpsTai raw s =
     (let full0 = mono_now s raw + clkCompOffset s + clkTaiOffset s
      in if fx_fpart full0 \<ge> 0xE0000000 then
           let delta = pps_lower (pps_raise (sint (pps_boundary s full0 - clkMonoPps s)));
               low = word_of_int (delta - PPS_HIGH - 1)
           in s\<lparr>clkPpsLow := low, pps_tailr := (if pps_tcact s = 3 then low else pps_tailr s)\<rparr>
         else s)"

definition tai_now :: "'a tai_clk_scheme \<Rightarrow> u32 \<Rightarrow> u64" where
  "tai_now s raw =
     (let ts0 = mono_now s raw;
          (adj1, rem1) = corrFracRem_u64 (clkCompRate s) (ts0 - clkCompRef s) 0;
          ts1 = ts0 + scast adj1;
          ts2 = ts1 + clkCompOffset s;
          (adj2, rem2) = corrFracRem_u64 (clkTaiRate s) (ts2 - clkTaiRef s) rem1;
          ts3 = ts2 + scast adj2
      in ts3 + clkTaiOffset s)"

definition tai_fromMono :: "'a tai_clk_scheme \<Rightarrow> u64 \<Rightarrow> u64" where
  "tai_fromMono s ts0 =
     (let ts1 = ts0 + corrValue (clkCompRate s) (ts0 - clkCompRef s);
          ts2 = ts1 + clkCompOffset s;
          ts3 = ts2 + corrValue (clkTaiRate s) (ts2 - clkTaiRef s)
      in ts3 + clkTaiOffset s)"

definition tai_setTrim :: "i32 \<Rightarrow> u32 \<Rightarrow> 'a tai_clk_scheme \<Rightarrow> 'a tai_clk_scheme" where
  "tai_setTrim trim raw s =
     (let now = comp_now s raw;
          (offset, rem) = corrFracRem_u64 (clkTaiRate s) (now - clkTaiRef s) (clkTaiRem s)
      in s\<lparr>clkTaiRem := rem, clkTaiRef := now, clkTaiRate := trim,
           clkTaiOffset := clkTaiOffset s + scast offset\<rparr>)"

definition tai_getTrim :: "'a tai_clk_scheme \<Rightarrow> i32" where
  "tai_getTrim s = clkTaiRate s"

definition tai_adjust :: "i64 \<Rightarrow> 'a tai_clk_scheme \<Rightarrow> 'a tai_clk_scheme" where
  "tai_adjust delta s = s\<lparr>clkTaiOffset := clkTaiOffset s + delta\<rparr>"

section \<open>Edge capture\<close>

abbreviation RING_MASK :: "'a :: numeral" where "RING_MASK \<equiv> 255"

record cap_clk = tai_clk +
  ringPos :: nat
  ringBuffer :: "u32 list"
  ppsEthernetOffset :: u32
  ppsGpsEvent :: u32
  ppsStamp :: "u64 \<times> u64 \<times> u64"

definition ISR_Timer4B :: "u32 \<Rightarrow> u32 \<Rightarrow> 'a cap_clk_scheme \<Rightarrow> 'a cap_clk_scheme" where
  "ISR_Timer4B raw tbr s =
     (let timer = edge_time raw tbr;
          next = (ringPos s + 1) AND RING_MASK
      in s\<lparr>ringBuffer := (ringBuffer s)[next := timer], ringPos := next\<rparr>)"

definition ISR_Timer5A :: "u32 \<Rightarrow> u32 \<Rightarrow> u32 \<Rightarrow> 'a cap_clk_scheme \<Rightarrow> 'a cap_clk_scheme" where
  "ISR_Timer5A raw tar timsec s =
     (let timer = edge_time raw tar - timsec * CLK_FREQ
      in s\<lparr>ppsEthernetOffset := timer\<rparr>)"

definition ppsEthernetRaw :: "'a cap_clk_scheme \<Rightarrow> u32" where
  "ppsEthernetRaw s = ppsEthernetOffset s"

text \<open>
  The handler also wakes the task that runs \<open>runPpsGps\<close>; that is a request of the scheduler, in theory \<open>Scheduler\<close>.
\<close>

definition ISR_Timer5B :: "u32 \<Rightarrow> u32 \<Rightarrow> 'a cap_clk_scheme \<Rightarrow> 'a cap_clk_scheme" where
  "ISR_Timer5B raw tbr s = s\<lparr>ppsGpsEvent := edge_time raw tbr\<rparr>"

definition rawToFull :: "'a cap_clk_scheme \<Rightarrow> u32 \<Rightarrow> u64 \<times> u64 \<times> u64" where
  "rawToFull s monoRaw =
     (let stamp0 = mono_fromRaw s monoRaw;
          (adj1, rem1) = corrFracRem_u64 (clkCompRate s) (stamp0 - clkCompRef s) 0;
          stamp1 = stamp0 + scast adj1 + clkCompOffset s;
          (adj2, rem2) = corrFracRem_u64 (clkTaiRate s) (stamp1 - clkTaiRef s) rem1;
          stamp2 = stamp1 + scast adj2 + clkTaiOffset s
      in (stamp0, stamp1, stamp2))"

definition runPpsGps :: "'a cap_clk_scheme \<Rightarrow> 'a cap_clk_scheme" where
  "runPpsGps s = s\<lparr>ppsStamp := rawToFull s (ppsGpsEvent s)\<rparr>"

definition ppsGps :: "'a cap_clk_scheme \<Rightarrow> u64 \<times> u64 \<times> u64" where
  "ppsGps s = ppsStamp s"

section \<open>Facts about the clocks\<close>

lemma edge_mask_take_bit: "x AND EDGE_MASK = take_bit 24 x"
  by (simp add: take_bit_eq_mask mask_eq_exp_minus_1)

lemma uint_take_bit_24: "uint (take_bit 24 (w :: u32)) = uint w mod 16777216"
  unfolding unsigned_take_bit_eq by (simp add: take_bit_eq_mod)

lemma uint_take_bit_diff: "uint (take_bit 24 (a - b :: u32)) = (uint a - uint b) mod 16777216"
  unfolding uint_take_bit_24 by (simp add: uint_word_ariths mod_mod_cancel)

lemma diff_diff_cancel_word: "raw - (raw - z) = (z :: 'a :: len word)"
  by simp

lemma edge_time_low_bits:
  "take_bit 24 (edge_time raw cap) = take_bit 24 cap \<and> uint (raw - edge_time raw cap) < 2 ^ 24"
proof
  have "uint (take_bit 24 (raw - take_bit 24 (raw - cap))) = (uint raw - (uint raw - uint cap) mod 16777216) mod 16777216"
    by (simp only: uint_take_bit_diff)
  also have "\<dots> = uint (take_bit 24 cap)"
    by (simp add: mod_diff_right_eq uint_take_bit_24)
  finally have "take_bit 24 (raw - take_bit 24 (raw - cap)) = take_bit 24 cap"
    by (rule word_uint_eqI)
  then show "take_bit 24 (edge_time raw cap) = take_bit 24 cap"
    by (simp only: edge_time_def edge_mask_take_bit)
  show "uint (raw - edge_time raw cap) < 2 ^ 24"
    by (simp only: edge_time_def edge_mask_take_bit diff_diff_cancel_word uint_take_bit_24) simp
qed

lemma comp_now_int:
  "comp_now s raw = mono_now s raw + clkCompOffset s
     + word_of_int (sint (ucast (mono_now s raw - clkCompRef s) :: i32) * sint (clkCompRate s) div 4294967296)"
  using frac_range [of "ucast (mono_now s raw - clkCompRef s)" "clkCompRate s" 0]
  by (simp only: comp_now_def Let_def scast_of_int wi_homs high_half_of_int_signed) (subst sint_of_int_32; simp)

lemma setTrim_step:
  "comp_now (comp_setTrim rate raw s) raw - comp_now s raw \<in> {0, 1}"
proof -
  define d where "d = sint (ucast (mono_now s raw - clkCompRef s) :: i32) * sint (clkCompRate s)"
  define e where "e = (d + uint (clkCompRem s)) div 4294967296 - d div 4294967296"
  have m: "mono_now (comp_setTrim rate raw s) raw = mono_now s raw"
    by (simp add: comp_setTrim_def Let_def case_prod_unfold mono_now_def mono_fromRaw_def)
  have "d div 4294967296 \<le> (d + uint (clkCompRem s)) div 4294967296"
    using uint_u32_range [of "clkCompRem s"] by (intro zdiv_mono1) simp_all
  moreover have "(d + uint (clkCompRem s)) div 4294967296 \<le> (d + 4294967296) div 4294967296"
    using uint_u32_range [of "clkCompRem s"] by (intro zdiv_mono1) simp_all
  ultimately have "e = 0 \<or> e = 1"
    by (auto simp: e_def)
  moreover have "comp_now (comp_setTrim rate raw s) raw - comp_now s raw = word_of_int e"
    unfolding comp_now_int m
    by (simp add: comp_setTrim_def Let_def case_prod_unfold scast_corr e_def flip: d_def)
  ultimately show ?thesis by auto
qed

lemma pps_raise_props: "pps_raise d > CLK_FREQ div 2 \<and> (pps_raise d = d \<or> pps_raise d \<le> CLK_FREQ + CLK_FREQ div 2)
   \<and> pps_raise d mod CLK_FREQ = d mod CLK_FREQ"
proof (induction d rule: pps_raise.induct)
  case (1 d)
  then show ?case by (auto simp: pps_raise.simps [of d])
qed

lemma pps_lower_props: "CLK_FREQ div 2 < d \<Longrightarrow> CLK_FREQ div 2 < pps_lower d \<and> pps_lower d < CLK_FREQ * 2
   \<and> pps_lower d mod CLK_FREQ = d mod CLK_FREQ"
proof (induction d rule: pps_lower.induct)
  case (1 d)
  moreover have "(d - CLK_FREQ) mod CLK_FREQ = d mod CLK_FREQ" by (simp add: minus_mod_self2)
  ultimately show ?case by (auto simp: pps_lower.simps [of d])
qed

lemma runPpsTai_period:
  fixes s :: "'a tai_clk_scheme" and raw :: u32
  defines "full \<equiv> mono_now s raw + clkCompOffset s + clkTaiOffset s"
  assumes "fx_fpart full \<ge> 0xE0000000"
  defines "period \<equiv> uint (clkPpsLow (runPpsTai raw s)) + 1 + PPS_HIGH"
  shows "CLK_FREQ div 2 < period \<and> period < 2 * CLK_FREQ
    \<and> period mod CLK_FREQ = sint (pps_boundary s full - clkMonoPps s) mod CLK_FREQ"
proof -
  define x where "x = pps_lower (pps_raise (sint (pps_boundary s full - clkMonoPps s)))"
  have x: "CLK_FREQ div 2 < x" "x < CLK_FREQ * 2" "x mod CLK_FREQ = sint (pps_boundary s full - clkMonoPps s) mod CLK_FREQ"
    using pps_lower_props pps_raise_props by (auto simp: x_def)
  have "clkPpsLow (runPpsTai raw s) = word_of_int (x - PPS_HIGH - 1)"
    using assms(2) unfolding runPpsTai_def Let_def full_def [symmetric] x_def by simp
  moreover have "uint (word_of_int (x - PPS_HIGH - 1) :: u32) = x - PPS_HIGH - 1"
    using x unfolding uint_of_int_32 by (intro mod_pos_pos_trivial) simp_all
  ultimately have "period = x" by (simp only: period_def)
  with x show ?thesis by simp
qed

lemma rawToFull_tai: "snd (snd (rawToFull s raw)) = tai_now s raw \<and> fst (rawToFull s raw) = mono_now s raw"
  by (simp add: rawToFull_def tai_now_def mono_now_def Let_def case_prod_unfold algebra_simps)


lemma word_of_int_sint_self: "word_of_int (sint w) = (w :: u64)"
  by simp

lemma comp_fromMono_step:
  assumes "- 2147483648 \<le> sint (mono_now s raw - clkCompRef s)" "sint (mono_now s raw - clkCompRef s) < 2147483648"
  shows "comp_fromMono s (mono_now s raw) - comp_now s raw \<in> {0, 1}"
proof -
  define e where "e = mono_now s raw - clkCompRef s"
  define q where "q = sint (ucast e :: i32) * sint (clkCompRate s) div 4294967296"
  have "sint (corrValue (clkCompRate s) e) = q \<or> sint (corrValue (clkCompRate s) e) = q + 1"
    using corrValue_half_second [of e "clkCompRate s"] assms unfolding q_def [symmetric] e_def [symmetric] by auto
  then have "corrValue (clkCompRate s) e = word_of_int q \<or> corrValue (clkCompRate s) e = word_of_int (q + 1)"
    by (metis word_of_int_sint_self)
  then show ?thesis
    unfolding comp_now_int comp_fromMono_def Let_def by (auto simp flip: e_def q_def)
qed

primrec frq_total :: "nat \<Rightarrow> 'a comp_clk_scheme \<Rightarrow> int" where
  "frq_total 0 s = 0"
| "frq_total (Suc n) s = uint (frq_tailr (ISR_Timer1A s)) + frq_total n (ISR_Timer1A s)"

lemma frq_total_int:
  assumes "frqInc s = frqInc (comp_setTrim rate raw s')"
  shows "frq_total n s * 2 ^ 32 + uint (frqRem ((ISR_Timer1A ^^ n) s))
     = int n * ((INTERVAL - 1) * 2 ^ 32 - sint rate * INTERVAL) + uint (frqRem s)"
proof -
  define incr where "incr = 62499 * 4294967296 - sint rate * 62500"
  have incr: "0 < incr" "incr < 9223372036854775808"
    using sint_i32_range [of rate] by (simp_all add: incr_def)
  have inc: "frqInc (comp_setTrim rate raw s') = word_of_int incr"
  proof -
    have "push_bit 32 (INTERVAL - 1 :: u64) = word_of_int (62499 * 4294967296)" "(- INTERVAL :: u64) = word_of_int (- INTERVAL)"
      by simp_all
    then have "scast rate * - INTERVAL + push_bit 32 (INTERVAL - 1 :: u64) = word_of_int (sint rate * - INTERVAL + 62499 * 4294967296)"
      by (simp only: scast_of_int wi_homs)
    moreover have "sint rate * - INTERVAL + 62499 * 4294967296 = incr" by (simp add: incr_def)
    moreover have "frqInc (comp_setTrim rate raw s') = scast rate * - INTERVAL + push_bit 32 (INTERVAL - 1)"
      by (simp add: comp_setTrim_def Let_def case_prod_unfold)
    ultimately show ?thesis by (simp only:)
  qed
  have step: "uint (frq_tailr (ISR_Timer1A t)) * 4294967296 + uint (frqRem (ISR_Timer1A t)) = incr + uint (frqRem t)"
    if "frqInc t = word_of_int incr" for t :: "'a comp_clk_scheme"
  proof -
    define x where "x = incr + uint (frqRem t)"
    have x: "0 \<le> x" "x div 4294967296 < 4294967296" "0 \<le> x div 4294967296"
      using incr uint_u32_range [of "frqRem t"] div_range [of 4294967296 0 x 4294967296] by (simp_all add: x_def)
    have "frqInc t + ucast (frqRem t) = word_of_int x"
      by (simp only: that ucast_of_int wi_homs x_def)
    then have "frq_tailr (ISR_Timer1A t) = word_of_int (x div 4294967296)" "frqRem (ISR_Timer1A t) = word_of_int x"
      by (simp_all add: ISR_Timer1A_def Let_def high_half_of_int low_half_of_int)
    then show ?thesis
      using x by (simp only: uint_of_int_32 mod_pos_pos_trivial div_mult_mod_eq flip: x_def)
  qed
  have "frq_total n t * 4294967296 + uint (frqRem ((ISR_Timer1A ^^ n) t)) = int n * incr + uint (frqRem t)"
    if "frqInc t = word_of_int incr" for t :: "'a comp_clk_scheme"
    using that
  proof (induction n arbitrary: t)
    case (Suc n)
    have "frqInc (ISR_Timer1A t) = word_of_int incr"
      using Suc.prems by (simp add: ISR_Timer1A_def Let_def)
    from Suc.IH [OF this] step [OF Suc.prems] show ?case
      by (simp add: funpow_swap1 algebra_simps)
  qed simp
  then show ?thesis using assms inc by (simp add: incr_def)
qed

subsection \<open>The second of the PPS output\<close>

lemma pps_boundary_mono: "pps_boundary s f = word_of_int (uint (pps_mono s f) * 125000000 div 2 ^ 32)"
proof -
  have "fx_ipart (m * CLK_FREQ) = word_of_int (uint m * 125000000 div 2 ^ 32)" for m :: u64
  proof -
    have m: "m * CLK_FREQ = word_of_int (uint m * 125000000)"
      by (metis word_of_int_uint of_int_numeral wi_hom_mult)
    have "x mod 18446744073709551616 div 4294967296 mod 4294967296 = x div 4294967296 mod 4294967296" for x :: int
      using zmod_zmult2_eq [of 4294967296 x 4294967296] by simp
    then show ?thesis unfolding m fx_ipart_def by (simp only: word_conv) (simp add: word_of_int_eq_iff take_bit_eq_mod)
  qed
  then show ?thesis by (simp add: pps_boundary_def)
qed

lemma sint_diff_small:
  assumes "sint (a - b :: u64) = d" "\<bar>d + x\<bar> < 2 ^ 63"
  shows "sint (a + word_of_int x - b) = d + x"
proof -
  have "a - b = word_of_int d" using assms(1) by auto
  then have "a + word_of_int x - b = word_of_int (d + x)" by (simp add: algebra_simps)
  then show ?thesis using assms(2) by (auto intro: sint_of_int_64 simp del: of_int_add)
qed

lemma corr_fwd:
  fixes rate :: i32
  assumes "\<bar>sint delta\<bar> < 2 ^ 40"
  obtains c where "corrValue rate delta = word_of_int c" "\<bar>c * 2 ^ 32 - sint delta * sint rate\<bar> < 2 ^ 32"
proof -
  have c: "sint (corrValue rate delta) = sgn (sint delta) * (\<bar>sint delta\<bar> * sint rate div 4294967296)"
    using assms by (intro corrValue_floor) simp
  define q where "q = \<bar>sint delta\<bar> * sint rate div 4294967296"
  have q: "q * 4294967296 \<le> \<bar>sint delta\<bar> * sint rate" "\<bar>sint delta\<bar> * sint rate < q * 4294967296 + 4294967296"
    unfolding q_def using div_mult_mod_eq [of "\<bar>sint delta\<bar> * sint rate" 4294967296]
      pos_mod_bound [of 4294967296 "\<bar>sint delta\<bar> * sint rate"] pos_mod_sign [of 4294967296 "\<bar>sint delta\<bar> * sint rate"] by linarith+
  have "\<bar>sint (corrValue rate delta) * 2 ^ 32 - sint delta * sint rate\<bar> < 2 ^ 32"
    using q unfolding c q_def [symmetric] by (cases "sint delta" "0 :: int" rule: linorder_cases) (auto simp: abs_if)
  then show ?thesis using that [of "sint (corrValue rate delta)"] by simp
qed

lemma corr_inv:
  assumes "- (2 ^ 31) \<le> sint d" "sint d < 2 ^ 31" "sint rate \<noteq> - (2 ^ 31)"
  obtains a where "scast (fst (corrFracRem_u64 (- rate) d r)) = (word_of_int a :: u64)"
    "uint (snd (corrFracRem_u64 (- rate) d r)) = (uint r - sint d * sint rate) mod 2 ^ 32"
    "a * 2 ^ 32 \<le> uint r - sint d * sint rate" "uint r - sint d * sint rate < a * 2 ^ 32 + 2 ^ 32"
proof -
  have u: "sint (ucast d :: i32) = sint d"
  proof -
    have "(ucast d :: i32) = word_of_int (sint d)" by (rule bit_word_eqI) (simp add: bit_simps)
    then show ?thesis using assms(1,2) [simplified] by (simp only: sint_of_int_32)
  qed
  have n: "sint (- rate) = - sint rate"
  proof -
    have "- rate = word_of_int (- sint rate)" by simp
    then show ?thesis using assms(3) sint_i32_range [of rate] by (simp add: sint_of_int_32 del: of_int_minus)
  qed
  define x where "x = uint r - sint d * sint rate"
  have e: "sint (ucast d :: i32) * sint (- rate) + uint r = x" by (simp add: u n x_def)
  show ?thesis
  proof (rule that [of "x div 4294967296"])
    show "scast (fst (corrFracRem_u64 (- rate) d r)) = (word_of_int (x div 4294967296) :: u64)" by (simp only: scast_corr e)
    show "uint (snd (corrFracRem_u64 (- rate) d r)) = (uint r - sint d * sint rate) mod 2 ^ 32"
      unfolding corrFracRem_u64_int Let_def e snd_conv uint_of_int_32 x_def by simp
  qed (use div_mult_mod_eq [of x 4294967296] pos_mod_bound [of 4294967296 x] pos_mod_sign [of 4294967296 x] in \<open>simp_all add: x_def [symmetric]\<close>)
qed


lemma abs_product: "\<bar>x\<bar> \<le> A \<Longrightarrow> \<bar>y\<bar> \<le> B \<Longrightarrow> \<bar>x * y\<bar> \<le> A * (B :: int)"
  unfolding abs_mult by (intro mult_mono) auto

text \<open>Translating there and back again leaves the square of the rates, and the rounding of four products.\<close>

lemma there_and_back:
  fixes R :: int
  assumes R: "\<bar>rT\<bar> \<le> R" "\<bar>rC\<bar> \<le> R" "R \<le> 2 ^ 21" and s: "\<bar>s2\<bar> \<le> 2 ^ 31" "\<bar>s4\<bar> \<le> 2 ^ 31" and r: "0 \<le> r" "r < 2 ^ 32"
    and a1: "a1 * 2 ^ 32 \<le> - (s2 * rT)" "- (s2 * rT) < a1 * 2 ^ 32 + 2 ^ 32"
    and a2: "a2 * 2 ^ 32 \<le> r - s4 * rC" "r - s4 * rC < a2 * 2 ^ 32 + 2 ^ 32"
    and c1: "\<bar>c1 * 2 ^ 32 - (s4 + a2) * rC\<bar> < 2 ^ 32"
    and c2: "\<bar>c2 * 2 ^ 32 - (s2 + (a1 + (a2 + c1))) * rT\<bar> < 2 ^ 32"
  shows "\<bar>a1 + (a2 + c1) + c2\<bar> \<le> R * R div 2 ^ 32 + 5" "\<bar>a1\<bar> \<le> 2 ^ 21" "\<bar>a2\<bar> \<le> 2 ^ 21" "\<bar>a2 + c1\<bar> \<le> 2 ^ 11"
proof -
  define d where "d = a2 + c1"
  have R0: "0 \<le> R" using R(1) by linarith
  have RR: "R * R \<le> 2 ^ 21 * R" "0 \<le> R * R" using R0 R(3) by (auto intro: mult_right_mono)
  have "\<bar>s2 * rT\<bar> \<le> 2 ^ 31 * R" "\<bar>s4 * rC\<bar> \<le> 2 ^ 31 * R" using abs_product s R(1,2) by blast+
  then have a: "2 * \<bar>a1\<bar> \<le> R + 2" "2 * \<bar>a2\<bar> \<le> R + 4" using a1 a2 r by (auto simp: abs_if split: if_splits)
  then show A: "\<bar>a1\<bar> \<le> 2 ^ 21" "\<bar>a2\<bar> \<le> 2 ^ 21" using R(3) by auto
  have "\<bar>(2 * a2) * rC\<bar> \<le> (R + 4) * R" using abs_product [of "2 * a2" "R + 4" rC R] a(2) R(2) by (simp add: abs_mult)
  then have p: "2 * \<bar>a2 * rC\<bar> \<le> R * R + 4 * R" by (simp add: abs_mult algebra_simps)
  have m1: "(s4 + a2) * rC = s4 * rC + a2 * rC" by (simp add: algebra_simps)
  have d2: "\<bar>d * 2 ^ 32 - a2 * rC\<bar> < 2 * 2 ^ 32" using a2 c1 [unfolded m1] r unfolding d_def abs_less_iff by (simp add: algebra_simps)
  then have "\<bar>d\<bar> * 2 ^ 33 \<le> R * R + 4 * R + 2 ^ 34" using p by (auto simp: abs_if split: if_splits)
  then have D: "\<bar>d\<bar> \<le> 600" using RR R(3) by simp
  then show "\<bar>a2 + c1\<bar> \<le> 2 ^ 11" by (simp add: d_def)
  have "\<bar>(2 * (a1 + d)) * rT\<bar> \<le> (R + 2 ^ 11) * R" by (rule abs_product) (use a(1) D R(1) in auto)
  then have q: "2 * \<bar>(a1 + d) * rT\<bar> \<le> R * R + 2 ^ 11 * R"
    by (simp only: mult.assoc abs_mult [of 2] abs_numeral distrib_right [of R])
  have m2: "(s2 + (a1 + d)) * rT = s2 * rT + (a1 + d) * rT" by (rule distrib_right)
  define z where "z = (a1 + d) * rT"
  have e2: "\<bar>(a1 + c2) * 2 ^ 32 - z\<bar> < 2 * 2 ^ 32" using a1 c2 [folded d_def, unfolded m2 z_def [symmetric]] unfolding abs_less_iff
    by (simp add: algebra_simps)
  have "\<bar>a1 + d + c2\<bar> * 2 ^ 33 \<le> 2 * \<bar>a2 * rC\<bar> + 2 * \<bar>z\<bar> + 8 * 2 ^ 32"
    using d2 e2 by (auto simp: abs_if split: if_splits)
  then have "\<bar>a1 + d + c2\<bar> * 2 ^ 32 < R * R + 5 * 2 ^ 32" using p q R(3) unfolding z_def by simp
  moreover define k where "k = R * R div 2 ^ 32"
  have "R * R < k * 2 ^ 32 + 2 ^ 32"
    using div_mult_mod_eq [of "R * R" "4294967296"] pos_mod_bound [of "4294967296" "R * R"] by (simp add: k_def)
  ultimately have "\<bar>a1 + d + c2\<bar> * 2 ^ 32 < (k + 6) * 2 ^ 32" by simp
  then have "\<bar>a1 + d + c2\<bar> < R * R div 2 ^ 32 + 6" by (simp add: k_def)
  then show "\<bar>a1 + (a2 + c1) + c2\<bar> \<le> R * R div 2 ^ 32 + 5" by (simp add: d_def)
qed

lemma pps_mono_error:
  fixes s :: "'a tai_clk_scheme" and R :: int and full :: u64
  defines "B \<equiv> fx_full (fx_ipart full + 1) 0"
  assumes R: "\<bar>sint (clkTaiRate s)\<bar> \<le> R" "\<bar>sint (clkCompRate s)\<bar> \<le> R" "R \<le> 2 ^ 21"
    and near: "\<bar>sint (B - clkTaiOffset s - clkTaiRef s)\<bar> \<le> 2 * 10 ^ 9"
      "\<bar>sint (B - clkTaiOffset s - clkCompOffset s - clkCompRef s)\<bar> \<le> 2 * 10 ^ 9"
  shows "\<bar>sint (tai_fromMono s (pps_mono s full) - B)\<bar> \<le> R * R div 2 ^ 32 + 5"
proof -
  define u where "u = B - clkTaiOffset s"
  let ?rT = "sint (clkTaiRate s)" and ?rC = "sint (clkCompRate s)"
  define s2 where "s2 = sint (u - clkTaiRef s)"
  have ne: "?rT \<noteq> - (2 ^ 31)" "?rC \<noteq> - (2 ^ 31)" using R by auto
  have s2: "- (2 ^ 31) \<le> s2" "s2 < 2 ^ 31" "\<bar>s2\<bar> \<le> 2 * 10 ^ 9" using near(1) by (auto simp: s2_def u_def)
  obtain a1 where a1: "scast (fst (corrFracRem_u64 (- clkTaiRate s) (u - clkTaiRef s) 0)) = (word_of_int a1 :: u64)"
    "uint (snd (corrFracRem_u64 (- clkTaiRate s) (u - clkTaiRef s) 0)) = (0 - s2 * ?rT) mod 2 ^ 32"
    "a1 * 2 ^ 32 \<le> - (s2 * ?rT)" "- (s2 * ?rT) < a1 * 2 ^ 32 + 2 ^ 32"
    using corr_inv [of "u - clkTaiRef s" "clkTaiRate s" 0] s2 ne(1) unfolding s2_def by (metis diff_0 unsigned_0)
  define rem where "rem = snd (corrFracRem_u64 (- clkTaiRate s) (u - clkTaiRef s) 0)"
  have "\<bar>s2 * ?rT\<bar> \<le> 2 ^ 31 * R" using abs_product [of s2 "2 ^ 31" ?rT R] s2 R(1) by auto
  then have A1: "\<bar>a1\<bar> \<le> 2 ^ 20 + 1" using a1(3,4) R(3) by (auto simp: abs_if split: if_splits)
  define w where "w = u + word_of_int a1 - clkCompOffset s"
  define s4 where "s4 = sint (u - clkCompOffset s - clkCompRef s) + a1"
  have w: "w - clkCompRef s = (u - clkCompOffset s) + word_of_int a1 - clkCompRef s" by (simp add: w_def algebra_simps)
  have S4: "\<bar>s4\<bar> \<le> 2 * 10 ^ 9 + 2 ^ 20 + 1" using near(2) A1 unfolding s4_def u_def by linarith
  have s4: "sint (w - clkCompRef s) = s4" unfolding w
    by (subst sint_diff_small [OF refl]) (use S4 in \<open>auto simp: s4_def\<close>)
  obtain a2 where a2: "scast (fst (corrFracRem_u64 (- clkCompRate s) (w - clkCompRef s) rem)) = (word_of_int a2 :: u64)"
    "a2 * 2 ^ 32 \<le> uint rem - s4 * ?rC" "uint rem - s4 * ?rC < a2 * 2 ^ 32 + 2 ^ 32"
    using corr_inv [of "w - clkCompRef s" "clkCompRate s" rem] S4 ne(2) unfolding s4 by (auto simp: abs_le_iff)
  have m: "pps_mono s full = w + word_of_int a2"
    unfolding pps_mono_def Let_def case_prod_unfold B_def [symmetric] u_def [symmetric] a1(1) w_def [symmetric] rem_def [symmetric] a2(1) ..
  define r0 where "r0 = uint rem"
  have rem: "0 \<le> uint rem" "uint rem < 2 ^ 32" using uint_u32_range [of rem] by simp_all
  have "\<bar>s4 * ?rC\<bar> \<le> 2 ^ 31 * R" using abs_product [of s4 "2 ^ 31" ?rC R] S4 R(2) by auto
  then have A2: "\<bar>a2\<bar> \<le> 2 ^ 20 + 2" using a2(2,3) R(3) rem [folded r0_def] unfolding abs_le_iff r0_def [symmetric] by simp
  have m4: "sint (w + word_of_int a2 - clkCompRef s) = s4 + a2"
    by (rule sint_diff_small [OF s4]) (use S4 A2 in auto)
  obtain c1 where c1: "corrValue (clkCompRate s) (w + word_of_int a2 - clkCompRef s) = word_of_int c1"
    "\<bar>c1 * 2 ^ 32 - (s4 + a2) * ?rC\<bar> < 2 ^ 32"
    by (rule corr_fwd [of "w + word_of_int a2 - clkCompRef s" "clkCompRate s", unfolded m4]) (use S4 A2 in auto)
  define d where "d = a1 + (a2 + c1)"
  have C1: "\<bar>c1\<bar> \<le> 2 ^ 21 + 1"
  proof -
    have "\<bar>(s4 + a2) * ?rC\<bar> \<le> 2 ^ 32 * R" using abs_product [of "s4 + a2" "2 ^ 32" ?rC R] S4 A2 R(2) by auto
    then show ?thesis using c1(2) R(3) by (auto simp: abs_if split: if_splits)
  qed
  have t2: "w + word_of_int a2 + word_of_int c1 + clkCompOffset s = u + word_of_int d" by (simp add: w_def d_def algebra_simps)
  have u2: "sint (u + word_of_int d - clkTaiRef s) = s2 + d"
    by (rule sint_diff_small) (use s2 A1 A2 C1 in \<open>auto simp: s2_def d_def\<close>)
  obtain c2 where c2: "corrValue (clkTaiRate s) (u + word_of_int d - clkTaiRef s) = word_of_int c2"
    "\<bar>c2 * 2 ^ 32 - (s2 + d) * ?rT\<bar> < 2 ^ 32"
    by (rule corr_fwd [of "u + word_of_int d - clkTaiRef s" "clkTaiRate s", unfolded u2]) (use s2 A1 A2 C1 in \<open>auto simp: d_def\<close>)
  have "tai_fromMono s (pps_mono s full) - B = word_of_int (d + c2)"
    unfolding tai_fromMono_def Let_def m c1(1) t2 c2(1) by (simp add: u_def)
  moreover note tb = there_and_back [OF R _ _ rem a1(3,4) a2(2,3) c1(2), of c2] 
  have "\<bar>d + c2\<bar> \<le> R * R div 2 ^ 32 + 5" using tb c2(2) s2 S4 unfolding d_def by auto
  moreover have "R * R div 2 ^ 32 \<le> 2 ^ 10" 
  proof -
    have "0 \<le> R" using R(1) by linarith
    then have "R * R \<le> 2 ^ 21 * 2 ^ 21" using R(3) by (intro mult_mono) auto
    then show ?thesis using zdiv_mono1 [of "R * R" "2 ^ 42" "2 ^ 32"] by simp
  qed
  ultimately show ?thesis by (simp add: sint_of_int_64 abs_le_iff del: of_int_add)
qed


lemma pps_ahead: "fx_fpart f \<ge> 0xE0000000 \<Longrightarrow> uint (fx_full (fx_ipart f + 1) 0 - f) \<le> 2 ^ 29"
proof -
  assume f: "fx_fpart f \<ge> 0xE0000000"
  have p: "uint (fx_fpart f) = uint f mod 4294967296" "uint (fx_ipart f) = uint f div 4294967296 mod 4294967296"
    by (simp_all add: fx_fpart_def fx_ipart_def uint_ucast_64_32 uint_drop_bit)
  have g: "uint f mod 4294967296 \<ge> 3758096384" using f by (simp add: word_le_def p)
  have u: "0 \<le> uint f" "uint f < 18446744073709551616" using unsigned_less [of f] by simp_all
  have "fx_full (fx_ipart f + 1) 0 = word_of_int ((uint f div 4294967296 + 1) * 4294967296)"
  proof -
    have "fx_ipart f = word_of_int (uint f div 4294967296)" unfolding word_uint_eq_iff p by (simp add: uint_of_int_32)
    then have i: "fx_ipart f + 1 = word_of_int (uint f div 4294967296 + 1)" by simp
    have m: "y mod 4294967296 * 4294967296 mod 18446744073709551616 = y * 4294967296 mod 18446744073709551616" for y :: int
      using mod_mult_mult2 [of "y mod 4294967296" 4294967296 "4294967296"] mod_mult_mult2 [of y 4294967296 "4294967296"] by simp
    have "fx_full (fx_ipart f + 1) 0 = word_of_int (uint (fx_ipart f + 1) * 4294967296)"
      using uint_fx_full [of "fx_ipart f + 1" 0] by (metis word_of_int_uint add_0_right unsigned_0)
    then show ?thesis unfolding i by (simp only: uint_of_int_32) (simp only: word_uint_eq_iff uint_of_int_64 m)
  qed
  then have "fx_full (fx_ipart f + 1) 0 - f = word_of_int ((uint f div 4294967296 + 1) * 4294967296 - uint f)" by simp
  moreover have "(uint f div 4294967296 + 1) * 4294967296 - uint f = 4294967296 - uint f mod 4294967296"
    by (simp only: distrib_right mult_1 minus_mod_eq_div_mult [symmetric])
  ultimately show ?thesis using g pos_mod_bound [of 4294967296 "uint f"] by (simp add: uint_of_int_64 mod_pos_pos_trivial del: of_int_diff)
qed

section \<open>Properties\<close>

text \<open>
  C5: The monotonic clock reads the true elapsed time. Let the second-boundary interrupt have run
  \<open>n\<close> times since start-up and let the timer have made \<open>tick\<close> ticks in total (its 32-bit register
  holds only the low bits). If the interrupt is at most 17 seconds late or early, the 32.32
  timestamp differs from \<open>8 * tick\<close> nanoseconds by less than one unit in the last place, so both
  loops of \<open>fromRaw\<close> and the conversion \<open>nanosToFrac\<close> are right.
\<close>
theorem mono_time_accurate:
  fixes n :: nat and tick :: int
  assumes "0 \<le> tick" "tick div CLK_FREQ < 2 ^ 32" "\<bar>tick - int n * CLK_FREQ\<bar> < 2 ^ 31"
  shows "\<bar>1000000000 * uint (mono_fromRaw ((ISR_Timer0A ^^ n) mono_init) (word_of_int tick))
     - tick * CLK_NANOS * 2 ^ 32\<bar> < 1000000000"
  using mono_time_error [OF assms] by (auto simp: mono_init_def abs_less_iff)

theorem mono_time_accurate_witness:
  "\<bar>1000000000 * uint (mono_fromRaw ((ISR_Timer0A ^^ 40) mono_init) (word_of_int 5000000123))
     - 5000000123 * CLK_NANOS * 2 ^ 32\<bar> < (1000000000 :: int)"
  by (rule mono_time_accurate) simp_all

text \<open>
  C20: Updating the compensated clock at any instants loses nothing to rounding: after any sequence
  of \<open>runClkComp\<close> steps, offset and remainder are exactly those of one division of the total
  elapsed time times the rate, so rounding errors of the single steps never accumulate.
\<close>
theorem comp_updates_exact:
  "let s' = fold runClkComp ts s;
       acc = elapsed (clkCompRef s) ts * sint (clkCompRate s) + uint (clkCompRem s)
   in clkCompOffset s' = clkCompOffset s + word_of_int (acc div 2 ^ 32)
      \<and> uint (clkCompRem s') = acc mod 2 ^ 32"
  using comp_clock.upd_total [of ts s] by (simp add: Let_def)

text \<open>
  Retuning the system clock keeps its phase: read at the same timer value, the compensated
  clock after \<open>setTrim\<close> shows the time it showed before or one unit in the last place more. It
  never steps back, whatever the old and new rate.
\<close>
theorem comp_setTrim_continuous:
  "comp_now (comp_setTrim rate raw s) raw - comp_now s raw \<in> {0, 1}"
  by (rule setTrim_step)

text \<open>
  The frequency output is an exact fractional divider: with the increment that \<open>setTrim\<close>
  programs for a rate, the interval lengths that \<open>n\<close> timer interrupts load add up, together with
  the remainder, to exactly \<open>n\<close> trimmed intervals. The 64-bit sum never wraps, for every rate.
\<close>
theorem frq_output_exact:
  assumes "frqInc s = frqInc (comp_setTrim rate raw s')"
  shows "frq_total n s * 2 ^ 32 + uint (frqRem ((ISR_Timer1A ^^ n) s))
     = int n * ((INTERVAL - 1) * 2 ^ 32 - sint rate * INTERVAL) + uint (frqRem s)"
  using assms by (rule frq_total_int)

definition comp_reset :: comp_clk where
  "comp_reset = \<lparr>clkMonoInt = 0, clkMonoOff = 0, tamatchr = CLK_FREQ, clkCompOffset = 0, clkCompRef = 0,
     clkCompRate = 0, clkCompRem = 0, frqInc = 0, frqRem = 0, frq_tailr = 0\<rparr>"

theorem frq_output_exact_witness:
  "let s = comp_setTrim (- 1000) 500 comp_reset
   in frq_total 3 s * 2 ^ 32 + uint (frqRem ((ISR_Timer1A ^^ 3) s))
     = int 3 * ((INTERVAL - 1) * 2 ^ 32 - sint (- 1000 :: i32) * INTERVAL) + uint (frqRem s)"
  unfolding Let_def by (rule frq_output_exact) (rule refl)

text \<open>
  C35: The PPS output is aligned to TAI. In the last eighth of a second \<open>runPpsTai\<close> aims at the next whole TAI
  second, at most an eighth of a second away: it sets the low time so that the next rising edge comes between half a
  second and two seconds after the last one, and a whole number of seconds of timer ticks from the tick of a
  monotonic time \<open>edge\<close> that the TAI clock translates to that whole second. The error is at most five units of
  \<open>2 ^ -32\<close> seconds and the square of the rates, 61 ns at 250 ppm. It is assumed that no rate exceeds \<open>R\<close>, at most
  488 ppm, and that both clocks were last updated within 0.46 seconds of the aimed second; the ticks since the last edge
  are counted as the code does, in a signed 32-bit difference.
\<close>
theorem runPpsTai_aligned:
  fixes s :: "'a tai_clk_scheme" and raw :: u32 and R :: int
  defines "now \<equiv> mono_now s raw + clkCompOffset s + clkTaiOffset s"
  defines "second \<equiv> fx_full (fx_ipart now + 1) 0"
  defines "period \<equiv> uint (clkPpsLow (runPpsTai raw s)) + 1 + PPS_HIGH"
  assumes "fx_fpart now \<ge> 0xE0000000"
    and "\<bar>sint (clkTaiRate s)\<bar> \<le> R" "\<bar>sint (clkCompRate s)\<bar> \<le> R" "R \<le> 2 ^ 21"
    and "\<bar>sint (second - clkTaiOffset s - clkTaiRef s)\<bar> \<le> 2 * 10 ^ 9"
      "\<bar>sint (second - clkTaiOffset s - clkCompOffset s - clkCompRef s)\<bar> \<le> 2 * 10 ^ 9"
  shows "uint (second - now) \<le> 2 ^ 29
    \<and> (\<exists>edge. \<bar>sint (tai_fromMono s edge - second)\<bar> \<le> R * R div 2 ^ 32 + 5
      \<and> CLK_FREQ div 2 < period \<and> period < 2 * CLK_FREQ
      \<and> period mod CLK_FREQ = sint (word_of_int (uint edge * 125000000 div 2 ^ 32) - clkMonoPps s) mod CLK_FREQ)"
  using pps_mono_error [OF assms(5-7), of now] assms(8,9) pps_ahead [OF assms(4)]
    runPpsTai_period [OF assms(4) [unfolded now_def]] unfolding second_def period_def now_def pps_boundary_mono by blast


definition tai_reset :: tai_clk where
  "tai_reset = comp_clk.extend comp_reset
     \<lparr>clkTaiUtcOffset = 0, clkTaiOffset = 0, clkTaiRef = 0, clkTaiRate = 0, clkTaiRem = 0,
      clkPpsLow = CLK_FREQ - PPS_HIGH - 1, clkMonoPps = 0, pps_tcact = 3, pps_tailr = CLK_FREQ\<rparr>"

definition pps_clock :: tai_clk where
  "pps_clock = comp_clk.extend (comp_reset\<lparr>clkCompRef := 0xC0000000, clkCompRate := - 3000\<rparr>)
     \<lparr>clkTaiUtcOffset = 0, clkTaiOffset = fx_full 77 0x10000000, clkTaiRef = fx_full 1 0, clkTaiRate = 5000, clkTaiRem = 0,
      clkPpsLow = CLK_FREQ - PPS_HIGH - 1, clkMonoPps = 7, pps_tcact = 3, pps_tailr = CLK_FREQ\<rparr>"

theorem runPpsTai_aligned_witness:
  fixes raw :: u32
  defines "raw \<equiv> 110000000"
  defines "now \<equiv> mono_now pps_clock raw + clkCompOffset pps_clock + clkTaiOffset pps_clock"
  defines "second \<equiv> fx_full (fx_ipart now + 1) 0"
  defines "period \<equiv> uint (clkPpsLow (runPpsTai raw pps_clock)) + 1 + PPS_HIGH"
  shows "uint (second - now) \<le> 2 ^ 29
    \<and> (\<exists>edge. \<bar>sint (tai_fromMono pps_clock edge - second)\<bar> \<le> 5000 * 5000 div 2 ^ 32 + 5
      \<and> CLK_FREQ div 2 < period \<and> period < 2 * CLK_FREQ
      \<and> period mod CLK_FREQ = sint (word_of_int (uint edge * 125000000 div 2 ^ 32) - clkMonoPps pps_clock) mod CLK_FREQ)"
proof -
  let ?now = "mono_now pps_clock raw + clkCompOffset pps_clock + clkTaiOffset pps_clock"
  have m: "mono_now pps_clock raw = 0xE147AE14" "clkTaiOffset pps_clock = 0x4D10000000" "clkCompOffset pps_clock = 0"
    "clkTaiRef pps_clock = 0x100000000" "clkCompRef pps_clock = 0xC0000000"
    by (simp_all add: raw_def pps_clock_def comp_reset_def comp_clk.defs mono_now_def mono_fromRaw_div Let_def
        nanosToFrac_def fx_full_def)
  have s: "fx_full (fx_ipart ?now + 1) 0 = 0x4E00000000" unfolding m by (simp add: fx_full_def fx_ipart_def)
  have r: "sint (clkTaiRate pps_clock) = 5000" "sint (clkCompRate pps_clock) = - 3000"
    by (simp_all add: pps_clock_def comp_reset_def comp_clk.defs)
  show ?thesis unfolding now_def second_def period_def
    by (rule runPpsTai_aligned) (unfold s, unfold m, simp_all add: r fx_fpart_def)
qed

text \<open>
  C40: Within half a second of the last update the two translations into the compensated domain
  agree: the full 64-bit \<open>fromMono\<close> and the fast 32-bit path of \<open>now\<close> differ by at most one unit in
  the last place.
\<close>
theorem comp_fromMono_agrees:
  assumes "- (2 ^ 31) \<le> sint (mono_now s raw - clkCompRef s)" "sint (mono_now s raw - clkCompRef s) < 2 ^ 31"
  shows "comp_fromMono s (mono_now s raw) - comp_now s raw \<in> {0, 1}"
  by (rule comp_fromMono_step) (use assms in simp_all)

theorem comp_fromMono_agrees_witness:
  "comp_fromMono comp_reset (mono_now comp_reset 1000) - comp_now comp_reset 1000 \<in> {0, 1}"
  by (rule comp_fromMono_agrees)
     (simp_all add: comp_reset_def mono_now_def mono_fromRaw_div Let_def nanosToFrac_def fx_full_def)

text \<open>
  An edge capture is extended to the full timer exactly: the reconstructed edge time agrees
  with the 24-bit capture register in its low 24 bits and lies less than \<open>2 ^ 24\<close> ticks before the
  timer value read in the interrupt handler.
\<close>
theorem edge_time_exact:
  "take_bit 24 (edge_time raw cap) = take_bit 24 cap \<and> uint (raw - edge_time raw cap) < 2 ^ 24"
  by (rule edge_time_low_bits)

end
