(* ===== verification/Scheduler.thy ===== *)
theory Scheduler
  imports Prelude "HOL-Library.Multiset"
begin

text \<open>
  The cooperative task scheduler (lib/run.cpp): a pool of 32 tasks linked into a free stack and
  a circular doubly linked run queue ordered by the time of the next run. A node is its index:
  \<open>0 .. 31\<close> are \<open>taskPool\<close>, \<open>queueRoot\<close> is the root element \<open>taskQueue\<close>; a pointer is a
  \<open>nat option\<close> with \<open>None\<close> the null pointer. Every dereference is explicit, so an operation
  returns \<open>Inl\<close> of what stopped the program or \<open>Inr\<close> of the new state. The raw timer readings
  that an operation makes are arguments. Callbacks and interrupt handlers reach the scheduler only
  through its interface, whose calls are steps of the transition relation.
\<close>

section \<open>Tasks and the heap of nodes\<close>

datatype Schedule = Free | Canceled | Sleep | Periodic | Wait | Wake

text \<open>A \<open>RunCall\<close> is null, the private \<open>doNothing\<close>, or a caller's function at an address.\<close>

datatype RunCall = NullCall | DoNothing | Call u32

record task =
  qNext :: "nat option"
  qPrev :: "nat option"
  schedule :: Schedule
  callback :: RunCall
  reference :: u32
  runNext :: u32
  runInterval :: u32

record sched =
  node :: "nat \<Rightarrow> task"
  taskFree :: "nat option"
  taskUpdate :: bool

datatype stop = NullDeref | FaultBlink nat nat | Unbounded

definition and_then :: "stop + 'a \<Rightarrow> ('a \<Rightarrow> stop + 'b) \<Rightarrow> stop + 'b" where
  "and_then r f = (case r of Inl e \<Rightarrow> Inl e | Inr a \<Rightarrow> f a)"

definition deref :: "nat option \<Rightarrow> stop + nat" where
  "deref p = (case p of None \<Rightarrow> Inl NullDeref | Some i \<Rightarrow> Inr i)"

definition upd :: "nat \<Rightarrow> (task \<Rightarrow> task) \<Rightarrow> sched \<Rightarrow> sched" where
  "upd i f s = s\<lparr>node := (node s)(i := f (node s i))\<rparr>"

abbreviation queueRoot :: nat where "queueRoot \<equiv> 32"
abbreviation poolSize :: nat where "poolSize \<equiv> 32"
abbreviation TIMER_FREQ :: "'a :: numeral" where "TIMER_FREQ \<equiv> 125000000"
abbreviation MAX_RAW_INTV :: "'a :: numeral" where "MAX_RAW_INTV \<equiv> 1073741824"

definition RUN_MAX :: u32 where
  "RUN_MAX = word_of_nat (MAX_RAW_INTV * 2 ^ 24 div TIMER_FREQ)"

definition toMonoRaw :: "u32 \<Rightarrow> u32" where
  "toMonoRaw fixed_8_24 =
     (let f = (if fixed_8_24 > RUN_MAX then RUN_MAX else fixed_8_24);
          scratch = (ucast f :: u64) * TIMER_FREQ
      in ucast (drop_bit 24 scratch))"

section \<open>Operations of a task\<close>

definition new_task :: task where
  "new_task = \<lparr>qNext = None, qPrev = None, schedule = Canceled, callback = DoNothing, reference = 0,
     runNext = 0, runInterval = 0\<rparr>"

definition Task_alloc :: "sched \<Rightarrow> stop + nat \<times> sched" where
  "Task_alloc s =
     (case taskFree s of
        None \<Rightarrow> Inl (FaultBlink 3 1)
      | Some t \<Rightarrow> Inr (t, upd t (\<lambda>_. new_task) (s\<lparr>taskFree := qNext (node s t)\<rparr>)))"

definition Task_cancel :: "nat \<Rightarrow> sched \<Rightarrow> sched" where
  "Task_cancel t = upd t (\<lambda>k. k\<lparr>schedule := Canceled, callback := DoNothing, reference := 0\<rparr>)"

definition Task_wake :: "nat \<Rightarrow> sched \<Rightarrow> sched" where
  "Task_wake t = upd t (\<lambda>k. k\<lparr>schedule := Wake\<rparr>)"

definition Task_isReady :: "u32 \<Rightarrow> nat \<Rightarrow> sched \<Rightarrow> bool" where
  "Task_isReady raw t s \<longleftrightarrow> 0 \<le> sint (raw - runNext (node s t))"

definition Task_pop :: "nat \<Rightarrow> sched \<Rightarrow> stop + sched" where
  "Task_pop t s =
     and_then (deref (qPrev (node s t))) (\<lambda>p.
       let s1 = upd p (\<lambda>k. k\<lparr>qNext := qNext (node s t)\<rparr>) s
       in and_then (deref (qNext (node s1 t))) (\<lambda>n.
            Inr (upd n (\<lambda>k. k\<lparr>qPrev := qPrev (node s1 t)\<rparr>) s1)))"

text \<open>The search of \<open>insert\<close>: from node \<open>ins\<close> along \<open>qNext\<close>, at most \<open>fuel\<close> nodes.\<close>

fun insert_point :: "nat \<Rightarrow> u32 \<Rightarrow> sched \<Rightarrow> nat option \<Rightarrow> stop + nat" where
  "insert_point 0 rn s ins = Inl Unbounded"
| "insert_point (Suc fuel) rn s ins =
     (if ins = Some queueRoot then Inr queueRoot
      else and_then (deref ins) (\<lambda>i.
        if sint (rn - runNext (node s i)) < 0 then Inr i
        else insert_point fuel rn s (qNext (node s i))))"

definition Task_insert :: "nat \<Rightarrow> sched \<Rightarrow> stop + sched" where
  "Task_insert t s =
     and_then (insert_point (poolSize + 2) (runNext (node s t)) s (qNext (node s queueRoot))) (\<lambda>ins.
       let s1 = upd t (\<lambda>k. k\<lparr>qNext := Some ins\<rparr>) s;
           s2 = upd t (\<lambda>k. k\<lparr>qPrev := qPrev (node s1 ins)\<rparr>) s1;
           s3 = upd ins (\<lambda>k. k\<lparr>qPrev := Some t\<rparr>) s2
       in and_then (deref (qPrev (node s3 t))) (\<lambda>p.
            Inr (upd p (\<lambda>k. k\<lparr>qNext := Some t\<rparr>) s3)))"

definition Task_update :: "u32 \<Rightarrow> nat \<Rightarrow> sched \<Rightarrow> stop + sched" where
  "Task_update raw t s =
     (if schedule (node s t) = Canceled then
        and_then (Task_pop t s) (\<lambda>s.
          Inr ((upd t (\<lambda>k. k\<lparr>schedule := Free, callback := NullCall, qPrev := None, qNext := taskFree s\<rparr>) s)
                 \<lparr>taskFree := Some t\<rparr>))
      else if schedule (node s t) = Wake then
        and_then (Task_pop t s) (\<lambda>s. Task_insert t (upd t (\<lambda>k. k\<lparr>runNext := raw\<rparr>) s))
      else Inr s)"

definition Task_requeue :: "u32 \<Rightarrow> nat \<Rightarrow> sched \<Rightarrow> stop + sched" where
  "Task_requeue raw t s =
     (if schedule (node s t) = Canceled then Inr s
      else and_then (Task_pop t s) (\<lambda>s.
        Task_insert t
          (upd t (\<lambda>k. k\<lparr>runNext := runInterval k + (if schedule k = Periodic then runNext k else raw)\<rparr>) s)))"

text \<open>\<open>run\<close> returns the call it makes, if any; the callback's own effects are later steps.\<close>

definition Task_run :: "nat \<Rightarrow> sched \<Rightarrow> sched \<times> (RunCall \<times> u32) option" where
  "Task_run t s =
     (if schedule (node s t) = Wait then (s, None)
      else (upd t (\<lambda>k. if schedule k = Wake then k\<lparr>schedule := Wait\<rparr> else k) s,
            Some (callback (node s t), reference (node s t))))"

definition Task_setPeriodic :: "u32 \<Rightarrow> nat \<Rightarrow> u32 \<Rightarrow> RunCall \<Rightarrow> u32 \<Rightarrow> sched \<Rightarrow> stop + sched" where
  "Task_setPeriodic raw t interval cb ref s =
     Task_insert t (upd t (\<lambda>k. k\<lparr>schedule := Periodic, callback := cb, reference := ref,
       runInterval := toMonoRaw interval, runNext := raw + toMonoRaw interval\<rparr>) s)"

definition Task_setSleep :: "u32 \<Rightarrow> nat \<Rightarrow> u32 \<Rightarrow> RunCall \<Rightarrow> u32 \<Rightarrow> sched \<Rightarrow> stop + sched" where
  "Task_setSleep raw t delay cb ref s =
     Task_insert t (upd t (\<lambda>k. k\<lparr>schedule := Sleep, callback := cb, reference := ref,
       runInterval := toMonoRaw delay, runNext := raw + toMonoRaw delay\<rparr>) s)"

definition Task_setWait :: "u32 \<Rightarrow> nat \<Rightarrow> RunCall \<Rightarrow> u32 \<Rightarrow> sched \<Rightarrow> stop + sched" where
  "Task_setWait raw t cb ref s =
     Task_insert t (upd t (\<lambda>k. k\<lparr>schedule := Sleep, callback := cb, reference := ref,
       runInterval := MAX_RAW_INTV, runNext := raw + MAX_RAW_INTV\<rparr>) s)"

definition Task_setInterval :: "nat \<Rightarrow> u32 \<Rightarrow> sched \<Rightarrow> sched" where
  "Task_setInterval t interval = upd t (\<lambda>k. k\<lparr>runInterval := toMonoRaw interval\<rparr>)"

section \<open>The interface\<close>

text \<open>
  \<open>initScheduler\<close> links the pool into the free stack and closes the queue. It does not touch the
  other fields, so they are what the storage held before: \<open>zeroed\<close> when nothing ran, \<open>constructed\<close>
  when the C++ constructors of the static tasks ran.
\<close>

definition zero_task :: task where
  "zero_task = \<lparr>qNext = None, qPrev = None, schedule = Free, callback = NullCall, reference = 0,
     runNext = 0, runInterval = 0\<rparr>"

definition zeroed :: sched where
  "zeroed = \<lparr>node = (\<lambda>_. zero_task), taskFree = None, taskUpdate = False\<rparr>"

definition constructed :: sched where
  "constructed = \<lparr>node = (\<lambda>_. new_task), taskFree = None, taskUpdate = False\<rparr>"

definition initScheduler :: "sched \<Rightarrow> sched" where
  "initScheduler s =
     (let s = s\<lparr>taskFree := Some 0\<rparr>;
          s = fold (\<lambda>i. upd (i - 1) (\<lambda>k. k\<lparr>qNext := Some i\<rparr>)) [1 ..< poolSize] s
      in upd queueRoot (\<lambda>k. k\<lparr>qNext := Some queueRoot, qPrev := Some queueRoot\<rparr>) s)"

definition runWait :: "u32 \<Rightarrow> RunCall \<Rightarrow> u32 \<Rightarrow> sched \<Rightarrow> stop + nat \<times> sched" where
  "runWait raw cb ref s =
     and_then (Task_alloc s) (\<lambda>(t, s). and_then (Task_setWait raw t cb ref s) (\<lambda>s. Inr (t, s)))"

definition runSleep :: "u32 \<Rightarrow> u32 \<Rightarrow> RunCall \<Rightarrow> u32 \<Rightarrow> sched \<Rightarrow> stop + nat \<times> sched" where
  "runSleep raw delay cb ref s =
     and_then (Task_alloc s) (\<lambda>(t, s). and_then (Task_setSleep raw t delay cb ref s) (\<lambda>s. Inr (t, s)))"

definition runPeriodic :: "u32 \<Rightarrow> u32 \<Rightarrow> RunCall \<Rightarrow> u32 \<Rightarrow> sched \<Rightarrow> stop + nat \<times> sched" where
  "runPeriodic raw interval cb ref s =
     and_then (Task_alloc s) (\<lambda>(t, s). and_then (Task_setPeriodic raw t interval cb ref s) (\<lambda>s. Inr (t, s)))"

definition runAdjust :: "nat \<Rightarrow> u32 \<Rightarrow> sched \<Rightarrow> sched" where
  "runAdjust t interval s = Task_setInterval t interval s"

definition runWake :: "nat \<Rightarrow> sched \<Rightarrow> sched" where
  "runWake t s = (Task_wake t s)\<lparr>taskUpdate := True\<rparr>"

definition runCancel_task :: "nat \<Rightarrow> sched \<Rightarrow> sched" where
  "runCancel_task t s = (Task_cancel t s)\<lparr>taskUpdate := True\<rparr>"

text \<open>The three loops of \<open>runCancel\<close> are one walk over the queue with different tests.\<close>

fun cancel_walk :: "nat \<Rightarrow> (task \<Rightarrow> bool) \<Rightarrow> nat option \<Rightarrow> sched \<Rightarrow> stop + sched" where
  "cancel_walk 0 P iter s = Inl Unbounded"
| "cancel_walk (Suc fuel) P iter s =
     (if iter = Some queueRoot then Inr s
      else and_then (deref iter) (\<lambda>t.
        let iter = qNext (node s t);
            s = (if P (node s t) then runCancel_task t s else s)
        in cancel_walk fuel P iter s))"

definition cancel_test :: "RunCall \<Rightarrow> u32 \<Rightarrow> task \<Rightarrow> bool" where
  "cancel_test cb ref k \<longleftrightarrow>
     (if cb = NullCall then reference k = ref
      else if ref = 0 then callback k = cb
      else callback k = cb \<and> reference k = ref)"

definition runCancel :: "RunCall \<Rightarrow> u32 \<Rightarrow> sched \<Rightarrow> stop + sched" where
  "runCancel cb ref s = cancel_walk (poolSize + 2) (cancel_test cb ref) (qNext (node s queueRoot)) s"

text \<open>
  The update pass of \<open>runScheduler\<close> over the whole pool; task \<open>i\<close> reads the timer as \<open>raws i\<close>.
\<close>

definition update_pass :: "(nat \<Rightarrow> u32) \<Rightarrow> sched \<Rightarrow> stop + sched" where
  "update_pass raws s =
     fold (\<lambda>t r. and_then r (Task_update (raws t) t)) [0 ..< poolSize] (Inr (s\<lparr>taskUpdate := False\<rparr>))"

section \<open>The linked lists\<close>

text \<open>
  \<open>path h a xs b\<close>: following \<open>qNext\<close> from node \<open>a\<close> visits \<open>xs\<close> and then reaches \<open>b\<close>, and the
  \<open>qPrev\<close> pointers lead back. The run queue with contents \<open>xs\<close> is the path from the root to itself.
\<close>

primrec path :: "(nat \<Rightarrow> task) \<Rightarrow> nat \<Rightarrow> nat list \<Rightarrow> nat \<Rightarrow> bool" where
  "path h a [] b \<longleftrightarrow> qNext (h a) = Some b \<and> qPrev (h b) = Some a"
| "path h a (x # xs) b \<longleftrightarrow> qNext (h a) = Some x \<and> qPrev (h x) = Some a \<and> path h x xs b"

primrec free_chain :: "(nat \<Rightarrow> task) \<Rightarrow> nat option \<Rightarrow> nat list \<Rightarrow> bool" where
  "free_chain h p [] \<longleftrightarrow> p = None"
| "free_chain h p (x # xs) \<longleftrightarrow> p = Some x \<and> free_chain h (qNext (h x)) xs"

lemma node_upd [simp]: "node (upd i f s) = (node s)(i := f (node s i))"
  and free_upd [simp]: "taskFree (upd i f s) = taskFree s"
  and update_upd [simp]: "taskUpdate (upd i f s) = taskUpdate s"
  by (simp_all add: upd_def)

lemma and_then_Inr [simp]: "and_then (Inr a) f = f a"
  by (simp add: and_then_def)

lemma and_then_eq_Inr: "and_then r f = Inr b \<longleftrightarrow> (\<exists>a. r = Inr a \<and> f a = Inr b)"
  by (cases r) (auto simp: and_then_def)

lemma deref_Some [simp]: "deref (Some i) = Inr i"
  by (simp add: deref_def)

lemma path_append: "path h a (xs @ y # ys) b \<longleftrightarrow> path h a xs y \<and> path h y ys b"
  by (induction xs arbitrary: a) auto

lemma path_first: "path h a xs b \<Longrightarrow> qNext (h a) = Some (hd (xs @ [b]))"
  by (cases xs) auto

lemma path_last: "path h a xs b \<Longrightarrow> qPrev (h b) = Some (last (a # xs))"
  by (induction xs arbitrary: a) auto

lemma path_cong:
  "(\<And>i. i \<in> set (a # xs) \<Longrightarrow> qNext (h' i) = qNext (h i)) \<Longrightarrow>
   (\<And>i. i \<in> set (b # xs) \<Longrightarrow> qPrev (h' i) = qPrev (h i)) \<Longrightarrow> path h' a xs b = path h a xs b"
  by (induction xs arbitrary: a) auto

lemma free_chain_cong:
  "(\<And>i. i \<in> set xs \<Longrightarrow> qNext (h' i) = qNext (h i)) \<Longrightarrow> free_chain h' p xs = free_chain h p xs"
  by (induction xs arbitrary: p) auto

text \<open>Linking the end of one path to the start of the next drops the node between them.\<close>

definition unlinked :: "nat \<Rightarrow> nat \<Rightarrow> (nat \<Rightarrow> task) \<Rightarrow> nat \<Rightarrow> task" where
  "unlinked p n h i =
     (let k = (if i = p then (h i)\<lparr>qNext := Some n\<rparr> else h i)
      in if i = n then k\<lparr>qPrev := Some p\<rparr> else k)"

definition linked :: "nat \<Rightarrow> nat \<Rightarrow> nat \<Rightarrow> (nat \<Rightarrow> task) \<Rightarrow> nat \<Rightarrow> task" where
  "linked p x n h i =
     (if i = x then (h i)\<lparr>qNext := Some n, qPrev := Some p\<rparr>
      else let k = (if i = n then (h i)\<lparr>qPrev := Some x\<rparr> else h i)
           in if i = p then k\<lparr>qNext := Some x\<rparr> else k)"

lemma unlinked_simps:
  "qNext (unlinked p n h i) = (if i = p then Some n else qNext (h i))"
  "qPrev (unlinked p n h i) = (if i = n then Some p else qPrev (h i))"
  by (simp_all add: unlinked_def Let_def)

lemma linked_simps:
  "x \<noteq> p \<Longrightarrow> qNext (linked p x n h i) = (if i = x then Some n else if i = p then Some x else qNext (h i))"
  "x \<noteq> n \<Longrightarrow> qPrev (linked p x n h i) = (if i = x then Some p else if i = n then Some x else qPrev (h i))"
  by (simp_all add: linked_def Let_def)

lemma hd_snoc_mem: "hd (ys @ [b]) \<in> set (b # ys)"
  by (cases ys) simp_all

lemma path_unlink:
  assumes "path h a xs x" "path h x ys b" "distinct (xs @ ys)"
    "a \<notin> set (xs @ ys)" "b \<notin> set (xs @ ys)"
  shows "path (unlinked (last (a # xs)) (hd (ys @ [b])) h) a (xs @ ys) b"
  using assms
proof (induction xs arbitrary: a)
  case Nil
  show ?case
  proof (cases ys)
    case Nil
    then show ?thesis by (simp add: unlinked_simps)
  next
    case (Cons y ys')
    with Nil.prems have "path (unlinked a y h) y ys' b = path h y ys' b"
      by (intro path_cong) (auto simp: unlinked_simps)
    with Cons Nil.prems show ?thesis by (simp add: unlinked_simps)
  qed
next
  case (Cons z zs)
  have "z \<noteq> hd (ys @ [b])" "a \<noteq> last (z # zs)"
    using Cons.prems hd_snoc_mem [of ys b] last_in_set [of "z # zs"] by auto
  moreover have "path (unlinked (last (z # zs)) (hd (ys @ [b])) h) z (zs @ ys) b"
    using Cons.prems by (intro Cons.IH) auto
  ultimately show ?case using Cons.prems by (simp add: unlinked_simps)
qed

lemma path_link:
  assumes "path h a (xs @ ys) b" "distinct (xs @ ys)" "x \<notin> set (xs @ ys)" "x \<noteq> a" "x \<noteq> b"
    "a \<notin> set (xs @ ys)" "b \<notin> set (xs @ ys)"
  shows "path (linked (last (a # xs)) x (hd (ys @ [b])) h) a (xs @ x # ys) b"
  using assms
proof (induction xs arbitrary: a)
  case Nil
  have x: "x \<noteq> hd (ys @ [b])" using Nil.prems hd_snoc_mem [of ys b] by auto
  show ?case
  proof (cases ys)
    case Nil
    with x Nil.prems show ?thesis by (simp add: linked_simps)
  next
    case (Cons y ys')
    with Nil.prems have "path (linked a x y h) y ys' b = path h y ys' b"
      by (intro path_cong) (auto simp: linked_simps)
    with Cons Nil.prems x show ?thesis by (simp add: linked_simps)
  qed
next
  case (Cons z zs)
  have d: "z \<noteq> hd (ys @ [b])" "a \<noteq> last (z # zs)" "x \<noteq> hd (ys @ [b])" "x \<noteq> last (z # zs)"
    using Cons.prems hd_snoc_mem [of ys b] last_in_set [of "z # zs"] by auto
  moreover have "path (linked (last (z # zs)) x (hd (ys @ [b])) h) z (zs @ x # ys) b"
    using Cons.prems by (intro Cons.IH) auto
  ultimately show ?case using Cons.prems by (simp add: linked_simps)
qed

section \<open>The run queue\<close>

text \<open>
  \<open>queued s qs fs\<close>: the run queue holds \<open>qs\<close> in this order and the free stack \<open>fs\<close>. What the links
  do not hold of a task is its data.
\<close>

definition queued :: "sched \<Rightarrow> nat list \<Rightarrow> nat list \<Rightarrow> bool" where
  "queued s qs fs \<longleftrightarrow> path (node s) queueRoot qs queueRoot \<and> free_chain (node s) (taskFree s) fs
     \<and> distinct (qs @ fs) \<and> set (qs @ fs) \<subseteq> {..<poolSize}"

definition task_data :: "sched \<Rightarrow> nat \<Rightarrow> Schedule \<times> RunCall \<times> u32 \<times> u32 \<times> u32" where
  "task_data s i = (let k = node s i in (schedule k, callback k, reference k, runNext k, runInterval k))"

definition due :: "Schedule \<times> RunCall \<times> u32 \<times> u32 \<times> u32 \<Rightarrow> u32" where
  "due d = fst (snd (snd (snd d)))"

text \<open>Where \<open>insert\<close> puts task \<open>t\<close>: after every task that is not due later.\<close>

definition place :: "(nat \<Rightarrow> u32) \<Rightarrow> nat \<Rightarrow> nat list \<Rightarrow> nat list" where
  "place key t qs = takeWhile (\<lambda>i. 0 \<le> sint (key t - key i)) qs
     @ t # dropWhile (\<lambda>i. 0 \<le> sint (key t - key i)) qs"

lemma mset_place [simp]: "mset (place key t qs) = add_mset t (mset qs)"
  unfolding place_def by simp (metis mset_append takeWhile_dropWhile_id)

lemma set_place [simp]: "set (place key t qs) = insert t (set qs)"
  by (metis mset_place set_mset_add_mset_insert set_mset_mset)

lemma distinct_place [simp]: "distinct (place key t qs) \<longleftrightarrow> t \<notin> set qs \<and> distinct qs"
  using mset_eq_imp_distinct_iff [of "place key t qs" "t # qs"] by simp

lemma length_place [simp]: "length (place key t qs) = Suc (length qs)"
  using mset_eq_length [of "place key t qs" "t # qs"] by simp

lemma pop_queued:
  assumes "queued s (xs @ t # ys) fs"
  shows "\<exists>s'. Task_pop t s = Inr s' \<and> queued s' (xs @ ys) fs \<and> task_data s' = task_data s
    \<and> taskUpdate s' = taskUpdate s \<and> (\<forall>i. i \<noteq> t \<longrightarrow> i \<notin> set (xs @ ys) \<longrightarrow> i \<noteq> queueRoot \<longrightarrow> node s' i = node s i)"
proof -
  let ?p = "last (queueRoot # xs)" and ?n = "hd (ys @ [queueRoot])"
  let ?s = "s\<lparr>node := unlinked ?p ?n (node s)\<rparr>"
  from assms have pt: "path (node s) queueRoot xs t" "path (node s) t ys queueRoot"
    and d: "distinct (xs @ t # ys @ fs)" "queueRoot \<notin> set (xs @ t # ys @ fs)"
    by (auto simp: queued_def path_append)
  from path_last [OF pt(1)] path_first [OF pt(2)]
  have l: "qPrev (node s t) = Some ?p" "qNext (node s t) = Some ?n" .
  have m: "?p \<in> set (queueRoot # xs)" "?n \<in> set (queueRoot # ys)"
    by (rule last_in_set, simp, rule hd_snoc_mem)
  with d have ne: "?p \<noteq> t" "?n \<noteq> t" by auto
  have eq: "Task_pop t s = Inr ?s"
    using l ne by (simp add: Task_pop_def Let_def upd_def fun_eq_iff unlinked_def)
  have "path (unlinked ?p ?n (node s)) queueRoot (xs @ ys) queueRoot"
    using pt d by (intro path_unlink) auto
  moreover have "free_chain (node ?s) (taskFree s) fs = free_chain (node s) (taskFree s) fs"
    using m d by (intro free_chain_cong) (auto simp: unlinked_simps)
  ultimately have "queued ?s (xs @ ys) fs"
    using assms by (auto simp: queued_def)
  moreover have "task_data ?s = task_data s"
    by (auto simp: fun_eq_iff task_data_def unlinked_def Let_def)
  moreover have "\<forall>i. i \<noteq> t \<longrightarrow> i \<notin> set (xs @ ys) \<longrightarrow> i \<noteq> queueRoot \<longrightarrow> node ?s i = node s i"
    using m by (auto simp: unlinked_def Let_def)
  ultimately show ?thesis using eq by fastforce
qed

lemma insert_point_queued:
  assumes "path (node s) a qs queueRoot" "queueRoot \<notin> set qs" "length qs < fuel"
  shows "insert_point fuel rn s (qNext (node s a))
    = Inr (hd (dropWhile (\<lambda>i. 0 \<le> sint (rn - runNext (node s i))) qs @ [queueRoot]))"
  using assms
proof (induction qs arbitrary: a fuel)
  case Nil
  then show ?case by (cases fuel) auto
next
  case (Cons q qs)
  then obtain f where f: "fuel = Suc f" by (cases fuel) auto
  from Cons.prems have q: "qNext (node s a) = Some q" "q \<noteq> queueRoot" "path (node s) q qs queueRoot"
    by auto
  from Cons.IH [OF q(3), of f] Cons.prems f
  have "insert_point f rn s (qNext (node s q))
    = Inr (hd (dropWhile (\<lambda>i. 0 \<le> sint (rn - runNext (node s i))) qs @ [queueRoot]))" by simp
  with q f show ?case by (auto simp: not_le)
qed

lemma queued_length: "queued s qs fs \<Longrightarrow> length qs \<le> poolSize"
  unfolding queued_def
  using card_mono [of "{..<poolSize}" "set qs"] distinct_card [of qs] by auto

lemma insert_queued:
  assumes q: "queued s qs fs" and t: "t < poolSize" "t \<notin> set (qs @ fs)"
  shows "\<exists>s'. Task_insert t s = Inr s' \<and> queued s' (place (\<lambda>i. runNext (node s i)) t qs) fs
    \<and> task_data s' = task_data s \<and> taskUpdate s' = taskUpdate s
    \<and> (\<forall>i. i \<noteq> t \<longrightarrow> i \<notin> set qs \<longrightarrow> i \<noteq> queueRoot \<longrightarrow> node s' i = node s i)"
proof -
  let ?P = "\<lambda>i. 0 \<le> sint (runNext (node s t) - runNext (node s i))"
  define xs ys where "xs = takeWhile ?P qs" "ys = dropWhile ?P qs"
  have qs: "qs = xs @ ys" and pl: "place (\<lambda>i. runNext (node s i)) t qs = xs @ t # ys"
    by (simp_all add: xs_ys_def place_def)
  let ?p = "last (queueRoot # xs)" and ?n = "hd (ys @ [queueRoot])"
  let ?s = "s\<lparr>node := linked ?p t ?n (node s)\<rparr>"
  from q have pt: "path (node s) queueRoot (xs @ ys) queueRoot"
    and d: "distinct (xs @ ys @ fs)" "queueRoot \<notin> set (xs @ ys @ fs)"
    by (auto simp: queued_def qs)
  have m: "?p \<in> set (queueRoot # xs)" "?n \<in> set (queueRoot # ys)"
    by (rule last_in_set, simp, rule hd_snoc_mem)
  with t have ne: "?p \<noteq> t" "?n \<noteq> t" "t \<noteq> queueRoot" by (auto simp: qs)
  have "qPrev (node s ?n) = Some ?p"
    using pt path_last [of "node s" queueRoot xs] by (cases ys) (auto simp: path_append)
  moreover have "insert_point (poolSize + 2) (runNext (node s t)) s (qNext (node s queueRoot)) = Inr ?n"
    unfolding xs_ys_def(2)
    by (rule insert_point_queued) (use q queued_length [OF q] in \<open>auto simp: queued_def\<close>)
  ultimately have eq: "Task_insert t s = Inr ?s"
    using ne by (simp add: Task_insert_def Let_def upd_def fun_eq_iff linked_def)
  have "path (linked ?p t ?n (node s)) queueRoot (xs @ t # ys) queueRoot"
    using pt d t ne by (intro path_link) (auto simp: qs)
  moreover have "free_chain (node ?s) (taskFree s) fs = free_chain (node s) (taskFree s) fs"
    using m d t ne by (intro free_chain_cong) (auto simp: linked_simps)
  ultimately have "queued ?s (xs @ t # ys) fs"
    using q t d by (auto simp: queued_def qs)
  moreover have "task_data ?s = task_data s"
    using ne by (auto simp: fun_eq_iff task_data_def linked_def Let_def)
  moreover have "\<forall>i. i \<noteq> t \<longrightarrow> i \<notin> set qs \<longrightarrow> i \<noteq> queueRoot \<longrightarrow> node ?s i = node s i"
    using m by (auto simp: linked_def Let_def qs)
  ultimately show ?thesis using eq pl by fastforce
qed

subsection \<open>The interface of the queue\<close>

text \<open>
  What \<open>requeue\<close> and the wake-up rely on: taking a task out and putting it in at its due time.
  Moving a task therefore never fails, permutes the queue and leaves the data of the others alone.
\<close>

locale run_queue =
  fixes holds :: "'s \<Rightarrow> nat list \<Rightarrow> bool" and spare :: "nat \<Rightarrow> bool"
    and data :: "'s \<Rightarrow> nat \<Rightarrow> 'd" and key :: "'d \<Rightarrow> u32"
    and take_out put_in :: "nat \<Rightarrow> 's \<Rightarrow> stop + 's"
  assumes holds_distinct: "holds s qs \<Longrightarrow> distinct qs \<and> (\<forall>t \<in> set qs. spare t)"
    and take_out: "holds s (xs @ t # ys) \<Longrightarrow>
      \<exists>s'. take_out t s = Inr s' \<and> holds s' (xs @ ys) \<and> data s' = data s"
    and put_in: "holds s qs \<Longrightarrow> spare t \<Longrightarrow> t \<notin> set qs \<Longrightarrow>
      \<exists>s'. put_in t s = Inr s' \<and> holds s' (place (\<lambda>i. key (data s i)) t qs) \<and> data s' = data s"
begin

lemma move_ok:
  assumes q: "holds s (xs @ t # ys)"
    and f: "\<And>s qs. holds s qs \<Longrightarrow> holds (f s) qs"
  shows "\<exists>s1 s'. take_out t s = Inr s1 \<and> data s1 = data s \<and> put_in t (f s1) = Inr s'
    \<and> holds s' (place (\<lambda>i. key (data (f s1) i)) t (xs @ ys)) \<and> data s' = data (f s1)"
proof -
  from take_out [OF q] obtain s1 where s1: "take_out t s = Inr s1" "holds s1 (xs @ ys)" "data s1 = data s"
    by blast
  from holds_distinct [OF q] have t: "spare t" "t \<notin> set (xs @ ys)" by auto
  from put_in [OF f [OF s1(2)] t] s1 show ?thesis by blast
qed

lemma move_total:
  assumes "holds s (xs @ t # ys)" "\<And>s qs. holds s qs \<Longrightarrow> holds (f s) qs"
  shows "\<exists>s' qs'. and_then (take_out t s) (\<lambda>s. put_in t (f s)) = Inr s'
    \<and> holds s' qs' \<and> mset qs' = mset (xs @ t # ys)"
  using move_ok [OF assms] by fastforce

end

definition outside :: "nat list \<Rightarrow> nat \<Rightarrow> bool" where
  "outside fs t \<longleftrightarrow> t < poolSize \<and> t \<notin> set fs"

interpretation rq: run_queue "\<lambda>s qs. queued s qs fs" "outside fs" task_data due Task_pop Task_insert for fs
proof (unfold_locales, goal_cases)
  case (1 s qs)
  then show ?case by (auto simp: queued_def outside_def)
next
  case (2 s xs t ys)
  then show ?case using pop_queued by blast
next
  case (3 s qs t)
  have "(\<lambda>i. due (task_data s i)) = (\<lambda>i. runNext (node s i))"
    by (simp add: due_def task_data_def Let_def)
  with 3 insert_queued [of s qs fs t] show ?case by (auto simp: outside_def)
qed

lemma queued_upd:
  assumes "\<And>k. qNext (f k) = qNext k" "\<And>k. qPrev (f k) = qPrev k"
  shows "queued (upd t f s) qs fs = queued s qs fs"
proof -
  have "path (node (upd t f s)) a qs b = path (node s) a qs b" for a b
    by (rule path_cong) (auto simp: assms)
  moreover have "free_chain (node (upd t f s)) p fs = free_chain (node s) p fs" for p
    by (rule free_chain_cong) (auto simp: assms)
  ultimately show ?thesis by (simp add: queued_def)
qed

lemma queued_flag [simp]: "queued (s\<lparr>taskUpdate := b\<rparr>) qs fs = queued s qs fs"
  by (simp add: queued_def)

subsection \<open>Due times in a window\<close>

text \<open>
  The 32-bit timer wraps, so due times are only comparable while they lie within half its range of
  each other; \<open>ahead\<close> measures them from a common base.
\<close>

definition ahead :: "u32 \<Rightarrow> u32 \<Rightarrow> nat" where
  "ahead base x = unat (x - base)"

lemma due_compare:
  assumes "ahead base x < 2 ^ 31" "ahead base y < 2 ^ 31"
  shows "0 \<le> sint (x - y) \<longleftrightarrow> ahead base y \<le> ahead base x"
proof -
  define a b where ab: "a = uint (x - base)" "b = uint (y - base)"
  have r: "0 \<le> a" "0 \<le> b" by (simp_all add: ab)
  have "x - y = word_of_int (a - b)" by (simp add: ab wi_hom_syms)
  moreover have n: "ahead base x = nat a" "ahead base y = nat b"
    by (simp_all only: ahead_def ab unat_eq_nat_uint)
  with assms have "a < 2147483648" "b < 2147483648" by simp_all
  ultimately have "sint (x - y) = a - b"
    using r by (simp only: sint_of_int_32)
  then show ?thesis unfolding n using r by linarith
qed

definition by_due :: "u32 \<Rightarrow> (nat \<Rightarrow> u32) \<Rightarrow> nat list \<Rightarrow> bool" where
  "by_due base key qs \<longleftrightarrow> (\<forall>t \<in> set qs. ahead base (key t) < 2 ^ 31) \<and> sorted (map (\<lambda>t. ahead base (key t)) qs)"

lemma sorted_dropWhile_greater:
  "sorted (map f qs) \<Longrightarrow> \<forall>y \<in> set (dropWhile (\<lambda>i. f i \<le> (m :: nat)) qs). m < f y"
  by (induction qs) auto

lemma place_by_due:
  assumes "by_due base key qs" "ahead base (key t) < 2 ^ 31"
  shows "\<exists>xs ys. qs = xs @ ys \<and> place key t qs = xs @ t # ys \<and> by_due base key (xs @ t # ys)
    \<and> (\<forall>x \<in> set xs. ahead base (key x) \<le> ahead base (key t))
    \<and> (\<forall>y \<in> set ys. ahead base (key t) < ahead base (key y))"
proof -
  let ?f = "\<lambda>i. ahead base (key i)"
  let ?P = "\<lambda>i. 0 \<le> sint (key t - key i)" and ?Q = "\<lambda>i. ?f i \<le> ?f t"
  have PQ: "?P i = ?Q i" if "i \<in> set qs" for i
    using assms that by (intro due_compare) (auto simp: by_due_def)
  have tw: "takeWhile ?P qs = takeWhile ?Q qs" by (rule takeWhile_cong [OF refl PQ])
  have dw: "dropWhile ?P qs = dropWhile ?Q qs" by (rule dropWhile_cong [OF refl PQ])
  define xs ys where xy: "xs = takeWhile ?Q qs" "ys = dropWhile ?Q qs"
  have qs: "qs = xs @ ys" by (simp add: xy)
  have s: "sorted (map ?f qs)" using assms(1) by (simp add: by_due_def)
  have x: "\<forall>x \<in> set xs. ?f x \<le> ?f t" using set_takeWhileD [of _ ?Q qs] by (auto simp: xy)
  have y: "\<forall>y \<in> set ys. ?f t < ?f y"
    unfolding xy by (rule sorted_dropWhile_greater [OF s])
  have "sorted (map ?f (xs @ t # ys))"
    using s x y less_imp_le by (auto simp: qs sorted_append)
  moreover have "place key t qs = xs @ t # ys" by (simp add: place_def tw dw xy)
  ultimately show ?thesis using qs x y assms by (auto simp: by_due_def)
qed

section \<open>The scheduler loop\<close>

text \<open>
  \<open>runScheduler\<close> polls the update flag, looks at the head of the queue, and runs it when it is
  due; while its callback runs the loop is at \<open>Running t\<close>. Callbacks and interrupt handlers call
  the interface at any of these points, which is the last rule.
\<close>

datatype phase = Poll | Dispatch | Running nat

datatype request = RunWait RunCall u32 | RunSleep u32 RunCall u32 | RunPeriodic u32 RunCall u32
  | RunAdjust nat u32 | RunWake nat | RunCancel RunCall u32

fun call :: "u32 \<Rightarrow> request \<Rightarrow> sched \<Rightarrow> stop + sched" where
  "call raw (RunWait cb ref) s = and_then (runWait raw cb ref s) (\<lambda>(_, s). Inr s)"
| "call raw (RunSleep d cb ref) s = and_then (runSleep raw d cb ref s) (\<lambda>(_, s). Inr s)"
| "call raw (RunPeriodic i cb ref) s = and_then (runPeriodic raw i cb ref s) (\<lambda>(_, s). Inr s)"
| "call raw (RunAdjust t i) s = Inr (runAdjust t i s)"
| "call raw (RunWake t) s = Inr (runWake t s)"
| "call raw (RunCancel cb ref) s = runCancel cb ref s"

text \<open>A caller passes a function and a handle that it was given and whose task is not freed.\<close>

fun valid_request :: "sched \<Rightarrow> request \<Rightarrow> bool" where
  "valid_request s (RunWait cb ref) = (cb \<noteq> NullCall)"
| "valid_request s (RunSleep d cb ref) = (cb \<noteq> NullCall)"
| "valid_request s (RunPeriodic i cb ref) = (cb \<noteq> NullCall)"
| "valid_request s (RunAdjust t i) = (t < poolSize \<and> schedule (node s t) \<noteq> Free)"
| "valid_request s (RunWake t) = (t < poolSize \<and> schedule (node s t) \<noteq> Free)"
| "valid_request s (RunCancel cb ref) = True"

definition at_phase :: "phase \<Rightarrow> stop + sched \<Rightarrow> stop + phase \<times> sched" where
  "at_phase ph r = and_then r (\<lambda>s. Inr (ph, s))"

text \<open>Looking at the head of the queue and running it when it is due; a null callback faults.\<close>

definition dispatch :: "u32 \<Rightarrow> sched \<Rightarrow> stop + phase \<times> sched" where
  "dispatch raw s =
     and_then (deref (qNext (node s queueRoot))) (\<lambda>t.
       if \<not> Task_isReady raw t s then Inr (Poll, s)
       else (let (s', c) = Task_run t s
             in if c \<noteq> None \<and> fst (the c) = NullCall then Inl NullDeref else Inr (Running t, s')))"

definition poll :: "(nat \<Rightarrow> u32) \<Rightarrow> sched \<Rightarrow> stop + sched" where
  "poll raws s = (if taskUpdate s then update_pass raws s else Inr s)"

inductive sched_step :: "phase \<times> sched \<Rightarrow> stop + phase \<times> sched \<Rightarrow> bool" where
  step_poll: "sched_step (Poll, s) (at_phase Dispatch (poll raws s))"
| step_dispatch: "sched_step (Dispatch, s) (dispatch raw s)"
| step_requeue: "sched_step (Running t, s) (at_phase Poll (Task_requeue raw t s))"
| step_request: "valid_request s q \<Longrightarrow> sched_step (ph, s) (at_phase ph (call raw q s))"

inductive_cases sched_stepE: "sched_step (ph, s) r"

inductive sched_reach :: "sched \<Rightarrow> phase \<times> sched \<Rightarrow> bool" for boot where
  reach_init: "sched_reach boot (Poll, initScheduler boot)"
| reach_step: "sched_reach boot c \<Longrightarrow> sched_step c (Inr c') \<Longrightarrow> sched_reach boot c'"

subsection \<open>The invariant\<close>

text \<open>
  Every pool node is in the run queue or on the free stack and in no other place, exactly the
  queued ones have a schedule, and those have a callback. The root keeps its zeroed data.
\<close>

definition sched_inv :: "sched \<Rightarrow> nat list \<Rightarrow> nat list \<Rightarrow> bool" where
  "sched_inv s qs fs \<longleftrightarrow> queued s qs fs \<and> set qs \<union> set fs = {..<poolSize}
     \<and> (\<forall>t \<in> set fs. schedule (node s t) = Free)
     \<and> (\<forall>t \<in> set qs. schedule (node s t) \<noteq> Free \<and> callback (node s t) \<noteq> NullCall)
     \<and> callback (node s queueRoot) = NullCall \<and> schedule (node s queueRoot) = Free
     \<and> runNext (node s queueRoot) = 0"

definition inv_at :: "phase \<Rightarrow> sched \<Rightarrow> nat list \<Rightarrow> nat list \<Rightarrow> bool" where
  "inv_at ph s qs fs \<longleftrightarrow> sched_inv s qs fs \<and> (\<forall>t. ph = Running t \<longrightarrow> t \<in> set qs)"

lemma sched_invD:
  assumes "sched_inv s qs fs"
  shows "queued s qs fs" "set qs \<union> set fs = {..<poolSize}" "distinct (qs @ fs)" "queueRoot \<notin> set qs"
    "\<And>t. t \<in> set fs \<Longrightarrow> schedule (node s t) = Free"
    "\<And>t. t \<in> set qs \<Longrightarrow> schedule (node s t) \<noteq> Free \<and> callback (node s t) \<noteq> NullCall"
    "\<And>t. t \<in> set qs \<longleftrightarrow> t < poolSize \<and> schedule (node s t) \<noteq> Free"
proof -
  show q: "queued s qs fs" and u: "set qs \<union> set fs = {..<poolSize}"
    and f: "\<And>t. t \<in> set fs \<Longrightarrow> schedule (node s t) = Free"
    and n: "\<And>t. t \<in> set qs \<Longrightarrow> schedule (node s t) \<noteq> Free \<and> callback (node s t) \<noteq> NullCall"
    using assms by (auto simp: sched_inv_def)
  show "distinct (qs @ fs)" "queueRoot \<notin> set qs" using q by (auto simp: queued_def)
  show "\<And>t. t \<in> set qs \<longleftrightarrow> t < poolSize \<and> schedule (node s t) \<noteq> Free"
    using u f n by (metis Un_iff lessThan_iff)
qed

text \<open>An operation that keeps the data, or changes only the data of one queued task.\<close>

lemma task_data_fields:
  "task_data s' i = task_data s i \<longleftrightarrow> schedule (node s' i) = schedule (node s i)
    \<and> callback (node s' i) = callback (node s i) \<and> reference (node s' i) = reference (node s i)
    \<and> runNext (node s' i) = runNext (node s i) \<and> runInterval (node s' i) = runInterval (node s i)"
  by (auto simp: task_data_def Let_def)

lemma sched_inv_data:
  assumes "sched_inv s qs fs" "queued s' qs' fs" "set qs' = set qs"
    "\<And>i. schedule (node s' i) = schedule (node s i)" "\<And>i. callback (node s' i) = callback (node s i)"
    "runNext (node s' queueRoot) = runNext (node s queueRoot)"
  shows "sched_inv s' qs' fs"
  using assms by (simp add: sched_inv_def)

lemma sched_inv_upd:
  assumes "sched_inv s qs fs" "t \<in> set qs"
    "\<And>k. qNext (f k) = qNext k" "\<And>k. qPrev (f k) = qPrev k"
    "schedule (f (node s t)) \<noteq> Free" "callback (f (node s t)) \<noteq> NullCall"
  shows "sched_inv (upd t f s) qs fs"
proof -
  have "t \<notin> set fs" "t \<noteq> queueRoot"
    using sched_invD [OF assms(1)] assms(2) by auto
  with assms show ?thesis by (auto simp: sched_inv_def queued_upd)
qed

lemma sched_inv_flag [simp]: "sched_inv (s\<lparr>taskUpdate := b\<rparr>) qs fs = sched_inv s qs fs"
  by (simp add: sched_inv_def)

lemma move_inv:
  assumes i: "sched_inv s qs fs" "t \<in> set qs"
    and f: "\<And>k. qNext (f k) = qNext k" "\<And>k. qPrev (f k) = qPrev k"
      "\<And>k. schedule (f k) = schedule k" "\<And>k. callback (f k) = callback k"
  shows "\<exists>s' qs'. and_then (Task_pop t s) (\<lambda>s. Task_insert t (upd t f s)) = Inr s'
    \<and> sched_inv s' qs' fs \<and> set qs' = set qs"
proof -
  from i(2) obtain xs ys where qs: "qs = xs @ t # ys" by (auto simp: in_set_conv_decomp)
  have q: "queued s (xs @ t # ys) fs" using i(1) by (simp add: sched_inv_def qs)
  from rq.move_ok [OF q, of "upd t f"] queued_upd [OF f(1,2)]
  obtain s1 s' where m: "Task_pop t s = Inr s1" "task_data s1 = task_data s"
      "Task_insert t (upd t f s1) = Inr s'" "task_data s' = task_data (upd t f s1)"
      "queued s' (place (\<lambda>i. due (task_data (upd t f s1) i)) t (xs @ ys)) fs"
    by (metis (no_types, lifting))
  let ?qs = "place (\<lambda>i. due (task_data (upd t f s1) i)) t (xs @ ys)"
  have t: "t \<noteq> queueRoot" using sched_invD(4) [OF i(1)] i(2) by auto
  have d1: "task_data s1 i = task_data s i" and d2: "task_data s' i = task_data (upd t f s1) i" for i
    by (simp_all add: m)
  have "sched_inv s' ?qs fs"
    by (rule sched_inv_data [OF i(1) m(5)])
       (use d1 d2 t in \<open>auto simp: task_data_fields f qs fun_upd_def split: if_splits\<close>)
  with m show ?thesis by (auto simp: qs)
qed

lemma requeue_inv:
  assumes "sched_inv s qs fs" "t \<in> set qs"
  shows "\<exists>s' qs'. Task_requeue raw t s = Inr s' \<and> sched_inv s' qs' fs"
proof (cases "schedule (node s t) = Canceled")
  case True
  with assms show ?thesis by (auto simp: Task_requeue_def)
next
  case False
  let ?f = "\<lambda>k. k\<lparr>runNext := runInterval k + (if schedule k = Periodic then runNext k else raw)\<rparr>"
  from move_inv [OF assms, of ?f] False show ?thesis by (auto simp: Task_requeue_def)
qed

lemma upd_flag: "(upd t f s)\<lparr>taskUpdate := b\<rparr> = upd t f (s\<lparr>taskUpdate := b\<rparr>)"
  by (simp add: upd_def)

lemma cancel_inv:
  assumes "sched_inv s qs fs" "t \<in> set qs"
  shows "sched_inv (runCancel_task t s) qs fs"
  unfolding runCancel_task_def Task_cancel_def sched_inv_flag
  by (rule sched_inv_upd [OF assms]) simp_all

lemma cancel_walk_inv:
  assumes "path (node s) a rs queueRoot" "set rs \<subseteq> set qs" "length rs < fuel" "sched_inv s qs fs"
  shows "\<exists>s'. cancel_walk fuel P (qNext (node s a)) s = Inr s' \<and> sched_inv s' qs fs"
  using assms
proof (induction rs arbitrary: a fuel s)
  case Nil
  then show ?case by (cases fuel) auto
next
  case (Cons r rs)
  from Cons.prems(3) obtain f where f: "fuel = Suc f" "length rs < f" by (cases fuel) auto
  let ?s = "if P (node s r) then runCancel_task r s else s"
  have r: "r \<noteq> queueRoot" "r \<in> set qs" using sched_invD(4) [OF Cons.prems(4)] Cons.prems(2) by auto
  have n: "qNext (node ?s i) = qNext (node s i)" "qPrev (node ?s i) = qPrev (node s i)" for i
    by (simp_all add: runCancel_task_def Task_cancel_def)
  have "path (node ?s) r rs queueRoot = path (node s) r rs queueRoot"
    by (rule path_cong) (auto simp: n)
  moreover have "sched_inv ?s qs fs" using cancel_inv [OF Cons.prems(4) r(2)] Cons.prems(4) by simp
  ultimately have "\<exists>s'. cancel_walk f P (qNext (node ?s r)) ?s = Inr s' \<and> sched_inv s' qs fs"
    using Cons.prems f by (intro Cons.IH) auto
  moreover have "qNext (node s a) = Some r" using Cons.prems(1) by simp
  ultimately show ?case using r by (simp add: f n Let_def)
qed

lemma runCancel_inv:
  assumes "sched_inv s qs fs"
  shows "\<exists>s'. runCancel cb ref s = Inr s' \<and> sched_inv s' qs fs"
  unfolding runCancel_def
  by (rule cancel_walk_inv [OF _ subset_refl _ assms])
     (use queued_length [of s qs fs] sched_invD(1) [OF assms] in \<open>auto simp: queued_def\<close>)

text \<open>A task that is taken from the free stack, set up and inserted.\<close>

lemma alloc_inv:
  assumes i: "sched_inv s qs fs" and a: "Task_alloc s = Inr (t, s1)"
    and f: "\<And>k. qNext (f k) = qNext k" "\<And>k. qPrev (f k) = qPrev k"
      "\<And>k. schedule (f k) \<noteq> Free" "\<And>k. callback (f k) \<noteq> NullCall"
  shows "\<exists>s' qs' fs'. Task_insert t (upd t f s1) = Inr s' \<and> sched_inv s' qs' fs' \<and> fs = t # fs'
    \<and> set qs' = insert t (set qs)"
proof -
  from i have ch: "free_chain (node s) (taskFree s) fs" by (simp add: sched_inv_def queued_def)
  with a obtain fs' where fs: "fs = t # fs'" "taskFree s = Some t"
    by (cases fs) (auto simp: Task_alloc_def)
  with a have s1: "s1 = upd t (\<lambda>_. new_task) (s\<lparr>taskFree := qNext (node s t)\<rparr>)"
    by (simp add: Task_alloc_def)
  note inv = sched_invD [OF i]
  have t: "t \<notin> set qs" "t \<notin> set fs'" "t < poolSize" using inv(1,3) fs by (auto simp: queued_def)
  have "path (node s1) queueRoot qs queueRoot = path (node s) queueRoot qs queueRoot"
    using t by (intro path_cong) (auto simp: s1)
  moreover have "free_chain (node s1) p fs' = free_chain (node s) p fs'" for p
    using t by (intro free_chain_cong) (auto simp: s1)
  ultimately have "queued s1 qs fs'" using inv(1) fs ch by (auto simp: queued_def s1)
  then have "queued (upd t f s1) qs fs'" by (simp only: queued_upd [OF f(1,2)])
  from rq.put_in [OF this, of t] t obtain s' where s': "Task_insert t (upd t f s1) = Inr s'"
    "queued s' (place (\<lambda>i. due (task_data (upd t f s1) i)) t qs) fs'" "task_data s' = task_data (upd t f s1)"
    by (auto simp: outside_def)
  have d: "task_data s' i = task_data (upd t f s1) i" for i by (simp add: s')
  have "sched_inv s' (place (\<lambda>i. due (task_data (upd t f s1) i)) t qs) fs'"
    using i s'(2) t d f inv(2) fs(1) by (auto simp: sched_inv_def task_data_fields s1 split: if_splits)
  with s' fs show ?thesis by auto
qed

lemma start_inv:
  assumes i: "sched_inv s qs fs" and cb: "cb \<noteq> NullCall"
    and r: "r = runWait raw cb ref s \<or> r = runSleep raw d cb ref s \<or> r = runPeriodic raw d cb ref s"
  shows "(fs = [] \<and> r = Inl (FaultBlink 3 1)) \<or> (\<exists>t s' qs' fs'. r = Inr (t, s') \<and> sched_inv s' qs' fs'
    \<and> fs = t # fs' \<and> set qs' = insert t (set qs))"
proof (cases "Task_alloc s")
  case (Inl e)
  moreover from i have "free_chain (node s) (taskFree s) fs" by (simp add: sched_inv_def queued_def)
  ultimately have "fs = [] \<and> e = FaultBlink 3 1" by (cases fs) (auto simp: Task_alloc_def)
  with Inl r show ?thesis by (auto simp: runWait_def runSleep_def runPeriodic_def and_then_def)
next
  case (Inr p)
  then obtain t s1 where a: "Task_alloc s = Inr (t, s1)" by (cases p) auto
  note al = alloc_inv [OF i a]
  show ?thesis
    using r al [of "\<lambda>k. k\<lparr>schedule := Sleep, callback := cb, reference := ref, runInterval := MAX_RAW_INTV, runNext := raw + MAX_RAW_INTV\<rparr>"]
      al [of "\<lambda>k. k\<lparr>schedule := Sleep, callback := cb, reference := ref, runInterval := toMonoRaw d, runNext := raw + toMonoRaw d\<rparr>"]
      al [of "\<lambda>k. k\<lparr>schedule := Periodic, callback := cb, reference := ref, runInterval := toMonoRaw d, runNext := raw + toMonoRaw d\<rparr>"] cb
    by (elim disjE) (auto simp: runWait_def runSleep_def runPeriodic_def a Task_setWait_def Task_setSleep_def Task_setPeriodic_def)
qed

lemma update_inv:
  assumes i: "sched_inv s qs fs" and t: "t < poolSize"
  shows "\<exists>s' qs' fs'. Task_update raw t s = Inr s' \<and> sched_inv s' qs' fs'"
proof (cases "schedule (node s t)")
  case Canceled
  note inv = sched_invD [OF i]
  from Canceled t inv(7) have "t \<in> set qs" by simp
  then obtain xs ys where qs: "qs = xs @ t # ys" by (auto simp: in_set_conv_decomp)
  with pop_queued [of s xs t ys fs] inv(1) obtain s1 where s1: "Task_pop t s = Inr s1"
    "queued s1 (xs @ ys) fs" "task_data s1 = task_data s" by auto
  let ?f = "\<lambda>k. k\<lparr>schedule := Free, callback := NullCall, qPrev := None, qNext := taskFree s1\<rparr>"
  let ?s = "(upd t ?f s1)\<lparr>taskFree := Some t\<rparr>"
  have n: "t \<notin> set (xs @ ys)" "t \<notin> set fs" "t \<noteq> queueRoot" using inv(3) t by (auto simp: qs)
  have "path (node ?s) queueRoot (xs @ ys) queueRoot = path (node s1) queueRoot (xs @ ys) queueRoot"
    using n by (intro path_cong) auto
  moreover have "free_chain (node ?s) p fs = free_chain (node s1) p fs" for p
    using n by (intro free_chain_cong) auto
  ultimately have q: "queued ?s (xs @ ys) (t # fs)"
    using s1(2) n t by (auto simp: queued_def)
  have d: "task_data s1 j = task_data s j" for j by (simp add: s1)
  have "sched_inv ?s (xs @ ys) (t # fs)"
    using i q n d by (auto simp: sched_inv_def task_data_fields qs)
  with Canceled s1(1) show ?thesis by (auto simp: Task_update_def)
next
  case Wake
  then have "t \<in> set qs" using sched_invD(7) [OF i] t by simp
  from move_inv [OF i this, of "\<lambda>k. k\<lparr>runNext := raw\<rparr>"] Wake show ?thesis
    by (auto simp: Task_update_def)
qed (use i in \<open>auto simp: Task_update_def\<close>)

lemma fold_update_inv:
  "sched_inv s qs fs \<Longrightarrow> \<forall>t \<in> set ts. t < poolSize \<Longrightarrow>
   \<exists>s' qs' fs'. fold (\<lambda>t r. and_then r (Task_update (raws t) t)) ts (Inr s) = Inr s' \<and> sched_inv s' qs' fs'"
proof (induction ts arbitrary: s qs fs)
  case (Cons t ts)
  from Cons.prems update_inv [of s qs fs t "raws t"] obtain s1 qs1 fs1
    where s1: "Task_update (raws t) t s = Inr s1" "sched_inv s1 qs1 fs1" by auto
  with Cons.IH [OF s1(2)] Cons.prems show ?case by simp
qed auto

lemma poll_inv:
  assumes "sched_inv s qs fs"
  shows "\<exists>s' qs' fs'. poll raws s = Inr s' \<and> sched_inv s' qs' fs'"
proof (cases "taskUpdate s")
  case True
  then show ?thesis
    using fold_update_inv [of "s\<lparr>taskUpdate := False\<rparr>" qs fs "[0..<poolSize]" raws] assms
    by (simp add: poll_def update_pass_def del: upt_rec_numeral)
qed (use assms in \<open>auto simp: poll_def\<close>)

lemma node_link_pool:
  "node (fold (\<lambda>i. upd (i - 1) (\<lambda>k. k\<lparr>qNext := Some i\<rparr>)) [1 ..< n] s) j
   = (if j + 1 < n then (node s j)\<lparr>qNext := Some (j + 1)\<rparr> else node s j)"
  by (induction n) auto

lemma taskFree_link_pool:
  "taskFree (fold (\<lambda>i. upd (i - 1) (\<lambda>k. k\<lparr>qNext := Some i\<rparr>)) is s) = taskFree s"
  by (induction "is" arbitrary: s) auto

lemma free_chain_pool:
  assumes "\<And>j. j < n \<Longrightarrow> qNext (h j) = (if j + 1 < n then Some (j + 1) else None)" "m < n"
  shows "free_chain h (Some m) [m ..< n]"
  using assms(2)
proof (induction "n - m" arbitrary: m)
  case (Suc d)
  then have u: "[m ..< n] = m # [Suc m ..< n]" by (simp add: upt_conv_Cons)
  show ?case
  proof (cases "Suc m < n")
    case True
    with Suc.hyps(1) [of "Suc m"] Suc.hyps(2) Suc.prems assms(1) [of m] show ?thesis by (simp add: u)
  qed (use Suc.prems assms(1) [of m] in \<open>simp add: u\<close>)
qed simp

lemma boot_inv: "inv_at Poll (initScheduler zeroed) [] [0 ..< poolSize]"
proof -
  have "node (initScheduler zeroed) j = (if j = queueRoot then zero_task\<lparr>qNext := Some queueRoot, qPrev := Some queueRoot\<rparr>
      else if j + 1 < poolSize then zero_task\<lparr>qNext := Some (j + 1)\<rparr> else zero_task)" for j
    by (simp add: initScheduler_def Let_def node_link_pool [simplified] zeroed_def)
  note n = this
  have "taskFree (initScheduler zeroed) = Some 0"
    by (simp add: initScheduler_def Let_def taskFree_link_pool [simplified])
  moreover have "free_chain (node (initScheduler zeroed)) (Some 0) [0 ..< poolSize]"
    by (rule free_chain_pool) (simp_all add: n zero_task_def)
  moreover have "path (node (initScheduler zeroed)) queueRoot [] queueRoot" by (simp add: n)
  ultimately show ?thesis
    by (auto simp: inv_at_def sched_inv_def queued_def n zero_task_def simp del: upt_rec_numeral)
qed

lemma dispatch_inv:
  assumes i: "sched_inv s qs fs"
  shows "(\<exists>ph s'. dispatch raw s = Inr (ph, s') \<and> inv_at ph s' qs fs \<and> ph \<noteq> Dispatch)
    \<or> (dispatch raw s = Inl NullDeref \<and> qs = [])"
proof (cases qs)
  case Nil
  with sched_invD(1) [OF i] have r: "qNext (node s queueRoot) = Some queueRoot" by (simp add: queued_def)
  have "callback (node s queueRoot) = NullCall" "schedule (node s queueRoot) = Free"
    using i by (simp_all add: sched_inv_def)
  with r Nil i show ?thesis by (auto simp: dispatch_def Task_run_def inv_at_def)
next
  case (Cons t ts)
  note inv = sched_invD [OF i]
  from Cons inv(1) have r: "qNext (node s queueRoot) = Some t" by (simp add: queued_def)
  have t: "schedule (node s t) \<noteq> Free" "callback (node s t) \<noteq> NullCall" "t \<in> set qs" using inv(6) Cons by auto
  have "sched_inv (upd t (\<lambda>k. if schedule k = Wake then k\<lparr>schedule := Wait\<rparr> else k) s) qs fs"
    by (rule sched_inv_upd [OF i]) (use t in auto)
  with r i t show ?thesis by (auto simp: dispatch_def Task_run_def inv_at_def split: if_splits)
qed

lemma request_inv:
  assumes i: "sched_inv s qs fs" and v: "valid_request s q"
  shows "(\<exists>s' qs' fs'. call raw q s = Inr s' \<and> sched_inv s' qs' fs' \<and> set qs \<subseteq> set qs')
    \<or> (call raw q s = Inl (FaultBlink 3 1) \<and> fs = [])"
proof (cases q)
  case (RunAdjust t d)
  with v sched_invD(7) [OF i] have "t \<in> set qs" by simp
  moreover have "sched_inv (upd t (\<lambda>k. k\<lparr>runInterval := toMonoRaw d\<rparr>) s) qs fs"
    by (rule sched_inv_upd [OF i]) (use sched_invD(6) [OF i] \<open>t \<in> set qs\<close> in auto)
  ultimately show ?thesis by (auto simp: RunAdjust runAdjust_def Task_setInterval_def)
next
  case (RunWake t)
  with v sched_invD(7) [OF i] have "t \<in> set qs" by simp
  have "sched_inv (upd t (\<lambda>k. k\<lparr>schedule := Wake\<rparr>) s) qs fs"
    by (rule sched_inv_upd [OF i]) (use sched_invD(6) [OF i] \<open>t \<in> set qs\<close> in auto)
  then have "sched_inv (runWake t s) qs fs" by (simp add: runWake_def Task_wake_def)
  then show ?thesis by (auto simp: RunWake)
next
  case (RunCancel cb ref)
  with runCancel_inv [OF i] show ?thesis by fastforce
next
  case (RunWait cb ref)
  with v start_inv [OF i, of cb _ raw ref] show ?thesis by (fastforce simp: and_then_def)
next
  case (RunSleep d cb ref)
  with v start_inv [OF i, of cb _ raw ref d] show ?thesis by (fastforce simp: and_then_def)
next
  case (RunPeriodic d cb ref)
  with v start_inv [OF i, of cb _ raw ref d] show ?thesis by (fastforce simp: and_then_def)
qed

definition safe_result :: "phase \<Rightarrow> nat list \<Rightarrow> nat list \<Rightarrow> stop + phase \<times> sched \<Rightarrow> bool" where
  "safe_result ph qs fs r \<longleftrightarrow> (\<exists>ph' s' qs' fs'. r = Inr (ph', s') \<and> inv_at ph' s' qs' fs')
     \<or> (r = Inl (FaultBlink 3 1) \<and> fs = []) \<or> (r = Inl NullDeref \<and> ph = Dispatch \<and> qs = [])"

lemma step_inv:
  assumes "sched_step (ph, s) r" "inv_at ph s qs fs"
  shows "safe_result ph qs fs r"
  using assms(1)
proof (cases rule: sched_step.cases)
  case (step_poll raws)
  with assms(2) poll_inv [of s qs fs raws] show ?thesis
    by (fastforce simp: safe_result_def inv_at_def at_phase_def)
next
  case (step_dispatch raw)
  with assms(2) dispatch_inv [of s qs fs raw] show ?thesis
    by (auto simp: safe_result_def inv_at_def)
next
  case (step_requeue t raw)
  with assms(2) requeue_inv [of s qs fs t raw] show ?thesis
    by (fastforce simp: safe_result_def inv_at_def at_phase_def)
next
  case (step_request q raw)
  with assms(2) request_inv [of s qs fs q raw] show ?thesis
    by (fastforce simp: safe_result_def inv_at_def at_phase_def and_then_def)
qed

lemma reach_inv:
  "sched_reach zeroed c \<Longrightarrow> \<exists>qs fs. inv_at (fst c) (snd c) qs fs"
proof (induction rule: sched_reach.induct)
  case reach_init
  then show ?case using boot_inv by fastforce
next
  case (reach_step c c')
  then obtain qs fs where "inv_at (fst c) (snd c) qs fs" by blast
  with step_inv [of "fst c" "snd c" "Inr c'"] reach_step show ?case
    by (fastforce simp: safe_result_def)
qed

section \<open>What the operations do to due times and schedules\<close>

lemma move_data:
  assumes i: "sched_inv s qs fs" "t \<in> set qs"
    and f: "\<And>k. qNext (f k) = qNext k" "\<And>k. qPrev (f k) = qPrev k"
    and e: "and_then (Task_pop t s) (\<lambda>s. Task_insert t (upd t f s)) = Inr s'"
  shows "\<exists>s1. task_data s1 = task_data s \<and> task_data s' = task_data (upd t f s1)"
proof -
  from i(2) obtain xs ys where qs: "qs = xs @ t # ys" by (auto simp: in_set_conv_decomp)
  have "queued s (xs @ t # ys) fs" using i(1) by (simp add: sched_inv_def qs)
  from rq.move_ok [OF this, of "upd t f"] queued_upd [OF f] e show ?thesis by fastforce
qed

lemma requeue_data:
  assumes i: "sched_inv s qs fs" "t \<in> set qs" and e: "Task_requeue raw t s = Inr s'"
  shows "\<forall>u. u \<noteq> t \<longrightarrow> task_data s' u = task_data s u"
    and "schedule (node s' t) = schedule (node s t)" "runInterval (node s' t) = runInterval (node s t)"
    and "schedule (node s t) \<noteq> Canceled \<Longrightarrow> runNext (node s' t) = runInterval (node s t)
      + (if schedule (node s t) = Periodic then runNext (node s t) else raw)"
proof -
  let ?f = "\<lambda>k. k\<lparr>runNext := runInterval k + (if schedule k = Periodic then runNext k else raw)\<rparr>"
  have "(\<forall>u. u \<noteq> t \<longrightarrow> task_data s' u = task_data s u) \<and> schedule (node s' t) = schedule (node s t)
    \<and> runInterval (node s' t) = runInterval (node s t)
    \<and> (schedule (node s t) \<noteq> Canceled \<longrightarrow> runNext (node s' t) = runInterval (node s t)
      + (if schedule (node s t) = Periodic then runNext (node s t) else raw))"
  proof (cases "schedule (node s t) = Canceled")
    case True
    with e show ?thesis by (simp add: Task_requeue_def)
  next
    case False
    with e have "and_then (Task_pop t s) (\<lambda>s. Task_insert t (upd t ?f s)) = Inr s'"
      by (simp add: Task_requeue_def)
    from move_data [OF i _ _ this] obtain s1 where d: "task_data s1 = task_data s"
      "task_data s' = task_data (upd t ?f s1)" by auto
    have "task_data s1 u = task_data s u" "task_data s' u = task_data (upd t ?f s1) u" for u
      by (simp_all add: d)
    then show ?thesis by (auto simp: task_data_fields)
  qed
  then show "\<forall>u. u \<noteq> t \<longrightarrow> task_data s' u = task_data s u"
    "schedule (node s' t) = schedule (node s t)" "runInterval (node s' t) = runInterval (node s t)"
    "schedule (node s t) \<noteq> Canceled \<Longrightarrow> runNext (node s' t) = runInterval (node s t)
      + (if schedule (node s t) = Periodic then runNext (node s t) else raw)"
    by blast+
qed

lemma requeue_total:
  assumes i: "sched_inv s qs fs" "t \<in> set qs"
  obtains s' qs' where "Task_requeue raw t s = Inr s'" "sched_inv s' qs' fs" "t \<in> set qs'"
proof -
  from requeue_inv [OF i] obtain s' qs' where s': "Task_requeue raw t s = Inr s'" "sched_inv s' qs' fs"
    by blast
  moreover have "t \<in> set qs'"
    using requeue_data(2) [OF i s'(1)] sched_invD(7) [OF i(1)] sched_invD(7) [OF s'(2)] i(2) by simp
  ultimately show ?thesis using that by blast
qed

lemma periodic_requeues:
  assumes "sched_inv s qs fs" "t \<in> set qs" "schedule (node s t) = Periodic"
  shows "\<exists>s'. fold (\<lambda>raw r. and_then r (Task_requeue raw t)) raws (Inr s) = Inr s'
    \<and> runNext (node s' t) = runNext (node s t) + of_nat (length raws) * runInterval (node s t)"
  using assms
proof (induction raws arbitrary: s qs)
  case (Cons raw raws)
  obtain s1 qs1 where s1: "Task_requeue raw t s = Inr s1" "sched_inv s1 qs1 fs" "t \<in> set qs1"
    by (rule requeue_total [OF Cons.prems(1,2)])
  note d = requeue_data [OF Cons.prems(1,2) s1(1)]
  from Cons.IH [OF s1(2,3)] d Cons.prems(3) s1(1) show ?case
    by (auto simp: algebra_simps)
qed auto

lemma update_data:
  assumes i: "sched_inv s qs fs" "t < poolSize" and e: "Task_update raw t s = Inr s'"
  shows "\<forall>u. u \<noteq> t \<longrightarrow> task_data s' u = task_data s u"
    and "schedule (node s t) = Wake \<Longrightarrow> schedule (node s' t) = Wake \<and> callback (node s' t) = callback (node s t)
      \<and> reference (node s' t) = reference (node s t) \<and> runNext (node s' t) = raw"
proof -
  have "(\<forall>u. u \<noteq> t \<longrightarrow> task_data s' u = task_data s u) \<and> (schedule (node s t) = Wake \<longrightarrow>
      schedule (node s' t) = Wake \<and> callback (node s' t) = callback (node s t)
      \<and> reference (node s' t) = reference (node s t) \<and> runNext (node s' t) = raw)"
  proof (cases "schedule (node s t)")
    case Canceled
    with sched_invD(7) [OF i(1)] i(2) have "t \<in> set qs" by simp
    then obtain xs ys where "qs = xs @ t # ys" by (auto simp: in_set_conv_decomp)
    with pop_queued [of s xs t ys fs] sched_invD(1) [OF i(1)] obtain s1 where s1: "Task_pop t s = Inr s1"
      "task_data s1 = task_data s" by auto
    have "task_data s1 u = task_data s u" for u by (simp add: s1)
    with Canceled s1(1) e show ?thesis by (auto simp: Task_update_def task_data_fields)
  next
    case Wake
    then have t: "t \<in> set qs" using sched_invD(7) [OF i(1)] i(2) by simp
    from Wake e have "and_then (Task_pop t s) (\<lambda>s. Task_insert t (upd t (\<lambda>k. k\<lparr>runNext := raw\<rparr>) s)) = Inr s'"
      by (simp add: Task_update_def)
    from move_data [OF i(1) t _ _ this] obtain s1 where d: "task_data s1 = task_data s"
      "task_data s' = task_data (upd t (\<lambda>k. k\<lparr>runNext := raw\<rparr>) s1)" by auto
    have "task_data s1 u = task_data s u"
      "task_data s' u = task_data (upd t (\<lambda>k. k\<lparr>runNext := raw\<rparr>) s1) u" for u
      by (simp_all add: d)
    then show ?thesis using Wake by (auto simp: task_data_fields)
  qed (use e in \<open>auto simp: Task_update_def\<close>)
  then show "\<forall>u. u \<noteq> t \<longrightarrow> task_data s' u = task_data s u"
    "schedule (node s t) = Wake \<Longrightarrow> schedule (node s' t) = Wake \<and> callback (node s' t) = callback (node s t)
      \<and> reference (node s' t) = reference (node s t) \<and> runNext (node s' t) = raw" by blast+
qed

lemma fold_update_data:
  assumes "sched_inv s qs fs" "\<forall>u \<in> set ts. u < poolSize" "distinct ts"
    "fold (\<lambda>t r. and_then r (Task_update (raws t) t)) ts (Inr s) = Inr s'"
  shows "t \<notin> set ts \<Longrightarrow> task_data s' t = task_data s t"
    and "t \<in> set ts \<Longrightarrow> schedule (node s t) = Wake \<Longrightarrow> schedule (node s' t) = Wake \<and> callback (node s' t) = callback (node s t)
      \<and> reference (node s' t) = reference (node s t) \<and> runNext (node s' t) = raws t"
  using assms
proof (induction ts arbitrary: s qs fs)
  case (Cons u ts)
  {
    case 1
    from update_inv [OF 1(2), of u "raws u"] 1(3) obtain s1 qs1 fs1 where
      s1: "Task_update (raws u) u s = Inr s1" "sched_inv s1 qs1 fs1" by auto
    with Cons.IH(1) [OF _ s1(2)] update_data(1) [OF 1(2) _ s1(1)] 1 show ?case by simp
  next
    case 2
    from update_inv [OF 2(3), of u "raws u"] 2(4) obtain s1 qs1 fs1 where
      s1: "Task_update (raws u) u s = Inr s1" "sched_inv s1 qs1 fs1" by auto
    show ?case
    proof (cases "t = u")
      case True
      with 2 s1 Cons.IH(1) [OF _ s1(2)] have "task_data s' t = task_data s1 t" by simp
      with update_data(2) [OF 2(3) _ s1(1)] 2 True show ?thesis by (simp add: task_data_fields)
    next
      case False
      with 2 s1 update_data(1) [OF 2(3) _ s1(1)] have "task_data s1 t = task_data s t" by simp
      with Cons.IH(2) [OF _ _ s1(2)] 2 s1 False show ?thesis by (simp add: task_data_fields)
    qed
  }
qed auto

lemma RUN_MAX_val: "RUN_MAX = 144115188"
  by (simp add: RUN_MAX_def)

lemma toMonoRaw_int: "uint (toMonoRaw f) = min (uint f) 144115188 * 125000000 div 2 ^ 24"
proof -
  define g :: u32 where "g = (if f > RUN_MAX then RUN_MAX else f)"
  have u: "uint g = min (uint f) 144115188"
    by (simp add: g_def RUN_MAX_val word_less_def min_def)
  then have b: "0 \<le> uint g" "uint g \<le> 144115188" by simp_all
  then have m: "0 \<le> uint g * 125000000" "uint g * 125000000 < 18446744073709551616"
    "uint g * 125000000 div 16777216 < 4294967296" "0 \<le> uint g * 125000000 div 16777216"
    by linarith+
  have w: "(ucast g :: u64) * 125000000 = word_of_int (uint g * 125000000)"
    by (simp only: ucast_of_int of_int_mult of_int_numeral)
  have "uint ((ucast g :: u64) * 125000000) = uint g * 125000000"
    unfolding w uint_of_int_64 using m by (simp only: mod_pos_pos_trivial)
  then have "uint (drop_bit 24 ((ucast g :: u64) * 125000000)) = uint g * 125000000 div 16777216"
    by (simp only: uint_drop_bit) simp
  then have "uint (toMonoRaw f) = uint g * 125000000 div 16777216 mod 4294967296"
    unfolding toMonoRaw_def g_def [symmetric] Let_def uint_ucast_64_32 by (rule arg_cong)
  then show ?thesis using m u by (simp only: mod_pos_pos_trivial) simp
qed

lemma dispatch_head:
  assumes i: "sched_inv s qs fs" and w: "by_due base (\<lambda>t. runNext (node s t)) qs" "ahead base raw < 2 ^ 31"
  shows "dispatch raw s = Inr (Running t, s') \<Longrightarrow> t \<in> set qs \<and> Task_isReady raw t s
      \<and> (\<forall>u \<in> set qs. ahead base (runNext (node s t)) \<le> ahead base (runNext (node s u)))"
    and "dispatch raw s = Inr (Poll, s') \<Longrightarrow> s' = s \<and> (\<forall>u \<in> set qs. \<not> Task_isReady raw u s)"
proof -
  have p: "path (node s) queueRoot qs queueRoot" using i by (simp add: sched_inv_def queued_def)
  have ready: "Task_isReady raw u s \<longleftrightarrow> ahead base (runNext (node s u)) \<le> ahead base raw" if "u \<in> set qs" for u
    unfolding Task_isReady_def using w that by (intro due_compare) (auto simp: by_due_def)
  {
    assume d: "dispatch raw s = Inr (Running t, s')"
    then have "qs \<noteq> []" using p i by (auto simp: dispatch_def Task_run_def sched_inv_def Let_def split: if_splits)
    then obtain q qs' where qs: "qs = q # qs'" by (cases qs) auto
    with d p have "t = q" "Task_isReady raw t s" by (auto simp: dispatch_def Let_def split: if_splits prod.splits)
    with w qs show "t \<in> set qs \<and> Task_isReady raw t s
      \<and> (\<forall>u \<in> set qs. ahead base (runNext (node s t)) \<le> ahead base (runNext (node s u)))"
      by (auto simp: by_due_def)
  next
    assume d: "dispatch raw s = Inr (Poll, s')"
    show "s' = s \<and> (\<forall>u \<in> set qs. \<not> Task_isReady raw u s)"
    proof (cases qs)
      case Nil
      with d p show ?thesis by (auto simp: dispatch_def Let_def split: if_splits prod.splits)
    next
      case (Cons q qs')
      with d p have "\<not> Task_isReady raw q s" "s' = s" by (auto simp: dispatch_def Let_def split: if_splits prod.splits)
      moreover have "\<forall>u \<in> set qs. ahead base (runNext (node s q)) \<le> ahead base (runNext (node s u))"
        using w(1) Cons by (auto simp: by_due_def)
      ultimately show ?thesis using ready Cons by (metis list.set_intros(1) order_trans)
    qed
  }
qed

lemma runWait_due:
  assumes i: "sched_inv s qs fs" and cb: "cb \<noteq> NullCall" and e: "runWait raw cb ref s = Inr (t, s')"
  shows "schedule (node s' t) = Sleep \<and> runNext (node s' t) = raw + MAX_RAW_INTV
    \<and> snd (Task_run t s') = Some (cb, ref)"
proof -
  let ?f = "\<lambda>k. k\<lparr>schedule := Sleep, callback := cb, reference := ref, runInterval := MAX_RAW_INTV, runNext := raw + MAX_RAW_INTV\<rparr>"
  from e obtain s1 where s1: "Task_alloc s = Inr (t, s1)" "Task_insert t (upd t ?f s1) = Inr s'"
    by (auto simp: runWait_def and_then_eq_Inr Task_setWait_def)
  from i s1(1) obtain fs' where fs: "fs = t # fs'"
    by (cases fs) (auto simp: sched_inv_def queued_def Task_alloc_def)
  have ch: "free_chain (node s) (taskFree s) fs" using i by (simp add: sched_inv_def queued_def)
  note inv = sched_invD [OF i]
  have t: "t \<notin> set qs" "t \<notin> set fs'" "t < poolSize" using inv(1,3) fs by (auto simp: queued_def)
  have s1': "s1 = upd t (\<lambda>_. new_task) (s\<lparr>taskFree := qNext (node s t)\<rparr>)"
    using s1(1) ch fs by (auto simp: Task_alloc_def)
  have "path (node s1) queueRoot qs queueRoot = path (node s) queueRoot qs queueRoot"
    using t by (intro path_cong) (auto simp: s1')
  moreover have "free_chain (node s1) p fs' = free_chain (node s) p fs'" for p
    using t by (intro free_chain_cong) (auto simp: s1')
  ultimately have "queued s1 qs fs'" using inv(1) fs ch by (auto simp: queued_def s1')
  then have "queued (upd t ?f s1) qs fs'" by (simp add: queued_upd)
  from insert_queued [OF this, of t] t s1(2) have "task_data s' t = task_data (upd t ?f s1) t"
    by auto
  then show ?thesis by (auto simp: task_data_fields Task_run_def)
qed

lemma update_pass_head:
  "update_pass raws s = fold (\<lambda>t r. and_then r (Task_update (raws t) t)) [1 ..< poolSize]
     (Task_update (raws 0) 0 (s\<lparr>taskUpdate := False\<rparr>))"
  by (simp add: update_pass_def upt_conv_Cons [of 0] del: upt_rec_numeral)

lemma fold_update_Inl:
  "fold (\<lambda>t r. and_then r (Task_update (raws t) t)) ts (Inl e) = Inl e"
  by (induction ts) (simp_all add: and_then_def)

lemma update_pass_constructed:
  "update_pass raws (initScheduler constructed) = Inl NullDeref"
proof -
  have "node (initScheduler constructed) 0 = new_task\<lparr>qNext := Some 1\<rparr>"
    by (simp add: initScheduler_def Let_def node_link_pool [simplified] constructed_def)
  then have "Task_update (raws 0) 0 ((initScheduler constructed)\<lparr>taskUpdate := False\<rparr>) = Inl NullDeref"
    by (simp add: Task_update_def new_task_def Task_pop_def deref_def and_then_def)
  then show ?thesis by (simp only: update_pass_head fold_update_Inl)
qed

section \<open>Timed runs\<close>

text \<open>
  The timer is 32 bits wide, so the order of due times has a meaning only while they lie in a common half of its
  range. \<open>timed_step\<close> is the transition relation with the timer: a step begins at the reading \<open>now\<close> and ends at
  \<open>now'\<close>, and \<open>timely\<close> is the one thing it asks of the environment, that no queued task is kept from running until
  it is \<open>MAX_RAW_INTV\<close> ticks (8.6 seconds) late. The rest is proved of the code: intervals are limited to
  \<open>MAX_RAW_INTV\<close>, so all due times stay in the window around \<open>now\<close>, in which the queue is sorted.
\<close>

abbreviation (input) window :: "u32 \<Rightarrow> u32" where "window now \<equiv> now - (MAX_RAW_INTV - 1)"

definition timely :: "u32 \<Rightarrow> u32 \<Rightarrow> sched \<Rightarrow> bool" where
  "timely now now' s \<longleftrightarrow> list_all (\<lambda>t. schedule (node s t) \<noteq> Free \<longrightarrow>
     ahead now now' \<le> ahead (window now) (runNext (node s t))) [0 ..< poolSize]"

inductive timed_step :: "u32 \<Rightarrow> phase \<times> sched \<Rightarrow> u32 \<Rightarrow> phase \<times> sched \<Rightarrow> bool" where
  timed_poll: "poll raws s = Inr s' \<Longrightarrow> timely now now' s \<Longrightarrow> \<forall>t < poolSize. ahead (raws t) now' < MAX_RAW_INTV
    \<Longrightarrow> timed_step now (Poll, s) now' (Dispatch, s')"
| timed_dispatch: "dispatch now' s = Inr c \<Longrightarrow> timely now now' s \<Longrightarrow> timed_step now (Dispatch, s) now' c"
| timed_requeue: "Task_requeue now' t s = Inr s' \<Longrightarrow> timely now now' s \<Longrightarrow> timed_step now (Running t, s) now' (Poll, s')"
| timed_request: "valid_request s q \<Longrightarrow> call now' q s = Inr s' \<Longrightarrow> timely now now' s
    \<Longrightarrow> timed_step now (ph, s) now' (ph, s')"

inductive timed_reach :: "u32 \<Rightarrow> phase \<times> sched \<Rightarrow> bool" where
  timed_init: "timed_reach now (Poll, initScheduler zeroed)"
| timed_next: "timed_reach now c \<Longrightarrow> timed_step now c now' c' \<Longrightarrow> timed_reach now' c'"

lemma timed_sched_step: "timed_step now c now' c' \<Longrightarrow> sched_step c (Inr c')"
proof (induction rule: timed_step.induct)
  case (timed_poll raws s s' now now')
  then show ?case using sched_step.step_poll [of s raws] by (simp add: at_phase_def)
next
  case (timed_dispatch now' s c now)
  then show ?case using sched_step.step_dispatch [of s now'] by simp
next
  case (timed_requeue now' t s s' now)
  then show ?case using sched_step.step_requeue [of t s now'] by (simp add: at_phase_def)
next
  case (timed_request s q now' s' now ph)
  then show ?case using sched_step.step_request [of s q ph now'] by (simp add: at_phase_def)
qed

lemma timed_sched_reach: "timed_reach now c \<Longrightarrow> sched_reach zeroed c"
  by (induction rule: timed_reach.induct) (auto intro: sched_reach.intros timed_sched_step)

text \<open>Moving the window.\<close>

lemma ahead_shift:
  assumes "ahead now now' \<le> ahead (now - w) x"
  shows "ahead (now' - w) x = ahead (now - w) x - ahead now now'"
proof -
  have "x - (now' - w) = (x - (now - w)) - (now' - now)" by simp
  then show ?thesis using assms unfolding ahead_def by (simp only: unat_sub word_le_nat_alt)
qed

lemma by_due_shift:
  assumes "by_due (window now) key qs" "\<forall>t \<in> set qs. ahead now now' \<le> ahead (window now) (key t)"
  shows "by_due (window now') key qs"
proof -
  have e: "ahead (window now') (key t) = ahead (window now) (key t) - ahead now now'" if "t \<in> set qs" for t
    using ahead_shift assms(2) that by blast
  have "sorted_wrt (\<lambda>x y. ahead (window now) (key x) \<le> ahead (window now) (key y)) qs"
    using assms(1) by (simp add: by_due_def sorted_map)
  then have "sorted_wrt (\<lambda>x y. ahead (window now') (key x) \<le> ahead (window now') (key y)) qs"
    by (rule sorted_wrt_mono_rel [rotated]) (simp only: e diff_le_mono)
  then have "sorted (map (\<lambda>t. ahead (window now') (key t)) qs)" by (simp add: sorted_map)
  moreover have "ahead (window now') (key t) < 2 ^ 31" if "t \<in> set qs" for t
    using assms(1) e [OF that] that by (auto simp: by_due_def intro: less_imp_diff_less)
  ultimately show ?thesis by (simp add: by_due_def)
qed

lemma path_unique:
  "path h a xs b \<Longrightarrow> path h a ys b \<Longrightarrow> b \<notin> set xs \<Longrightarrow> b \<notin> set ys \<Longrightarrow> xs = ys"
proof (induction xs arbitrary: a ys)
  case Nil
  then show ?case by (cases ys) auto
next
  case (Cons x xs)
  then show ?case by (cases ys) auto
qed

lemma queued_unique: "queued s qs fs \<Longrightarrow> queued s qs' fs' \<Longrightarrow> qs = qs'"
  unfolding queued_def by (elim conjE, erule (1) path_unique) auto

lemma by_due_cong: "(\<And>t. t \<in> set qs \<Longrightarrow> key' t = key t) \<Longrightarrow> by_due base key' qs = by_due base key qs"
  by (auto simp: by_due_def cong: map_cong)

lemma place_sorted: "by_due base key qs \<Longrightarrow> ahead base (key t) < 2 ^ 31 \<Longrightarrow> by_due base key (place key t qs)"
  using place_by_due [of base key qs t] by auto

lemma by_due_remove: "by_due base key (xs @ t # ys) \<Longrightarrow> by_due base key (xs @ ys)"
  by (auto simp: by_due_def sorted_append)

text \<open>Due times that the operations set lie in the window.\<close>

lemma ahead_later: "x \<le> MAX_RAW_INTV \<Longrightarrow> ahead (window now) (now + x) < 2 ^ 31"
proof -
  assume x: "x \<le> MAX_RAW_INTV"
  then have u: "unat x \<le> 1073741824" by (simp add: word_le_nat_alt)
  have e: "now + x - window now = x + 1073741823" by simp
  have "unat (x + 1073741823) = unat x + 1073741823"
    using u by (subst unat_add_lem [THEN iffD1]) (simp_all)
  with u show ?thesis by (simp only: ahead_def e) simp
qed

lemma ahead_earlier:
  assumes "ahead raw now < MAX_RAW_INTV"
  shows "ahead (window now) raw < MAX_RAW_INTV"
proof -
  have u: "unat (now - raw) \<le> 1073741823" using assms by (simp add: ahead_def)
  then have w: "now - raw \<le> 1073741823" by (simp add: word_le_nat_alt)
  have "raw - window now = 1073741823 - (now - raw)" by simp
  then have "unat (raw - window now) = 1073741823 - unat (now - raw)"
    using w by (simp only: unat_sub) simp
  then show ?thesis by (simp add: ahead_def)
qed

lemma ahead_periodic:
  assumes "ahead (window now) x < MAX_RAW_INTV" "i \<le> MAX_RAW_INTV"
  shows "ahead (window now) (i + x) < 2 ^ 31"
proof -
  have u: "unat i \<le> 1073741824" using assms(2) by (simp add: word_le_nat_alt)
  have e: "i + x - window now = i + (x - window now)" by simp
  have "unat (i + (x - window now)) = unat i + unat (x - window now)"
    using u assms(1) by (subst unat_add_lem [THEN iffD1]) (simp_all add: ahead_def)
  with u assms(1) show ?thesis unfolding ahead_def e by simp
qed


text \<open>The operations keep the order.\<close>

abbreviation (input) due_of :: "sched \<Rightarrow> nat \<Rightarrow> u32" where "due_of s \<equiv> \<lambda>t. runNext (node s t)"

lemma move_due:
  assumes i: "sched_inv s qs fs" "t \<in> set qs"
    and f: "\<And>k. qNext (f k) = qNext k" "\<And>k. qPrev (f k) = qPrev k"
      "\<And>k. schedule (f k) = schedule k" "\<And>k. callback (f k) = callback k"
    and b: "by_due base (due_of s) qs"
      "\<And>k. schedule k = schedule (node s t) \<Longrightarrow> runNext k = runNext (node s t) \<Longrightarrow> runInterval k = runInterval (node s t)
        \<Longrightarrow> ahead base (runNext (f k)) < 2 ^ 31"
    and e: "and_then (Task_pop t s) (\<lambda>s. Task_insert t (upd t f s)) = Inr s'"
  shows "\<exists>qs'. sched_inv s' qs' fs \<and> set qs' = set qs \<and> by_due base (due_of s') qs'"
proof -
  from i(2) obtain xs ys where qs: "qs = xs @ t # ys" by (auto simp: in_set_conv_decomp)
  have q: "queued s (xs @ t # ys) fs" using i(1) by (simp add: sched_inv_def qs)
  from rq.move_ok [OF q, of "upd t f"] queued_upd [OF f(1,2)] e
  obtain s1 where m: "Task_pop t s = Inr s1" "task_data s1 = task_data s"
      "task_data s' = task_data (upd t f s1)"
      "queued s' (place (\<lambda>i. due (task_data (upd t f s1) i)) t (xs @ ys)) fs"
    by fastforce
  let ?qs = "place (\<lambda>i. due (task_data (upd t f s1) i)) t (xs @ ys)"
  have t: "t \<noteq> queueRoot" "t \<notin> set (xs @ ys)" using sched_invD(3,4) [OF i(1)] i(2) qs by auto
  have d1: "task_data s1 i = task_data s i" and d2: "task_data s' i = task_data (upd t f s1) i" for i
    by (simp_all add: m)
  have inv: "sched_inv s' ?qs fs"
    by (rule sched_inv_data [OF i(1) m(4)])
       (use d1 d2 t in \<open>auto simp: task_data_fields f qs fun_upd_def split: if_splits\<close>)
  have key: "(\<lambda>i. due (task_data (upd t f s1) i)) = due_of s'"
    using d2 by (simp add: fun_eq_iff task_data_fields due_def task_data_def Let_def)
  have "by_due base (due_of s) (xs @ ys)" using b(1) unfolding qs by (rule by_due_remove)
  then have "by_due base (due_of s') (xs @ ys)"
    using t d1 d2 by (subst by_due_cong [of _ _ "due_of s"]) (auto simp: task_data_fields)
  moreover have "runNext (node s' t) = runNext (f (node s1 t))" using d2 [of t] by (simp add: task_data_fields)
  then have "ahead base (runNext (node s' t)) < 2 ^ 31"
    using b(2) [of "node s1 t"] d1 [of t] by (simp add: task_data_fields)
  ultimately have "by_due base (due_of s') ?qs" using place_by_due [of base "due_of s'"] unfolding key by metis
  moreover have "set ?qs = set qs" by (auto simp: qs)
  ultimately show ?thesis using inv by blast
qed

lemma requeue_due:
  assumes i: "sched_inv s qs fs" "t \<in> set qs" and e: "Task_requeue now t s = Inr s'"
    and b: "by_due (window now) (due_of s) qs" "ahead (window now) (runNext (node s t)) < MAX_RAW_INTV"
      "runInterval (node s t) \<le> MAX_RAW_INTV"
  shows "\<exists>qs'. sched_inv s' qs' fs \<and> by_due (window now) (due_of s') qs'"
proof (cases "schedule (node s t) = Canceled")
  case True
  with assms show ?thesis by (auto simp: Task_requeue_def)
next
  case False
  let ?f = "\<lambda>k. k\<lparr>runNext := runInterval k + (if schedule k = Periodic then runNext k else now)\<rparr>"
  have w: "ahead (window now) (runNext (?f k)) < 2 ^ 31"
    if "runNext k = runNext (node s t)" "runInterval k = runInterval (node s t)" for k
    using that ahead_later [OF b(3)] ahead_periodic [OF b(2,3)] by (simp add: add.commute [of "runInterval (node s t)" now])
  from e False have "and_then (Task_pop t s) (\<lambda>s. Task_insert t (upd t ?f s)) = Inr s'" by (simp add: Task_requeue_def)
  from move_due [OF i _ _ _ _ b(1) _ this] w show ?thesis by fastforce
qed

lemma update_due:
  assumes i: "sched_inv s qs fs" and t: "t < poolSize" and e: "Task_update raw t s = Inr s'"
    and b: "by_due base (due_of s) qs" "ahead base raw < 2 ^ 31"
  shows "\<exists>qs' fs'. sched_inv s' qs' fs' \<and> by_due base (due_of s') qs'"
proof (cases "schedule (node s t)")
  case Canceled
  from update_inv [OF i t, of raw] e obtain qs' fs' where s': "sched_inv s' qs' fs'" by auto
  from Canceled t sched_invD(7) [OF i] have "t \<in> set qs" by simp
  then obtain xs ys where qs: "qs = xs @ t # ys" by (auto simp: in_set_conv_decomp)
  with pop_queued [of s xs t ys fs] sched_invD(1) [OF i] obtain s1 where s1: "Task_pop t s = Inr s1"
    "queued s1 (xs @ ys) fs" "task_data s1 = task_data s" by auto
  let ?f = "\<lambda>k. k\<lparr>schedule := Free, callback := NullCall, qPrev := None, qNext := taskFree s1\<rparr>"
  have s'_eq: "s' = (upd t ?f s1)\<lparr>taskFree := Some t\<rparr>" using e Canceled s1(1) by (simp add: Task_update_def)
  have n: "t \<notin> set (xs @ ys)" "t \<noteq> queueRoot" using sched_invD(3) [OF i] t by (auto simp: qs)
  have "path (node s') queueRoot (xs @ ys) queueRoot = path (node s1) queueRoot (xs @ ys) queueRoot"
    unfolding s'_eq using n by (intro path_cong) auto
  then have "path (node s') queueRoot (xs @ ys) queueRoot" using s1(2) by (simp add: queued_def)
  moreover have "path (node s') queueRoot qs' queueRoot" "queueRoot \<notin> set qs'"
    using sched_invD(1,4) [OF s'] by (simp_all add: queued_def)
  ultimately have eq: "qs' = xs @ ys" using path_unique sched_invD(4) [OF i] qs by fastforce
  have "task_data s1 i = task_data s i" for i by (simp add: s1)
  then have "by_due base (due_of s') (xs @ ys) = by_due base (due_of s) (xs @ ys)"
    using n by (intro by_due_cong) (auto simp: s'_eq task_data_fields)
  with by_due_remove b(1) qs s' eq show ?thesis by metis
next
  case Wake
  then have m: "t \<in> set qs" using sched_invD(7) [OF i] t by simp
  from Wake e have "and_then (Task_pop t s) (\<lambda>s. Task_insert t (upd t (\<lambda>k. k\<lparr>runNext := raw\<rparr>) s)) = Inr s'"
    by (simp add: Task_update_def)
  from move_due [OF i m _ _ _ _ b(1) _ this] b(2) show ?thesis by fastforce
qed (use i b e in \<open>auto simp: Task_update_def\<close>)

lemma fold_update_due:
  "sched_inv s qs fs \<Longrightarrow> \<forall>t \<in> set ts. t < poolSize \<and> ahead base (raws t) < 2 ^ 31 \<Longrightarrow> by_due base (due_of s) qs \<Longrightarrow>
   fold (\<lambda>t r. and_then r (Task_update (raws t) t)) ts (Inr s) = Inr s' \<Longrightarrow>
   \<exists>qs' fs'. sched_inv s' qs' fs' \<and> by_due base (due_of s') qs'"
proof (induction ts arbitrary: s qs fs)
  case (Cons t ts)
  from Cons.prems update_inv [of s qs fs t "raws t"] obtain s1 where s1: "Task_update (raws t) t s = Inr s1" by auto
  with update_due [OF Cons.prems(1) _ s1 Cons.prems(3)] Cons.prems(2) obtain qs1 fs1
    where "sched_inv s1 qs1 fs1" "by_due base (due_of s1) qs1" by auto
  with Cons.IH [of s1 qs1 fs1] Cons.prems s1 show ?case by simp
qed auto

lemma poll_due:
  assumes i: "sched_inv s qs fs" and e: "poll raws s = Inr s'" and b: "by_due (window now) (due_of s) qs"
    and r: "\<forall>t < poolSize. ahead (raws t) now < MAX_RAW_INTV"
  shows "\<exists>qs' fs'. sched_inv s' qs' fs' \<and> by_due (window now) (due_of s') qs'"
proof (cases "taskUpdate s")
  case True
  have r': "\<forall>t \<in> set [0 ..< poolSize]. t < poolSize \<and> ahead (window now) (raws t) < 2 ^ 31"
    using r ahead_earlier [of "raws _" now] by (fastforce simp del: upt_rec_numeral)
  have "sched_inv (s\<lparr>taskUpdate := False\<rparr>) qs fs" "by_due (window now) (due_of (s\<lparr>taskUpdate := False\<rparr>)) qs"
    using i b by simp_all
  from fold_update_due [OF this(1) r' this(2), of s'] e True show ?thesis
    by (simp add: poll_def update_pass_def del: upt_rec_numeral)
qed (use assms in \<open>auto simp: poll_def\<close>)


text \<open>No operation sets an interval above the limit.\<close>

definition intervals_ok :: "sched \<Rightarrow> bool" where
  "intervals_ok s \<longleftrightarrow> (\<forall>i. runInterval (node s i) \<le> MAX_RAW_INTV)"

lemma toMonoRaw_bound: "toMonoRaw f \<le> MAX_RAW_INTV"
proof -
  have "min (uint f) 144115188 * 125000000 div 2 ^ 24 \<le> 144115188 * 125000000 div 2 ^ 24"
    by (rule zdiv_mono1) simp_all
  then show ?thesis by (simp add: toMonoRaw_int word_le_def)
qed

lemma intervals_upd: "intervals_ok s \<Longrightarrow> runInterval (f (node s t)) \<le> MAX_RAW_INTV \<Longrightarrow> intervals_ok (upd t f s)"
  by (simp add: intervals_ok_def)

lemma intervals_same: "intervals_ok s \<Longrightarrow> (\<And>i. runInterval (node s' i) = runInterval (node s i)) \<Longrightarrow> intervals_ok s'"
  by (simp add: intervals_ok_def)

lemma intervals_flag: "intervals_ok (s\<lparr>taskUpdate := b\<rparr>) = intervals_ok s"
  by (simp add: intervals_ok_def)

lemma intervals_le: "intervals_ok s \<Longrightarrow> runInterval (node s i) \<le> MAX_RAW_INTV"
  by (simp add: intervals_ok_def)

lemma pop_interval: "Task_pop t s = Inr s' \<Longrightarrow> \<forall>i. runInterval (node s' i) = runInterval (node s i)"
  by (auto simp: Task_pop_def and_then_eq_Inr Let_def)

lemma insert_interval: "Task_insert t s = Inr s' \<Longrightarrow> \<forall>i. runInterval (node s' i) = runInterval (node s i)"
  by (auto simp: Task_insert_def and_then_eq_Inr Let_def)

lemma insert_intervals: "Task_insert t s = Inr s' \<Longrightarrow> intervals_ok s \<Longrightarrow> intervals_ok s'"
  using intervals_same insert_interval by blast

lemma cancel_walk_fields:
  "cancel_walk fuel P it s = Inr s' \<Longrightarrow> runInterval (node s' i) = runInterval (node s i) \<and> runNext (node s' i) = runNext (node s i)"
proof (induction fuel arbitrary: it s)
  case (Suc fuel)
  show ?case
  proof (cases "it = Some queueRoot")
    case False
    with Suc.prems obtain t where t: "cancel_walk fuel P (qNext (node s t)) (if P (node s t) then runCancel_task t s else s) = Inr s'"
      by (auto simp: and_then_eq_Inr Let_def)
    have "runInterval (node (if P (node s t) then runCancel_task t s else s) i) = runInterval (node s i)
      \<and> runNext (node (if P (node s t) then runCancel_task t s else s) i) = runNext (node s i)"
      by (simp add: runCancel_task_def Task_cancel_def)
    with Suc.IH [OF t] show ?thesis by metis
  qed (use Suc.prems in simp)
qed simp

lemma update_intervals: "Task_update raw t s = Inr s' \<Longrightarrow> intervals_ok s \<Longrightarrow> intervals_ok s'"
  by (auto simp: Task_update_def and_then_eq_Inr intervals_ok_def dest!: insert_interval pop_interval split: if_splits)

lemma requeue_intervals: "Task_requeue raw t s = Inr s' \<Longrightarrow> intervals_ok s \<Longrightarrow> intervals_ok s'"
  by (auto simp: Task_requeue_def and_then_eq_Inr intervals_ok_def dest!: insert_interval pop_interval split: if_splits)

lemma fold_update_intervals:
  "fold (\<lambda>t r. and_then r (Task_update (raws t) t)) ts r = Inr s' \<Longrightarrow> (\<And>s. r = Inr s \<Longrightarrow> intervals_ok s) \<Longrightarrow> intervals_ok s'"
  by (induction ts arbitrary: r) (fastforce simp: and_then_eq_Inr intro: update_intervals)+

lemma poll_intervals: "poll raws s = Inr s' \<Longrightarrow> intervals_ok s \<Longrightarrow> intervals_ok s'"
  using fold_update_intervals [of raws "[0 ..< poolSize]" "Inr (s\<lparr>taskUpdate := False\<rparr>)" s']
  by (auto simp: poll_def update_pass_def intervals_ok_def simp del: upt_rec_numeral split: if_splits)

lemma alloc_intervals: "Task_alloc s = Inr (t, s1) \<Longrightarrow> intervals_ok s \<Longrightarrow> intervals_ok s1"
  by (auto simp: Task_alloc_def intervals_ok_def new_task_def split: option.splits)

lemma call_intervals:
  assumes "call raw q s = Inr s'" "intervals_ok s"
  shows "intervals_ok s'"
proof (cases q)
  case (RunCancel cb ref)
  with assms cancel_walk_fields show ?thesis by (simp add: runCancel_def intervals_ok_def)
qed (use assms in \<open>auto simp: and_then_eq_Inr runWait_def runSleep_def runPeriodic_def Task_setWait_def Task_setSleep_def
      Task_setPeriodic_def runAdjust_def Task_setInterval_def runWake_def Task_wake_def toMonoRaw_bound intervals_flag intervals_le
      intro!: intervals_upd intro: insert_intervals alloc_intervals\<close>)

text \<open>Starting a task, and the other requests.\<close>

lemma alloc_data:
  assumes i: "sched_inv s qs fs" and a: "Task_alloc s = Inr (t, s1)"
    and f: "\<And>k. qNext (f k) = qNext k" "\<And>k. qPrev (f k) = qPrev k"
    and e: "Task_insert t (upd t f s1) = Inr s'"
  shows "\<exists>fs'. fs = t # fs' \<and> t \<notin> set qs \<and> queued s' (place (due_of s') t qs) fs'
    \<and> (\<forall>u. task_data s' u = task_data (upd t (\<lambda>_. f new_task) s) u)"
proof -
  from i have ch: "free_chain (node s) (taskFree s) fs" by (simp add: sched_inv_def queued_def)
  with a obtain fs' where fs: "fs = t # fs'" "taskFree s = Some t" by (cases fs) (auto simp: Task_alloc_def)
  with a have s1: "s1 = upd t (\<lambda>_. new_task) (s\<lparr>taskFree := qNext (node s t)\<rparr>)" by (simp add: Task_alloc_def)
  note inv = sched_invD [OF i]
  have t: "t \<notin> set qs" "t \<notin> set fs'" "t < poolSize" using inv(1,3) fs by (auto simp: queued_def)
  have "path (node s1) queueRoot qs queueRoot = path (node s) queueRoot qs queueRoot"
    using t by (intro path_cong) (auto simp: s1)
  moreover have "free_chain (node s1) p fs' = free_chain (node s) p fs'" for p
    using t by (intro free_chain_cong) (auto simp: s1)
  ultimately have "queued s1 qs fs'" using inv(1) fs ch by (auto simp: queued_def s1)
  then have "queued (upd t f s1) qs fs'" by (simp only: queued_upd [OF f])
  from insert_queued [OF this, of t] t e have p: "queued s' (place (due_of (upd t f s1)) t qs) fs'" "task_data s' = task_data (upd t f s1)"
    by auto
  have d: "task_data s' u = task_data (upd t f s1) u" for u by (simp add: p)
  then have "due_of s' = due_of (upd t f s1)" by (simp add: fun_eq_iff task_data_fields)
  moreover have "task_data (upd t f s1) u = task_data (upd t (\<lambda>_. f new_task) s) u" for u
    unfolding task_data_fields by (simp add: s1)
  ultimately show ?thesis using fs t p(1) d by auto
qed

lemma alloc_due:
  assumes i: "sched_inv s qs fs" and a: "Task_alloc s = Inr (t, s1)"
    and f: "\<And>k. qNext (f k) = qNext k" "\<And>k. qPrev (f k) = qPrev k"
      "\<And>k. schedule (f k) \<noteq> Free" "\<And>k. callback (f k) \<noteq> NullCall"
    and b: "by_due base (due_of s) qs" "\<And>k. ahead base (runNext (f k)) < 2 ^ 31"
    and e: "Task_insert t (upd t f s1) = Inr s'"
  shows "\<exists>qs' fs'. sched_inv s' qs' fs' \<and> by_due base (due_of s') qs' \<and> (\<forall>u \<in> set qs. due_of s' u = due_of s u)"
proof -
  from alloc_inv [OF i a, of f] f e obtain qs' fs' where s': "sched_inv s' qs' fs'" by auto
  from alloc_data [OF i a f(1,2) e] obtain fs2 where p: "t \<notin> set qs" "queued s' (place (due_of s') t qs) fs2"
    "\<forall>u. task_data s' u = task_data (upd t (\<lambda>_. f new_task) s) u" by blast
  have d: "\<forall>u \<in> set qs. due_of s' u = due_of s u" using p(1,3) by (auto simp: task_data_fields)
  have "qs' = place (due_of s') t qs" by (rule queued_unique [OF sched_invD(1) [OF s'] p(2)])
  moreover have "by_due base (due_of s') qs" using d b(1) by (subst by_due_cong [of _ _ "due_of s"]) auto
  moreover have "ahead base (due_of s' t) < 2 ^ 31" using p(3) b(2) by (simp add: task_data_fields)
  ultimately have "by_due base (due_of s') qs'" by (simp only: place_sorted)
  then show ?thesis using s' d by blast
qed

lemma call_due:
  assumes i: "sched_inv s qs fs" and v: "valid_request s q" and e: "call now q s = Inr s'"
    and b: "by_due (window now) (due_of s) qs"
  shows "\<exists>qs' fs'. sched_inv s' qs' fs' \<and> by_due (window now) (due_of s') qs' \<and> (\<forall>u \<in> set qs. due_of s' u = due_of s u)"
proof -
  have same: ?thesis if "sched_inv s' qs fs" "\<And>i. runNext (node s' i) = runNext (node s i)"
    using that b by (intro exI conjI) simp_all
  have w: "ahead (window now) (now + toMonoRaw d) < 2 ^ 31" "ahead (window now) (now + MAX_RAW_INTV) < 2 ^ 31" for d
    using ahead_later toMonoRaw_bound by auto
  note al = alloc_due [OF i _ _ _ _ _ b]
  show ?thesis
  proof (cases q)
    case (RunWait cb ref)
    then obtain t s1 where "Task_alloc s = Inr (t, s1)" "Task_insert t (upd t (\<lambda>k. k\<lparr>schedule := Sleep, callback := cb, reference := ref,
       runInterval := MAX_RAW_INTV, runNext := now + MAX_RAW_INTV\<rparr>) s1) = Inr s'" "cb \<noteq> NullCall"
      using e v by (auto simp: and_then_eq_Inr runWait_def Task_setWait_def)
    from al [OF this(1) _ _ _ _ _ this(2)] this(3) w show ?thesis by auto
  next
    case (RunSleep d cb ref)
    then obtain t s1 where "Task_alloc s = Inr (t, s1)" "Task_insert t (upd t (\<lambda>k. k\<lparr>schedule := Sleep, callback := cb, reference := ref,
       runInterval := toMonoRaw d, runNext := now + toMonoRaw d\<rparr>) s1) = Inr s'" "cb \<noteq> NullCall"
      using e v by (auto simp: and_then_eq_Inr runSleep_def Task_setSleep_def)
    from al [OF this(1) _ _ _ _ _ this(2)] this(3) w show ?thesis by auto
  next
    case (RunPeriodic d cb ref)
    then obtain t s1 where "Task_alloc s = Inr (t, s1)" "Task_insert t (upd t (\<lambda>k. k\<lparr>schedule := Periodic, callback := cb, reference := ref,
       runInterval := toMonoRaw d, runNext := now + toMonoRaw d\<rparr>) s1) = Inr s'" "cb \<noteq> NullCall"
      using e v by (auto simp: and_then_eq_Inr runPeriodic_def Task_setPeriodic_def)
    from al [OF this(1) _ _ _ _ _ this(2)] this(3) w show ?thesis by auto
  next
    case (RunCancel cb ref)
    with runCancel_inv [OF i, of cb ref] e have "sched_inv s' qs fs" "runCancel cb ref s = Inr s'" by auto
    moreover have "runNext (node s' i) = runNext (node s i)" for i
      using calculation(2) cancel_walk_fields by (simp add: runCancel_def)
    ultimately show ?thesis using same by blast
  next
    case (RunAdjust t d)
    with v sched_invD(7) [OF i] have t: "t \<in> set qs" by simp
    have "sched_inv (upd t (\<lambda>k. k\<lparr>runInterval := toMonoRaw d\<rparr>) s) qs fs"
      by (rule sched_inv_upd [OF i]) (use sched_invD(6) [OF i] t in auto)
    moreover have s': "s' = upd t (\<lambda>k. k\<lparr>runInterval := toMonoRaw d\<rparr>) s" using RunAdjust e by (simp add: runAdjust_def Task_setInterval_def)
    ultimately have "sched_inv s' qs fs" by simp
    moreover have "runNext (node s' i) = runNext (node s i)" for i by (simp add: s')
    ultimately show ?thesis using same by blast
  next
    case (RunWake t)
    with v sched_invD(7) [OF i] have t: "t \<in> set qs" by simp
    have "sched_inv (upd t (\<lambda>k. k\<lparr>schedule := Wake\<rparr>) s) qs fs"
      by (rule sched_inv_upd [OF i]) (use sched_invD(6) [OF i] t in auto)
    moreover have s': "s' = (upd t (\<lambda>k. k\<lparr>schedule := Wake\<rparr>) s)\<lparr>taskUpdate := True\<rparr>" using RunWake e by (simp add: runWake_def Task_wake_def)
    ultimately have "sched_inv s' qs fs" by simp
    moreover have "runNext (node s' i) = runNext (node s i)" for i by (simp add: s')
    ultimately show ?thesis using same by blast
  qed
qed


subsection \<open>The invariant of timed runs\<close>

text \<open>The queue is sorted in the window, intervals are limited, and a running task is not due in the future.\<close>

definition timed_inv :: "u32 \<Rightarrow> phase \<Rightarrow> sched \<Rightarrow> bool" where
  "timed_inv now ph s \<longleftrightarrow> (\<exists>qs fs. inv_at ph s qs fs \<and> by_due (window now) (due_of s) qs) \<and> intervals_ok s
     \<and> (\<forall>t. ph = Running t \<longrightarrow> ahead (window now) (runNext (node s t)) < MAX_RAW_INTV)"

lemma timely_shift:
  assumes "sched_inv s qs fs" "by_due (window now) (due_of s) qs" "timely now now' s"
  shows "by_due (window now') (due_of s) qs"
proof (rule by_due_shift [OF assms(2)])
  show "\<forall>t \<in> set qs. ahead now now' \<le> ahead (window now) (runNext (node s t))"
    using assms(3) sched_invD(7) [OF assms(1)] by (auto simp: timely_def list_all_iff)
qed

lemma timely_ahead:
  assumes "timely now now' s" "t < poolSize" "schedule (node s t) \<noteq> Free"
  shows "ahead (window now') (runNext (node s t)) \<le> ahead (window now) (runNext (node s t))"
proof -
  have "ahead now now' \<le> ahead (window now) (runNext (node s t))" using assms by (auto simp: timely_def list_all_iff)
  from ahead_shift [OF this] show ?thesis by simp
qed

lemma ready_ahead:
  assumes "ahead (window now) x < 2 ^ 31"
  shows "0 \<le> sint (now - x) \<longleftrightarrow> ahead (window now) x < MAX_RAW_INTV"
proof -
  have n: "ahead (window now) now = 1073741823" by (simp add: ahead_def diff_diff_eq2)
  have "0 \<le> sint (now - x) \<longleftrightarrow> ahead (window now) x \<le> ahead (window now) now"
    by (rule due_compare [OF _ assms]) (simp only: n, simp)
  then show ?thesis unfolding n by auto
qed

lemma timed_step_inv:
  assumes "timed_step now (ph, s) now' (ph', s')" "timed_inv now ph s"
  shows "timed_inv now' ph' s'"
proof -
  from assms(2) obtain qs fs where i: "inv_at ph s qs fs" and si: "sched_inv s qs fs" and b: "by_due (window now) (due_of s) qs"
    and iv: "intervals_ok s" and r: "\<And>t. ph = Running t \<Longrightarrow> ahead (window now) (runNext (node s t)) < MAX_RAW_INTV \<and> t \<in> set qs"
    by (auto simp: timed_inv_def inv_at_def)
  from assms(1) show ?thesis
  proof (cases rule: timed_step.cases)
    case (timed_poll raws)
    from poll_due [OF si timed_poll(3) timely_shift [OF si b timed_poll(4)]] timed_poll(5) obtain qs' fs'
      where "sched_inv s' qs' fs'" "by_due (window now') (due_of s') qs'" by auto
    with poll_intervals [OF timed_poll(3) iv] timed_poll(2) show ?thesis by (auto simp: timed_inv_def inv_at_def)
  next
    case timed_dispatch
    note b' = timely_shift [OF si b timed_dispatch(3)]
    from dispatch_inv [OF si, of now'] timed_dispatch(2) have i': "inv_at ph' s' qs fs" by auto
    have n: "runNext (node s' t) = runNext (node s t)" "runInterval (node s' t) = runInterval (node s t)" for t
      using timed_dispatch(2) by (auto simp: dispatch_def and_then_eq_Inr Task_run_def Let_def split: if_splits prod.splits)
    have "ahead (window now') (runNext (node s' t)) < MAX_RAW_INTV" if "ph' = Running t" for t
    proof -
      have "t \<in> set qs" using i' that by (simp add: inv_at_def)
      moreover have "Task_isReady now' t s"
        using timed_dispatch(2) that by (auto simp: dispatch_def and_then_eq_Inr Let_def split: if_splits prod.splits)
      ultimately show ?thesis using ready_ahead b' by (auto simp: Task_isReady_def n by_due_def)
    qed
    with i' b' iv n show ?thesis by (auto simp: timed_inv_def intervals_ok_def)
  next
    case (timed_requeue t)
    have t: "t \<in> set qs" "t < poolSize" "schedule (node s t) \<noteq> Free" "ahead (window now) (runNext (node s t)) < MAX_RAW_INTV"
      using r [OF timed_requeue(1)] sched_invD(7) [OF si] by auto
    have a: "ahead (window now') (runNext (node s t)) < MAX_RAW_INTV"
      using timely_ahead [OF timed_requeue(4) t(2,3)] t(4) by simp
    from requeue_due [OF si t(1) timed_requeue(3) timely_shift [OF si b timed_requeue(4)] a] iv
    obtain qs' where "sched_inv s' qs' fs" "by_due (window now') (due_of s') qs'" by (auto simp: intervals_ok_def)
    with requeue_intervals [OF timed_requeue(3) iv] timed_requeue(2) show ?thesis by (auto simp: timed_inv_def inv_at_def)
  next
    case (timed_request q)
    note b' = timely_shift [OF si b timed_request(4)]
    from call_due [OF si timed_request(2,3) b'] obtain qs' fs' where
      s': "sched_inv s' qs' fs'" "by_due (window now') (due_of s') qs'" "\<forall>u \<in> set qs. due_of s' u = due_of s u" by blast
    have "t \<in> set qs' \<and> ahead (window now') (runNext (node s' t)) < MAX_RAW_INTV" if "ph = Running t" for t
    proof
      have t: "t \<in> set qs" "t < poolSize" "schedule (node s t) \<noteq> Free" using r [OF that] sched_invD(7) [OF si] by auto
      from request_inv [OF si timed_request(2), of now'] timed_request(3) obtain qs2 fs2
        where q2: "sched_inv s' qs2 fs2" "set qs \<subseteq> set qs2" by auto
      with t(1) queued_unique [OF sched_invD(1) [OF q2(1)] sched_invD(1) [OF s'(1)]] show "t \<in> set qs'" by auto
      have "runNext (node s' t) = runNext (node s t)" using s'(3) t(1) by blast
      then show "ahead (window now') (runNext (node s' t)) < MAX_RAW_INTV"
        using timely_ahead [OF timed_request(4) t(2,3)] r [OF that] by simp
    qed
    with s' call_intervals [OF timed_request(3) iv] timed_request(1) show ?thesis by (auto simp: timed_inv_def inv_at_def)
  qed
qed

lemma timed_reach_inv: "timed_reach now c \<Longrightarrow> timed_inv now (fst c) (snd c)"
proof (induction rule: timed_reach.induct)
  case (timed_init now)
  have "intervals_ok (initScheduler zeroed)"
    by (auto simp: intervals_ok_def initScheduler_def Let_def node_link_pool [simplified] zeroed_def zero_task_def)
  then show ?case using boot_inv by (auto simp: timed_inv_def by_due_def simp del: upt_rec_numeral intro!: exI)
next
  case (timed_next now c now' c')
  then show ?case using timed_step_inv by (metis prod.collapse)
qed


abbreviation (input) enqueued :: "sched \<Rightarrow> nat \<Rightarrow> bool" where
  "enqueued s t \<equiv> t < poolSize \<and> schedule (node s t) \<noteq> Free"

lemma sint_ahead:
  assumes "ahead (window now) x < 2 ^ 31"
  shows "sint (x - now) = int (ahead (window now) x) - 1073741823"
proof -
  have e: "x - now = word_of_int (uint (x - window now) - 1073741823)" by simp
  have a: "int (ahead (window now) x) = uint (x - window now)" by (simp only: ahead_def uint_nat)
  with assms have "0 \<le> uint (x - window now)" "uint (x - window now) < 2147483648" by simp_all
  then show ?thesis unfolding a by (subst e) (simp only: sint_of_int_32)
qed

lemma timed_dispatch_head:
  assumes "timed_reach now (Dispatch, s)" "timely now raw s" "\<exists>t. enqueued s t"
  shows "(\<exists>t s'. dispatch raw s = Inr (Running t, s') \<and> enqueued s t \<and> Task_isReady raw t s
        \<and> (\<forall>u. enqueued s u \<longrightarrow> sint (runNext (node s t) - raw) \<le> sint (runNext (node s u) - raw)))
    \<or> dispatch raw s = Inr (Poll, s) \<and> (\<forall>u. enqueued s u \<longrightarrow> \<not> Task_isReady raw u s)"
proof -
  from timed_reach_inv [OF assms(1)] obtain qs fs where i: "sched_inv s qs fs" and b0: "by_due (window now) (due_of s) qs"
    by (auto simp: timed_inv_def inv_at_def)
  note b = timely_shift [OF i b0 assms(2)] and q = sched_invD(7) [OF i]
  have m: "ahead (window raw) raw < 2 ^ 31" by (simp add: ahead_def diff_diff_eq2)
  have e: "sint (runNext (node s u) - raw) = int (ahead (window raw) (runNext (node s u))) - 1073741823" if "u \<in> set qs" for u
    by (rule sint_ahead) (use b that in \<open>simp add: by_due_def\<close>)
  from assms(3) obtain u where "u \<in> set qs" by (auto simp only: q)
  then have "qs \<noteq> []" by auto
  with dispatch_inv [OF i, of raw] obtain ph s' where d: "dispatch raw s = Inr (ph, s')" "ph \<noteq> Dispatch" by auto
  note h = dispatch_head [OF i b m]
  show ?thesis
  proof (cases ph)
    case Poll
    with h(2) [of s'] d q show ?thesis by auto
  next
    case (Running t)
    with h(1) [of t s'] d have t: "t \<in> set qs" "Task_isReady raw t s"
      "\<And>u. u \<in> set qs \<Longrightarrow> ahead (window raw) (runNext (node s t)) \<le> ahead (window raw) (runNext (node s u))" by auto
    with q d Running e [OF t(1)] e show ?thesis by auto
  qed (use d in simp)
qed

lemma woken_in_queue:
  assumes "timed_reach now (Poll, s)" "t < poolSize" "schedule (node s t) = Wake" "taskUpdate s"
    "timely now now' s" "\<forall>u < poolSize. ahead (raws u) now' < MAX_RAW_INTV"
  shows "\<exists>s' xs ys. poll raws s = Inr s' \<and> path (node s') queueRoot (xs @ t # ys) queueRoot \<and> runNext (node s' t) = raws t
    \<and> schedule (node s' t) = Wake \<and> callback (node s' t) = callback (node s t) \<and> reference (node s' t) = reference (node s t)
    \<and> (\<forall>u \<in> set xs. sint (runNext (node s' u) - now') \<le> sint (raws t - now')) \<and> callback (node s t) \<noteq> NullCall
    \<and> Task_isReady now' t s'"
proof -
  from timed_reach_inv [OF assms(1)] obtain qs fs where i: "sched_inv s qs fs" and b0: "by_due (window now) (due_of s) qs"
    by (auto simp: timed_inv_def inv_at_def)
  note b = timely_shift [OF i b0 assms(5)]
  from poll_inv [OF i] obtain s' where s': "poll raws s = Inr s'" by blast
  from poll_due [OF i s' b assms(6)] obtain qs' fs' where i': "sched_inv s' qs' fs'" and b': "by_due (window now') (due_of s') qs'" by blast
  have f: "fold (\<lambda>t r. and_then r (Task_update (raws t) t)) [0 ..< poolSize] (Inr (s\<lparr>taskUpdate := False\<rparr>)) = Inr s'"
    using s' assms(4) by (simp add: poll_def update_pass_def del: upt_rec_numeral)
  have "sched_inv (s\<lparr>taskUpdate := False\<rparr>) qs fs" using i by simp
  from fold_update_data(2) [OF this _ _ f, of t] assms(2,3) have d: "schedule (node s' t) = Wake"
    "callback (node s' t) = callback (node s t)" "reference (node s' t) = reference (node s t)" "runNext (node s' t) = raws t"
    by (simp_all del: upt_rec_numeral)
  have "t \<in> set qs'" using sched_invD(7) [OF i'] d(1) assms(2) by simp
  then obtain xs ys where qs': "qs' = xs @ t # ys" by (auto simp: in_set_conv_decomp)
  have "path (node s') queueRoot (xs @ t # ys) queueRoot" using sched_invD(1) [OF i'] by (simp add: queued_def qs')
  moreover have "sint (runNext (node s' u) - now') \<le> sint (raws t - now')" if "u \<in> set xs" for u
  proof -
    have "ahead (window now') (runNext (node s' u)) \<le> ahead (window now') (runNext (node s' t))"
      "ahead (window now') (runNext (node s' t)) < 2 ^ 31" "ahead (window now') (runNext (node s' u)) < 2 ^ 31"
      using b' that by (auto simp: by_due_def qs' sorted_append)
    then show ?thesis using sint_ahead by (simp add: d(4))
  qed
  moreover have "Task_isReady now' t s'"
  proof -
    have "ahead (raws t) now' < MAX_RAW_INTV" using assms(2,6) by blast
    from ahead_earlier [OF this] have a: "ahead (window now') (raws t) < MAX_RAW_INTV" .
    then have "ahead (window now') (raws t) < 2 ^ 31" by simp
    from ready_ahead [OF this] a show ?thesis by (simp only: Task_isReady_def d(4))
  qed
  moreover have "callback (node s t) \<noteq> NullCall" using sched_invD(6,7) [OF i] assms(2,3) by simp
  ultimately show ?thesis using s' d by blast
qed


section \<open>Properties\<close>

text \<open>
  C2: The scheduler is memory safe and loses no task. In every state that the scheduler loop,
  its callbacks and the interrupt handlers can reach from the zeroed static storage, the 32 pool
  nodes are split between the run queue and the free stack, and the next step, whatever it is,
  succeeds in a state with the same property. It can stop in two ways only: a task is requested
  when no node is free (the deliberate \<open>faultBlink\<close>), or the loop dispatches an empty queue.
\<close>
theorem scheduler_safe:
  assumes "sched_reach zeroed (ph, s)" "sched_step (ph, s) r"
  shows "\<exists>qs fs. inv_at ph s qs fs \<and> safe_result ph qs fs r"
  using reach_inv [OF assms(1)] step_inv [OF assms(2)] by fastforce

theorem scheduler_safe_witness:
  "\<exists>qs fs. inv_at Poll (initScheduler zeroed) qs fs
    \<and> safe_result Poll qs fs (at_phase Poll (call 100 (RunPeriodic 5 (Call 0x8000) 0) (initScheduler zeroed)))"
  by (rule scheduler_safe [OF reach_init], rule step_request) simp

text \<open>
  C7: \<open>insert\<close> implements the ordered queue of its abstract description. Given the due times lie
  within half the timer range of each other, it finds, across the wrap-around of the timer, the
  place after every task due no later and before every task due later, links the task there, and
  changes no task's data. Tasks with the same due time run in the order of their insertion.
\<close>
theorem insert_ordered:
  assumes "queued s qs fs" "t < poolSize" "t \<notin> set (qs @ fs)"
    "by_due base (\<lambda>i. runNext (node s i)) qs" "ahead base (runNext (node s t)) < 2 ^ 31"
  shows "\<exists>s' xs ys. Task_insert t s = Inr s' \<and> qs = xs @ ys \<and> queued s' (xs @ t # ys) fs
    \<and> task_data s' = task_data s \<and> by_due base (\<lambda>i. runNext (node s' i)) (xs @ t # ys)
    \<and> (\<forall>x \<in> set xs. ahead base (runNext (node s x)) \<le> ahead base (runNext (node s t)))
    \<and> (\<forall>y \<in> set ys. ahead base (runNext (node s t)) < ahead base (runNext (node s y)))"
proof -
  from insert_queued [OF assms(1-3)] obtain s' where s': "Task_insert t s = Inr s'"
    "queued s' (place (\<lambda>i. runNext (node s i)) t qs) fs" "task_data s' = task_data s" by blast
  from place_by_due [OF assms(4,5)] obtain xs ys where p: "qs = xs @ ys"
    "place (\<lambda>i. runNext (node s i)) t qs = xs @ t # ys" "by_due base (\<lambda>i. runNext (node s i)) (xs @ t # ys)"
    "\<forall>x \<in> set xs. ahead base (runNext (node s x)) \<le> ahead base (runNext (node s t))"
    "\<forall>y \<in> set ys. ahead base (runNext (node s t)) < ahead base (runNext (node s y))" by blast
  have "task_data s' i = task_data s i" for i by (simp add: s')
  then have "(\<lambda>i. runNext (node s' i)) = (\<lambda>i. runNext (node s i))" by (simp add: task_data_fields)
  with s' p show ?thesis by metis
qed

definition two_tasks :: sched where
  "two_tasks = \<lparr>node = (\<lambda>i. zero_task)
     (queueRoot := zero_task\<lparr>qNext := Some 0, qPrev := Some 1\<rparr>,
      0 := zero_task\<lparr>qNext := Some 1, qPrev := Some queueRoot, runNext := - 10\<rparr>,
      1 := zero_task\<lparr>qNext := Some queueRoot, qPrev := Some 0, runNext := 20\<rparr>,
      2 := zero_task\<lparr>runNext := 5\<rparr>), taskFree = None, taskUpdate = False\<rparr>"

theorem insert_ordered_witness:
  "\<exists>s' xs ys. Task_insert 2 two_tasks = Inr s' \<and> [0, 1] = xs @ ys \<and> queued s' (xs @ 2 # ys) []
    \<and> task_data s' = task_data two_tasks \<and> by_due (- 100) (\<lambda>i. runNext (node s' i)) (xs @ 2 # ys)
    \<and> (\<forall>x \<in> set xs. ahead (- 100) (runNext (node two_tasks x)) \<le> ahead (- 100) (runNext (node two_tasks 2)))
    \<and> (\<forall>y \<in> set ys. ahead (- 100) (runNext (node two_tasks 2)) < ahead (- 100) (runNext (node two_tasks y)))"
  by (rule insert_ordered) (simp_all add: two_tasks_def queued_def by_due_def ahead_def)

text \<open>
  C21: The dispatcher is earliest-due-first and misses nobody. In every state that a run of the scheduler loop, its
  callbacks and the interrupts reaches, provided only that no queued task is ever kept waiting until it is 8.6
  seconds late, the task it starts is due and no queued task was due earlier, and when it starts none, no queued task
  is due. That the queue is sorted is proved: by the insertions of every request, requeue and wake-up of the run.
\<close>
theorem dispatch_earliest:
  assumes "timed_reach now (Dispatch, s)" "timely now raw s" "\<exists>t. enqueued s t"
  shows "(\<exists>t s'. dispatch raw s = Inr (Running t, s') \<and> enqueued s t \<and> Task_isReady raw t s
        \<and> (\<forall>u. enqueued s u \<longrightarrow> sint (runNext (node s t) - raw) \<le> sint (runNext (node s u) - raw)))
    \<or> dispatch raw s = Inr (Poll, s) \<and> (\<forall>u. enqueued s u \<longrightarrow> \<not> Task_isReady raw u s)"
  using assms by (rule timed_dispatch_head)

lemma pool_cons: "[0 ..< poolSize] = 0 # [1 ..< poolSize]"
  unfolding One_nat_def by (rule upt_conv_Cons) simp

lemma start_boot:
  assumes "cb \<noteq> NullCall"
    "r = runWait raw cb ref (initScheduler zeroed) \<or> r = runSleep raw d cb ref (initScheduler zeroed)
      \<or> r = runPeriodic raw d cb ref (initScheduler zeroed)"
  obtains s' where "r = Inr (0, s')" "sched_inv s' [0] [1 ..< poolSize]"
proof -
  have "sched_inv (initScheduler zeroed) [] (0 # [1 ..< poolSize])"
    using boot_inv unfolding inv_at_def pool_cons by blast
  from start_inv [OF this assms] obtain s' qs' where s': "r = Inr (0, s')"
    "sched_inv s' qs' [1 ..< poolSize]" "set qs' = {0}" by auto
  moreover have "distinct qs'" using sched_invD(3) [OF s'(2)] by simp
  with s'(3) have "qs' = [0]" by (cases qs'; cases "tl qs'") auto
  ultimately show ?thesis using that by blast
qed

definition one_sleeper :: sched where
  "one_sleeper = snd (projr (runSleep 100 RUN_MAX (Call 1) 0 (initScheduler zeroed)))"

lemma one_sleeper_inv: "sched_inv one_sleeper [0] [1 ..< poolSize]"
  by (rule start_boot [of "Call 1" "runSleep 100 RUN_MAX (Call 1) 0 (initScheduler zeroed)" 100 0 RUN_MAX])
     (simp_all add: one_sleeper_def)

definition long_sleeper :: sched where
  "long_sleeper = projr (call 1000 (RunSleep 0x01000000 (Call 1) 0) (initScheduler zeroed))"

definition two_sleepers :: sched where
  "two_sleepers = projr (call 1500 (RunSleep 0x00010000 (Call 2) 0) long_sleeper)"

lemma sleep_data:
  assumes "sched_inv s qs fs" "call raw (RunSleep d (Call c) ref) s = Inr s'"
  shows "\<exists>t fs'. fs = t # fs' \<and> schedule (node s' u) = (if u = t then Sleep else schedule (node s u))
    \<and> runNext (node s' u) = (if u = t then raw + toMonoRaw d else runNext (node s u))"
proof -
  from assms(2) obtain t s1 where a: "Task_alloc s = Inr (t, s1)" "Task_insert t (upd t (\<lambda>k. k\<lparr>schedule := Sleep, callback := Call c, reference := ref,
       runInterval := toMonoRaw d, runNext := raw + toMonoRaw d\<rparr>) s1) = Inr s'"
    by (auto simp: and_then_eq_Inr runSleep_def Task_setSleep_def)
  from alloc_data [OF assms(1) a(1) _ _ a(2)] show ?thesis by (auto simp: task_data_fields)
qed

lemma timelyI:
  "(\<And>t. enqueued s t \<Longrightarrow> ahead now now' \<le> ahead (window now) (runNext (node s t))) \<Longrightarrow> timely now now' s"
  by (auto simp: timely_def list_all_iff simp del: upt_rec_numeral)

lemma long_sleeper:
  "call 1000 (RunSleep 0x01000000 (Call 1) 0) (initScheduler zeroed) = Inr long_sleeper"
  "sched_inv long_sleeper [0] [1 ..< poolSize]"
  "schedule (node long_sleeper u) = (if u = 0 then Sleep else Free)"
  "runNext (node long_sleeper u) = (if u = 0 then 125001000 else 0)"
proof -
  obtain s' where s': "runSleep 1000 0x01000000 (Call 1) 0 (initScheduler zeroed) = Inr (0, s')" "sched_inv s' [0] [1 ..< poolSize]"
    by (rule start_boot [where cb = "Call 1" and r = "runSleep 1000 0x01000000 (Call 1) 0 (initScheduler zeroed)"
        and raw = 1000 and ref = 0 and d = "0x01000000"]) simp_all
  then show c: "call 1000 (RunSleep 0x01000000 (Call 1) 0) (initScheduler zeroed) = Inr long_sleeper"
    and "sched_inv long_sleeper [0] [1 ..< poolSize]" by (simp_all add: long_sleeper_def)
  have i: "sched_inv (initScheduler zeroed) [] (0 # [1 ..< poolSize])" using boot_inv unfolding inv_at_def pool_cons by blast
  have z: "schedule (node (initScheduler zeroed) u) = Free" "runNext (node (initScheduler zeroed) u) = 0"
    by (simp_all add: initScheduler_def Let_def node_link_pool [simplified] zeroed_def zero_task_def)
  from sleep_data [OF i c, of u] z show "schedule (node long_sleeper u) = (if u = 0 then Sleep else Free)"
    "runNext (node long_sleeper u) = (if u = 0 then 125001000 else 0)" by (auto simp: toMonoRaw_def RUN_MAX_val)
qed

lemma two_sleepers:
  "call 1500 (RunSleep 0x00010000 (Call 2) 0) long_sleeper = Inr two_sleepers"
  "schedule (node two_sleepers u) = (if u \<le> 1 then Sleep else Free)"
  "runNext (node two_sleepers u) = (if u = 0 then 125001000 else if u = 1 then 489781 else 0)"
proof -
  have f: "[1 ..< poolSize] = 1 # [2 ..< poolSize]" by (simp add: upt_conv_Cons del: upt_rec_numeral)
  note i = long_sleeper(2) [unfolded f]
  from start_inv [OF i, where cb = "Call 2" and r = "runSleep 1500 0x00010000 (Call 2) 0 long_sleeper" and raw = 1500 and ref = 0
      and d = "0x00010000"]
  obtain s' where "runSleep 1500 0x00010000 (Call 2) 0 long_sleeper = Inr (1, s')" by auto
  then show c: "call 1500 (RunSleep 0x00010000 (Call 2) 0) long_sleeper = Inr two_sleepers" by (simp add: two_sleepers_def)
  from sleep_data [OF i c, of u] long_sleeper(3,4) [of u] show "schedule (node two_sleepers u) = (if u \<le> 1 then Sleep else Free)"
    "runNext (node two_sleepers u) = (if u = 0 then 125001000 else if u = 1 then 489781 else 0)"
    by (auto simp: toMonoRaw_def RUN_MAX_val)
qed

lemma two_sleepers_timely: "timely 1500 2000 two_sleepers" "timely 2000 500000 two_sleepers"
  by (rule timelyI; simp add: two_sleepers(2,3) ahead_def split: if_splits)+

lemma sleep_flag: "call raw (RunSleep d cb ref) s = Inr s' \<Longrightarrow> taskUpdate s' = taskUpdate s"
  by (auto simp: and_then_eq_Inr runSleep_def Task_setSleep_def Task_alloc_def Task_insert_def Let_def split: option.splits)

lemma flag_link_pool:
  "taskUpdate (fold (\<lambda>i. upd (i - 1) (\<lambda>k. k\<lparr>qNext := Some i\<rparr>)) is s) = taskUpdate s"
  by (induction "is" arbitrary: s) auto

lemma two_sleepers_reach: "timed_reach 1500 (Poll, two_sleepers)"
proof -
  have t: "timely 1000 1000 (initScheduler zeroed)" "timely 1000 1500 long_sleeper"
    by (rule timelyI; simp add: long_sleeper(3,4) ahead_def split: if_splits)+
  have "timed_reach 1000 (Poll, long_sleeper)"
    by (rule timed_next [OF timed_init timed_request [OF _ long_sleeper(1) t(1)]]) simp
  from timed_next [OF this timed_request [OF _ two_sleepers(1) t(2)]] show ?thesis by simp
qed

lemma two_sleepers_dispatch: "timed_reach 2000 (Dispatch, two_sleepers)"
proof -
  have "\<not> taskUpdate (initScheduler zeroed)"
    by (simp add: initScheduler_def Let_def flag_link_pool [simplified] zeroed_def)
  then have "\<not> taskUpdate two_sleepers"
    using sleep_flag [OF long_sleeper(1)] sleep_flag [OF two_sleepers(1)] by simp
  then have p: "poll (\<lambda>_. 2000) two_sleepers = Inr two_sleepers" by (simp add: poll_def)
  show ?thesis
    by (rule timed_next [OF two_sleepers_reach timed_poll [OF p]]) (simp_all add: two_sleepers_timely ahead_def)
qed

theorem dispatch_earliest_witness:
  "(\<exists>t s'. dispatch 500000 two_sleepers = Inr (Running t, s') \<and> enqueued two_sleepers t \<and> Task_isReady 500000 t two_sleepers
        \<and> (\<forall>u. enqueued two_sleepers u \<longrightarrow>
            sint (runNext (node two_sleepers t) - 500000) \<le> sint (runNext (node two_sleepers u) - 500000)))
    \<or> dispatch 500000 two_sleepers = Inr (Poll, two_sleepers) \<and> (\<forall>u. enqueued two_sleepers u \<longrightarrow> \<not> Task_isReady 500000 u two_sleepers)"
proof (rule dispatch_earliest [OF two_sleepers_dispatch])
  show "timely 2000 500000 two_sleepers" by (simp add: two_sleepers_timely)
  have "enqueued two_sleepers 1" by (simp add: two_sleepers(2))
  then show "\<exists>t. enqueued two_sleepers t" by blast
qed

text \<open>
  Periodic tasks do not drift. Requeued any number of times, at whatever late times \<open>raws\<close> the
  timer shows after each run, a periodic task is due at its first due time plus a whole number
  of intervals, and every requeue succeeds.
\<close>
theorem periodic_no_drift:
  assumes "sched_inv s qs fs" "t \<in> set qs" "schedule (node s t) = Periodic"
  shows "\<exists>s'. fold (\<lambda>raw r. and_then r (Task_requeue raw t)) raws (Inr s) = Inr s'
    \<and> runNext (node s' t) = runNext (node s t) + of_nat (length raws) * runInterval (node s t)"
  using periodic_requeues [OF assms] .

definition one_periodic :: sched where
  "one_periodic = upd 0 (\<lambda>k. k\<lparr>schedule := Periodic\<rparr>) one_sleeper"

lemma one_periodic_inv: "sched_inv one_periodic [0] [1 ..< poolSize]"
  unfolding one_periodic_def
  by (rule sched_inv_upd [OF one_sleeper_inv]) (use sched_invD(6) [OF one_sleeper_inv, of 0] in auto)

theorem periodic_no_drift_witness:
  "\<exists>s'. fold (\<lambda>raw r. and_then r (Task_requeue raw 0)) [500, 900, 77] (Inr one_periodic) = Inr s'
    \<and> runNext (node s' 0) = runNext (node one_periodic 0)
      + of_nat (length [500, 900, 77 :: u32]) * runInterval (node one_periodic 0)"
  by (rule periodic_no_drift [OF one_periodic_inv]) (simp_all add: one_periodic_def)

text \<open>
  Intervals are converted exactly: an 8.24 fixed-point interval, limited to the largest
  supported one, becomes the number of whole timer ticks that fit into it. The product never
  wraps, and the result is at most \<open>MAX_RAW_INTV\<close>, a quarter of the timer's range.
\<close>
theorem toMonoRaw_exact:
  "uint (toMonoRaw f) = min (uint f) (uint RUN_MAX) * 125000000 div 2 ^ 24
    \<and> toMonoRaw f \<le> MAX_RAW_INTV"
proof -
  have "min (uint f) 144115188 * 125000000 div 2 ^ 24 \<le> 144115188 * 125000000 div 2 ^ 24"
    by (rule zdiv_mono1) simp_all
  then show ?thesis by (simp add: toMonoRaw_int RUN_MAX_val word_le_def)
qed

text \<open>
  C36: A waking call is honoured. When a task is awake at the update pass of a run (with the same proviso on lateness),
  it comes out of the pass in the run queue, due at the reading of the pass, with only tasks due no later before it.
  If it is the first, the dispatcher starts it; its run makes its call exactly once and leaves it waiting, and a
  waiting task makes no call until it is woken again.
\<close>
theorem wake_runs_once:
  assumes "timed_reach now (Poll, s)" "t < poolSize" "schedule (node s t) = Wake" "taskUpdate s"
    "timely now now' s" "\<forall>u < poolSize. ahead (raws u) now' < MAX_RAW_INTV"
  shows "\<exists>s' xs ys. poll raws s = Inr s' \<and> path (node s') queueRoot (xs @ t # ys) queueRoot \<and> runNext (node s' t) = raws t
    \<and> (\<forall>u \<in> set xs. sint (runNext (node s' u) - now') \<le> sint (raws t - now'))
    \<and> (xs = [] \<longrightarrow> dispatch now' s' = Inr (Running t, fst (Task_run t s')))
    \<and> snd (Task_run t s') = Some (callback (node s t), reference (node s t))
    \<and> schedule (node (fst (Task_run t s')) t) = Wait
    \<and> snd (Task_run t (fst (Task_run t s'))) = None"
proof -
  from woken_in_queue [OF assms] obtain s' xs ys where w: "poll raws s = Inr s'" "path (node s') queueRoot (xs @ t # ys) queueRoot"
    "runNext (node s' t) = raws t" "schedule (node s' t) = Wake" "callback (node s' t) = callback (node s t)"
    "reference (node s' t) = reference (node s t)" "\<forall>u \<in> set xs. sint (runNext (node s' u) - now') \<le> sint (raws t - now')"
    "callback (node s t) \<noteq> NullCall" "Task_isReady now' t s'" by blast
  have "dispatch now' s' = Inr (Running t, fst (Task_run t s'))" if "xs = []"
    using w that by (simp add: dispatch_def Task_run_def)
  with w show ?thesis by (intro exI [of _ s'] exI [of _ xs] exI [of _ ys]) (simp add: Task_run_def)
qed

definition woken_sleeper :: sched where "woken_sleeper = runWake 0 two_sleepers"

theorem wake_runs_once_witness:
  "\<exists>s' xs ys. poll (\<lambda>_. 2100) woken_sleeper = Inr s' \<and> path (node s') queueRoot (xs @ 0 # ys) queueRoot \<and> runNext (node s' 0) = 2100
    \<and> (\<forall>u \<in> set xs. sint (runNext (node s' u) - 2200) \<le> sint (2100 - 2200 :: u32))
    \<and> (xs = [] \<longrightarrow> dispatch 2200 s' = Inr (Running 0, fst (Task_run 0 s')))
    \<and> snd (Task_run 0 s') = Some (callback (node woken_sleeper 0), reference (node woken_sleeper 0))
    \<and> schedule (node (fst (Task_run 0 s')) 0) = Wait
    \<and> snd (Task_run 0 (fst (Task_run 0 s'))) = None"
proof (rule wake_runs_once)
  have v: "valid_request two_sleepers (RunWake 0)" "timely 1500 2000 two_sleepers"
    by (simp_all add: two_sleepers(2) two_sleepers_timely)
  show "timed_reach 2000 (Poll, woken_sleeper)"
    by (rule timed_next [OF two_sleepers_reach timed_request [OF v(1) _ v(2)]]) (simp add: woken_sleeper_def)
  show "schedule (node woken_sleeper 0) = Wake" "taskUpdate woken_sleeper"
    by (simp_all add: woken_sleeper_def runWake_def Task_wake_def)
  show "timely 2000 2200 woken_sleeper"
    by (rule timelyI) (simp add: woken_sleeper_def runWake_def Task_wake_def two_sleepers(2,3) ahead_def split: if_splits)
qed (simp_all add: ahead_def)

text \<open>
  \<open>runWait\<close> does not wait. A task registered with it is scheduled as a sleeping task, so the
  dispatcher calls it once \<open>MAX_RAW_INTV\<close> ticks have passed although nobody woke it, which is not
  what the interface documents.
\<close>
theorem runWait_runs_unwoken:
  assumes "sched_inv s qs fs" "cb \<noteq> NullCall" "runWait raw cb ref s = Inr (t, s')"
  shows "schedule (node s' t) = Sleep \<and> Task_isReady (raw + MAX_RAW_INTV) t s'
    \<and> snd (Task_run t s') = Some (cb, ref)"
  using runWait_due [OF assms] by (simp add: Task_isReady_def)

theorem runWait_runs_unwoken_witness:
  "\<exists>s'. runWait 100 (Call 2) 0 (initScheduler zeroed) = Inr (0, s') \<and> schedule (node s' 0) = Sleep
    \<and> Task_isReady (100 + MAX_RAW_INTV) 0 s' \<and> snd (Task_run 0 s') = Some (Call 2, 0)"
proof -
  have i: "sched_inv (initScheduler zeroed) [] [0 ..< poolSize]" using boot_inv by (simp add: inv_at_def)
  obtain s' where "runWait 100 (Call 2) 0 (initScheduler zeroed) = Inr (0, s')"
    by (rule start_boot [of "Call 2" "runWait 100 (Call 2) 0 (initScheduler zeroed)" 100 0 0]) simp_all
  with runWait_runs_unwoken [OF i _ this] show ?thesis by simp
qed

text \<open>
  Initialisation relies on zeroed storage. \<open>initScheduler\<close> leaves the schedule of the pool nodes
  alone, so if the constructor of \<open>Task\<close> has run on the static pool, every free node counts as
  cancelled and the first update pass dereferences a null pointer, whereas with zeroed storage
  every update pass of the fresh scheduler succeeds.
\<close>
theorem constructed_pool_faults:
  "update_pass raws (initScheduler constructed) = Inl NullDeref
    \<and> (\<exists>s. update_pass raws (initScheduler zeroed) = Inr s)"
proof -
  have "sched_inv ((initScheduler zeroed)\<lparr>taskUpdate := False\<rparr>) [] [0 ..< poolSize]"
    using boot_inv by (simp add: inv_at_def)
  from fold_update_inv [OF this, of "[0 ..< poolSize]" raws] show ?thesis
    unfolding update_pass_constructed by (auto simp: update_pass_def simp del: upt_rec_numeral)
qed

end
