(* ===== verification/Format.thy ===== *)
theory Format
  imports Prelude
begin

text \<open>
  Integer formatting (lib/format.cpp). A routine that writes characters from a pointer on and
  returns how many it wrote is a function that returns the bytes it writes; \<open>toHMS\<close> writes at
  fixed offsets and takes the buffer. The local array \<open>digits\<close> of \<open>toBase\<close> has 32 places; a 33rd
  digit, or an index outside the digit table, is \<open>None\<close>.
\<close>

definition ascii :: "string \<Rightarrow> bytes" where
  "ascii s = map of_char s"

definition lutBase :: bytes where
  "lutBase = [0x30, 0x31, 0x32, 0x33, 0x34, 0x35, 0x36, 0x37, 0x38, 0x39, 0x41, 0x42, 0x43, 0x44, 0x45, 0x46, 0]"

text \<open>\<open>append\<close> copies up to the terminating zero; \<open>cstr\<close> is the text it adds.\<close>

definition cstr :: "bytes \<Rightarrow> bytes" where
  "cstr src = takeWhile (\<lambda>c. c \<noteq> 0) src"

definition append_text :: "bytes \<Rightarrow> bytes \<Rightarrow> bytes" where
  "append_text dst src = dst @ cstr src"

definition hex_byte :: "u8 \<Rightarrow> bytes" where
  "hex_byte b = [lutBase ! unat (drop_bit 4 b), lutBase ! unat (b AND 15)]"

definition toHexBytes :: "bytes \<Rightarrow> bytes" where
  "toHexBytes bs = butlast (concat (map (\<lambda>b. hex_byte b @ [0x20]) bs))"

definition padCopy :: "int \<Rightarrow> u8 \<Rightarrow> bytes \<Rightarrow> bytes" where
  "padCopy width pad src =
     (if width \<le> 0 then src
      else if width \<le> int (length src) then drop (length src - nat width) src
      else replicate (nat width - length src) pad @ src)"

fun base_loop :: "nat \<Rightarrow> u32 \<Rightarrow> u32 \<Rightarrow> bytes \<Rightarrow> bytes option" where
  "base_loop room value base digits =
     (if value > 0 then
        (case room of
           0 \<Rightarrow> None
         | Suc room' \<Rightarrow>
             (if unat (value mod base) < length lutBase
              then base_loop room' (value div base) base (digits @ [lutBase ! unat (value mod base)])
              else None))
      else Some digits)"

declare base_loop.simps [simp del]

definition toBase :: "u32 \<Rightarrow> u8 \<Rightarrow> bytes option" where
  "toBase value base =
     (case base_loop 32 value (ucast base) [] of
        None \<Rightarrow> None
      | Some digits \<Rightarrow> Some (if length digits < 1 then [lutBase ! 0] else rev digits))"

definition fmtBase :: "u32 \<Rightarrow> u8 \<Rightarrow> int \<Rightarrow> u8 \<Rightarrow> bytes option" where
  "fmtBase value base width padding = map_option (padCopy width padding) (toBase value base)"

definition toBin :: "u32 \<Rightarrow> int \<Rightarrow> u8 \<Rightarrow> bytes option" where
  "toBin value width padding = fmtBase value 2 width padding"

definition toOct :: "u32 \<Rightarrow> int \<Rightarrow> u8 \<Rightarrow> bytes option" where
  "toOct value width padding = fmtBase value 8 width padding"

definition toDec :: "u32 \<Rightarrow> int \<Rightarrow> u8 \<Rightarrow> bytes option" where
  "toDec value width padding = fmtBase value 10 width padding"

definition toHex :: "u32 \<Rightarrow> int \<Rightarrow> u8 \<Rightarrow> bytes option" where
  "toHex value width padding = fmtBase value 16 width padding"

definition toHMS :: "u32 \<Rightarrow> bytes \<Rightarrow> bytes option" where
  "toHMS value origin =
     Option.bind (toDec (value mod 60) 2 0x30) (\<lambda>s.
     Option.bind (toDec (value div 60 mod 60) 2 0x30) (\<lambda>m.
     Option.bind (toDec (value div 60 div 60 mod 24) 2 0x30) (\<lambda>h.
       let b = wr origin 6 s; b = wr b 3 m; b = wr b 0 h; b = put8 b 2 0x3A
       in Some (put8 b 5 0x3A))))"

definition hex_digit :: "u8 \<Rightarrow> u32" where
  "hex_digit c =
     (if 0x30 \<le> c \<and> c \<le> 0x39 then ucast (c - 0x30)
      else if 0x41 \<le> c \<and> c \<le> 0x46 then ucast (c - 0x41)
      else if 0x61 \<le> c \<and> c \<le> 0x61 then ucast (c - 0x61)
      else 0)"

definition fromHex :: "bytes \<Rightarrow> u32" where
  "fromHex str = foldl (\<lambda>r c. push_bit 4 r + hex_digit c) 0 (cstr str)"

section \<open>Correctness of the conversion\<close>

text \<open>The value of a digit character and of a numeral, most significant digit first.\<close>

definition digit_val :: "u8 \<Rightarrow> nat" where
  "digit_val c = (if c < 0x41 then unat c - 48 else unat c - 55)"

definition numeral_val :: "nat \<Rightarrow> bytes \<Rightarrow> nat" where
  "numeral_val base ds = foldl (\<lambda>n c. n * base + digit_val c) 0 ds"

lemma digit_val_lut: "d < 16 \<Longrightarrow> digit_val (lutBase ! d) = d"
proof -
  assume "d < 16"
  moreover have "list_all (\<lambda>d. digit_val (lutBase ! d) = d) [0 ..< 16]" by code_simp
  ultimately show ?thesis by (simp add: list_all_iff del: upt_rec_numeral)
qed

lemma lut_length: "length lutBase = 17"
  by (simp add: lutBase_def)

lemma numeral_val_snoc: "numeral_val b (ds @ [c]) = numeral_val b ds * b + digit_val c"
  by (simp add: numeral_val_def)

lemma foldl_numeral: "foldl (\<lambda>n c. n * b + digit_val c) k ds = k * b ^ length ds + numeral_val b ds"
proof (induction ds rule: rev_induct)
  case (snoc c ds)
  then show ?case by (simp add: numeral_val_def algebra_simps)
qed (simp add: numeral_val_def)

lemma numeral_val_append: "numeral_val b (xs @ ys) = numeral_val b xs * b ^ length ys + numeral_val b ys"
proof -
  have "numeral_val b (xs @ ys) = foldl (\<lambda>n c. n * b + digit_val c) (numeral_val b xs) ys"
    by (simp add: numeral_val_def)
  then show ?thesis by (simp only: foldl_numeral)
qed

text \<open>
  The loop invariant: what is left of the value and the digits so far make up the value, digits
  are below the base, and the last digit written, the most significant, is not zero.
\<close>

lemma base_loop_correct:
  assumes "2 \<le> b" "b \<le> 16" "unat v < 2 ^ room"
  shows "\<exists>ds. base_loop room v b acc = Some (acc @ ds) \<and> length ds \<le> room
    \<and> numeral_val (unat b) (rev ds) = unat v \<and> (\<forall>c \<in> set ds. \<exists>d < unat b. c = lutBase ! d)
    \<and> (v > 0 \<longrightarrow> ds \<noteq> [] \<and> last ds \<noteq> lutBase ! 0) \<and> (v = 0 \<longrightarrow> ds = [])"
  using assms(3)
proof (induction room arbitrary: v acc)
  case 0
  then have "v = 0" by (simp add: unat_eq_zero)
  then show ?case by (simp add: base_loop.simps numeral_val_def)
next
  case (Suc room)
  have b: "2 \<le> unat b" "unat b \<le> 16" using assms(1,2) by (simp_all add: word_le_nat_alt)
  show ?case
  proof (cases "v = 0")
    case True
    then show ?thesis by (simp add: base_loop.simps numeral_val_def)
  next
    case False
    let ?d = "unat (v mod b)" and ?q = "v div b"
    have d: "?d < unat b" "?d = unat v mod unat b" using b by (simp_all add: unat_mod_distrib)
    have q: "unat ?q = unat v div unat b" by (simp add: unat_div_distrib)
    have "unat v div 2 < 2 ^ room" using Suc.prems by (simp add: less_mult_imp_div_less)
    then have "unat ?q < 2 ^ room"
      using div_le_mono2 [of 2 "unat b" "unat v"] b q by simp
    from Suc.IH [OF this, of "acc @ [lutBase ! ?d]"] obtain ds where
      ds: "base_loop room ?q b (acc @ [lutBase ! ?d]) = Some (acc @ [lutBase ! ?d] @ ds)" "length ds \<le> room"
        "numeral_val (unat b) (rev ds) = unat ?q" "\<forall>c \<in> set ds. \<exists>d < unat b. c = lutBase ! d"
        "?q > 0 \<longrightarrow> ds \<noteq> [] \<and> last ds \<noteq> lutBase ! 0" "?q = 0 \<longrightarrow> ds = []" by auto
    have "base_loop (Suc room) v b acc = Some (acc @ (lutBase ! ?d # ds))"
      using False b ds(1) order.strict_trans2 [OF d(1), of 17]
      by (simp add: base_loop.simps [of "Suc room"] word_neq_0_conv lut_length)
    moreover have "numeral_val (unat b) (rev (lutBase ! ?d # ds)) = unat v"
      using ds(3) q digit_val_lut [OF order.strict_trans2 [OF d(1) b(2)]] d(2) by (simp add: numeral_val_snoc)
    moreover have "last (lutBase ! ?d # ds) \<noteq> lutBase ! 0"
    proof (cases "?q = 0")
      case True
      with ds(6) q b have "unat v < unat b" by (simp add: div_eq_0_iff flip: unat_eq_zero)
      with d have "?d = unat v" by simp
      moreover have "unat v \<noteq> 0" using False by (simp add: unat_eq_zero)
      ultimately have "digit_val (lutBase ! ?d) \<noteq> digit_val (lutBase ! 0)"
        using d b by (simp add: digit_val_lut)
      then show ?thesis using ds(6) True by auto
    qed (use ds(5) in \<open>auto simp: word_neq_0_conv\<close>)
    ultimately show ?thesis using ds(2,4) d False by (intro exI [of _ "lutBase ! ?d # ds"]) auto
  qed
qed

lemma numeral_val_bound:
  "\<forall>c \<in> set ds. digit_val c < b \<Longrightarrow> numeral_val b ds < b ^ length ds"
proof (induction ds rule: rev_induct)
  case (snoc c ds)
  then have "numeral_val b ds * b + digit_val c < numeral_val b ds * b + b" by simp
  also have "\<dots> = (numeral_val b ds + 1) * b" by simp
  also have "\<dots> \<le> b ^ length ds * b" using snoc by (intro mult_le_mono1) simp
  finally show ?case by (simp add: numeral_val_snoc mult.commute)
qed (simp add: numeral_val_def)

lemma numeral_val_zeros: "numeral_val b (replicate n 0x30) = 0"
  by (induction n) (simp_all add: numeral_val_def digit_val_def)

lemma toBase_correct:
  assumes "2 \<le> base" "base \<le> 16"
  shows "\<exists>ds. toBase v base = Some ds \<and> numeral_val (unat base) ds = unat v \<and> 1 \<le> length ds \<and> length ds \<le> 32
    \<and> (\<forall>c \<in> set ds. digit_val c < unat base) \<and> (v \<noteq> 0 \<longrightarrow> hd ds \<noteq> 0x30)"
proof -
  have b: "2 \<le> (ucast base :: u32)" "(ucast base :: u32) \<le> 16" "unat (ucast base :: u32) = unat base"
    using assms by (simp_all add: word_le_nat_alt unsigned_ucast_eq take_bit_nat_eq_self less_trans [OF unat_u8_lt])
  have "unat v < 2 ^ 32" using unat_u32_lt [of v] by simp
  from base_loop_correct [OF b(1,2) this, of "[]"] obtain ds where
    ds: "base_loop 32 v (ucast base) [] = Some ds" "length ds \<le> 32" "numeral_val (unat base) (rev ds) = unat v"
      "\<forall>c \<in> set ds. \<exists>d < unat base. c = lutBase ! d" "v > 0 \<longrightarrow> ds \<noteq> [] \<and> last ds \<noteq> lutBase ! 0" "v = 0 \<longrightarrow> ds = []"
    by (auto simp: b(3))
  have l0: "lutBase ! 0 = 0x30" by (simp add: lutBase_def)
  show ?thesis
  proof (cases "v = 0")
    case True
    with ds l0 assms show ?thesis
      by (simp add: toBase_def numeral_val_def digit_val_def word_le_nat_alt)
  next
    case False
    have "unat base \<le> 16" using assms(2) by (simp add: word_le_nat_alt)
    then have "\<forall>c \<in> set ds. digit_val c < unat base"
      using ds(4) digit_val_lut by fastforce
    with ds l0 False show ?thesis
      by (auto simp: toBase_def word_neq_0_conv Suc_le_eq hd_rev)
  qed
qed

lemma fmtBase_correct:
  assumes "2 \<le> base" "base \<le> 16"
  shows "\<exists>ds. fmtBase v base w 0x30 = Some ds \<and> (w > 0 \<longrightarrow> length ds = nat w)
    \<and> numeral_val (unat base) ds = (if w > 0 then unat v mod unat base ^ nat w else unat v)
    \<and> (\<forall>c \<in> set ds. digit_val c < unat base)"
proof -
  from toBase_correct [OF assms, of v] obtain ds where
    ds: "toBase v base = Some ds" "numeral_val (unat base) ds = unat v"
      "\<forall>c \<in> set ds. digit_val c < unat base" by blast
  have b: "2 \<le> unat base" using assms(1) by (simp add: word_le_nat_alt)
  consider "w \<le> 0" | "w > 0" "nat w \<le> length ds" | "w > 0" "length ds < nat w" by linarith
  then show ?thesis
  proof cases
    case 1
    with ds show ?thesis by (simp add: fmtBase_def padCopy_def)
  next
    case 2
    let ?k = "length ds - nat w"
    have "numeral_val (unat base) (take ?k ds @ drop ?k ds) = unat v" using ds(2) by simp
    then have "unat v = numeral_val (unat base) (take ?k ds) * unat base ^ nat w + numeral_val (unat base) (drop ?k ds)"
      using 2 by (simp only: numeral_val_append) simp
    moreover have "numeral_val (unat base) (drop ?k ds) < unat base ^ nat w"
      using numeral_val_bound [of "drop ?k ds" "unat base"] ds(3) 2 by (auto dest: in_set_dropD)
    ultimately have "numeral_val (unat base) (drop ?k ds) = unat v mod unat base ^ nat w" by simp
    with ds 2 show ?thesis by (auto simp: fmtBase_def padCopy_def dest: in_set_dropD)
  next
    case 3
    have "unat v < unat base ^ length ds" using numeral_val_bound [OF ds(3)] ds(2) by simp
    also have "\<dots> \<le> unat base ^ nat w" using 3 b by (intro power_increasing) auto
    finally have "unat v mod unat base ^ nat w = unat v" by simp
    with ds 3 b show ?thesis
      by (auto simp: fmtBase_def padCopy_def numeral_val_append numeral_val_zeros digit_val_def)
  qed
qed

text \<open>A decimal number of at most two digits printed with two digits.\<close>

lemma toDec_2:
  assumes "unat v < 100"
  shows "\<exists>a b. toDec v 2 0x30 = Some [a, b] \<and> numeral_val 10 [a, b] = unat v"
proof -
  from fmtBase_correct [of 10 v 2] obtain ds where ds: "toDec v 2 0x30 = Some ds" "length ds = 2"
    "numeral_val 10 ds = unat v" using assms by (auto simp: toDec_def)
  from ds(2) obtain a b where "ds = [a, b]" by (auto simp: numeral_2_eq_2 length_Suc_conv)
  with ds show ?thesis by auto
qed

lemma toHMS_correct:
  assumes "8 \<le> length origin"
  shows "\<exists>b. toHMS v origin = Some b \<and> length b = length origin \<and> drop 8 b = drop 8 origin
    \<and> b ! 2 = 0x3A \<and> b ! 5 = 0x3A
    \<and> numeral_val 10 (rd b 0 2) * 3600 + numeral_val 10 (rd b 3 2) * 60 + numeral_val 10 (rd b 6 2) = unat v mod 86400
    \<and> numeral_val 10 (rd b 0 2) < 24 \<and> numeral_val 10 (rd b 3 2) < 60 \<and> numeral_val 10 (rd b 6 2) < 60"
proof -
  let ?s = "v mod 60" and ?m = "v div 60 mod 60" and ?h = "v div 60 div 60 mod 24"
  have u: "unat ?s = unat v mod 60" "unat ?m = unat v div 60 mod 60" "unat ?h = unat v div 60 div 60 mod 24"
    by (simp_all add: unat_mod_distrib unat_div_distrib)
  have lt: "unat ?s < 60" "unat ?m < 60" "unat ?h < 24" unfolding u by simp_all
  then have "unat ?s < 100" "unat ?m < 100" "unat ?h < 100" by linarith+
  then obtain s1 s2 m1 m2 h1 h2 where
    d: "toDec ?s 2 0x30 = Some [s1, s2]" "toDec ?m 2 0x30 = Some [m1, m2]" "toDec ?h 2 0x30 = Some [h1, h2]"
    and n: "numeral_val 10 [s1, s2] = unat ?s" "numeral_val 10 [m1, m2] = unat ?m" "numeral_val 10 [h1, h2] = unat ?h"
    using toDec_2 by metis
  let ?b = "put8 (put8 (wr (wr (wr origin 6 [s1, s2]) 3 [m1, m2]) 0 [h1, h2]) 2 0x3A) 5 0x3A"
  have e: "toHMS v origin = Some ?b" unfolding toHMS_def Let_def by (simp add: d)
  have r: "rd ?b 0 2 = [h1, h2]" "rd ?b 3 2 = [m1, m2]" "rd ?b 6 2 = [s1, s2]"
    using assms by (simp_all add: buf_simps del: wr.simps)
  have "drop 8 ?b = drop 8 origin"
    by (rule nth_equalityI) (auto simp: put8_def enc8_def nth_list_update)
  moreover have "?b ! 2 = 0x3A" "?b ! 5 = 0x3A" using assms by (simp_all add: put8_def enc8_def nth_list_update)
  moreover have "unat ?h * 3600 + unat ?m * 60 + unat ?s = unat v mod 86400"
    using mod_mult2_eq [of "unat v" 60 1440] mod_mult2_eq [of "unat v div 60" 60 24] unfolding u by simp
  ultimately show ?thesis unfolding e using r n lt by simp
qed

section \<open>Parsing\<close>

definition hex_chars :: "bytes" where
  "hex_chars = take 16 lutBase"

lemma hex_digit_val:
  assumes "c \<in> set hex_chars"
  shows "unat (hex_digit c) = (if c < 0x41 then digit_val c else digit_val c - 10)"
    and "c < 0x41 \<or> 10 \<le> digit_val c" and "c \<noteq> 0"
proof -
  have "list_all (\<lambda>c. unat (hex_digit c) = (if c < 0x41 then digit_val c else digit_val c - 10)
    \<and> (c < 0x41 \<or> 10 \<le> digit_val c) \<and> c \<noteq> 0) hex_chars" by code_simp
  then show "unat (hex_digit c) = (if c < 0x41 then digit_val c else digit_val c - 10)"
    "c < 0x41 \<or> 10 \<le> digit_val c" "c \<noteq> 0"
    using assms unfolding list_all_iff by blast+
qed

lemma cstr_id: "0 \<notin> set s \<Longrightarrow> cstr s = s"
  by (auto simp: cstr_def takeWhile_eq_all_conv)

lemma fromHex_snoc: "0 \<notin> set (s @ [c]) \<Longrightarrow> fromHex (s @ [c]) = push_bit 4 (fromHex s) + hex_digit c"
  by (simp add: fromHex_def cstr_id)

lemma fromHex_value:
  assumes "set s \<subseteq> set hex_chars" "numeral_val 16 s < 2 ^ 32"
  shows "unat (fromHex s) \<le> numeral_val 16 s \<and> (unat (fromHex s) = numeral_val 16 s \<longleftrightarrow> (\<forall>c \<in> set s. c < 0x41))"
  using assms
proof (induction s rule: rev_induct)
  case (snoc c s)
  let ?n = "numeral_val 16 s" and ?f = "unat (fromHex s)"
  from snoc.prems have c: "c \<in> set hex_chars" "set s \<subseteq> set hex_chars" by auto
  have n: "numeral_val 16 (s @ [c]) = ?n * 16 + digit_val c" by (rule numeral_val_snoc)
  with snoc.prems(2) have "?n < 2 ^ 32" by linarith
  with snoc.IH c have ih: "?f \<le> ?n" "?f = ?n \<longleftrightarrow> (\<forall>c \<in> set s. c < 0x41)" by blast+
  note d = hex_digit_val [OF c(1)]
  have le: "unat (hex_digit c) \<le> digit_val c" by (simp add: d(1))
  have b: "?f * 16 + unat (hex_digit c) < 4294967296"
    using ih(1) le n snoc.prems(2) by simp
  have "0 \<notin> set (s @ [c])" using hex_digit_val(3) snoc.prems(1) by auto
  then have "unat (fromHex (s @ [c])) = unat (fromHex s * 16 + hex_digit c)"
    by (simp add: fromHex_snoc push_bit_eq_mult)
  also have "\<dots> = ?f * 16 + unat (hex_digit c)"
    using b by (simp add: unat_word_ariths mod_add_left_eq)
  finally have e: "unat (fromHex (s @ [c])) = ?f * 16 + unat (hex_digit c)" .
  have "unat (hex_digit c) = digit_val c \<longleftrightarrow> c < 0x41" using d(1,2) by auto
  then have "?f * 16 + unat (hex_digit c) = ?n * 16 + digit_val c \<longleftrightarrow> ?f = ?n \<and> c < 0x41"
    using ih(1) le by linarith
  then show ?case unfolding e n using ih le by auto
qed (simp add: fromHex_def cstr_def numeral_val_def)

lemma toHex_chars: "\<exists>ds. toHex v 0 pad = Some ds \<and> set ds \<subseteq> set hex_chars \<and> numeral_val 16 ds = unat v"
proof -
  have b: "2 \<le> (ucast (16 :: u8) :: u32)" "(ucast (16 :: u8) :: u32) \<le> 16" "unat (ucast (16 :: u8) :: u32) = 16"
    by simp_all
  have "unat v < 2 ^ 32" using unat_u32_lt [of v] by simp
  from base_loop_correct [OF b(1,2) this, of "[]"] obtain ds where
    ds: "base_loop 32 v 16 [] = Some ds" "numeral_val 16 (rev ds) = unat v" "\<forall>c \<in> set ds. \<exists>d < 16. c = lutBase ! d"
    "v = 0 \<longrightarrow> ds = []" by auto
  have "lutBase ! d \<in> set hex_chars" if "d < 16" for d
    using that nth_mem [of d hex_chars] by (simp add: hex_chars_def lut_length)
  then have "set ds \<subseteq> set hex_chars" "lutBase ! 0 \<in> set hex_chars" using ds(3) by auto
  then show ?thesis
    using ds by (cases "v = 0") (auto simp: toHex_def fmtBase_def toBase_def padCopy_def numeral_val_def digit_val_def lutBase_def)
qed

section \<open>Properties\<close>

text \<open>
  Integers print as the numerals they are. For the bases of \<open>toBin\<close>, \<open>toOct\<close>, \<open>toDec\<close> and
  \<open>toHex\<close> the conversion never overruns its digit array, yields digits of the base whose value is
  the number, and, for a positive field width with zero padding, exactly that many digits holding
  the number modulo the base to the width.
\<close>
theorem fmtBase_value:
  assumes "base \<in> {2, 8, 10, 16}"
  shows "\<exists>ds. fmtBase v base w 0x30 = Some ds \<and> (w > 0 \<longrightarrow> length ds = nat w)
    \<and> numeral_val (unat base) ds = (if w > 0 then unat v mod unat base ^ nat w else unat v)
    \<and> (\<forall>c \<in> set ds. digit_val c < unat base)"
  by (rule fmtBase_correct) (use assms in auto)

theorem fmtBase_value_witness:
  "\<exists>ds. fmtBase 4294967295 10 4 0x30 = Some ds \<and> (4 > (0 :: int) \<longrightarrow> length ds = nat 4)
    \<and> numeral_val (unat (10 :: u8)) ds = (if 4 > (0 :: int) then unat (4294967295 :: u32) mod unat (10 :: u8) ^ nat 4
        else unat (4294967295 :: u32))
    \<and> (\<forall>c \<in> set ds. digit_val c < unat (10 :: u8))"
  by (rule fmtBase_value) simp

text \<open>
  A clock time prints as hh:mm:ss. For every 32-bit number of seconds \<open>toHMS\<close> writes eight
  characters, the digits of the hours, minutes and seconds of the day with colons between, within
  the buffer and without touching what follows.
\<close>
theorem toHMS_time:
  assumes "8 \<le> length origin"
  shows "\<exists>b. toHMS v origin = Some b \<and> length b = length origin \<and> drop 8 b = drop 8 origin
    \<and> b ! 2 = 0x3A \<and> b ! 5 = 0x3A
    \<and> numeral_val 10 (rd b 0 2) * 3600 + numeral_val 10 (rd b 3 2) * 60 + numeral_val 10 (rd b 6 2) = unat v mod 86400
    \<and> numeral_val 10 (rd b 0 2) < 24 \<and> numeral_val 10 (rd b 3 2) < 60 \<and> numeral_val 10 (rd b 6 2) < 60"
  by (rule toHMS_correct [OF assms])

theorem toHMS_time_witness:
  "\<exists>b. toHMS 90061 (replicate 9 0) = Some b \<and> length b = length (replicate 9 (0 :: u8)) \<and> drop 8 b = drop 8 (replicate 9 0)
    \<and> b ! 2 = 0x3A \<and> b ! 5 = 0x3A
    \<and> numeral_val 10 (rd b 0 2) * 3600 + numeral_val 10 (rd b 3 2) * 60 + numeral_val 10 (rd b 6 2) = unat (90061 :: u32) mod 86400
    \<and> numeral_val 10 (rd b 0 2) < 24 \<and> numeral_val 10 (rd b 3 2) < 60 \<and> numeral_val 10 (rd b 6 2) < 60"
  by (rule toHMS_time) simp

text \<open>
  \<open>fromHex\<close> does not invert \<open>toHex\<close>. Reading back a printed number gives the number if and
  only if the hexadecimal numeral happens to have no letter in it: the letters count from zero.
\<close>
theorem fromHex_toHex:
  "\<exists>ds. toHex v 0 pad = Some ds \<and> (fromHex ds = v \<longleftrightarrow> list_all (\<lambda>c. c < 0x41) ds)"
proof -
  from toHex_chars [of v pad] obtain ds where ds: "toHex v 0 pad = Some ds"
    "set ds \<subseteq> set hex_chars" "numeral_val 16 ds = unat v" by blast
  with fromHex_value [of ds] unat_u32_lt [of v] show ?thesis by (auto simp: word_eq_iff_unsigned [where 'a = nat] list_all_iff)
qed

end
