(* ===== verification/Inet.thy ===== *)
theory Inet
  imports Format
begin

unbundle bit_operations_syntax

text \<open>
  The internet layer (lib/net/util.cpp, ip.cpp, udp.cpp, icmp.cpp and the packed headers of
  eth.hpp, ip.hpp, udp.hpp). A frame is the byte list of the buffer that the code maps the packed
  structs onto, a struct field is an offset into it, and a size is a \<open>nat\<close>. Handlers take the
  global state \<open>ipst\<close>; a frame passed to \<open>network::transmit\<close> is appended to \<open>outbox\<close>, whose result the
  handlers of this layer ignore. Registered callbacks are values, called where the layers meet.
\<close>

section \<open>Packed headers\<close>

abbreviation (input) eth_macDst :: nat where "eth_macDst \<equiv> 0"
abbreviation (input) eth_macSrc :: nat where "eth_macSrc \<equiv> 6"
abbreviation (input) eth_ethType :: nat where "eth_ethType \<equiv> 12"
abbreviation (input) ip4_head :: nat where "ip4_head \<equiv> 14"
abbreviation (input) ip4_len :: nat where "ip4_len \<equiv> 16"
abbreviation (input) ip4_id :: nat where "ip4_id \<equiv> 18"
abbreviation (input) ip4_flags :: nat where "ip4_flags \<equiv> 20"
abbreviation (input) ip4_ttl :: nat where "ip4_ttl \<equiv> 22"
abbreviation (input) ip4_proto :: nat where "ip4_proto \<equiv> 23"
abbreviation (input) ip4_chksum :: nat where "ip4_chksum \<equiv> 24"
abbreviation (input) ip4_src :: nat where "ip4_src \<equiv> 26"
abbreviation (input) ip4_dst :: nat where "ip4_dst \<equiv> 30"
abbreviation (input) udp_portSrc :: nat where "udp_portSrc \<equiv> 34"
abbreviation (input) udp_portDst :: nat where "udp_portDst \<equiv> 36"
abbreviation (input) udp_length :: nat where "udp_length \<equiv> 38"
abbreviation (input) udp_chksum :: nat where "udp_chksum \<equiv> 40"
abbreviation (input) icmp_type :: nat where "icmp_type \<equiv> 34"
abbreviation (input) icmp_code :: nat where "icmp_code \<equiv> 35"
abbreviation (input) icmp_chksum :: nat where "icmp_chksum \<equiv> 36"

abbreviation (input) HeaderEthernet_size :: nat where "HeaderEthernet_size \<equiv> 14"
abbreviation (input) HeaderIp4_size :: nat where "HeaderIp4_size \<equiv> 20"

definition ETHTYPE_ARP :: u16 where "ETHTYPE_ARP = 0x0608"
definition ETHTYPE_IP4 :: u16 where "ETHTYPE_IP4 = 0x0008"
definition ETHTYPE_PTP :: u16 where "ETHTYPE_PTP = 0xF788"
definition IP_PROTO_ICMP :: u8 where "IP_PROTO_ICMP = 1"
definition IP_PROTO_UDP :: u8 where "IP_PROTO_UDP = 17"

section \<open>Hardware addresses and text\<close>

type_synonym mac = bytes

definition broadcastMAC :: mac where
  "broadcastMAC = [0xFF, 0xFF, 0xFF, 0xFF, 0xFF, 0xFF]"

fun cmpMac :: "bytes \<Rightarrow> bytes \<Rightarrow> int" where
  "cmpMac (a # as) (b # bs) = (if a \<noteq> b then sint a - sint b else cmpMac as bs)"
| "cmpMac _ _ = 0"

definition isNullMAC :: "mac \<Rightarrow> bool" where
  "isNullMAC mac \<longleftrightarrow> (\<forall>b \<in> set mac. b = 0)"

definition copyMAC :: "bytes \<Rightarrow> nat \<Rightarrow> mac \<Rightarrow> bytes" where
  "copyMAC f i src = wr f i (rd src 0 6)"

definition toBase_text :: "u32 \<Rightarrow> bytes" where
  "toBase_text v = (case toBase v 10 of None \<Rightarrow> [] | Some ds \<Rightarrow> ds)"

definition addrToStr :: "u32 \<Rightarrow> bytes" where
  "addrToStr addr =
     toBase_text (drop_bit 0 addr AND 0xFF) @ [0x2E]
     @ toBase_text (drop_bit 8 addr AND 0xFF) @ [0x2E]
     @ toBase_text (drop_bit 16 addr AND 0xFF) @ [0x2E]
     @ toBase_text (drop_bit 24 addr AND 0xFF)"

definition toHex_text :: "u8 \<Rightarrow> bytes" where
  "toHex_text b = (case toHex (ucast b) 2 0x30 of None \<Rightarrow> [] | Some ds \<Rightarrow> ds)"

definition macToStr :: "mac \<Rightarrow> bytes" where
  "macToStr mac = butlast (concat (map (\<lambda>b. toHex_text b @ [0x3A]) (take 6 mac)))"

section \<open>The global state\<close>

record 'cb ipst =
  myMac :: mac
  ipBroadcast :: u32
  ipAddress :: u32
  ipSubnet :: u32
  ipRouter :: u32
  ipDNS :: u32
  ipID :: u16
  udpRegistry :: "(u16 \<times> 'cb option) list"
  outbox :: "(bytes \<times> nat) list"

definition transmit_frame :: "bytes \<Rightarrow> nat \<Rightarrow> ('cb, 'z) ipst_scheme \<Rightarrow> ('cb, 'z) ipst_scheme" where
  "transmit_frame frame flen s = s\<lparr>outbox := outbox s @ [(frame, flen)]\<rparr>"

definition isMyMAC :: "('cb, 'z) ipst_scheme \<Rightarrow> mac \<Rightarrow> int" where
  "isMyMAC s mac = cmpMac mac (myMac s)"

definition IPv4_testSubnet :: "u32 \<Rightarrow> u32 \<Rightarrow> u32 \<Rightarrow> u32" where
  "IPv4_testSubnet subnetMask addrA addrB = (addrA XOR addrB) AND subnetMask"

section \<open>The Internet checksum\<close>

fun sum16 :: "bytes \<Rightarrow> u32" where
  "sum16 (a # b # bs) = ucast (dec16 [a, b]) + sum16 bs"
| "sum16 [a] = ucast a"
| "sum16 [] = 0"

function fold16 :: "u32 \<Rightarrow> u32" where
  "fold16 acc = (if drop_bit 16 acc \<noteq> 0 then fold16 ((acc AND 0xFFFF) + drop_bit 16 acc) else acc)"
  by pat_completeness auto

lemma fold16_unat:
  "unat ((acc :: u32) AND 0xFFFF) = unat acc mod 65536" "unat (drop_bit 16 acc) = unat acc div 65536"
  "unat ((acc AND 0xFFFF) + drop_bit 16 acc) = unat acc mod 65536 + unat acc div 65536"
proof -
  have m: "acc AND 0xFFFF = take_bit 16 acc"
    by (simp add: take_bit_eq_mask mask_eq_exp_minus_1)
  show a: "unat (acc AND 0xFFFF) = unat acc mod 65536"
    unfolding m unsigned_take_bit_eq by (simp add: take_bit_eq_mod)
  show b: "unat (drop_bit 16 acc) = unat acc div 65536"
    using unat_div_distrib [of acc "2 ^ 16"] by (simp add: drop_bit_eq_div)
  have "unat acc div 65536 < 65536" using unat_u32_lt [of acc] by (simp add: less_mult_imp_div_less)
  then show "unat ((acc AND 0xFFFF) + drop_bit 16 acc) = unat acc mod 65536 + unat acc div 65536"
    unfolding unat_word_ariths a b by (intro mod_less) (simp add: trans_less_add1)
qed

termination fold16
proof (relation "measure unat", simp)
  fix acc :: u32
  assume "drop_bit 16 acc \<noteq> 0"
  then have "unat acc div 65536 \<noteq> 0" using fold16_unat(2) [of acc] by (metis unat_eq_zero)
  then have "unat acc mod 65536 + unat acc div 65536 < unat acc"
    using div_mult_mod_eq [of "unat acc" 65536] by linarith
  then show "((acc AND 0xFFFF) + drop_bit 16 acc, acc) \<in> measure unat"
    by (simp only: in_measure fold16_unat)
qed

declare fold16.simps [simp del]

definition RFC1071_checksum :: "bytes \<Rightarrow> u16" where
  "RFC1071_checksum buffer = NOT (ucast (fold16 (sum16 buffer)))"

section \<open>IPv4\<close>

definition IPv4_init :: "bytes \<Rightarrow> ('cb, 'z) ipst_scheme \<Rightarrow> bytes \<times> ('cb, 'z) ipst_scheme" where
  "IPv4_init frame s =
     (let f = put8 frame ip4_head ((get8 frame ip4_head AND 0x0F) OR push_bit 4 4);
          f = put8 f ip4_head ((get8 f ip4_head AND 0xF0) OR 5);
          f = put16 f ip4_id (htons (ipID s));
          f = put8 f ip4_flags 0x40;
          f = put8 f ip4_ttl 32
      in (f, s\<lparr>ipID := ipID s + 1\<rparr>))"

definition IPv4_finalize :: "bytes \<Rightarrow> nat \<Rightarrow> bytes" where
  "IPv4_finalize frame flen =
     (let f = put16 frame eth_ethType ETHTYPE_IP4;
          f = put16 f ip4_len (htons (of_nat flen - of_nat HeaderEthernet_size));
          f = put16 f ip4_chksum 0
      in put16 f ip4_chksum (RFC1071_checksum (rd f ip4_head HeaderIp4_size)))"

definition IPv4_macMulticast :: "u32 \<Rightarrow> mac" where
  "IPv4_macMulticast groupAddress =
     [0x01, 0x00, 0x5E, ucast (drop_bit 8 groupAddress) AND 0x7F, ucast (drop_bit 16 groupAddress) AND 0xFF,
      ucast (drop_bit 24 groupAddress) AND 0xFF]"

definition IPv4_setMulticast :: "bytes \<Rightarrow> u32 \<Rightarrow> bytes" where
  "IPv4_setMulticast frame groupAddress =
     put32 (wr frame eth_macDst (IPv4_macMulticast groupAddress)) ip4_dst groupAddress"

section \<open>UDP\<close>

definition returnToSender :: "bytes \<Rightarrow> bytes" where
  "returnToSender f =
     (let ipAddr = get32 f ip4_dst; port = get16 f udp_portDst;
          f = copyMAC f eth_macDst (rd f eth_macSrc 6);
          f = put32 f ip4_dst (get32 f ip4_src);
          f = put32 f ip4_src ipAddr;
          f = put16 f udp_portDst (get16 f udp_portSrc)
      in put16 f udp_portSrc port)"

definition returnToSender_as :: "u32 \<Rightarrow> u16 \<Rightarrow> bytes \<Rightarrow> bytes" where
  "returnToSender_as ipAddr port f =
     (let f = copyMAC f eth_macDst (rd f eth_macSrc 6);
          f = put32 f ip4_dst (get32 f ip4_src);
          f = put32 f ip4_src ipAddr;
          f = put16 f udp_portDst (get16 f udp_portSrc)
      in put16 f udp_portSrc (htons port))"

definition pseudo_header :: "bytes \<Rightarrow> u16 \<Rightarrow> bytes" where
  "pseudo_header f partial =
     enc32 (get32 f ip4_src) @ enc32 (get32 f ip4_dst) @ enc16 (get16 f udp_length)
     @ enc16 (NOT partial) @ [0, get8 f ip4_proto]"

definition UDP_finalize :: "bytes \<Rightarrow> nat \<Rightarrow> bytes" where
  "UDP_finalize frame flen =
     (let flen = flen - HeaderEthernet_size - HeaderIp4_size;
          f = put16 frame udp_length (htons (of_nat flen));
          f = put16 f udp_chksum 0;
          partial = RFC1071_checksum (rd f udp_portSrc flen)
      in put16 f udp_chksum (RFC1071_checksum (pseudo_header f partial)))"

fun first_slot :: "('a \<Rightarrow> bool) \<Rightarrow> 'a list \<Rightarrow> nat option" where
  "first_slot P [] = None"
| "first_slot P (x # xs) = (if P x then Some 0 else map_option Suc (first_slot P xs))"

definition UDP_register :: "u16 \<Rightarrow> 'cb \<Rightarrow> ('cb, 'z) ipst_scheme \<Rightarrow> int \<times> ('cb, 'z) ipst_scheme" where
  "UDP_register port callback s =
     (case first_slot (\<lambda>e. fst e = port) (udpRegistry s) of
        Some i \<Rightarrow> (if snd (udpRegistry s ! i) = Some callback then 0 else - 1, s)
      | None \<Rightarrow>
          (case first_slot (\<lambda>e. fst e = 0) (udpRegistry s) of
             Some i \<Rightarrow> (0, s\<lparr>udpRegistry := (udpRegistry s)[i := (port, Some callback)]\<rparr>)
           | None \<Rightarrow> (- 2, s)))"

definition UDP_deregister :: "u16 \<Rightarrow> ('cb, 'z) ipst_scheme \<Rightarrow> int \<times> ('cb, 'z) ipst_scheme" where
  "UDP_deregister port s =
     (case first_slot (\<lambda>e. fst e = port) (udpRegistry s) of
        Some i \<Rightarrow> (0, s\<lparr>udpRegistry := (udpRegistry s)[i := (0, None)]\<rparr>)
      | None \<Rightarrow> (- 1, s))"

text \<open>
  \<open>UDP_process\<close> finds the callback that it calls with the frame: nothing for an unknown port, and
  \<open>Some None\<close> if it would call a null pointer.
\<close>

definition UDP_process :: "bytes \<Rightarrow> ('cb, 'z) ipst_scheme \<Rightarrow> 'cb option option" where
  "UDP_process frame s =
     (let port = htons (get16 frame udp_portDst)
      in if port = 0 then None
         else map_option (\<lambda>i. snd (udpRegistry s ! i)) (first_slot (\<lambda>e. fst e = port) (udpRegistry s)))"

section \<open>ICMP\<close>

definition sendPingResponse :: "bytes \<Rightarrow> nat \<Rightarrow> ('cb, 'z) ipst_scheme \<Rightarrow> ('cb, 'z) ipst_scheme" where
  "sendPingResponse frame flen s =
     (if get8 frame icmp_code \<noteq> 0 then s
      else
        let f = copyMAC frame eth_macDst (rd frame eth_macSrc 6);
            f = put32 f ip4_dst (get32 f ip4_src);
            f = put32 f ip4_src (ipAddress s);
            f = put8 f icmp_type 0;
            f = (if get8 f icmp_chksum > 0xF7 then put8 f (icmp_chksum + 1) (get8 f (icmp_chksum + 1) + 1) else f);
            f = put8 f icmp_chksum (get8 f icmp_chksum + 0x08);
            f = IPv4_finalize f flen
        in transmit_frame f flen s)"

definition ICMP_process :: "bytes \<Rightarrow> nat \<Rightarrow> ('cb, 'z) ipst_scheme \<Rightarrow> ('cb, 'z) ipst_scheme" where
  "ICMP_process frame flen s =
     (if isMyMAC s (rd frame eth_macDst 6) \<noteq> 0 then s
      else if get32 frame ip4_dst \<noteq> ipAddress s then s
      else if get8 frame icmp_type = 8 then sendPingResponse frame flen s
      else s)"

section \<open>Protocol dispatch\<close>

text \<open>What a received IPv4 frame does: nothing, an ICMP step, or a call of a UDP callback.\<close>

datatype 'cb ip_action = Discard | Icmp | Udp "'cb option"

definition IPv4_process :: "bytes \<Rightarrow> nat \<Rightarrow> ('cb, 'z) ipst_scheme \<Rightarrow> 'cb ip_action" where
  "IPv4_process frame flen s =
     (if flen < 60 then Discard
      else if drop_bit 4 (get8 frame ip4_head) \<noteq> 4 then Discard
      else if get8 frame ip4_head AND 0x0F \<noteq> 5 then Discard
      else if get8 frame ip4_proto = IP_PROTO_ICMP then Icmp
      else if get8 frame ip4_proto = IP_PROTO_UDP then
        (case UDP_process frame s of None \<Rightarrow> Discard | Some cb \<Rightarrow> Udp cb)
      else Discard)"

section \<open>Arithmetic of the checksum\<close>

fun sum16n :: "bytes \<Rightarrow> nat" where
  "sum16n (a # b # bs) = unat a + 256 * unat b + sum16n bs"
| "sum16n [a] = unat a"
| "sum16n [] = 0"

text \<open>The one's complement sum: the representative of the sum modulo 65535, zero only for zero.\<close>

definition ones :: "nat \<Rightarrow> nat" where
  "ones n = (if n = 0 then 0 else (n - 1) mod 65535 + 1)"

lemma sum16n_bound: "sum16n bs \<le> 65535 * length bs"
proof (induction bs rule: sum16n.induct)
  case (1 a b bs)
  then show ?case using unat_u8_lt [of a] unat_u8_lt [of b] by (simp del: unat_u8_lt)
next
  case (2 a)
  then show ?case using unat_u8_lt [of a] by (simp del: unat_u8_lt)
qed simp

lemma unat_dec16_lt: "unat a + 256 * unat b < (65536 :: nat)" for a b :: u8
  using unat_u8_lt [of a] unat_u8_lt [of b] by (simp del: unat_u8_lt)

lemma unat_sum16: "length bs \<le> 65536 \<Longrightarrow> unat (sum16 bs) = sum16n bs"
proof (induction bs rule: sum16.induct)
  case (1 a b bs)
  have "sum16n (a # b # bs) < 4294967296"
    using sum16n_bound [of "a # b # bs"] "1.prems" by linarith
  moreover have "unat (ucast (dec16 [a, b]) :: u32) = unat a + 256 * unat b"
    using unat_dec16_lt [of a b] by (simp add: unsigned_ucast_eq take_bit_eq_mod unat_dec16)
  ultimately show ?case using 1 by (simp add: unat_word_ariths)
next
  case (2 a)
  then show ?case using less_trans [OF unat_u8_lt, of 4294967296 a] by (simp add: unsigned_ucast_eq take_bit_eq_mod)
qed simp

lemma ones_fold: "65536 \<le> n \<Longrightarrow> ones (n mod 65536 + n div 65536) = ones n"
proof -
  assume n: "65536 \<le> n"
  let ?q = "n div 65536" and ?r = "n mod 65536"
  have e: "n = ?q * 65536 + ?r" and q: "1 \<le> ?q" using n by (simp_all add: div_greater_zero_iff Suc_le_eq)
  from e have "n - 1 = ?q * 65535 + (?r + ?q - 1)" using q by linarith
  then have "(n - 1) mod 65535 = (?r + ?q - 1) mod 65535" by simp
  then show ?thesis using n q by (simp add: ones_def)
qed

lemma unat_fold16: "unat (fold16 x) = ones (unat x)"
proof (induction x rule: fold16.induct)
  case (1 x)
  show ?case
  proof (cases "drop_bit 16 x = 0")
    case True
    then have "unat x div 65536 = 0" using fold16_unat(2) [of x] by simp
    then have "unat x < 65536" by (simp add: div_eq_0_iff)
    then have "ones (unat x) = unat x" by (simp add: ones_def)
    with True show ?thesis by (simp add: fold16.simps [of x])
  next
    case False
    then have "unat x div 65536 \<noteq> 0" using fold16_unat(2) [of x] by (metis unat_eq_zero)
    then have "65536 \<le> unat x" by (simp add: div_eq_0_iff)
    with False 1 show ?thesis by (simp only: fold16.simps [of x] fold16_unat ones_fold if_True not_False_eq_True)
  qed
qed

lemma ones_le: "ones n \<le> 65535"
  by (simp add: ones_def Suc_le_eq)

lemma ones_cong: "ones n mod 65535 = n mod 65535"
  by (simp add: ones_def mod_Suc_eq)

lemma ones_full: "ones n = 65535 \<longleftrightarrow> 0 < n \<and> n mod 65535 = 0"
proof (cases n)
  case (Suc m)
  then have "ones n = 65535 \<longleftrightarrow> m mod 65535 = 65534" by (simp add: ones_def)
  also have "\<dots> \<longleftrightarrow> n mod 65535 = 0" using Suc by (simp add: mod_Suc)
  finally show ?thesis using Suc by simp
qed (simp add: ones_def)

lemma unat_checksum: "length bs \<le> 65536 \<Longrightarrow> unat (RFC1071_checksum bs) = 65535 - ones (sum16n bs)"
proof -
  assume l: "length bs \<le> 65536"
  have "unat (ucast (fold16 (sum16 bs)) :: u16) = ones (sum16n bs)"
    using ones_le [of "sum16n bs"] by (simp add: unsigned_ucast_eq take_bit_eq_mod unat_fold16 unat_sum16 [OF l])
  moreover have "unat (NOT x) = 65535 - unat x" for x :: u16
  proof -
    have "NOT x = - 1 - x" by (simp add: not_eq_complement)
    moreover have "unat (- 1 :: u16) = 65535"
      by (simp add: unsigned_minus_1_eq_mask mask_eq_exp_minus_1)
    ultimately show ?thesis by (simp only: unat_sub [OF word_n1_ge [of x]])
  qed
  ultimately show ?thesis by (simp add: RFC1071_checksum_def)
qed

lemma checksum_zero:
  "length bs \<le> 65536 \<Longrightarrow> RFC1071_checksum bs = 0 \<longleftrightarrow> 0 < sum16n bs \<and> sum16n bs mod 65535 = 0"
  using unat_checksum [of bs] ones_le [of "sum16n bs"] ones_full [of "sum16n bs"]
  by (auto simp flip: unat_eq_zero)

lemma ones_unique:
  assumes "0 < a" "0 < b" "a mod 65535 = b mod 65535"
  shows "ones a = ones b"
proof -
  obtain x y where "a = Suc x" "b = Suc y" using assms(1,2) gr0_conv_Suc by blast
  moreover from this assms(3) have "x mod 65535 = y mod 65535"
    by (simp add: mod_Suc split: if_splits)
  ultimately show ?thesis by (simp add: ones_def)
qed

lemma ones_add: "ones (k + ones n) = ones (k + n)"
proof (cases "n = 0")
  case False
  have "(k + ones n) mod 65535 = (k + n) mod 65535" by (rule mod_add_cong [OF refl ones_cong])
  with False show ?thesis by (intro ones_unique) (auto simp: ones_def)
qed (simp add: ones_def)

lemma ones_complement:
  "0 < n + (65535 - ones n) \<and> (n + (65535 - ones n)) mod 65535 = 0"
proof -
  have "n mod 65535 + (65535 - ones n) = n mod 65535 + 65535 - ones n" using ones_le [of n] by simp
  then have "(n + (65535 - ones n)) mod 65535 = (n mod 65535 + 65535 - ones n) mod 65535"
    by (metis mod_add_left_eq)
  also have "\<dots> = 0"
    using ones_cong [of n] ones_le [of n] by (cases "ones n = 65535") (auto simp: ones_def)
  finally show ?thesis using ones_le [of n] by (auto simp: ones_def)
qed

lemma sum16n_append: "even (length xs) \<Longrightarrow> sum16n (xs @ ys) = sum16n xs + sum16n ys"
  by (induction xs rule: sum16n.induct) auto

lemma sum16n_enc16: "sum16n (enc16 w) = unat w"
proof -
  obtain a b where e: "enc16 w = [a, b]" by (simp add: enc16_def)
  then have "w = dec16 [a, b]" using dec16_enc16 [of w] by simp
  then show ?thesis using e unat_dec16 [of a b] by simp
qed

lemma wr_take_drop: "i + length bs \<le> length f \<Longrightarrow> wr f i bs = take i f @ bs @ drop (i + length bs) f"
  by (rule nth_equalityI) (auto simp: nth_wr nth_append min_def)

lemma rd_split: "i + n \<le> length f \<Longrightarrow> f = take i f @ rd f i n @ drop (i + n) f"
  by (rule nth_equalityI) (auto simp: rd_def nth_append min_def)

lemma sum16n_put16:
  assumes "even i" "i + 2 \<le> length f"
  shows "sum16n (put16 f i w) + unat (get16 f i) = sum16n f + unat w"
proof -
  have "sum16n f = sum16n (take i f @ rd f i 2 @ drop (i + 2) f)"
    using rd_split [OF assms(2)] by simp
  also have "\<dots> = sum16n (take i f) + (sum16n (rd f i 2) + sum16n (drop (i + 2) f))"
    using assms by (simp add: sum16n_append length_rd)
  also have "sum16n (rd f i 2) = unat (get16 f i)"
    using sum16n_enc16 [of "get16 f i"] assms by (simp add: get16_def enc16_dec16 length_rd)
  finally show ?thesis
    using assms by (simp add: put16_def wr_take_drop sum16n_append sum16n_enc16)
qed

lemma rd_put_inside:
  assumes "j \<le> i" "i + 2 \<le> j + n" "j + n \<le> length f"
  shows "rd (put16 f i w) j n = put16 (rd f j n) (i - j) w"
proof -
  have "i + length (enc16 w) \<le> length f" "i - j + length (enc16 w) \<le> length (rd f j n)"
    using assms by (simp_all add: length_rd)
  then show ?thesis
    unfolding put16_def by (intro nth_equalityI) (use assms in \<open>auto simp: length_rd nth_rd nth_wr add.commute\<close>)
qed

text \<open>Storing the checksum of a region into a zeroed field of it makes the region verify.\<close>

lemma checksum_stored:
  assumes "even (i - j)" "j \<le> i" "i + 2 \<le> j + n" "j + n \<le> length f" "n \<le> 65536" "get16 f i = 0"
    and w: "unat w = 65535 - ones (k + sum16n (rd f j n))"
  shows "k + sum16n (rd (put16 f i w) j n) = (k + sum16n (rd f j n)) + (65535 - ones (k + sum16n (rd f j n)))"
proof -
  have "get16 (rd f j n) (i - j) = get16 f i"
    using assms(2-4) by (simp add: get16_def rd_rd)
  with sum16n_put16 [of "i - j" "rd f j n" w] assms show ?thesis
    by (simp add: rd_put_inside length_rd)
qed

section \<open>Finalised headers\<close>

lemma get16_put16_id: "i + 2 \<le> length f \<Longrightarrow> get16 (put16 f i w) i = w"
  by (rule get_put_same)

lemma checksum_field:
  assumes "even (i - j)" "j \<le> i" "i + 2 \<le> j + n" "j + n \<le> length f" "n \<le> 65536" "get16 f i = 0"
  shows "RFC1071_checksum (rd (put16 f i (RFC1071_checksum (rd f j n))) j n) = 0"
proof -
  let ?f = "put16 f i (RFC1071_checksum (rd f j n))"
  have "unat (RFC1071_checksum (rd f j n)) = 65535 - ones (0 + sum16n (rd f j n))"
    using assms by (simp add: unat_checksum length_rd)
  from checksum_stored [OF assms this] have "sum16n (rd ?f j n)
    = sum16n (rd f j n) + (65535 - ones (sum16n (rd f j n)))" by simp
  then show ?thesis using ones_complement [of "sum16n (rd f j n)"] assms
    by (simp add: checksum_zero length_rd)
qed

lemma IPv4_finalize_correct:
  assumes "34 \<le> length f"
  shows "length (IPv4_finalize f n) = length f" "RFC1071_checksum (rd (IPv4_finalize f n) ip4_head 20) = 0"
    "get16 (IPv4_finalize f n) eth_ethType = ETHTYPE_IP4"
    "get16 (IPv4_finalize f n) ip4_len = htons (of_nat n - 14)"
proof -
  let ?f = "put16 (put16 (put16 f eth_ethType ETHTYPE_IP4) ip4_len (htons (of_nat n - 14))) ip4_chksum 0"
  have e: "IPv4_finalize f n = put16 ?f ip4_chksum (RFC1071_checksum (rd ?f ip4_head 20))"
    by (simp add: IPv4_finalize_def Let_def)
  show "length (IPv4_finalize f n) = length f" by (simp add: e)
  have "get16 ?f ip4_chksum = 0" using assms by (simp add: buf_simps)
  then show "RFC1071_checksum (rd (IPv4_finalize f n) ip4_head 20) = 0"
    unfolding e by (intro checksum_field) (use assms in auto)
  show "get16 (IPv4_finalize f n) eth_ethType = ETHTYPE_IP4"
    "get16 (IPv4_finalize f n) ip4_len = htons (of_nat n - 14)"
    using assms by (simp_all add: e buf_simps)
qed

lemma IPv4_finalize_rd:
  assumes "j + n \<le> 12 \<or> 18 \<le> j \<and> j + n \<le> 24 \<or> 26 \<le> j"
  shows "rd (IPv4_finalize f k) j n = rd f j n"
  using assms unfolding IPv4_finalize_def Let_def by (auto simp: rd_put_other)

lemma UDP_finalize_rd:
  assumes "j + n \<le> 38 \<or> 42 \<le> j"
  shows "rd (UDP_finalize f k) j n = rd f j n"
  using assms unfolding UDP_finalize_def Let_def by (auto simp: rd_put_other)

definition udp_verifies :: "bytes \<Rightarrow> nat \<Rightarrow> bool" where
  "udp_verifies f n \<longleftrightarrow> RFC1071_checksum
     (rd f ip4_src 8 @ [0, get8 f ip4_proto] @ rd f udp_length 2 @ rd f udp_portSrc (n - 34)) = 0"

lemma rd_8: "i + 8 \<le> length f \<Longrightarrow> rd f i 8 = enc32 (get32 f i) @ enc32 (get32 f (i + 4))"
proof -
  assume "i + 8 \<le> length f"
  then have "rd f i 8 = rd f i 4 @ rd f (i + 4) 4"
    by (intro nth_equalityI) (auto simp: length_rd nth_rd nth_append)
  then show ?thesis using \<open>i + 8 \<le> length f\<close> by (simp add: get32_def enc32_dec32 length_rd)
qed

lemma UDP_finalize_correct:
  assumes "42 \<le> n" "n \<le> length f" "n \<le> 65535"
  shows "length (UDP_finalize f n) = length f" "udp_verifies (UDP_finalize f n) n"
    "get16 (UDP_finalize f n) udp_length = htons (of_nat (n - 34))"
proof -
  let ?m = "n - 34"
  let ?f = "put16 (put16 f udp_length (htons (of_nat ?m))) udp_chksum 0"
  let ?p = "RFC1071_checksum (rd ?f udp_portSrc ?m)"
  let ?g = "put16 ?f udp_chksum (RFC1071_checksum (pseudo_header ?f ?p))"
  let ?H = "enc32 (get32 ?f ip4_src) @ enc32 (get32 ?f ip4_dst)"
  let ?k = "sum16n (?H @ [0, get8 ?f ip4_proto] @ enc16 (get16 ?f udp_length))"
  have e: "UDP_finalize f n = ?g" using assms by (simp add: UDP_finalize_def Let_def)
  show "length (UDP_finalize f n) = length f" by (simp add: e)
  show "get16 (UDP_finalize f n) udp_length = htons (of_nat ?m)"
    using assms by (simp add: e buf_simps)
  have z: "get16 ?f udp_chksum = 0" using assms by (simp add: buf_simps)
  let ?n1 = "sum16n (rd ?f udp_portSrc ?m)"
  have p: "unat (NOT ?p) = ones ?n1"
  proof -
    have "NOT ?p = ucast (fold16 (sum16 (rd ?f udp_portSrc ?m)))" by (simp add: RFC1071_checksum_def)
    then show ?thesis using ones_le [of ?n1] assms
      by (simp add: unsigned_ucast_eq take_bit_eq_mod unat_fold16 unat_sum16 length_rd)
  qed
  have "sum16n (pseudo_header ?f ?p) = sum16n ?H + (sum16n (enc16 (get16 ?f udp_length))
      + (unat (NOT ?p) + 256 * unat (get8 ?f ip4_proto)))"
    by (simp add: pseudo_header_def sum16n_append sum16n_enc16)
  also have "\<dots> = ?k + ones ?n1" unfolding p by (simp add: sum16n_append)
  finally have s: "sum16n (pseudo_header ?f ?p) = ?k + ones ?n1" .
  have "length (pseudo_header ?f ?p) = 14" by (simp add: pseudo_header_def)
  then have w: "unat (RFC1071_checksum (pseudo_header ?f ?p)) = 65535 - ones (?k + ?n1)"
    by (simp add: unat_checksum s ones_add)
  have "?k + sum16n (rd ?g udp_portSrc ?m) = (?k + ?n1) + (65535 - ones (?k + ?n1))"
    by (rule checksum_stored) (use assms z w in auto)
  moreover have "rd ?g ip4_src 8 = ?H" "get8 ?g ip4_proto = get8 ?f ip4_proto"
    "rd ?g udp_length 2 = enc16 (get16 ?f udp_length)"
  proof -
    have "rd ?g udp_length 2 = enc16 (get16 ?g udp_length)"
      using assms unfolding get16_def by (subst enc16_dec16) (simp_all add: length_rd)
    moreover have "get16 ?g udp_length = get16 ?f udp_length"
      unfolding get16_def using assms by (subst rd_put_other(2)) simp_all
    ultimately show "rd ?g udp_length 2 = enc16 (get16 ?f udp_length)" by simp
  qed (use assms in \<open>simp_all add: rd_put_other rd_8 buf_simps\<close>)
  ultimately have "sum16n (rd ?g ip4_src 8 @ [0, get8 ?g ip4_proto] @ rd ?g udp_length 2 @ rd ?g udp_portSrc ?m)
    = (?k + ?n1) + (65535 - ones (?k + ?n1))"
    by (simp add: sum16n_append)
  then show "udp_verifies (UDP_finalize f n) n"
    using assms ones_complement [of "?k + ?n1"]
    unfolding e udp_verifies_def by (subst checksum_zero) (auto simp: length_rd)
qed

section \<open>The echo reply\<close>

lemma finalized_datagram:
  assumes "42 \<le> n" "n \<le> length f" "n \<le> 65535"
  shows "let g = IPv4_finalize (UDP_finalize f n) n
    in RFC1071_checksum (rd g ip4_head 20) = 0 \<and> udp_verifies g n
      \<and> get16 g eth_ethType = ETHTYPE_IP4 \<and> get16 g ip4_len = htons (of_nat n - 14)
      \<and> get16 g udp_length = htons (of_nat (n - 34))
      \<and> rd g 42 (n - 42) = rd f 42 (n - 42) \<and> rd g ip4_src 8 = rd f ip4_src 8"
proof -
  let ?u = "UDP_finalize f n"
  have l: "34 \<le> length ?u" using UDP_finalize_correct(1) [OF assms] assms by simp
  have "rd (IPv4_finalize ?u n) ip4_proto 1 = rd ?u ip4_proto 1"
    "rd (IPv4_finalize ?u n) udp_length 2 = rd ?u udp_length 2"
    "rd (IPv4_finalize ?u n) ip4_src 8 = rd ?u ip4_src 8"
    "rd (IPv4_finalize ?u n) udp_portSrc (n - 34) = rd ?u udp_portSrc (n - 34)"
    "rd (IPv4_finalize ?u n) 42 (n - 42) = rd ?u 42 (n - 42)"
    by (rule IPv4_finalize_rd; simp)+
  with IPv4_finalize_correct [OF l, of n] UDP_finalize_correct [OF assms] UDP_finalize_rd [of 42 "n - 42" f n]
    UDP_finalize_rd [of 26 8 f n]
  show ?thesis by (simp add: Let_def udp_verifies_def get8_def get16_def)
qed

text \<open>A finished datagram, as every sender of the stack makes it, keeps all but four fields.\<close>

definition sealed :: "bytes \<Rightarrow> bytes" where
  "sealed f = IPv4_finalize (UDP_finalize f (length f)) (length f)"

lemma sealed_rd:
  assumes "j + n \<le> 12 \<or> 18 \<le> j \<and> j + n \<le> 24 \<or> 26 \<le> j \<and> j + n \<le> 38 \<or> 42 \<le> j"
  shows "rd (sealed f) j n = rd f j n"
proof -
  have "rd (sealed f) j n = rd (UDP_finalize f (length f)) j n"
    unfolding sealed_def by (rule IPv4_finalize_rd) (use assms in auto)
  also have "\<dots> = rd f j n" by (rule UDP_finalize_rd) (use assms in auto)
  finally show ?thesis .
qed

lemma sealed_ok:
  assumes "42 \<le> length f" "length f \<le> 65535"
  shows "length (sealed f) = length f" "udp_verifies (sealed f) (length f)"
    "RFC1071_checksum (rd (sealed f) ip4_head 20) = 0"
proof -
  note l = UDP_finalize_correct(1) [OF assms(1) le_refl assms(2)]
  then have "34 \<le> length (UDP_finalize f (length f))" using assms by simp
  from IPv4_finalize_correct(1,2) [OF this] l show "length (sealed f) = length f"
    "RFC1071_checksum (rd (sealed f) ip4_head 20) = 0" by (simp_all add: sealed_def)
  show "udp_verifies (sealed f) (length f)"
    using finalized_datagram [OF assms(1) le_refl assms(2)] by (simp add: sealed_def Let_def)
qed

lemma rd_Cons: "0 < m \<Longrightarrow> i < length f \<Longrightarrow> rd f i m = get8 f i # rd f (i + 1) (m - 1)"
  by (simp add: rd_def get8_def dec8_def take_Cons' flip: Cons_nth_drop_Suc)

lemma rd_4:
  assumes "4 \<le> m" "i + m \<le> length f"
  shows "rd f i m = [get8 f i, get8 f (i + 1), get8 f (i + 2), get8 f (i + 3)] @ rd f (i + 4) (m - 4)"
proof -
  have "rd f i m = get8 f i # rd f (i + 1) (m - 1)" using assms by (intro rd_Cons) auto
  also have "rd f (i + 1) (m - 1) = get8 f (i + 1) # rd f (i + 2) (m - 2)"
    using assms rd_Cons [of "m - 1" "i + 1" f] by (simp add: numeral_2_eq_2)
  also have "rd f (i + 2) (m - 2) = get8 f (i + 2) # rd f (i + 3) (m - 3)"
    using assms rd_Cons [of "m - 2" "i + 2" f] by (simp add: numeral_eq_Suc)
  also have "rd f (i + 3) (m - 3) = get8 f (i + 3) # rd f (i + 4) (m - 4)"
    using assms rd_Cons [of "m - 3" "i + 3" f] by (simp add: numeral_eq_Suc)
  finally show ?thesis by simp
qed

text \<open>The frame of the reply before the IP header is finalised.\<close>

definition ping_edit :: "u32 \<Rightarrow> bytes \<Rightarrow> bytes" where
  "ping_edit addr frame =
     (let f = copyMAC frame eth_macDst (rd frame eth_macSrc 6);
          f = put32 f ip4_dst (get32 f ip4_src);
          f = put32 f ip4_src addr;
          f = put8 f icmp_type 0;
          f = (if get8 f icmp_chksum > 0xF7 then put8 f (icmp_chksum + 1) (get8 f (icmp_chksum + 1) + 1) else f)
      in put8 f icmp_chksum (get8 f icmp_chksum + 0x08))"

lemma sendPingResponse_edit:
  "sendPingResponse frame n s = (if get8 frame icmp_code \<noteq> 0 then s
     else transmit_frame (IPv4_finalize (ping_edit (ipAddress s) frame) n) n s)"
  by (simp add: sendPingResponse_def ping_edit_def Let_def)

lemma ping_edit_fields:
  assumes "42 \<le> length f"
  shows "length (ping_edit a f) = length f" "rd (ping_edit a f) eth_macDst 6 = rd f eth_macSrc 6"
    "get32 (ping_edit a f) ip4_src = a" "get32 (ping_edit a f) ip4_dst = get32 f ip4_src"
    "get8 (ping_edit a f) icmp_type = 0" "get8 (ping_edit a f) icmp_code = get8 f icmp_code"
    "get8 (ping_edit a f) icmp_chksum = get8 f icmp_chksum + 8"
    "get8 (ping_edit a f) (icmp_chksum + 1)
     = (if get8 f icmp_chksum > 0xF7 then get8 f (icmp_chksum + 1) + 1 else get8 f (icmp_chksum + 1))"
    "rd (ping_edit a f) 38 m = rd f 38 m"
  using assms unfolding ping_edit_def copyMAC_def Let_def
  by (simp_all add: buf_simps rd_rd)

lemma unat_add8:
  "unat (c + 8 :: u8) = (if c > 0xF7 then unat c + 8 - 256 else unat c + 8)"
  "unat (c + 1 :: u8) = (if c = 0xFF then 0 else unat c + 1)"
proof -
  have "unat c < 256" by simp
  then show "unat (c + 8 :: u8) = (if c > 0xF7 then unat c + 8 - 256 else unat c + 8)"
    by (simp add: unat_word_ariths word_less_nat_alt mod_if del: unat_u8_lt)
  show "unat (c + 1 :: u8) = (if c = 0xFF then 0 else unat c + 1)"
    using unat_u8_lt [of c] by (auto simp: unat_word_ariths word_unat_eq_iff mod_if simp del: unat_u8_lt)
qed

lemma echo_checksum:
  assumes n: "42 \<le> n" "n \<le> length f" "n \<le> 65536"
    and q: "get8 f icmp_type = 8" "get8 f icmp_code = 0" "RFC1071_checksum (rd f icmp_type (n - 34)) = 0"
  shows "RFC1071_checksum (rd (ping_edit a f) icmp_type (n - 34)) = 0
    \<longleftrightarrow> \<not> (get8 f icmp_chksum > 0xF7 \<and> get8 f (icmp_chksum + 1) = 0xFF)"
proof -
  define c d where cd: "c = get8 f icmp_chksum" "d = get8 f (icmp_chksum + 1)"
  define r where "r = sum16n (rd f 38 (n - 38))"
  note pe = ping_edit_fields [of f a]
  have "rd f icmp_type (n - 34) = [8, 0, c, d] @ rd f 38 (n - 38)"
    using n q(1,2) rd_4 [of "n - 34" icmp_type f] by (simp add: cd)
  then have old: "sum16n (rd f icmp_type (n - 34)) = 8 + unat c + 256 * unat d + r" by (simp add: r_def)
  have "rd (ping_edit a f) icmp_type (n - 34) = [0, 0, c + 8, if c > 0xF7 then d + 1 else d] @ rd f 38 (n - 38)"
    using n q(1,2) rd_4 [of "n - 34" icmp_type "ping_edit a f"] pe by (simp add: cd)
  then have new: "sum16n (rd (ping_edit a f) icmp_type (n - 34))
      = unat (c + 8) + 256 * unat (if c > 0xF7 then d + 1 else d) + r" by (simp add: r_def)
  have l: "length (rd f icmp_type (n - 34)) \<le> 65536" "length (rd (ping_edit a f) icmp_type (n - 34)) \<le> 65536"
    using n pe by (simp_all add: length_rd)
  from q(3) checksum_zero [OF l(1)] old have z: "(8 + unat c + 256 * unat d + r) mod 65535 = 0" by simp
  have hi: "c > 0xF7 \<longleftrightarrow> 248 \<le> unat c" by (auto simp: word_less_nat_alt)
  show ?thesis
  proof (cases "c > 0xF7 \<and> d = 0xFF")
    case True
    then have "8 + unat c + 256 * unat d + r = (unat (c + 8) + r) + 65536" using hi by (simp add: unat_add8)
    with z have "((unat (c + 8) + r + 1) + 65535) mod 65535 = 0" by (simp only: add.assoc) simp
    then have "(unat (c + 8) + r + 1) mod 65535 = 0" by (simp only: mod_add_self2)
    then have "(unat (c + 8) + r) mod 65535 \<noteq> 0"
      using mod_Suc [of "unat (c + 8) + r" 65535] by (auto split: if_splits)
    then show ?thesis using True checksum_zero [OF l(2)] new by (simp add: cd unat_add8)
  next
    case False
    then have s: "sum16n (rd (ping_edit a f) icmp_type (n - 34)) = 8 + unat c + 256 * unat d + r"
      using hi unfolding new by (auto simp: unat_add8)
    then show ?thesis using False checksum_zero [OF l(2)] z unfolding s by (auto simp: cd)
  qed
qed

section \<open>The port registry\<close>

lemma first_slot_Some: "first_slot P xs = Some i \<Longrightarrow> i < length xs \<and> P (xs ! i) \<and> (\<forall>j < i. \<not> P (xs ! j))"
proof (induction xs arbitrary: i)
  case (Cons x xs)
  show ?case
  proof (cases "P x")
    case False
    with Cons obtain k where "i = Suc k" "first_slot P xs = Some k" by auto
    with Cons.IH [of k] False show ?thesis by (auto simp: less_Suc_eq_0_disj)
  qed (use Cons in auto)
qed simp

lemma first_slot_None: "first_slot P xs = None \<longleftrightarrow> (\<forall>x \<in> set xs. \<not> P x)"
  by (induction xs) auto

text \<open>The map from ports to callbacks that the table stands for, and its well-formedness.\<close>

definition port_map :: "(u16 \<times> 'cb option) list \<Rightarrow> u16 \<Rightarrow> 'cb option" where
  "port_map t p = (if p = 0 then None else Option.bind (map_of t p) id)"

definition ports_ok :: "(u16 \<times> 'cb option) list \<Rightarrow> bool" where
  "ports_ok t \<longleftrightarrow> (\<forall>i j. i < length t \<longrightarrow> j < length t \<longrightarrow> fst (t ! i) = fst (t ! j) \<longrightarrow> fst (t ! i) \<noteq> 0 \<longrightarrow> i = j)
     \<and> (\<forall>e \<in> set t. (fst e = 0) = (snd e = None))"

lemma map_of_first_slot:
  "map_of t p = map_option (\<lambda>i. snd (t ! i)) (first_slot (\<lambda>e. fst e = p) t)"
  by (induction t) (auto simp: option.map_comp comp_def)

lemma map_of_nth_unique:
  "i < length t \<Longrightarrow> \<forall>j < length t. fst (t ! j) = fst (t ! i) \<longrightarrow> j = i \<Longrightarrow> map_of t (fst (t ! i)) = Some (snd (t ! i))"
proof (induction t arbitrary: i)
  case (Cons e t)
  show ?case
  proof (cases i)
    case (Suc k)
    have "fst e \<noteq> fst (t ! k)" using Cons.prems(2) [rule_format, of 0] Suc by auto
    moreover have "\<forall>j < length t. fst (t ! j) = fst (t ! k) \<longrightarrow> j = k"
      using Cons.prems(2) Suc by (metis Suc_inject Suc_mono length_Cons nth_Cons_Suc)
    ultimately show ?thesis using Cons.IH [of k] Cons.prems(1) Suc by auto
  qed (cases e, simp)
qed simp

lemma map_of_update_free:
  assumes "fst (t ! i) = a" "i < length t" "a \<noteq> p" "b \<noteq> p"
  shows "map_of (t[i := (b, v)]) p = map_of t p"
  using assms by (induction t arbitrary: i) (auto simp: nth_Cons split: nat.splits)

lemma map_of_update_same:
  assumes "i < length t" "map_of t b = None"
  shows "map_of (t[i := (b, v)]) b = Some v"
  using assms by (induction t arbitrary: i) (auto split: nat.splits if_splits)

lemma UDP_register_ok:
  assumes "ports_ok (udpRegistry s)" "p \<noteq> 0" "UDP_register p cb s = (r, s')"
  shows "ports_ok (udpRegistry s')"
    and "r = 0 \<longrightarrow> port_map (udpRegistry s') = (port_map (udpRegistry s))(p := Some cb)"
    and "r \<noteq> 0 \<longrightarrow> s' = s"
proof -
  let ?t = "udpRegistry s"
  have "ports_ok (udpRegistry s') \<and> (r = 0 \<longrightarrow> port_map (udpRegistry s') = (port_map ?t)(p := Some cb))
    \<and> (r \<noteq> 0 \<longrightarrow> s' = s)"
  proof (cases "first_slot (\<lambda>e. fst e = p) ?t")
    case (Some i)
    then have "map_of ?t p = Some (snd (?t ! i))" by (simp add: map_of_first_slot)
    with Some assms show ?thesis
      by (auto simp: UDP_register_def port_map_def fun_eq_iff split: if_splits)
  next
    case None
    then have n: "\<forall>e \<in> set ?t. fst e \<noteq> p" "map_of ?t p = None"
      by (simp_all add: first_slot_None map_of_first_slot)
    show ?thesis
    proof (cases "first_slot (\<lambda>e. fst e = 0) ?t")
      case None
      with \<open>first_slot (\<lambda>e. fst e = p) ?t = None\<close> assms show ?thesis by (auto simp: UDP_register_def)
    next
      case (Some i)
      with first_slot_Some [OF this] have i: "i < length ?t" "fst (?t ! i) = 0" by auto
      have s': "s' = s\<lparr>udpRegistry := ?t[i := (p, Some cb)]\<rparr>" "r = 0"
        using Some None assms(3) by (simp_all add: UDP_register_def)
      have "ports_ok (?t[i := (p, Some cb)])"
        using assms(1,2) n(1) i
        by (auto simp: ports_ok_def nth_list_update dest!: set_update_subset_insert [THEN subsetD])
      moreover have "port_map (?t[i := (p, Some cb)]) q = ((port_map ?t)(p := Some cb)) q" for q
        using map_of_update_same [OF i(1) n(2), of "Some cb"] map_of_update_free [OF i(2,1), of q p "Some cb"] assms(2)
        by (auto simp: port_map_def)
      ultimately show ?thesis using s' by auto
    qed
  qed
  then show "ports_ok (udpRegistry s')"
    "r = 0 \<longrightarrow> port_map (udpRegistry s') = (port_map (udpRegistry s))(p := Some cb)"
    "r \<noteq> 0 \<longrightarrow> s' = s" by blast+
qed

lemma UDP_process_map:
  assumes "ports_ok (udpRegistry s)"
  shows "UDP_process f s = map_option Some (port_map (udpRegistry s) (htons (get16 f udp_portDst)))"
proof -
  let ?p = "htons (get16 f udp_portDst)"
  show ?thesis
  proof (cases "first_slot (\<lambda>e. fst e = ?p) (udpRegistry s)")
    case (Some i)
    have "snd (udpRegistry s ! i) \<noteq> None" if "?p \<noteq> 0"
      using first_slot_Some [OF Some] assms that nth_mem unfolding ports_ok_def by metis
    then obtain cb where "snd (udpRegistry s ! i) = Some cb" if "?p \<noteq> 0" by auto
    with Some show ?thesis
      by (cases "?p = 0") (simp_all add: UDP_process_def Let_def port_map_def map_of_first_slot)
  qed (simp add: UDP_process_def Let_def port_map_def map_of_first_slot)
qed

lemma UDP_register_keeps:
  assumes "UDP_register p cb s = (0, s')" "p \<noteq> 0"
  shows "port_map (udpRegistry s) p \<in> {None, Some cb}"
proof (cases "first_slot (\<lambda>e. fst e = p) (udpRegistry s)")
  case None
  then show ?thesis by (simp add: port_map_def map_of_first_slot)
next
  case (Some i)
  then have "snd (udpRegistry s ! i) = Some cb" using assms(1) by (simp add: UDP_register_def split: if_splits)
  with Some assms(2) show ?thesis by (simp add: port_map_def map_of_first_slot)
qed

text \<open>
  What the services that register ports rely on: a successful registration binds the port, an
  unsuccessful one changes nothing, and a binding is never taken over by another callback.
\<close>

locale port_service =
  fixes look :: "'s \<Rightarrow> u16 \<Rightarrow> 'cb option" and reg :: "u16 \<Rightarrow> 'cb \<Rightarrow> 's \<Rightarrow> int \<times> 's" and ok :: "'s \<Rightarrow> bool"
  assumes reg_ok: "ok s \<Longrightarrow> p \<noteq> 0 \<Longrightarrow> reg p cb s = (r, s') \<Longrightarrow> ok s'"
    and reg_bind: "ok s \<Longrightarrow> p \<noteq> 0 \<Longrightarrow> reg p cb s = (0, s') \<Longrightarrow> look s' = (look s)(p := Some cb)"
    and reg_free: "ok s \<Longrightarrow> p \<noteq> 0 \<Longrightarrow> reg p cb s = (0, s') \<Longrightarrow> look s p \<in> {None, Some cb}"
    and reg_fail: "ok s \<Longrightarrow> p \<noteq> 0 \<Longrightarrow> reg p cb s = (r, s') \<Longrightarrow> r \<noteq> 0 \<Longrightarrow> s' = s"
begin

lemma binding_stable:
  assumes "ok s" "p \<noteq> 0" "reg p cb s = (r, s')" "look s q = Some c"
  shows "look s' q = Some c"
proof (cases "r = 0")
  case True
  with reg_bind [OF assms(1,2), of cb s'] reg_free [OF assms(1,2), of cb s'] assms show ?thesis by auto
qed (use reg_fail [OF assms(1-3)] assms(4) in auto)

definition regs :: "(u16 \<times> 'cb) list \<Rightarrow> 's \<Rightarrow> 's" where
  "regs ps s = fold (\<lambda>(p, cb) s. snd (reg p cb s)) ps s"

lemma regs_stable:
  "ok s \<Longrightarrow> \<forall>(p, cb) \<in> set ps. p \<noteq> 0 \<Longrightarrow> look s q = Some c \<Longrightarrow> ok (regs ps s) \<and> look (regs ps s) q = Some c"
proof (induction ps arbitrary: s)
  case (Cons a ps)
  obtain p cb where a: "a = (p, cb)" by (cases a)
  obtain r s' where r: "reg p cb s = (r, s')" by (cases "reg p cb s")
  from Cons.prems a have "p \<noteq> 0" by auto
  with Cons.IH [of s'] Cons.prems reg_ok [OF Cons.prems(1) this r] binding_stable [OF Cons.prems(1) this r]
  show ?case by (auto simp: regs_def a r)
qed (simp add: regs_def)

end

interpretation ports: port_service "\<lambda>s. port_map (udpRegistry s)" UDP_register "\<lambda>s. ports_ok (udpRegistry s)"
proof (unfold_locales, goal_cases)
  case (1 s p cb r s')
  then show ?case by (rule UDP_register_ok(1))
next
  case (2 s p cb s')
  from UDP_register_ok(2) [OF this] show ?case by simp
next
  case (3 s p cb s')
  from UDP_register_keeps [OF this(3,2)] show ?case .
next
  case (4 s p cb r s')
  from UDP_register_ok(3) [OF this(1-3)] this(4) show ?case by simp
qed

section \<open>Properties\<close>

text \<open>
  C15: Finalised UDP datagrams verify at the receiver. After \<open>UDP_finalize\<close> and \<open>IPv4_finalize\<close> the
  IP header sums to the one's complement zero, so does the UDP segment with its pseudo header, the
  three length and type fields are those of the frame, and the payload and addresses are intact.
\<close>
theorem finalized_datagram_verifies:
  assumes "42 \<le> n" "n \<le> length f" "n \<le> 65535"
  shows "let g = IPv4_finalize (UDP_finalize f n) n
    in RFC1071_checksum (rd g ip4_head 20) = 0 \<and> udp_verifies g n
      \<and> get16 g eth_ethType = ETHTYPE_IP4 \<and> get16 g ip4_len = htons (of_nat n - 14)
      \<and> get16 g udp_length = htons (of_nat (n - 34))
      \<and> rd g 42 (n - 42) = rd f 42 (n - 42) \<and> rd g ip4_src 8 = rd f ip4_src 8"
  by (rule finalized_datagram [OF assms])

theorem finalized_datagram_verifies_witness:
  "let n = 60; f = replicate 60 7; g = IPv4_finalize (UDP_finalize f n) n
    in RFC1071_checksum (rd g ip4_head 20) = 0 \<and> udp_verifies g n
      \<and> get16 g eth_ethType = ETHTYPE_IP4 \<and> get16 g ip4_len = htons (of_nat n - 14)
      \<and> get16 g udp_length = htons (of_nat (n - 34))
      \<and> rd g 42 (n - 42) = rd f 42 (n - 42) \<and> rd g ip4_src 8 = rd f ip4_src 8"
  using finalized_datagram_verifies [of 60 "replicate 60 7"] by (simp add: Let_def)

text \<open>
  The echo reply. For an echo request to this host whose checksum verifies, the stack transmits
  one frame: to the sender, from this host, type 0, with the same identifier, sequence number and
  data, and a valid IP header. Its incrementally updated ICMP checksum verifies except in one case,
  a request checksum with a high byte above 0xF7 and low byte 0xFF, where the end-around carry is
  lost.
\<close>
theorem echo_reply:
  assumes "42 \<le> n" "n \<le> length f" "n \<le> 65536" "get8 f icmp_type = 8" "get8 f icmp_code = 0"
    "RFC1071_checksum (rd f icmp_type (n - 34)) = 0"
    "isMyMAC s (rd f eth_macDst 6) = 0" "get32 f ip4_dst = ipAddress s"
  shows "\<exists>g. outbox (ICMP_process f n s) = outbox s @ [(g, n)] \<and> length g = length f
    \<and> rd g eth_macDst 6 = rd f eth_macSrc 6 \<and> get32 g ip4_dst = get32 f ip4_src \<and> get32 g ip4_src = ipAddress s
    \<and> get8 g icmp_type = 0 \<and> get8 g icmp_code = 0 \<and> rd g 38 (n - 38) = rd f 38 (n - 38)
    \<and> RFC1071_checksum (rd g ip4_head 20) = 0
    \<and> (RFC1071_checksum (rd g icmp_type (n - 34)) = 0
       \<longleftrightarrow> \<not> (get8 f icmp_chksum > 0xF7 \<and> get8 f (icmp_chksum + 1) = 0xFF))"
proof -
  let ?e = "ping_edit (ipAddress s) f"
  let ?g = "IPv4_finalize ?e n"
  have l: "42 \<le> length f" using assms(1,2) by simp
  note pe = ping_edit_fields [OF l, of "ipAddress s"]
  have o: "outbox (ICMP_process f n s) = outbox s @ [(?g, n)]"
    using assms(4,5,7,8) by (simp add: ICMP_process_def sendPingResponse_edit transmit_frame_def)
  have r: "rd ?g eth_macDst 6 = rd ?e eth_macDst 6" "rd ?g ip4_dst 4 = rd ?e ip4_dst 4"
    "rd ?g ip4_src 4 = rd ?e ip4_src 4" "rd ?g icmp_type 1 = rd ?e icmp_type 1" "rd ?g icmp_code 1 = rd ?e icmp_code 1"
    "rd ?g 38 (n - 38) = rd ?e 38 (n - 38)" "rd ?g icmp_type (n - 34) = rd ?e icmp_type (n - 34)"
    by (rule IPv4_finalize_rd; simp)+
  have "34 \<le> length ?e" using pe(1) l by simp
  from IPv4_finalize_correct(1,2) [OF this, of n]
  have "length ?g = length f" "RFC1071_checksum (rd ?g ip4_head 20) = 0" using pe(1) by simp_all
  moreover have "get8 ?g icmp_type = 0" "get8 ?g icmp_code = 0" "get32 ?g ip4_dst = get32 f ip4_src"
    "get32 ?g ip4_src = ipAddress s"
    using pe(3-6) assms(5) unfolding get8_def get32_def r by simp_all
  ultimately show ?thesis
    using o r echo_checksum [OF assms(1-6), of "ipAddress s"] pe(2,9) by auto
qed

definition echo_request :: bytes where
  "echo_request = replicate 14 0 @ replicate 20 0 @ [8, 0, 0xF7, 0xFF] @ replicate 22 0"

definition ip_reset :: "nat ipst" where
  "ip_reset = \<lparr>myMac = replicate 6 0, ipBroadcast = 0, ipAddress = 0, ipSubnet = - 1, ipRouter = 0, ipDNS = 0,
     ipID = 0x1234, udpRegistry = replicate 16 (0, None), outbox = []\<rparr>"

theorem echo_reply_witness:
  "\<exists>g. outbox (ICMP_process echo_request 60 ip_reset) = outbox ip_reset @ [(g, 60)] \<and> length g = length echo_request
    \<and> rd g eth_macDst 6 = rd echo_request eth_macSrc 6 \<and> get32 g ip4_dst = get32 echo_request ip4_src
    \<and> get32 g ip4_src = ipAddress ip_reset
    \<and> get8 g icmp_type = 0 \<and> get8 g icmp_code = 0 \<and> rd g 38 (60 - 38) = rd echo_request 38 (60 - 38)
    \<and> RFC1071_checksum (rd g ip4_head 20) = 0
    \<and> (RFC1071_checksum (rd g icmp_type (60 - 34)) = 0
       \<longleftrightarrow> \<not> (get8 echo_request icmp_chksum > 0xF7 \<and> get8 echo_request (icmp_chksum + 1) = 0xFF))"
proof (rule echo_reply)
  show "RFC1071_checksum (rd echo_request icmp_type (60 - 34)) = 0" by code_simp
  show "get32 echo_request ip4_dst = ipAddress ip_reset" by code_simp
  show "isMyMAC ip_reset (rd echo_request eth_macDst 6) = 0" by code_simp
  show "get8 echo_request icmp_type = 8" "get8 echo_request icmp_code = 0" by code_simp+
qed (simp_all add: echo_request_def)

text \<open>
  C34: Ports are never stolen. In a well-formed registry a registration that reports success binds
  exactly its port, one that reports failure changes nothing, every port keeps the callback it has
  through any further registrations, and received datagrams go to the callback of their port, which
  is never null.
\<close>
theorem udp_ports_stable:
  assumes "ports_ok (udpRegistry s)" "\<forall>(p, cb) \<in> set ps. p \<noteq> 0" "port \<noteq> 0"
    "UDP_register port cb s = (0, s')" "htons (get16 f udp_portDst) = port"
  shows "UDP_process f (fold (\<lambda>(p, cb) s. snd (UDP_register p cb s)) ps s') = Some (Some cb)"
proof -
  from ports.reg_ok [OF assms(1,3,4)] ports.reg_bind [OF assms(1,3,4)]
  have "ports_ok (udpRegistry s')" "port_map (udpRegistry s') port = Some cb" by simp_all
  from ports.regs_stable [OF this(1) assms(2) this(2)] assms(5) show ?thesis
    by (simp add: UDP_process_map ports.regs_def)
qed

theorem udp_ports_stable_witness:
  "UDP_process (replicate 36 0 @ [0x00, 0x7B] @ replicate 30 0)
     (fold (\<lambda>(p, cb) s. snd (UDP_register p cb s)) [(68, 1), (123, 2)]
        (snd (UDP_register 123 0 ip_reset))) = Some (Some 0)"
proof (rule udp_ports_stable)
  show "ports_ok (udpRegistry ip_reset)" by (simp add: ports_ok_def ip_reset_def)
  have "fst (UDP_register 123 0 ip_reset) = 0" by code_simp
  then show "UDP_register 123 0 ip_reset = (0, snd (UDP_register 123 0 ip_reset))"
    by (metis prod.collapse)
  show "htons (get16 (replicate 36 0 @ [0x00, 0x7B] @ replicate 30 0) udp_portDst) = 123" by code_simp
qed simp_all

end
