(* ===== verification/NetRing.thy ===== *)
theory NetRing
  imports Inet Clocks
begin

unbundle bit_operations_syntax

text \<open>
  The ethernet driver (lib/net.cpp): the rings of 128 receive and transmit descriptors that the
  code shares with the DMA engine. A ring index is a 7-bit word, which is what masking with
  \<open>RX_RING_MASK\<close> and \<open>TX_RING_MASK\<close> makes of the code's \<open>int\<close>, so the arrays are functions of it and
  an index is always in range. The DMA engine is the environment: it clears the OWN bit of a
  descriptor that it has sent, or fills receive descriptors and clears theirs. Callbacks and frame
  handlers that a routine invokes are part of its result.
\<close>

abbreviation (input) MTU :: nat where "MTU \<equiv> 1518"
abbreviation (input) SEGMENT_SIZE :: nat where "SEGMENT_SIZE \<equiv> 128"

definition MASK_CLEAR :: u32 where "MASK_CLEAR = push_bit 21 1"
definition FLAGS_FIRST :: u32 where "FLAGS_FIRST = push_bit 28 1 OR push_bit 25 1"
definition FLAGS_LAST :: u32 where "FLAGS_LAST = push_bit 30 1 OR push_bit 29 1"

abbreviation (input) TDES0_OWN :: nat where "TDES0_OWN \<equiv> 31"
abbreviation (input) TDES0_LS :: nat where "TDES0_LS \<equiv> 29"

type_synonym ring = "7 word"

definition incrRx :: "ring \<Rightarrow> ring" where "incrRx ptr = ptr + 1"
definition incrTx :: "ring \<Rightarrow> ring" where "incrTx ptr = ptr + 1"

record tx_desc =
  TDES0 :: u32
  TBS1 :: nat
  TTSL :: u32
  TTSH :: u32

record rx_desc =
  rx_OWN :: bool
  rx_LS :: bool
  rx_ES :: bool
  rx_FL :: nat
  RTSL :: u32
  RTSH :: u32

record 'cb netst =
  rxTail :: ring
  txHead :: ring
  txTail :: ring
  overflowRx :: u32
  overflowTx :: u32
  rxTime :: "u32 \<times> u32"
  txTime :: "u32 \<times> u32"
  rxDesc :: "ring \<Rightarrow> rx_desc"
  rxBuffer :: "ring \<Rightarrow> bytes"
  txDesc :: "ring \<Rightarrow> tx_desc"
  txBuffer :: "ring \<Rightarrow> bytes"
  txCallback :: "ring \<Rightarrow> 'cb option \<times> u32"
  rxRunning :: bool

definition upd_tx :: "ring \<Rightarrow> (tx_desc \<Rightarrow> tx_desc) \<Rightarrow> 'cb netst \<Rightarrow> 'cb netst" where
  "upd_tx i f s = s\<lparr>txDesc := (txDesc s)(i := f (txDesc s i))\<rparr>"

definition upd_rx :: "ring \<Rightarrow> (rx_desc \<Rightarrow> rx_desc) \<Rightarrow> 'cb netst \<Rightarrow> 'cb netst" where
  "upd_rx i f s = s\<lparr>rxDesc := (rxDesc s)(i := f (rxDesc s i))\<rparr>"

section \<open>Initialisation\<close>

definition initRx :: "'cb netst \<Rightarrow> 'cb netst" where
  "initRx s = s\<lparr>rxDesc := (\<lambda>_. \<lparr>rx_OWN = True, rx_LS = False, rx_ES = False, rx_FL = 0, RTSL = 0, RTSH = 0\<rparr>)\<rparr>"

definition restartRx :: "'cb netst \<Rightarrow> 'cb netst" where
  "restartRx s = (initRx s)\<lparr>rxTail := 0, rxRunning := True\<rparr>"

definition initDescriptors :: "'cb netst \<Rightarrow> 'cb netst" where
  "initDescriptors s = (initRx s)\<lparr>
     txDesc := (\<lambda>i. \<lparr>TDES0 = (if i = - 1 then push_bit 21 1 else 0), TBS1 = 0, TTSL = 0, TTSH = 0\<rparr>),
     txCallback := (\<lambda>_. (None, 0))\<rparr>"

section \<open>Transmission\<close>

text \<open>The copy loop of \<open>transmit\<close>: one segment per descriptor, returning the last one used.\<close>

function tx_copy :: "bytes \<Rightarrow> nat \<Rightarrow> ring \<Rightarrow> 'cb netst \<Rightarrow> ring \<times> 'cb netst" where
  "tx_copy frame len ptr s =
     (let segment = min len SEGMENT_SIZE;
          s = s\<lparr>txBuffer := (txBuffer s)(ptr := wr (txBuffer s ptr) 0 (take segment frame))\<rparr>;
          s = upd_tx ptr (\<lambda>d. d\<lparr>TBS1 := segment\<rparr>) s;
          s = upd_tx ptr (\<lambda>d. d\<lparr>TDES0 := TDES0 d AND MASK_CLEAR\<rparr>) s
      in if len - segment = 0 then (ptr, s)
         else tx_copy (drop segment frame) (len - segment) (incrTx ptr) s)"
  by pat_completeness auto
termination by (relation "measure (\<lambda>(_, len, _, _). len)") auto

lemma unat_minus_1_less: "p \<noteq> h \<Longrightarrow> unat (p - 1 - h) < unat (p - h :: ring)"
proof -
  assume "p \<noteq> h"
  then have "0 < unat (p - h)" by (simp add: unat_gt_0)
  then have "1 \<le> p - h" by (simp add: word_le_nat_alt)
  from unat_sub [OF this] have "unat (p - h - 1) = unat (p - h) - 1" by simp
  then have "unat (p - h - 1) < unat (p - h)" using \<open>0 < unat (p - h)\<close> by linarith
  then show ?thesis by (simp only: diff_right_commute [of p 1 h])
qed

text \<open>The loop that hands the segments to the DMA engine, from the last one back to the first.\<close>

function tx_own :: "ring \<Rightarrow> ring \<Rightarrow> 'cb netst \<Rightarrow> 'cb netst" where
  "tx_own head ptr s =
     (if ptr \<noteq> head then
        let ptr = ptr - 1 in tx_own head ptr (upd_tx ptr (\<lambda>d. d\<lparr>TDES0 := set_bit TDES0_OWN (TDES0 d)\<rparr>) s)
      else s)"
  by pat_completeness auto
termination by (relation "measure (\<lambda>(head, ptr, _). unat (ptr - head))") (auto simp: unat_minus_1_less)

declare tx_copy.simps [simp del] tx_own.simps [simp del]

definition transmit :: "bytes \<Rightarrow> nat \<Rightarrow> 'cb option \<Rightarrow> u32 \<Rightarrow> 'cb netst \<Rightarrow> bool \<times> 'cb netst" where
  "transmit frame len callback ref s =
     (if len > MTU then (False, s)
      else let head = txHead s in
        if unat (txTail s - head - 1) < (len + SEGMENT_SIZE - 1) div SEGMENT_SIZE
        then (False, s\<lparr>overflowTx := overflowTx s + 1\<rparr>)
        else let (ptr, s) = tx_copy frame len head s;
                 s = upd_tx head (\<lambda>d. d\<lparr>TDES0 := TDES0 d OR FLAGS_FIRST\<rparr>) s;
                 s = upd_tx ptr (\<lambda>d. d\<lparr>TDES0 := TDES0 d OR FLAGS_LAST\<rparr>) s;
                 s = s\<lparr>txCallback := (txCallback s)(ptr := (callback, ref))\<rparr>;
                 ptr = incrTx ptr;
                 s = s\<lparr>txHead := ptr\<rparr>
             in (True, tx_own head ptr s))"

lemma unat_plus_1_less: "p \<noteq> h \<Longrightarrow> unat (h - (p + 1)) < unat (h - p :: ring)"
  using unat_minus_1_less [of h p] by (simp add: algebra_simps)

text \<open>The search for the end of the oldest frame: \<open>None\<close> when it is not completely sent.\<close>

function tx_find :: "ring \<Rightarrow> 'cb netst \<Rightarrow> ring option" where
  "tx_find ptr s =
     (if ptr = txHead s \<or> bit (TDES0 (txDesc s ptr)) TDES0_OWN then None
      else if bit (TDES0 (txDesc s ptr)) TDES0_LS then Some ptr
      else tx_find (incrTx ptr) s)"
  by pat_completeness auto
termination by (relation "measure (\<lambda>(ptr, s). unat (txHead s - ptr))") (auto simp: unat_plus_1_less incrTx_def)

text \<open>The loop that puts the segments from \<open>ptr\<close> up to \<open>fin\<close> together again.\<close>

function tx_assemble :: "ring \<Rightarrow> ring \<Rightarrow> 'cb netst \<Rightarrow> bytes" where
  "tx_assemble ptr fin s =
     (if ptr \<noteq> fin then take (TBS1 (txDesc s ptr)) (txBuffer s ptr) @ tx_assemble (incrTx ptr) fin s else [])"
  by pat_completeness auto
termination by (relation "measure (\<lambda>(ptr, e, _). unat (e - ptr))") (auto simp: unat_plus_1_less incrTx_def)

declare tx_find.simps [simp del] tx_assemble.simps [simp del]

definition processFrameTx :: "'cb netst \<Rightarrow> bool \<times> 'cb netst \<times> ('cb \<times> u32 \<times> bytes) option" where
  "processFrameTx s =
     (let tail = txTail s in
      case tx_find tail s of
        None \<Rightarrow> (False, s, None)
      | Some lst \<Rightarrow>
          let fin = incrTx lst in
          (case fst (txCallback s lst) of
             None \<Rightarrow> (True, s\<lparr>txTail := fin\<rparr>, None)
           | Some pCall \<Rightarrow>
               let s = s\<lparr>txCallback := (txCallback s)(lst := (None, snd (txCallback s lst)))\<rparr>;
                   s = s\<lparr>txTime := (TTSL (txDesc s lst), TTSH (txDesc s lst))\<rparr>;
                   buffer = tx_assemble tail fin s;
                   s = s\<lparr>txTail := fin\<rparr>
               in (True, s, Some (pCall, snd (txCallback s lst), buffer))))"

section \<open>Reception\<close>

text \<open>
  The search for the last segment of a frame; a ring in which no descriptor is owned by the DMA
  engine and none ends a frame would be searched forever, which is \<open>Inl ()\<close> after a full turn.
\<close>

fun rx_find :: "nat \<Rightarrow> ring \<Rightarrow> 'cb netst \<Rightarrow> unit + ring option" where
  "rx_find 0 ptr s = Inl ()"
| "rx_find (Suc n) ptr s =
     (if rx_OWN (rxDesc s ptr) then Inr None
      else if rx_LS (rxDesc s ptr) then Inr (Some ptr)
      else rx_find n (incrRx ptr) s)"

function rx_discard :: "ring \<Rightarrow> ring \<Rightarrow> 'cb netst \<Rightarrow> 'cb netst" where
  "rx_discard ptr fin s =
     (if ptr \<noteq> fin then rx_discard (incrRx ptr) fin (upd_rx ptr (\<lambda>d. d\<lparr>rx_OWN := True\<rparr>) s) else s)"
  by pat_completeness auto
termination by (relation "measure (\<lambda>(ptr, e, _). unat (e - ptr))") (auto simp: unat_plus_1_less incrRx_def)

text \<open>
  The assembly loop: \<open>FL\<close> counts the bytes up to and with a segment. A count that goes backwards,
  exceeds the buffer or needs more than a segment would copy out of bounds: \<open>None\<close>.
\<close>

function rx_assemble :: "ring \<Rightarrow> ring \<Rightarrow> bytes \<Rightarrow> nat \<Rightarrow> 'cb netst \<Rightarrow> (bytes \<times> nat \<times> 'cb netst) option" where
  "rx_assemble ptr fin buffer len s =
     (if ptr \<noteq> fin then
        let accLength = rx_FL (rxDesc s ptr) in
        if len \<le> accLength \<and> accLength \<le> length buffer \<and> accLength - len \<le> length (rxBuffer s ptr) then
          rx_assemble (incrRx ptr) fin (wr buffer len (take (accLength - len) (rxBuffer s ptr))) accLength
            (upd_rx ptr (\<lambda>d. d\<lparr>rx_OWN := True\<rparr>) s)
        else None
      else Some (buffer, len, s))"
  by pat_completeness auto
termination by (relation "measure (\<lambda>(ptr, e, _, _, _). unat (e - ptr))") (auto simp: unat_plus_1_less incrRx_def)

declare rx_discard.simps [simp del] rx_assemble.simps [simp del]

datatype handler = ARP_handler | PTP_handler | IPv4_handler

definition frame_handler :: "u16 \<Rightarrow> handler option" where
  "frame_handler ethType =
     (if ethType = ETHTYPE_ARP then Some ARP_handler
      else if ethType = ETHTYPE_PTP then Some PTP_handler
      else if ethType = ETHTYPE_IP4 then Some IPv4_handler
      else None)"

text \<open>The outcome: the state and the handler invoked with the frame, or an out-of-bounds access.\<close>

datatype 'cb rx_outcome = NoFrame | Done "'cb netst" "(handler \<times> bytes) option" | Stuck | OutOfBounds

definition processFrameRx :: "'cb netst \<Rightarrow> 'cb rx_outcome" where
  "processFrameRx s =
     (let tail = rxTail s in
      case rx_find 128 tail s of
        Inl _ \<Rightarrow> Stuck
      | Inr None \<Rightarrow> NoFrame
      | Inr (Some ptr) \<Rightarrow>
          let lst = rxDesc s ptr; fin = incrRx ptr in
          if rx_ES lst then Done ((rx_discard tail fin s)\<lparr>rxTail := fin\<rparr>) None
          else
            let s = s\<lparr>rxTime := (RTSL lst, RTSH lst)\<rparr> in
            case rx_assemble tail fin (replicate (rx_FL lst) 0) 0 s of
              None \<Rightarrow> OutOfBounds
            | Some (buffer, len, s) \<Rightarrow>
                let s = s\<lparr>rxTail := fin\<rparr> in
                if length buffer < HeaderEthernet_size then OutOfBounds
                else if get8 buffer eth_macSrc AND 1 \<noteq> 0 then Done s None
                else Done s (map_option (\<lambda>h. (h, take len buffer)) (frame_handler (get16 buffer eth_ethType))))"

section \<open>Hardware timestamps\<close>

definition nanosToRaw :: "u32 \<Rightarrow> u32 \<Rightarrow> u32" where
  "nanosToRaw seconds nanos = seconds * CLK_FREQ + nanos div CLK_NANOS"

definition getRxTime :: "'a cap_clk_scheme \<Rightarrow> 'cb netst \<Rightarrow> u64 \<times> u64 \<times> u64" where
  "getRxTime c s = rawToFull c (ppsEthernetRaw c + nanosToRaw (snd (rxTime s)) (fst (rxTime s)))"

definition getTxTime :: "'a cap_clk_scheme \<Rightarrow> 'cb netst \<Rightarrow> u64 \<times> u64 \<times> u64" where
  "getTxTime c s = rawToFull c (ppsEthernetRaw c + nanosToRaw (snd (txTime s)) (fst (txTime s)))"

section \<open>Ring positions\<close>

text \<open>Positions are offsets below 128 from an index; distinct offsets are distinct positions.\<close>

abbreviation at_off :: "ring \<Rightarrow> nat \<Rightarrow> ring" where "at_off p k \<equiv> p + of_nat k"

lemma ring_unat [simp]: "k < 128 \<Longrightarrow> unat (of_nat k :: ring) = k"
  by (simp add: unsigned_of_nat take_bit_nat_eq_self)

lemma ring_inj: "a < 128 \<Longrightarrow> b < 128 \<Longrightarrow> at_off p a = at_off p b \<longleftrightarrow> a = b"
  by (metis add_left_cancel ring_unat)

lemma ring_free: "n \<le> 127 \<Longrightarrow> unat (p - at_off p n - 1) = 127 - n"
proof -
  assume n: "n \<le> 127"
  have "(128 :: ring) = 0" by simp
  moreover have "of_nat (127 - n) = (of_nat 127 - of_nat n :: ring)" using n by (rule of_nat_diff)
  ultimately have "p - at_off p n - 1 = of_nat (127 - n)" by simp
  then show ?thesis by simp
qed

definition segs :: "nat \<Rightarrow> nat" where
  "segs len = (len + SEGMENT_SIZE - 1) div SEGMENT_SIZE"

lemma segs_step: "128 < len \<Longrightarrow> segs len = Suc (segs (len - 128))"
  unfolding segs_def by (subst le_div_geq) auto

lemma segs_one: "0 < len \<Longrightarrow> len \<le> 128 \<Longrightarrow> segs len = 1"
  by (simp add: segs_def div_nat_eqI)

lemma segs_pos: "0 < len \<Longrightarrow> 0 < segs len"
  by (simp add: segs_def)

lemma segs_mono: "a \<le> b \<Longrightarrow> segs a \<le> segs b"
  by (simp add: segs_def div_le_mono)

lemma segs_bounds: "0 < len \<Longrightarrow> 128 * (segs len - 1) < len \<and> len \<le> 128 * segs len"
  unfolding segs_def using div_mult_mod_eq [of "len + 127" 128] mod_less_divisor [of 128 "len + 127"]
  by (simp, linarith)

section \<open>What the transmit loops do\<close>

lemma upd_tx_sel [simp]:
  "txDesc (upd_tx i f s) = (txDesc s)(i := f (txDesc s i))" "txBuffer (upd_tx i f s) = txBuffer s"
  "txHead (upd_tx i f s) = txHead s" "txTail (upd_tx i f s) = txTail s"
  "txCallback (upd_tx i f s) = txCallback s" "overflowTx (upd_tx i f s) = overflowTx s"
  by (simp_all add: upd_tx_def)

lemma tx_copy_spec:
  assumes "0 < len" "len \<le> length frame" "segs len \<le> 128" "\<forall>i. length (txBuffer s i) = 128"
    "tx_copy frame len ptr s = (p, s')"
  shows "p = at_off ptr (segs len - 1)
    \<and> (\<forall>k < segs len. TBS1 (txDesc s' (at_off ptr k)) = min (len - 128 * k) 128
        \<and> take (min (len - 128 * k) 128) (txBuffer s' (at_off ptr k)) = take (min (len - 128 * k) 128) (drop (128 * k) frame)
        \<and> TDES0 (txDesc s' (at_off ptr k)) = TDES0 (txDesc s (at_off ptr k)) AND MASK_CLEAR)
    \<and> (\<forall>i. (\<forall>k < segs len. i \<noteq> at_off ptr k) \<longrightarrow> txDesc s' i = txDesc s i \<and> txBuffer s' i = txBuffer s i)
    \<and> (\<forall>i. length (txBuffer s' i) = 128)
    \<and> txHead s' = txHead s \<and> txTail s' = txTail s \<and> txCallback s' = txCallback s \<and> overflowTx s' = overflowTx s"
  using assms
proof (induction frame len ptr s arbitrary: p s' rule: tx_copy.induct)
  case (1 frame len ptr s)
  let ?seg = "min len 128"
  let ?s1 = "upd_tx ptr (\<lambda>d. d\<lparr>TDES0 := TDES0 d AND MASK_CLEAR\<rparr>) (upd_tx ptr (\<lambda>d. d\<lparr>TBS1 := ?seg\<rparr>)
    (s\<lparr>txBuffer := (txBuffer s)(ptr := wr (txBuffer s ptr) 0 (take ?seg frame))\<rparr>))"
  have b: "take ?seg (wr (txBuffer s ptr) 0 (take ?seg frame)) = take ?seg frame"
    using 1(3,5) rd_wr_same [of ?seg "take ?seg frame" 0 "txBuffer s ptr"] by (simp add: rd_def)
  have l: "\<forall>i. length (txBuffer ?s1 i) = 128" using 1(5) by simp
  show ?case
  proof (cases "len \<le> 128")
    case True
    then have "p = ptr" "s' = ?s1" using 1(6) by (auto simp: tx_copy.simps [of frame] Let_def)
    then show ?thesis using True 1(2) b l segs_one [of len] by (auto simp: min_def)
  next
    case False
    then have n: "segs len = Suc (segs (len - 128))" by (simp add: segs_step)
    have r: "tx_copy (drop 128 frame) (len - 128) (incrTx ptr) ?s1 = (p, s')"
      using 1(6) False by (simp add: tx_copy.simps [of frame] Let_def min_def)
    note ih = 1(1) [OF refl refl refl refl, of p s']
    have ih: "p = at_off (incrTx ptr) (segs (len - 128) - 1)
      \<and> (\<forall>k < segs (len - 128). TBS1 (txDesc s' (at_off (incrTx ptr) k)) = min (len - 128 - 128 * k) 128
        \<and> take (min (len - 128 - 128 * k) 128) (txBuffer s' (at_off (incrTx ptr) k))
          = take (min (len - 128 - 128 * k) 128) (drop (128 * k) (drop 128 frame))
        \<and> TDES0 (txDesc s' (at_off (incrTx ptr) k)) = TDES0 (txDesc ?s1 (at_off (incrTx ptr) k)) AND MASK_CLEAR)
      \<and> (\<forall>i. (\<forall>k < segs (len - 128). i \<noteq> at_off (incrTx ptr) k) \<longrightarrow> txDesc s' i = txDesc ?s1 i \<and> txBuffer s' i = txBuffer ?s1 i)
      \<and> (\<forall>i. length (txBuffer s' i) = 128)
      \<and> txHead s' = txHead ?s1 \<and> txTail s' = txTail ?s1 \<and> txCallback s' = txCallback ?s1 \<and> overflowTx s' = overflowTx ?s1"
      using ih r False 1(3,4) l n by (simp add: min_def)
    have e: "at_off (incrTx ptr) k = at_off ptr (Suc k)" for k by (simp add: incrTx_def)
    have ne: "at_off ptr (Suc k) \<noteq> ptr" if "k < segs (len - 128)" for k
      using that n 1(4) ring_inj [of "Suc k" 0 ptr] by simp
    have p0: "0 < segs (len - 128)" using False by (intro segs_pos) simp
    have z: "txDesc s' ptr = txDesc ?s1 ptr" "txBuffer s' ptr = txBuffer ?s1 ptr"
    proof -
      have "\<forall>k < segs (len - 128). ptr \<noteq> at_off (incrTx ptr) k" unfolding e using ne by fastforce
      with ih show "txDesc s' ptr = txDesc ?s1 ptr" "txBuffer s' ptr = txBuffer ?s1 ptr" by blast+
    qed
    have at_k: "TBS1 (txDesc s' (at_off ptr k)) = min (len - 128 * k) 128
        \<and> take (min (len - 128 * k) 128) (txBuffer s' (at_off ptr k)) = take (min (len - 128 * k) 128) (drop (128 * k) frame)
        \<and> TDES0 (txDesc s' (at_off ptr k)) = TDES0 (txDesc s (at_off ptr k)) AND MASK_CLEAR" if "k < segs len" for k
    proof (cases k)
      case 0
      then show ?thesis using z b by simp
    next
      case (Suc j)
      then have j: "j < segs (len - 128)" using that n by simp
      have "TDES0 (txDesc ?s1 (at_off ptr (Suc j))) = TDES0 (txDesc s (at_off ptr (Suc j)))"
        using ne [OF j] by simp
      moreover have eqs: "len - 128 - 128 * j = len - 128 * Suc j"
        "drop (128 * j) (drop 128 frame) = drop (128 * Suc j) frame"
        by (simp_all add: add.commute)
      have "TBS1 (txDesc s' (at_off (incrTx ptr) j)) = min (len - 128 - 128 * j) 128"
        "take (min (len - 128 - 128 * j) 128) (txBuffer s' (at_off (incrTx ptr) j))
          = take (min (len - 128 - 128 * j) 128) (drop (128 * j) (drop 128 frame))"
        "TDES0 (txDesc s' (at_off (incrTx ptr) j)) = TDES0 (txDesc ?s1 (at_off (incrTx ptr) j)) AND MASK_CLEAR"
        using ih j by blast+
      ultimately show ?thesis unfolding e eqs Suc by simp
    qed
    show ?thesis
    proof (intro conjI allI impI)
      show "p = at_off ptr (segs len - 1)" using ih e [of "segs (len - 128) - 1"] p0 n by simp
      fix k assume k: "k < segs len"
      show "TBS1 (txDesc s' (at_off ptr k)) = min (len - 128 * k) 128"
        "take (min (len - 128 * k) 128) (txBuffer s' (at_off ptr k)) = take (min (len - 128 * k) 128) (drop (128 * k) frame)"
        "TDES0 (txDesc s' (at_off ptr k)) = TDES0 (txDesc s (at_off ptr k)) AND MASK_CLEAR"
        using at_k [OF k] by blast+
    next
      fix i assume i: "\<forall>k < segs len. i \<noteq> at_off ptr k"
      then have "i \<noteq> ptr" using n by force
      moreover have "\<forall>k < segs (len - 128). i \<noteq> at_off (incrTx ptr) k"
      proof (intro allI impI)
        fix k assume "k < segs (len - 128)"
        then have "Suc k < segs len" by (simp add: n)
        with i show "i \<noteq> at_off (incrTx ptr) k" unfolding e by blast
      qed
      then have "txDesc s' i = txDesc ?s1 i" "txBuffer s' i = txBuffer ?s1 i" using ih by blast+
      ultimately show "txDesc s' i = txDesc s i" "txBuffer s' i = txBuffer s i" by simp_all
    qed (use ih in simp_all)
  qed
qed

text \<open>
  What later steps may not disturb: size, end mark, contents and callback of a descriptor, but
  not who owns it.
\<close>

definition same_slot :: "'cb netst \<Rightarrow> 'cb netst \<Rightarrow> ring \<Rightarrow> bool" where
  "same_slot s s' i \<longleftrightarrow> TBS1 (txDesc s' i) = TBS1 (txDesc s i) \<and> txBuffer s' i = txBuffer s i
     \<and> bit (TDES0 (txDesc s' i)) TDES0_LS = bit (TDES0 (txDesc s i)) TDES0_LS \<and> txCallback s' i = txCallback s i"

lemma tx_own_spec:
  "(\<forall>i. same_slot s (tx_own head ptr s) i) \<and> txHead (tx_own head ptr s) = txHead s
    \<and> txTail (tx_own head ptr s) = txTail s \<and> overflowTx (tx_own head ptr s) = overflowTx s"
proof (induction head ptr s rule: tx_own.induct)
  case (1 head ptr s)
  show ?case
  proof (cases "ptr = head")
    case False
    with 1 [OF False refl] show ?thesis
      by (simp add: tx_own.simps [of head ptr] Let_def same_slot_def bit_simps)
  qed (simp add: tx_own.simps [of head head] same_slot_def)
qed

lemma tx_own_owned:
  "n \<le> 127 \<Longrightarrow> k < n \<Longrightarrow> bit (TDES0 (txDesc (tx_own head (at_off head n) s) (at_off head k))) TDES0_OWN"
proof (induction n arbitrary: s)
  case (Suc n)
  have ne: "at_off head (Suc n) \<noteq> head" using ring_inj [of "Suc n" 0 head] Suc.prems(1) by simp
  have p: "at_off head (Suc n) - 1 = at_off head n" by simp
  let ?s = "upd_tx (at_off head n) (\<lambda>d. d\<lparr>TDES0 := set_bit TDES0_OWN (TDES0 d)\<rparr>) s"
  have u: "tx_own head (at_off head (Suc n)) s = tx_own head (at_off head n) ?s"
    using ne by (subst tx_own.simps) (simp add: Let_def p del: of_nat_Suc)
  have keep: "bit (TDES0 (txDesc t i)) TDES0_OWN \<Longrightarrow> bit (TDES0 (txDesc (tx_own h q t) i)) TDES0_OWN" for t i h q
  proof (induction h q t rule: tx_own.induct)
    case (1 h q t)
    then show ?case by (cases "q = h") (auto simp: tx_own.simps [of h h] tx_own.simps [of h q] Let_def bit_simps)
  qed
  show ?case
  proof (cases "k = n")
    case True
    have "bit (TDES0 (txDesc ?s (at_off head n))) TDES0_OWN" by (simp add: bit_simps)
    from keep [OF this, of head "at_off head n"] show ?thesis unfolding u True .
  qed (use Suc u in \<open>simp del: of_nat_Suc\<close>)
qed simp

section \<open>The transmit queue\<close>

text \<open>
  \<open>frame_at s p f\<close>: the segments from position \<open>p\<close> on hold the frame \<open>f\<close>, with the last one marked.
  \<open>queue_at s p qs\<close>: the frames \<open>qs\<close>, each with its callback, lie one after the other.
\<close>

definition frame_at :: "'cb netst \<Rightarrow> ring \<Rightarrow> bytes \<Rightarrow> bool" where
  "frame_at s p f \<longleftrightarrow> (\<forall>k < segs (length f). let i = at_off p k; n = min (length f - 128 * k) 128 in
     TBS1 (txDesc s i) = n \<and> take n (txBuffer s i) = take n (drop (128 * k) f)
     \<and> (bit (TDES0 (txDesc s i)) TDES0_LS \<longleftrightarrow> Suc k = segs (length f)))"

type_synonym 'cb sent = "bytes \<times> 'cb option \<times> u32"

fun used :: "'cb sent list \<Rightarrow> nat" where
  "used [] = 0"
| "used ((f, _) # qs) = segs (length f) + used qs"

fun queue_at :: "'cb netst \<Rightarrow> ring \<Rightarrow> 'cb sent list \<Rightarrow> bool" where
  "queue_at s p [] \<longleftrightarrow> True"
| "queue_at s p ((f, c) # qs) \<longleftrightarrow> f \<noteq> [] \<and> frame_at s p f
     \<and> txCallback s (at_off p (segs (length f) - 1)) = c \<and> queue_at s (at_off p (segs (length f))) qs"

definition tx_holds :: "'cb netst \<Rightarrow> 'cb sent list \<Rightarrow> bool" where
  "tx_holds s qs \<longleftrightarrow> queue_at s (txTail s) qs \<and> used qs \<le> 127 \<and> txHead s = at_off (txTail s) (used qs)
     \<and> (\<forall>i. length (txBuffer s i) = 128)"

lemma frame_at_cong:
  "\<forall>k < segs (length f). same_slot s s' (at_off p k) \<Longrightarrow> frame_at s p f \<Longrightarrow> frame_at s' p f"
  by (simp add: frame_at_def same_slot_def Let_def)

lemma queue_at_cong:
  "\<forall>k < used qs. same_slot s s' (at_off p k) \<Longrightarrow> queue_at s p qs \<Longrightarrow> queue_at s' p qs"
proof (induction s p qs rule: queue_at.induct)
  case (2 s p f c qs)
  let ?n = "segs (length f)"
  have "?n > 0" using 2(3) by (intro segs_pos) auto
  have "\<forall>k < used qs. same_slot s s' (at_off (at_off p ?n) k)"
  proof (intro allI impI)
    fix k assume "k < used qs"
    with 2(2) [rule_format, of "?n + k"] show "same_slot s s' (at_off (at_off p ?n) k)"
      by (simp add: add.assoc)
  qed
  moreover have "\<forall>k < ?n. same_slot s s' (at_off p k)" using 2(2) by simp
  moreover have "?n - 1 < ?n" using \<open>?n > 0\<close> by simp
  with calculation have "same_slot s s' (at_off p (?n - 1))" by blast
  then have "txCallback s' (at_off p (?n - 1)) = txCallback s (at_off p (?n - 1))"
    unfolding same_slot_def by blast
  ultimately show ?case using 2 frame_at_cong [of f s s' p] by simp
qed simp

lemma queue_at_append:
  "queue_at s p (qs @ rs) \<longleftrightarrow> queue_at s p qs \<and> queue_at s (at_off p (used qs)) rs"
  by (induction s p qs rule: queue_at.induct) (auto simp: add.assoc)

lemma total_append [simp]: "used (qs @ rs) = used qs + used rs"
  by (induction qs rule: used.induct) auto

lemma flags_LS:
  "bit (w OR FLAGS_FIRST) TDES0_LS = bit w TDES0_LS" "bit (w OR FLAGS_LAST) TDES0_LS"
  "\<not> bit (w AND MASK_CLEAR) TDES0_LS"
  by (simp_all add: FLAGS_FIRST_def FLAGS_LAST_def MASK_CLEAR_def bit_simps)

lemma transmit_room:
  assumes "tx_holds s qs"
  shows "unat (txTail s - txHead s - 1) = 127 - used qs"
  using assms ring_free [of "used qs" "txTail s"] by (simp add: tx_holds_def)

lemma transmit_accepted:
  assumes h: "tx_holds s qs" and f: "f \<noteq> []" "length f \<le> MTU" and r: "used qs + segs (length f) \<le> 127"
  shows "\<exists>s'. transmit f (length f) cb ref s = (True, s') \<and> tx_holds s' (qs @ [(f, cb, ref)])
    \<and> overflowTx s' = overflowTx s \<and> txTail s' = txTail s
    \<and> (\<forall>k < segs (length f). bit (TDES0 (txDesc s' (at_off (txHead s) k))) TDES0_OWN)"
proof -
  let ?h = "txHead s" and ?t = "txTail s" and ?len = "length f" and ?n = "segs (length f)" and ?N = "used qs"
  from h have hd: "?h = at_off ?t ?N" and buf: "\<forall>i. length (txBuffer s i) = 128" and q: "queue_at s ?t qs"
    by (simp_all add: tx_holds_def)
  have pos: "0 < ?len" "0 < ?n" using f segs_pos [of ?len] by simp_all
  obtain p s1 where c: "tx_copy f ?len ?h s = (p, s1)" by (cases "tx_copy f ?len ?h s")
  have n128: "?n \<le> 128" using r by simp
  note sp = tx_copy_spec [OF pos(1) order_refl n128 buf c]
  define s2 where "s2 = upd_tx ?h (\<lambda>d. d\<lparr>TDES0 := TDES0 d OR FLAGS_FIRST\<rparr>) s1"
  define s3 where "s3 = upd_tx p (\<lambda>d. d\<lparr>TDES0 := TDES0 d OR FLAGS_LAST\<rparr>) s2"
  define s4 where "s4 = s3\<lparr>txCallback := (txCallback s3)(p := (cb, ref)), txHead := at_off ?h ?n\<rparr>"
  define s5 where "s5 = tx_own ?h (at_off ?h ?n) s4"
  have p: "p = at_off ?h (?n - 1)" using sp by blast
  then have ip: "incrTx p = at_off ?h ?n" using pos by (cases ?n) (simp_all add: incrTx_def)
  have t: "transmit f ?len cb ref s = (True, s5)"
    using f(2) r transmit_room [OF h] c ip
    by (simp add: transmit_def Let_def s5_def s4_def s3_def s2_def segs_def)
  note own = tx_own_spec [of s4 ?h "at_off ?h ?n", folded s5_def]
  have fr: "frame_at s4 ?h f"
    unfolding frame_at_def Let_def
  proof (intro allI impI)
    fix k assume k: "k < ?n"
    let ?i = "at_off ?h k"
    have d: "TBS1 (txDesc s4 ?i) = TBS1 (txDesc s1 ?i)" "txBuffer s4 ?i = txBuffer s1 ?i"
      by (simp_all add: s4_def s3_def s2_def)
    have ls1: "\<not> bit (TDES0 (txDesc s1 ?i)) TDES0_LS" using sp k by (simp add: flags_LS(3))
    then have ls2: "\<not> bit (TDES0 (txDesc s2 ?i)) TDES0_LS"
      by (cases "(of_nat k :: ring) = 0") (simp_all add: s2_def flags_LS(1))
    have "?i = p \<longleftrightarrow> Suc k = ?n" using ring_inj [of k "?n - 1" ?h] k n128 pos p by auto
    then have "bit (TDES0 (txDesc s4 ?i)) TDES0_LS \<longleftrightarrow> Suc k = ?n"
      using ls2 by (simp add: s4_def s3_def flags_LS(2))
    with d sp k show "TBS1 (txDesc s4 ?i) = min (?len - 128 * k) 128 \<and>
        take (min (?len - 128 * k) 128) (txBuffer s4 ?i) = take (min (?len - 128 * k) 128) (drop (128 * k) f)
        \<and> (bit (TDES0 (txDesc s4 ?i)) TDES0_LS \<longleftrightarrow> Suc k = ?n)" by simp
  qed
  have old: "same_slot s s4 (at_off ?t k)" if "k < ?N" for k
  proof -
    have ne: "at_off ?t k \<noteq> at_off ?h j" if "j < ?n" for j
      using ring_inj [of k "?N + j" ?t] that \<open>k < ?N\<close> r unfolding hd by (simp add: add.assoc)
    then have "at_off ?t k \<noteq> ?h" "at_off ?t k \<noteq> p" using ne [of 0] ne [of "?n - 1"] pos p by simp_all
    with sp ne show ?thesis by (simp add: same_slot_def s4_def s3_def s2_def)
  qed
  have "queue_at s4 ?t qs" using queue_at_cong [OF _ q] old by blast
  moreover have "queue_at s4 (at_off ?t ?N) [(f, cb, ref)]"
    using fr f(1) p by (simp add: s4_def flip: hd)
  ultimately have "queue_at s4 ?t (qs @ [(f, cb, ref)])" by (simp only: queue_at_append)
  then have "queue_at s5 ?t (qs @ [(f, cb, ref)])"
    by (rule queue_at_cong [rotated]) (use own in blast)
  moreover have "txTail s5 = ?t" "txHead s5 = at_off ?t (?N + ?n)" "overflowTx s5 = overflowTx s"
    using own sp by (simp_all add: s4_def s3_def s2_def hd add.assoc)
  moreover have "\<forall>i. length (txBuffer s5 i) = 128"
    using own sp by (simp add: same_slot_def s4_def s3_def s2_def)
  moreover have "\<forall>k < ?n. bit (TDES0 (txDesc s5 (at_off ?h k))) TDES0_OWN"
    unfolding s5_def using r by (auto intro!: tx_own_owned)
  ultimately show ?thesis using t r by (auto simp: tx_holds_def)
qed

lemma transmit_refused:
  assumes "tx_holds s qs" "MTU < n \<or> 127 < used qs + segs n"
  shows "transmit f n cb ref s = (False, if MTU < n then s else s\<lparr>overflowTx := overflowTx s + 1\<rparr>)"
  using assms transmit_room [OF assms(1)] by (auto simp: transmit_def Let_def segs_def tx_holds_def)

definition owned :: "'cb netst \<Rightarrow> ring \<Rightarrow> bool" where
  "owned s i \<longleftrightarrow> bit (TDES0 (txDesc s i)) TDES0_OWN"

text \<open>The oldest frame is sent when the DMA engine has given back all of its descriptors.\<close>

definition sent_by_dma :: "'cb netst \<Rightarrow> bytes \<Rightarrow> bool" where
  "sent_by_dma s f \<longleftrightarrow> (\<forall>k < segs (length f). \<not> owned s (at_off (txTail s) k))"

lemma tx_find_spec:
  assumes "frame_at s p f" "\<forall>k < segs (length f). at_off p k \<noteq> txHead s" "j < segs (length f)"
  shows "tx_find (at_off p j) s
    = (if \<exists>k. j \<le> k \<and> k < segs (length f) \<and> owned s (at_off p k) then None else Some (at_off p (segs (length f) - 1)))"
  using assms(3)
proof (induction "segs (length f) - j" arbitrary: j)
  case (Suc m)
  let ?n = "segs (length f)"
  have nh: "at_off p j \<noteq> txHead s" using assms(2) Suc.prems by blast
  have ls: "bit (TDES0 (txDesc s (at_off p j))) TDES0_LS \<longleftrightarrow> Suc j = ?n"
    using assms(1) Suc.prems by (simp add: frame_at_def Let_def)
  show ?case
  proof (cases "owned s (at_off p j)")
    case True
    then have "\<exists>k. j \<le> k \<and> k < ?n \<and> owned s (at_off p k)" using Suc.prems by blast
    moreover have "tx_find (at_off p j) s = None"
      using True by (subst tx_find.simps) (simp add: owned_def)
    ultimately show ?thesis by simp
  next
    case False
    then have no: "\<not> bit (TDES0 (txDesc s (at_off p j))) TDES0_OWN" by (simp add: owned_def)
    show ?thesis
    proof (cases "Suc j = ?n")
      case True
      then have "\<not> (\<exists>k. j \<le> k \<and> k < ?n \<and> owned s (at_off p k))"
        using False by (metis le_neq_implies_less less_Suc_eq_le not_less)
      moreover have "tx_find (at_off p j) s = Some (at_off p j)"
        using nh no ls True by (subst tx_find.simps) simp
      moreover have "j = ?n - 1" using True by simp
      ultimately show ?thesis by (simp only: if_False)
    next
      case l: False
      have e: "incrTx (at_off p j) = at_off p (Suc j)" by (simp add: incrTx_def)
      have "tx_find (at_off p j) s = tx_find (at_off p (Suc j)) s"
        using nh no ls l by (subst tx_find.simps) (simp add: e)
      moreover have "(\<exists>k. j \<le> k \<and> k < ?n \<and> owned s (at_off p k)) = (\<exists>k. Suc j \<le> k \<and> k < ?n \<and> owned s (at_off p k))"
        using False by (metis Suc_leD Suc_leI le_neq_implies_less)
      moreover have "m = ?n - Suc j" "Suc j < ?n" using Suc l by linarith+
      ultimately show ?thesis using Suc.hyps(1) [of "Suc j"] by presburger
    qed
  qed
qed simp

lemma tx_assemble_spec:
  assumes "frame_at s p f" "segs (length f) \<le> 127" "j \<le> segs (length f)"
  shows "tx_assemble (at_off p j) (at_off p (segs (length f))) s = drop (128 * j) f"
  using assms(3)
proof (induction "segs (length f) - j" arbitrary: j)
  case 0
  then have "j = segs (length f)" by simp
  moreover have "length f \<le> 128 * segs (length f)" using segs_bounds [of "length f"] by (cases "f = []") auto
  ultimately show ?case by (subst tx_assemble.simps) simp
next
  case (Suc m)
  let ?n = "segs (length f)"
  have j: "j < ?n" using Suc.hyps(2) by simp
  then have "at_off p j \<noteq> at_off p ?n" using ring_inj [of j ?n p] assms(2) by simp
  then have "tx_assemble (at_off p j) (at_off p ?n) s
    = take (TBS1 (txDesc s (at_off p j))) (txBuffer s (at_off p j)) @ tx_assemble (incrTx (at_off p j)) (at_off p ?n) s"
    by (subst tx_assemble.simps) simp
  also have "take (TBS1 (txDesc s (at_off p j))) (txBuffer s (at_off p j)) = take 128 (drop (128 * j) f)"
    using assms(1) j by (simp add: frame_at_def Let_def min_def)
  also have "incrTx (at_off p j) = at_off p (Suc j)" by (simp add: incrTx_def)
  also have "tx_assemble (at_off p (Suc j)) (at_off p ?n) s = drop (128 * Suc j) f"
    using Suc j by (intro Suc.hyps(1)) auto
  finally show ?case by (metis append_take_drop_id drop_drop mult_Suc_right add.commute)
qed

lemma used_Cons: "used ((f, c) # qs) = segs (length f) + used qs"
  by (cases c) simp

lemma completed_frame:
  assumes h: "tx_holds s ((f, c) # qs)"
  shows "sent_by_dma s f \<Longrightarrow> \<exists>s'. processFrameTx s = (True, s', map_option (\<lambda>cb. (cb, snd c, f)) (fst c)) \<and> tx_holds s' qs
      \<and> txHead s' = txHead s \<and> txDesc s' = txDesc s"
    and "\<not> sent_by_dma s f \<Longrightarrow> processFrameTx s = (False, s, None)"
proof -
  let ?t = "txTail s" and ?n = "segs (length f)"
  from h have f: "f \<noteq> []" "frame_at s ?t f" "txCallback s (at_off ?t (?n - 1)) = c"
    and q: "queue_at s (at_off ?t ?n) qs" and u: "?n + used qs \<le> 127"
    and hd: "txHead s = at_off ?t (?n + used qs)" and buf: "\<forall>i. length (txBuffer s i) = 128"
    by (simp_all add: tx_holds_def used_Cons)
  have n: "0 < ?n" using f(1) segs_pos by simp
  have nh: "\<forall>k < ?n. at_off ?t k \<noteq> txHead s"
    unfolding hd using ring_inj [of _ "?n + used qs" ?t] u by simp
  from tx_find_spec [OF f(2) nh n]
  have find: "tx_find ?t s = (if sent_by_dma s f then Some (at_off ?t (?n - 1)) else None)"
    by (auto simp: sent_by_dma_def)
  show "\<not> sent_by_dma s f \<Longrightarrow> processFrameTx s = (False, s, None)"
    by (simp add: processFrameTx_def find)
  assume "sent_by_dma s f"
  with find have find: "tx_find ?t s = Some (at_off ?t (?n - 1))" by simp
  have fin: "incrTx (at_off ?t (?n - 1)) = at_off ?t ?n" using n by (cases ?n) (simp_all add: incrTx_def)
  have hold: "tx_holds s' qs" if "txTail s' = at_off ?t ?n" "txHead s' = txHead s" "\<forall>i. length (txBuffer s' i) = 128"
    "\<forall>k < used qs. same_slot s s' (at_off (at_off ?t ?n) k)" for s' :: "'a netst"
    using that queue_at_cong [OF that(4) q] u hd by (simp add: tx_holds_def add.assoc)
  show "\<exists>s'. processFrameTx s = (True, s', map_option (\<lambda>cb. (cb, snd c, f)) (fst c)) \<and> tx_holds s' qs
      \<and> txHead s' = txHead s \<and> txDesc s' = txDesc s"
  proof (cases "fst c")
    case None
    have "tx_holds (s\<lparr>txTail := at_off ?t ?n\<rparr>) qs"
      by (rule hold) (simp_all add: buf same_slot_def)
    moreover have "processFrameTx s = (True, s\<lparr>txTail := at_off ?t ?n\<rparr>, None)"
      by (simp only: processFrameTx_def Let_def find option.case f(3) None fin)
    ultimately show ?thesis using None by auto
  next
    case (Some cb)
    let ?l = "at_off ?t (?n - 1)"
    let ?s1 = "s\<lparr>txCallback := (txCallback s)(?l := (None, snd c)), txTime := (TTSL (txDesc s ?l), TTSH (txDesc s ?l))\<rparr>"
    let ?s2 = "?s1\<lparr>txTail := at_off ?t ?n\<rparr>"
    have "frame_at ?s1 ?t f" using f(2) by (simp add: frame_at_def)
    from tx_assemble_spec [OF this, of 0] u have as: "tx_assemble ?t (at_off ?t ?n) ?s1 = f" by simp
    have "at_off (at_off ?t ?n) k \<noteq> ?l" if "k < used qs" for k
      using ring_inj [of "?n + k" "?n - 1" ?t] that u n by (simp add: add.assoc del: of_nat_diff)
    then have "tx_holds ?s2 qs" by (intro hold) (simp_all add: buf same_slot_def del: of_nat_diff)
    moreover have "processFrameTx s = (True, ?s2, Some (cb, snd c, f))"
      unfolding processFrameTx_def Let_def find option.case f(3) Some fin
      by (simp add: as [unfolded One_nat_def] del: of_nat_diff)
    ultimately show ?thesis using Some by auto
  qed
qed

lemma completed_none: "tx_holds s [] \<Longrightarrow> processFrameTx s = (False, s, None)"
  by (simp add: processFrameTx_def tx_holds_def tx_find.simps [of "txTail s"])

subsection \<open>The link as a queue\<close>

text \<open>
  Steps of the transmit side: a submission, a poll of \<open>processFrameTx\<close>, or the DMA engine giving a
  descriptor back with its timestamp. A step shows the frames accepted and the callbacks made.
\<close>

inductive tx_step :: "'cb netst \<Rightarrow> 'cb sent list \<Rightarrow> ('cb \<times> u32 \<times> bytes) list \<Rightarrow> 'cb netst \<Rightarrow> bool" where
  tx_submit: "f \<noteq> [] \<Longrightarrow> transmit f (length f) cb ref s = (r, s') \<Longrightarrow>
    tx_step s (if r then [(f, cb, ref)] else []) [] s'"
| tx_poll: "processFrameTx s = (r, s', c) \<Longrightarrow> tx_step s [] (case c of None \<Rightarrow> [] | Some x \<Rightarrow> [x]) s'"
| tx_dma: "tx_step s [] [] (upd_tx i (\<lambda>d. d\<lparr>TDES0 := unset_bit TDES0_OWN (TDES0 d), TTSL := lo, TTSH := hi\<rparr>) s)"

inductive_cases tx_stepE: "tx_step s ins calls s'"

definition calls_of :: "'cb sent \<Rightarrow> ('cb \<times> u32 \<times> bytes) list" where
  "calls_of = (\<lambda>(f, cb, ref). case cb of None \<Rightarrow> [] | Some c \<Rightarrow> [(c, ref, f)])"

text \<open>
  What the network services rely on when they send: frames leave in the order they were accepted,
  and each one's callback is made with it.
\<close>

locale frame_link =
  fixes holds :: "'s \<Rightarrow> 'f list \<Rightarrow> bool" and step :: "'s \<Rightarrow> 'f list \<Rightarrow> 'c list \<Rightarrow> 's \<Rightarrow> bool"
    and calls :: "'f \<Rightarrow> 'c list"
  assumes step_queue: "holds s qs \<Longrightarrow> step s ins cs s' \<Longrightarrow>
    \<exists>outs qs'. holds s' qs' \<and> qs @ ins = outs @ qs' \<and> cs = concat (map calls outs)"
begin

lemma queue_exI: "holds s qs' \<Longrightarrow> qs @ ins = outs @ qs' \<Longrightarrow> cs = concat (map calls outs) \<Longrightarrow>
    \<exists>outs qs'. holds s qs' \<and> qs @ ins = outs @ qs' \<and> cs = concat (map calls outs)"
  by blast

inductive trace :: "'s \<Rightarrow> 'f list \<Rightarrow> 'c list \<Rightarrow> 's \<Rightarrow> bool" where
  trace_nil: "trace s [] [] s"
| trace_step: "trace s ins cs s1 \<Longrightarrow> step s1 ins' cs' s2 \<Longrightarrow> trace s (ins @ ins') (cs @ cs') s2"

lemma trace_queue:
  "trace s ins cs s' \<Longrightarrow> holds s qs \<Longrightarrow>
    \<exists>outs qs'. holds s' qs' \<and> qs @ ins = outs @ qs' \<and> cs = concat (map calls outs)"
proof (induction rule: trace.induct)
  case (trace_nil s)
  then show ?case by (intro queue_exI [of s qs qs _ "[]"]) simp_all
next
  case (trace_step s ins cs s1 ins' cs' s2)
  then obtain outs qs1 where q1: "holds s1 qs1" "qs @ ins = outs @ qs1" "cs = concat (map calls outs)"
    by blast
  from step_queue [OF q1(1) trace_step.hyps(2)] obtain outs' qs2 where
    "holds s2 qs2" "qs1 @ ins' = outs' @ qs2" "cs' = concat (map calls outs')" by blast
  moreover from this q1 have "qs @ ins @ ins' = (outs @ outs') @ qs2" by (metis append_assoc)
  ultimately show ?case using q1 by (intro queue_exI [of s2 qs2 qs _ "outs @ outs'"]) simp_all
qed

end

lemma tx_holds_same:
  assumes "tx_holds s qs" "\<forall>i. same_slot s s' i" "txHead s' = txHead s" "txTail s' = txTail s"
  shows "tx_holds s' qs"
  using assms queue_at_cong [of qs s s' "txTail s"] by (auto simp: tx_holds_def same_slot_def)

lemma tx_queue_exI:
  "tx_holds s qs' \<Longrightarrow> qs @ ins = outs @ qs' \<Longrightarrow> cs = concat (map calls_of outs) \<Longrightarrow>
    \<exists>outs qs'. tx_holds s qs' \<and> qs @ ins = outs @ qs' \<and> cs = concat (map calls_of outs)"
  by blast

lemma tx_step_queue:
  assumes h: "tx_holds s qs" and st: "tx_step s ins cs s'"
  shows "\<exists>outs qs'. tx_holds s' qs' \<and> qs @ ins = outs @ qs' \<and> cs = concat (map calls_of outs)"
  using st
proof (cases rule: tx_step.cases)
  case (tx_submit f cb ref r)
  show ?thesis
  proof (cases "length f \<le> MTU \<and> used qs + segs (length f) \<le> 127")
    case True
    with transmit_accepted [OF h tx_submit(3), of cb ref] tx_submit have "r" "tx_holds s' (qs @ [(f, cb, ref)])"
      by auto
    with tx_submit show ?thesis by (intro tx_queue_exI [of s' "qs @ [(f, cb, ref)]" qs _ "[]"]) simp_all
  next
    case False
    with transmit_refused [OF h, of "length f" f cb ref] tx_submit
    have "\<not> r" "s' = s \<or> s' = s\<lparr>overflowTx := overflowTx s + 1\<rparr>" by (auto split: if_splits)
    then have "\<not> r" "tx_holds s' qs" using tx_holds_same [OF h, of s'] h by (auto simp: same_slot_def)
    with tx_submit show ?thesis by (intro tx_queue_exI [of s' qs qs _ "[]"]) auto
  qed
next
  case (tx_poll r c)
  show ?thesis
  proof (cases qs)
    case Nil
    with completed_none [of s] h tx_poll have "s' = s" "c = None" by auto
    with h tx_poll show ?thesis by (intro tx_queue_exI [of s' qs qs _ "[]"]) auto
  next
    case (Cons q qs')
    obtain f x where q: "q = (f, x)" by (cases q)
    show ?thesis
    proof (cases "sent_by_dma s f")
      case True
      with completed_frame(1) [of s f x qs'] h Cons q tx_poll
      have "tx_holds s' qs'" "c = map_option (\<lambda>cb. (cb, snd x, f)) (fst x)" by auto
      with tx_poll Cons q show ?thesis
        by (intro tx_queue_exI [of s' qs' qs _ "[q]"]) (auto simp: calls_of_def split: option.splits prod.splits)
    next
      case False
      with completed_frame(2) [of s f x qs'] h Cons q tx_poll have "s' = s" "c = None" by auto
      with h tx_poll show ?thesis by (intro tx_queue_exI [of s' qs qs _ "[]"]) auto
    qed
  qed
next
  case (tx_dma i lo hi)
  have "tx_holds s' qs" by (rule tx_holds_same [OF h]) (auto simp: tx_dma same_slot_def bit_simps)
  with tx_dma show ?thesis by (intro tx_queue_exI [of s' qs qs _ "[]"]) auto
qed

interpretation link: frame_link tx_holds tx_step calls_of
  by unfold_locales (rule tx_step_queue)

inductive tx_run :: "'cb netst \<Rightarrow> 'cb sent list \<Rightarrow> ('cb \<times> u32 \<times> bytes) list \<Rightarrow> 'cb netst \<Rightarrow> bool" where
  run_start: "tx_run s [] [] s"
| run_step: "tx_run s ins cs s1 \<Longrightarrow> tx_step s1 ins' cs' s2 \<Longrightarrow> tx_run s (ins @ ins') (cs @ cs') s2"

lemma tx_run_trace: "tx_run s ins cs s' \<Longrightarrow> link.trace s ins cs s'"
  by (induction rule: tx_run.induct) (auto intro: link.trace_nil link.trace_step)

section \<open>The receive ring\<close>

text \<open>What the DMA engine has written when it has received a frame of \<open>f\<close> from index \<open>p\<close> on.\<close>

definition received_at :: "'cb netst \<Rightarrow> ring \<Rightarrow> bytes \<Rightarrow> bool" where
  "received_at s p f \<longleftrightarrow> (\<forall>k < segs (length f). let d = rxDesc s (at_off p k) in
     \<not> rx_OWN d \<and> \<not> rx_ES d \<and> (rx_LS d \<longleftrightarrow> Suc k = segs (length f)) \<and> rx_FL d = min (128 * Suc k) (length f)
     \<and> length (rxBuffer s (at_off p k)) = 128
     \<and> take (rx_FL d - 128 * k) (rxBuffer s (at_off p k)) = take (rx_FL d - 128 * k) (drop (128 * k) f))"

lemma rx_find_spec:
  assumes "received_at s p f" "j < segs (length f)" "segs (length f) \<le> m + j"
  shows "rx_find m (at_off p j) s = Inr (Some (at_off p (segs (length f) - 1)))"
  using assms(2,3)
proof (induction m arbitrary: j)
  case (Suc m)
  let ?n = "segs (length f)"
  have d: "\<not> rx_OWN (rxDesc s (at_off p j))" "rx_LS (rxDesc s (at_off p j)) \<longleftrightarrow> Suc j = ?n"
    using assms(1) Suc.prems(1) by (simp_all add: received_at_def Let_def)
  show ?case
  proof (cases "Suc j = ?n")
    case True
    then have "at_off p (?n - 1) = at_off p j" by (metis diff_Suc_1)
    with d True show ?thesis by simp
  next
    case False
    have "incrRx (at_off p j) = at_off p (Suc j)" by (simp add: incrRx_def)
    with d False Suc show ?thesis by (simp del: of_nat_Suc of_nat_diff)
  qed
qed simp

lemma upd_rx_sel [simp]:
  "rxDesc (upd_rx i f s) = (rxDesc s)(i := f (rxDesc s i))" "rxBuffer (upd_rx i f s) = rxBuffer s"
  "rxTail (upd_rx i f s) = rxTail s"
  by (simp_all add: upd_rx_def)

lemma rx_assemble_spec:
  assumes "f \<noteq> []" "segs (length f) \<le> 127" "j \<le> segs (length f)" "length buf = length f"
    "take (128 * j) buf = take (128 * j) f"
    "\<forall>k < segs (length f). j \<le> k \<longrightarrow> (let d = rxDesc s (at_off p k) in rx_FL d = min (128 * Suc k) (length f)
     \<and> length (rxBuffer s (at_off p k)) = 128
     \<and> take (rx_FL d - 128 * k) (rxBuffer s (at_off p k)) = take (rx_FL d - 128 * k) (drop (128 * k) f))"
  shows "\<exists>s'. rx_assemble (at_off p j) (at_off p (segs (length f))) buf (min (128 * j) (length f)) s
      = Some (f, length f, s') \<and> rxTail s' = rxTail s
    \<and> (\<forall>k < segs (length f). j \<le> k \<longrightarrow> rx_OWN (rxDesc s' (at_off p k)))
    \<and> (\<forall>i. rx_OWN (rxDesc s i) \<longrightarrow> rx_OWN (rxDesc s' i))"
  using assms(3-6)
proof (induction "segs (length f) - j" arbitrary: j buf s)
  case 0
  then have j: "j = segs (length f)" by simp
  moreover have "length f \<le> 128 * j" using segs_bounds [of "length f"] assms(1) j by auto
  ultimately show ?case using 0 by (subst rx_assemble.simps) simp
next
  case (Suc m)
  let ?n = "segs (length f)" and ?i = "at_off p j"
  have j: "j < ?n" using Suc.hyps(2) by simp
  then have ne: "?i \<noteq> at_off p ?n" using ring_inj [of j ?n p] assms(2) by simp
  have lo: "128 * j < length f"
  proof -
    have "128 * j \<le> 128 * (?n - 1)" using j by simp
    also have "\<dots> < length f" using segs_bounds [of "length f"] assms(1) by simp
    finally show ?thesis .
  qed
  define acc where "acc = min (128 * Suc j) (length f)"
  have c: "min (128 * j) (length f) = 128 * j" "128 * j \<le> acc" "acc \<le> length f" "acc - 128 * j \<le> 128"
    using lo by (auto simp: acc_def)
  have d: "rx_FL (rxDesc s ?i) = acc" "length (rxBuffer s ?i) = 128"
    "take (acc - 128 * j) (rxBuffer s ?i) = take (acc - 128 * j) (drop (128 * j) f)"
    using Suc.prems(4) j by (auto simp: Let_def acc_def)
  define w where "w = wr buf (128 * j) (take (acc - 128 * j) (drop (128 * j) f))"
  define s1 where "s1 = upd_rx ?i (\<lambda>d. d\<lparr>rx_OWN := True\<rparr>) s"
  have r: "rx_assemble ?i (at_off p ?n) buf (min (128 * j) (length f)) s
    = rx_assemble (at_off p (Suc j)) (at_off p ?n) w acc s1"
  proof -
    have "incrRx ?i = at_off p (Suc j)" by (simp add: incrRx_def)
    then show ?thesis unfolding c(1)
      using ne c d Suc.prems(2) by (subst rx_assemble.simps) (simp add: Let_def w_def s1_def del: of_nat_Suc)
  qed
  have w: "length w = length f" "take (128 * Suc j) w = take (128 * Suc j) f"
  proof -
    show "length w = length f" using Suc.prems(2) by (simp add: w_def)
    show "take (128 * Suc j) w = take (128 * Suc j) f"
    proof (rule nth_equalityI)
      fix i assume "i < length (take (128 * Suc j) w)"
      then have i: "i < 128 * Suc j" "i < length f" using \<open>length w = length f\<close> by simp_all
      show "take (128 * Suc j) w ! i = take (128 * Suc j) f ! i"
      proof (cases "i < 128 * j")
        case True
        then have "buf ! i = f ! i" using Suc.prems(3) by (metis nth_take)
        with True i Suc.prems(2) show ?thesis by (simp add: w_def nth_wr)
      next
        case False
        with i Suc.prems(2) lo show ?thesis by (simp add: w_def nth_wr acc_def min_def)
      qed
    qed (use \<open>length w = length f\<close> in simp)
  qed
  have "\<exists>s'. rx_assemble (at_off p (Suc j)) (at_off p ?n) w acc s1 = Some (f, length f, s') \<and> rxTail s' = rxTail s1
    \<and> (\<forall>k < ?n. Suc j \<le> k \<longrightarrow> rx_OWN (rxDesc s' (at_off p k)))
    \<and> (\<forall>i. rx_OWN (rxDesc s1 i) \<longrightarrow> rx_OWN (rxDesc s' i))"
    unfolding acc_def
  proof (rule Suc.hyps(1))
    show "m = ?n - Suc j" "Suc j \<le> ?n" using Suc.hyps(2) j by simp_all
    show "\<forall>k < ?n. Suc j \<le> k \<longrightarrow> (let d = rxDesc s1 (at_off p k) in rx_FL d = min (128 * Suc k) (length f)
       \<and> length (rxBuffer s1 (at_off p k)) = 128
       \<and> take (rx_FL d - 128 * k) (rxBuffer s1 (at_off p k)) = take (rx_FL d - 128 * k) (drop (128 * k) f))"
    proof -
      have fl: "rx_FL (rxDesc s1 i) = rx_FL (rxDesc s i)" "rxBuffer s1 = rxBuffer s" for i
        by (simp_all add: s1_def)
      show ?thesis using Suc.prems(4) unfolding Let_def fl by (meson Suc_leD)
    qed
  qed (use w in auto)
  then obtain s' where s': "rx_assemble (at_off p (Suc j)) (at_off p ?n) w acc s1 = Some (f, length f, s')"
    "rxTail s' = rxTail s1" "\<forall>k < ?n. Suc j \<le> k \<longrightarrow> rx_OWN (rxDesc s' (at_off p k))"
    "\<forall>i. rx_OWN (rxDesc s1 i) \<longrightarrow> rx_OWN (rxDesc s' i)" by blast
  have "rx_OWN (rxDesc s' ?i)" using s'(4) by (simp add: s1_def)
  then have "\<forall>k < ?n. j \<le> k \<longrightarrow> rx_OWN (rxDesc s' (at_off p k))" using s'(3) by (metis Suc_leI le_neq_implies_less)
  with s' r show ?case by (auto simp: s1_def)
qed

lemma processFrameRx_frame:
  assumes "received_at s (rxTail s) f" "HeaderEthernet_size \<le> length f" "segs (length f) \<le> 127"
  shows "\<exists>s'. processFrameRx s = Done s' (if get8 f eth_macSrc AND 1 \<noteq> 0 then None
        else map_option (\<lambda>h. (h, f)) (frame_handler (get16 f eth_ethType)))
    \<and> rxTail s' = at_off (rxTail s) (segs (length f))
    \<and> (\<forall>k < segs (length f). rx_OWN (rxDesc s' (at_off (rxTail s) k)))"
proof -
  let ?p = "rxTail s" and ?n = "segs (length f)"
  have f: "f \<noteq> []" using assms(2) by auto
  then have n: "0 < ?n" by (intro segs_pos) simp
  let ?l = "rxDesc s (at_off ?p (?n - 1))"
  have find: "rx_find 128 ?p s = Inr (Some (at_off ?p (?n - 1)))"
    using rx_find_spec [OF assms(1) n, of 128] assms(3) by simp
  have "128 * (?n - 1) < length f" "length f \<le> 128 * ?n" using segs_bounds [of "length f"] f by auto
  moreover have "?n - 1 < ?n" using n by simp
  note assms(1) [unfolded received_at_def Let_def, rule_format, OF this]
  ultimately have l: "rx_FL ?l = length f" "\<not> rx_ES ?l" using n by (auto simp: min_def simp del: of_nat_diff)
  have fin: "incrRx (at_off ?p (?n - 1)) = at_off ?p ?n" using n by (cases ?n) (simp_all add: incrRx_def)
  define s1 where "s1 = s\<lparr>rxTime := (RTSL ?l, RTSH ?l)\<rparr>"
  have "\<forall>k < ?n. 0 \<le> k \<longrightarrow> (let d = rxDesc s1 (at_off ?p k) in rx_FL d = min (128 * Suc k) (length f)
     \<and> length (rxBuffer s1 (at_off ?p k)) = 128
     \<and> take (rx_FL d - 128 * k) (rxBuffer s1 (at_off ?p k)) = take (rx_FL d - 128 * k) (drop (128 * k) f))"
    using assms(1) by (auto simp: received_at_def s1_def Let_def)
  from rx_assemble_spec [OF f assms(3) le0 _ _ this, of "replicate (length f) 0"]
  obtain s2 where as: "rx_assemble ?p (at_off ?p ?n) (replicate (length f) 0) 0 s1 = Some (f, length f, s2)"
    "\<forall>k < ?n. rx_OWN (rxDesc s2 (at_off ?p k))" by auto
  have "processFrameRx s = Done (s2\<lparr>rxTail := at_off ?p ?n\<rparr>) (if get8 f eth_macSrc AND 1 \<noteq> 0 then None
        else map_option (\<lambda>h. (h, f)) (frame_handler (get16 f eth_ethType)))"
    unfolding processFrameRx_def Let_def find sum.case option.case l fin
    using as assms(2) l(2) by (auto simp: s1_def)
  then show ?thesis using as(2) by auto
qed

section \<open>Properties\<close>

text \<open>
  C6: The transmit ring delivers frames in order and exactly once. Through any sequence of
  submissions, polls and completions by the DMA engine, from a ring with the frames \<open>qs\<close> in flight,
  the frames accepted are, in order, those completed followed by those still in the ring; the
  callbacks made are those of the completed frames, each with its own reference and the very bytes
  that were submitted. No descriptor in flight is overwritten.
\<close>
theorem transmit_fifo:
  assumes "tx_holds s qs" "tx_run s ins cs s'"
  shows "\<exists>outs qs'. tx_holds s' qs' \<and> qs @ ins = outs @ qs' \<and> cs = concat (map calls_of outs)"
  by (rule link.trace_queue [OF tx_run_trace [OF assms(2)] assms(1)])

definition net_reset :: "nat netst" where
  "net_reset = initDescriptors \<lparr>rxTail = 0, txHead = 0, txTail = 0, overflowRx = 0, overflowTx = 0, rxTime = (0, 0),
     txTime = (0, 0), rxDesc = (\<lambda>_. \<lparr>rx_OWN = False, rx_LS = False, rx_ES = False, rx_FL = 0, RTSL = 0, RTSH = 0\<rparr>),
     rxBuffer = (\<lambda>_. replicate 128 0), txDesc = (\<lambda>_. \<lparr>TDES0 = 0, TBS1 = 0, TTSL = 0, TTSH = 0\<rparr>),
     txBuffer = (\<lambda>_. replicate 128 0), txCallback = (\<lambda>_. (None, 0)), rxRunning = True\<rparr>"

lemma net_reset_holds: "tx_holds net_reset []"
  by (simp add: net_reset_def initDescriptors_def initRx_def tx_holds_def)

theorem transmit_fifo_witness:
  fixes f :: bytes
  defines "f \<equiv> replicate 200 7"
  defines "r \<equiv> transmit f (length f) (Some 5) 9 net_reset"
  shows "\<exists>outs qs'. tx_holds (snd r) qs' \<and> [] @ ([] @ (if fst r then [(f, Some 5, 9)] else [])) = outs @ qs'
    \<and> [] @ [] = concat (map calls_of outs)"
proof (rule transmit_fifo [OF net_reset_holds])
  show "tx_run net_reset ([] @ (if fst r then [(f, Some 5, 9)] else [])) ([] @ []) (snd r)"
    by (rule run_step [OF run_start], rule tx_submit) (simp_all add: r_def f_def)
qed

text \<open>
  The transmit ring never overflows. A frame is accepted exactly when it is at most \<open>MTU\<close> bytes
  long and its segments fit beside those in flight with one descriptor to spare, so that a full ring
  is not mistaken for an empty one; it then joins the queue with its callback and all its
  descriptors belong to the DMA engine. Otherwise the queue is unchanged and the overflow counter
  counts the frames refused for lack of room.
\<close>
theorem transmit_room_exact:
  assumes "tx_holds s qs" "f \<noteq> []"
  shows "let (r, s') = transmit f (length f) cb ref s in
    r = (length f \<le> MTU \<and> used qs + segs (length f) \<le> 127)
    \<and> tx_holds s' (if r then qs @ [(f, cb, ref)] else qs)
    \<and> overflowTx s' = overflowTx s + (if \<not> r \<and> length f \<le> MTU then 1 else 0)
    \<and> (\<not> r \<or> list_all (\<lambda>k. owned s' (at_off (txHead s) k)) [0 ..< segs (length f)])"
proof (cases "length f \<le> MTU \<and> used qs + segs (length f) \<le> 127")
  case True
  with transmit_accepted [OF assms(1,2), of cb ref] show ?thesis
    by (auto simp: owned_def list_all_iff)
next
  case False
  then have r: "transmit f (length f) cb ref s = (False, if MTU < length f then s else s\<lparr>overflowTx := overflowTx s + 1\<rparr>)"
    by (intro transmit_refused [OF assms(1)]) auto
  have "tx_holds (s\<lparr>overflowTx := overflowTx s + 1\<rparr>) qs"
    by (rule tx_holds_same [OF assms(1)]) (simp_all add: same_slot_def)
  with r False assms(1) show ?thesis by simp
qed

theorem transmit_room_exact_witness:
  "let f = replicate 200 7; (r, s') = transmit f (length f) (Some 5) 9 net_reset in
    r = (length f \<le> MTU \<and> used [] + segs (length f) \<le> 127)
    \<and> tx_holds s' (if r then [] @ [(f, Some 5, 9)] else [])
    \<and> overflowTx s' = overflowTx net_reset + (if \<not> r \<and> length f \<le> MTU then 1 else 0)
    \<and> (\<not> r \<or> list_all (\<lambda>k. owned s' (at_off (txHead net_reset) k)) [0 ..< segs (length f)])"
  using transmit_room_exact [OF net_reset_holds, of "replicate 200 7" "Some 5" 9]
  unfolding Let_def by simp

text \<open>
  C28: Received frames are reassembled exactly. When the DMA engine has written a frame as segments
  with cumulative lengths, \<open>processFrameRx\<close> hands the very bytes of the frame to the handler of its
  EtherType, or to none when the source address has the group bit, gives every descriptor back to
  the engine, and moves on to the descriptor after the last segment, with no out-of-bounds copy.
\<close>
theorem receive_exact:
  assumes "received_at s (rxTail s) f" "HeaderEthernet_size \<le> length f" "segs (length f) \<le> 127"
  shows "\<exists>s'. processFrameRx s = Done s' (if get8 f eth_macSrc AND 1 \<noteq> 0 then None
        else map_option (\<lambda>h. (h, f)) (frame_handler (get16 f eth_ethType)))
    \<and> rxTail s' = at_off (rxTail s) (segs (length f))
    \<and> (\<forall>k < segs (length f). rx_OWN (rxDesc s' (at_off (rxTail s) k)))"
  by (rule processFrameRx_frame [OF assms])

definition one_frame :: "bytes \<Rightarrow> nat netst" where
  "one_frame f = net_reset\<lparr>rxDesc := (\<lambda>_. \<lparr>rx_OWN = True, rx_LS = False, rx_ES = False, rx_FL = 0, RTSL = 0, RTSH = 0\<rparr>)
       (0 := \<lparr>rx_OWN = False, rx_LS = True, rx_ES = False, rx_FL = length f, RTSL = 3, RTSH = 4\<rparr>),
     rxBuffer := (\<lambda>_. replicate 128 0)(0 := f @ replicate (128 - length f) 0)\<rparr>"

theorem receive_exact_witness:
  "\<exists>s'. processFrameRx (one_frame (replicate 60 2)) = Done s' (if get8 (replicate 60 2) eth_macSrc AND 1 \<noteq> 0 then None
        else map_option (\<lambda>h. (h, replicate 60 2)) (frame_handler (get16 (replicate 60 2) eth_ethType)))
    \<and> rxTail s' = at_off (rxTail (one_frame (replicate 60 2))) (segs (length (replicate 60 (2 :: u8))))
    \<and> (\<forall>k < segs (length (replicate 60 (2 :: u8))). rx_OWN (rxDesc s' (at_off (rxTail (one_frame (replicate 60 2))) k)))"
  by (rule receive_exact)
     (simp_all add: received_at_def one_frame_def net_reset_def initDescriptors_def initRx_def segs_def)

end
