(* ===== verification/Snmp.thy ===== *)
theory Snmp
  imports Inet
begin

unbundle bit_operations_syntax

text \<open>
  The SNMP agent (lib/snmp/util.cpp, sensors.cpp, snmp.cpp): the ASN.1 readers and writers, the
  sensor tables, and the request handler. Readers work on the received frame at an \<open>int\<close> offset into
  the UDP payload; an access outside the frame buffer is \<open>None\<close>, the readers' own error is the
  offset \<open>- 1\<close>. A writer returns the bytes that it writes from its destination on. The values of the
  sensors, most of them rounded floating-point numbers, are an argument.
\<close>

abbreviation (input) DATA_OFFSET :: int where "DATA_OFFSET \<equiv> 42"

definition data_at :: "bytes \<Rightarrow> int \<Rightarrow> u8 option" where
  "data_at f i = (if 0 \<le> DATA_OFFSET + i \<and> nat (DATA_OFFSET + i) < length f
     then Some (f ! nat (DATA_OFFSET + i)) else None)"

definition data_bytes :: "bytes \<Rightarrow> int \<Rightarrow> nat \<Rightarrow> bytes option" where
  "data_bytes f i n = (if n = 0 then Some []
     else if 0 \<le> DATA_OFFSET + i \<and> nat (DATA_OFFSET + i) + n \<le> length f
     then Some (rd f (nat (DATA_OFFSET + i)) n) else None)"

section \<open>Sizes\<close>

definition lengthSize :: "nat \<Rightarrow> nat" where
  "lengthSize len = (if len < 128 then 1 else if len < 2 ^ 8 then 2 else if len < 2 ^ 16 then 3
     else if len < 2 ^ 24 then 4 else 5)"

definition lengthBytes :: "nat \<Rightarrow> nat" where
  "lengthBytes len = 1 + lengthSize len + len"

definition lengthInteger :: "nat \<Rightarrow> nat" where
  "lengthInteger n = 2 + n"

section \<open>Readers\<close>

text \<open>\<open>readLength\<close> returns the new offset and the length, which keeps its old value on an error.\<close>

definition readLength :: "bytes \<Rightarrow> int \<Rightarrow> int \<Rightarrow> int \<Rightarrow> (int \<times> int) option" where
  "readLength f offset dlen result =
     (if offset < 0 then Some (- 1, result)
      else if offset \<ge> dlen then Some (- 1, result)
      else Option.bind (data_at f offset) (\<lambda>head.
        let offset = offset + 1 in
        if head AND 0x80 = 0 then Some (offset, int (unat head))
        else let len = int (unat (head AND 0x7F)) in
          if len = 1 then
            (if offset + 1 \<ge> dlen then Some (- 1, result)
             else Option.bind (data_at f offset) (\<lambda>a. Some (offset + 1, int (unat a))))
          else if len = 2 then
            (if offset + 2 \<ge> dlen then Some (- 1, result)
             else Option.bind (data_at f offset) (\<lambda>a. Option.bind (data_at f (offset + 1)) (\<lambda>b.
               Some (offset + 2, int (unat (push_bit 8 (ucast a :: u16) OR ucast b))))))
          else Some (- 1, result)))"

text \<open>
  The common part of \<open>readBytes\<close> and \<open>readOID\<close>: at most \<open>rlen\<close> bytes of the content go to \<open>result\<close>,
  whose other bytes stay.
\<close>

definition readOctets :: "u8 \<Rightarrow> bytes \<Rightarrow> int \<Rightarrow> int \<Rightarrow> bytes \<Rightarrow> int \<Rightarrow> (int \<times> bytes \<times> int) option" where
  "readOctets tag f offset dlen result rlen =
     (if offset < 0 then Some (- 1, result, rlen)
      else if offset \<ge> dlen then Some (- 1, result, rlen)
      else Option.bind (data_at f offset) (\<lambda>t.
        if t \<noteq> tag then Some (- 1, result, rlen)
        else Option.bind (readLength f (offset + 1) dlen 0) (\<lambda>(offset, blen).
          if offset < 0 \<or> offset + blen > dlen then Some (- 1, result, rlen)
          else let rlen = (if rlen > blen then blen else rlen) in
            Option.bind (data_bytes f offset (nat rlen)) (\<lambda>bs.
              Some (offset + blen, wr result 0 bs, rlen)))))"

definition readBytes :: "bytes \<Rightarrow> int \<Rightarrow> int \<Rightarrow> bytes \<Rightarrow> int \<Rightarrow> (int \<times> bytes \<times> int) option" where
  "readBytes f offset dlen result rlen = readOctets 0x04 f offset dlen result rlen"

definition readOID :: "bytes \<Rightarrow> int \<Rightarrow> int \<Rightarrow> bytes \<Rightarrow> int \<Rightarrow> (int \<times> bytes \<times> int) option" where
  "readOID f offset dlen result rlen = readOctets 0x06 f offset dlen result rlen"

text \<open>A big-endian 16-bit word at an offset, and the loop that appends words.\<close>

definition word_at :: "bytes \<Rightarrow> int \<Rightarrow> u16 option" where
  "word_at f i = map_option (\<lambda>bs. htons (dec16 bs)) (data_bytes f i 2)"

fun append_words :: "nat \<Rightarrow> bytes \<Rightarrow> int \<Rightarrow> u32 \<Rightarrow> u32 option" where
  "append_words 0 f offset temp = Some temp"
| "append_words (Suc n) f offset temp =
     Option.bind (word_at f offset) (\<lambda>w. append_words n f (offset + 2) (push_bit 16 temp OR ucast w))"

definition readInt32 :: "bytes \<Rightarrow> int \<Rightarrow> int \<Rightarrow> u32 \<Rightarrow> (int \<times> u32) option" where
  "readInt32 f offset dlen result =
     (if offset < 0 then Some (- 1, result)
      else if offset \<ge> dlen then Some (- 1, result)
      else Option.bind (data_at f offset) (\<lambda>tag.
        if tag \<noteq> 0x02 then Some (- 1, result)
        else Option.bind (readLength f (offset + 1) dlen 0) (\<lambda>(offset, blen).
          if offset < 0 \<or> offset + blen > dlen then Some (- 1, result)
          else Option.bind
            (if odd blen then map_option (\<lambda>b. (scast b :: u32, offset + 1, blen - 1)) (data_at f offset)
             else if blen < 4 then map_option (\<lambda>w. (scast w, offset + 2, blen - 2)) (word_at f offset)
             else Some (0, offset, blen))
            (\<lambda>(temp, offset, blen).
              Option.bind (append_words (nat ((blen + 1) div 2)) f offset temp) (\<lambda>temp.
                Some (offset + blen, temp))))))"

section \<open>Writers\<close>

definition writeLength :: "nat \<Rightarrow> bytes" where
  "writeLength len =
     (if len < 128 then [of_nat len]
      else if len < 2 ^ 8 then [0x81, of_nat len]
      else if len < 2 ^ 16 then [0x82, of_nat (len div 2 ^ 8), of_nat len]
      else if len < 2 ^ 24 then [0x83, of_nat (len div 2 ^ 16), of_nat (len div 2 ^ 8), of_nat len]
      else [0x84, of_nat (len div 2 ^ 24), of_nat (len div 2 ^ 16), of_nat (len div 2 ^ 8), of_nat len])"

definition writeBytes :: "bytes \<Rightarrow> bytes" where
  "writeBytes value = [0x04] @ writeLength (length value) @ value"

text \<open>\<open>value\<close> is the little-endian memory of the integer.\<close>

definition writeInteger :: "bytes \<Rightarrow> bytes" where
  "writeInteger value = [0x02, of_nat (length value)] @ rev value"

text \<open>
  The header length of \<open>writeValueBytes\<close> is computed from the length of the value alone; the length
  field is stored over the buffer afterwards.
\<close>

definition writeValueBytes :: "bytes \<Rightarrow> u8 \<Rightarrow> bytes \<Rightarrow> bytes" where
  "writeValueBytes prefOID oid value =
     (let content = prefOID @ [oid] @ writeBytes value;
          dst = [0x30] @ replicate (lengthSize (lengthBytes (length value))) 0 @ content
      in wr dst 1 (writeLength (length content)))"

definition writeValueInt :: "bytes \<Rightarrow> u8 \<Rightarrow> bytes \<Rightarrow> bytes" where
  "writeValueInt prefOID oid value =
     (let content = prefOID @ [oid] @ writeInteger value
      in [0x30, of_nat (length content)] @ content)"

definition writeValueInt8 :: "bytes \<Rightarrow> u8 \<Rightarrow> u8 \<Rightarrow> bytes" where
  "writeValueInt8 prefOID oid value = writeValueInt prefOID oid (enc8 value)"

definition writeValueInt16 :: "bytes \<Rightarrow> u8 \<Rightarrow> u16 \<Rightarrow> bytes" where
  "writeValueInt16 prefOID oid value = writeValueInt prefOID oid (enc16 value)"

definition writeValueInt32 :: "bytes \<Rightarrow> u8 \<Rightarrow> u32 \<Rightarrow> bytes" where
  "writeValueInt32 prefOID oid value = writeValueInt prefOID oid (enc32 value)"

definition writeValueInt64 :: "bytes \<Rightarrow> u8 \<Rightarrow> u64 \<Rightarrow> bytes" where
  "writeValueInt64 prefOID oid value = writeValueInt prefOID oid (enc64 value)"

definition RESP_HEAD :: bytes where
  "RESP_HEAD = [0x02, 0x01, 0x00, 0x04, 0x06, 0x73, 0x74, 0x61, 0x74, 0x75, 0x73, 0xA2]"

definition RESP_ERR :: bytes where
  "RESP_ERR = [0x02, 0x01, 0x00, 0x02, 0x01, 0x00]"

definition wrapVars :: "u32 \<Rightarrow> bytes \<Rightarrow> bytes" where
  "wrapVars reqId vars =
     (let len = length vars;
          rlen = len + (1 + lengthSize len) + length RESP_ERR + lengthInteger 4;
          tlen = rlen + lengthSize rlen + length RESP_HEAD
      in [0x30] @ writeLength tlen @ RESP_HEAD @ writeLength rlen @ writeInteger (enc32 reqId)
         @ RESP_ERR @ [0x30] @ writeLength len @ vars)"

section \<open>Sensor tables\<close>

record sensor =
  sensor_name :: bytes
  sensor_units :: bytes
  typeId :: u8
  sensor_scale :: u8
  precision :: u8

definition snmpSensors :: "sensor list" where
  "snmpSensors = map (\<lambda>(n, u, t, c, p). \<lparr>sensor_name = ascii n, sensor_units = ascii u, typeId = t, sensor_scale = c, precision = p\<rparr>)
    [(''cpu.temp'', ''C'', 8, 9, 4), (''gps.hasFix'', '''', 12, 9, 0), (''gps.taiOffset'', ''s'', 1, 9, 0),
     (''gps.accuracy.time'', ''s'', 1, 6, 0), (''gps.accuracy.freq'', ''s/s'', 1, 5, 0),
     (''pll.offset.last'', ''s'', 1, 7, 4), (''pll.offset.mean'', ''s'', 1, 7, 4), (''pll.offset.rms'', ''s'', 1, 7, 4),
     (''pll.offset.stddev'', ''s'', 1, 7, 4), (''pll.offset.prop'', ''s/s'', 1, 7, 4), (''pll.offset.int'', ''s/s'', 1, 7, 4),
     (''pll.offset.corr'', ''s/s'', 1, 7, 4), (''pll.drift.last'', ''s/s'', 1, 7, 4), (''pll.drift.mean'', ''s/s'', 1, 7, 4),
     (''pll.drift.rms'', ''s/s'', 1, 7, 4), (''pll.drift.stddev'', ''s/s'', 1, 7, 4), (''pll.drift.corr'', ''s/s'', 1, 7, 4),
     (''pll.drift.freq'', ''s/s'', 1, 7, 4)]"

definition OID_SENSOR_PREFIX :: bytes where
  "OID_SENSOR_PREFIX = [0x06, 0x0A, 0x2B, 6, 1, 2, 1, 99, 1, 1, 1]"

definition writeSensorTypes :: bytes where
  "writeSensorTypes = concat (map (\<lambda>k. writeValueInt8 OID_SENSOR_PREFIX 1 (typeId k)) snmpSensors)"

definition writeSensorScales :: bytes where
  "writeSensorScales = concat (map (\<lambda>k. writeValueInt8 OID_SENSOR_PREFIX 2 (sensor_scale k)) snmpSensors)"

definition writeSensorPrecs :: bytes where
  "writeSensorPrecs = concat (map (\<lambda>k. writeValueInt8 OID_SENSOR_PREFIX 3 (precision k)) snmpSensors)"

definition writeSensorValues :: "u32 list \<Rightarrow> bytes" where
  "writeSensorValues values = concat (map (\<lambda>(k, v). writeValueInt32 OID_SENSOR_PREFIX 4 v) (zip snmpSensors values))"

definition writeSensorStatuses :: bytes where
  "writeSensorStatuses = concat (map (\<lambda>_. writeValueInt8 OID_SENSOR_PREFIX 5 1) [0 ..< length snmpSensors])"

definition writeSensorUnits :: bytes where
  "writeSensorUnits = concat (map (\<lambda>k. writeValueBytes OID_SENSOR_PREFIX 6 (sensor_units k)) snmpSensors)"

definition writeSensorUpdateTimes :: "u64 \<Rightarrow> bytes" where
  "writeSensorUpdateTimes now =
     (let timeTicks = ucast (drop_bit 32 (now * 100))
      in concat (map (\<lambda>_. writeValueInt32 OID_SENSOR_PREFIX 7 timeTicks) [0 ..< length snmpSensors]))"

definition writeSensorUpdateRates :: bytes where
  "writeSensorUpdateRates = concat (map (\<lambda>_. writeValueInt8 OID_SENSOR_PREFIX 8 0) [0 ..< length snmpSensors])"

definition writeSensorNames :: bytes where
  "writeSensorNames = concat (map (\<lambda>k. writeValueBytes OID_SENSOR_PREFIX 9 (sensor_name k)) snmpSensors)"

section \<open>The request handler\<close>

record snmpst =
  buffOID :: bytes
  lenOID :: int
  reqId :: u32
  errorStat :: u32
  errorId :: u32

text \<open>What the sensors show: their values, in the order of the table, and the monotonic time.\<close>

type_synonym readings = "u32 list \<times> u64"

definition sendResults :: "bytes \<Rightarrow> bytes \<Rightarrow> snmpst \<Rightarrow> ('cb, 'z) ipst_scheme \<Rightarrow> ('cb, 'z) ipst_scheme" where
  "sendResults frame vars n s =
     (let head = returnToSender (rd frame 0 (nat DATA_OFFSET));
          f = head @ wrapVars (reqId n) vars;
          flen = length f
      in transmit_frame (IPv4_finalize (UDP_finalize f flen) flen) flen s)"

definition sendBatt :: "bytes \<Rightarrow> snmpst \<Rightarrow> ('cb, 'z) ipst_scheme \<Rightarrow> ('cb, 'z) ipst_scheme" where
  "sendBatt frame n s = sendResults frame [] n s"

definition sensor_table :: "readings \<Rightarrow> u8 \<Rightarrow> bytes" where
  "sensor_table r oid =
     (if oid = 1 then writeSensorTypes else if oid = 2 then writeSensorScales
      else if oid = 3 then writeSensorPrecs else if oid = 4 then writeSensorValues (fst r)
      else if oid = 5 then writeSensorStatuses else if oid = 6 then writeSensorUnits
      else if oid = 7 then writeSensorUpdateTimes (snd r) else if oid = 8 then writeSensorUpdateRates
      else if oid = 9 then writeSensorNames else [])"

definition sendSensors :: "readings \<Rightarrow> bytes \<Rightarrow> snmpst \<Rightarrow> ('cb, 'z) ipst_scheme \<Rightarrow> ('cb, 'z) ipst_scheme" where
  "sendSensors r frame n s =
     (if buffOID n ! 6 \<noteq> 1 then s
      else if buffOID n ! 7 \<noteq> 1 then s
      else if buffOID n ! 8 \<noteq> 1 then s
      else sendResults frame (sensor_table r (buffOID n ! 9)) n s)"

text \<open>
  The handler parses in stages. \<open>parse_section\<close> reads a tag and a length and checks that the rest of
  the message has that length; it returns the offset and the length variable, or \<open>None\<close> inside the
  result when the handler returns early.
\<close>

definition parse_section :: "bool \<Rightarrow> u8 \<Rightarrow> bytes \<Rightarrow> int \<Rightarrow> int \<Rightarrow> int \<Rightarrow> (int \<times> int) option option" where
  "parse_section check tag f offset dlen slen =
     Option.bind (data_at f offset) (\<lambda>t.
       if t \<noteq> tag then Some None
       else Option.bind (readLength f (offset + 1) dlen slen) (\<lambda>(offset, slen).
         if check \<and> offset < 0 then Some None
         else if slen \<noteq> 0 \<and> dlen - offset \<noteq> slen then Some None
         else Some (Some (offset, slen))))"

definition community :: bytes where
  "community = [0x73, 0x74, 0x61, 0x74, 0x75, 0x73]"

definition OID_PREFIX_MGMT :: bytes where
  "OID_PREFIX_MGMT = [0x2B, 6, 1, 2, 1]"

text \<open>Version and community: the offset of the request, or an early return.\<close>

definition parse_head :: "bytes \<Rightarrow> int \<Rightarrow> (int \<times> int) option option" where
  "parse_head f dlen =
     Option.bind (parse_section True 0x30 f 0 dlen 0) (\<lambda>r.
       case r of None \<Rightarrow> Some None
       | Some (offset, slen) \<Rightarrow>
         Option.bind (readInt32 f offset dlen 0) (\<lambda>(offset, version).
           if offset < 0 \<or> version \<noteq> 0 then Some None
           else Option.bind (readBytes f offset dlen (replicate 16 0) 16) (\<lambda>(offset, buff, blen).
             if offset < 0 \<or> blen \<noteq> 6 then Some None
             else if take 6 buff \<noteq> community then Some None
             else Some (Some (offset, slen)))))"

text \<open>The request: its three integers, stored whatever the readers return, and the first OID.\<close>

definition parse_request :: "bytes \<Rightarrow> int \<Rightarrow> int \<Rightarrow> int \<Rightarrow> snmpst \<Rightarrow> (snmpst \<times> bool) option" where
  "parse_request f offset dlen slen n =
     Option.bind (parse_section False 0xA0 f offset dlen slen) (\<lambda>r.
       case r of None \<Rightarrow> Some (n, False)
       | Some (offset, slen) \<Rightarrow>
         Option.bind (readInt32 f offset dlen (reqId n)) (\<lambda>(offset, v).
         let n = n\<lparr>reqId := v\<rparr> in
         Option.bind (readInt32 f offset dlen (errorStat n)) (\<lambda>(offset, v).
         let n = n\<lparr>errorStat := v\<rparr> in
         Option.bind (readInt32 f offset dlen (errorId n)) (\<lambda>(offset, v).
         let n = n\<lparr>errorId := v\<rparr> in
         Option.bind (parse_section False 0x30 f offset dlen slen) (\<lambda>r.
           case r of None \<Rightarrow> Some (n, False)
           | Some (offset, slen) \<Rightarrow>
             Option.bind (parse_section False 0x30 f offset dlen slen) (\<lambda>r.
               case r of None \<Rightarrow> Some (n, False)
               | Some (offset, slen) \<Rightarrow>
                 Option.bind (readOID f offset dlen (buffOID n) 16) (\<lambda>(_, buff, len).
                   Some (n\<lparr>buffOID := buff, lenOID := len\<rparr>, True))))))))"

definition oid_section :: "bytes \<Rightarrow> u16" where
  "oid_section buff =
     (let section = ucast (buff ! 5) in
      if section AND 0x80 \<noteq> 0
      then push_bit 7 (section AND 0x7F) OR ucast (buff ! 6)
      else section)"

definition respond :: "readings \<Rightarrow> bytes \<Rightarrow> snmpst \<Rightarrow> ('cb, 'z) ipst_scheme \<Rightarrow> ('cb, 'z) ipst_scheme" where
  "respond r f n s =
     (if lenOID n \<ge> int (length OID_PREFIX_MGMT) \<and> take 5 (buffOID n) = OID_PREFIX_MGMT then
        (if oid_section (buffOID n) = 99 then sendSensors r f n s
         else if oid_section (buffOID n) = 233 then sendBatt f n s
         else s)
      else s)"

definition snmp_process :: "readings \<Rightarrow> bytes \<Rightarrow> nat \<Rightarrow> snmpst \<Rightarrow> ('cb, 'z) ipst_scheme
    \<Rightarrow> (snmpst \<times> ('cb, 'z) ipst_scheme) option" where
  "snmp_process r f flen n s =
     (let dlen = int flen - DATA_OFFSET in
      if isMyMAC s (rd f eth_macDst 6) \<noteq> 0 then Some (n, s)
      else if get32 f ip4_dst \<noteq> ipAddress s then Some (n, s)
      else Option.bind (parse_head f dlen) (\<lambda>h.
        case h of None \<Rightarrow> Some (n, s)
        | Some (offset, slen) \<Rightarrow>
          Option.bind (parse_request f offset dlen slen n) (\<lambda>(n, ok).
            Some (n, if ok then respond r f n s else s))))"

section \<open>Round trips\<close>

text \<open>\<open>holds_at f i bs\<close>: the payload has the bytes \<open>bs\<close> at offset \<open>i\<close>.\<close>

definition holds_at :: "bytes \<Rightarrow> int \<Rightarrow> bytes \<Rightarrow> bool" where
  "holds_at f i bs \<longleftrightarrow> 0 \<le> i \<and> nat (DATA_OFFSET + i) + length bs \<le> length f \<and> rd f (nat (DATA_OFFSET + i)) (length bs) = bs"

lemma holds_at_append: "holds_at f i (xs @ ys) \<longleftrightarrow> holds_at f i xs \<and> holds_at f (i + int (length xs)) ys"
proof (cases "0 \<le> i \<and> nat (42 + i) + length xs + length ys \<le> length f")
  case True
  have e: "nat (42 + (i + int (length xs))) = nat (42 + i) + length xs"
    using True nat_add_distrib [of "42 + i" "int (length xs)"] by (simp add: add.assoc)
  have "rd f (nat (42 + i)) (length xs + length ys)
    = rd f (nat (42 + i)) (length xs) @ rd f (nat (42 + i) + length xs) (length ys)"
    by (simp add: rd_def take_add add.commute)
  moreover have "length (rd f (nat (42 + i)) (length xs)) = length xs" using True by (simp add: length_rd)
  ultimately show ?thesis using True by (auto simp: holds_at_def e)
next
  case False
  then show ?thesis by (auto simp: holds_at_def nat_add_distrib)
qed

lemma holds_at_Cons: "holds_at f i (x # xs) \<longleftrightarrow> data_at f i = Some x \<and> 0 \<le> i \<and> holds_at f (i + 1) xs"
proof -
  have "holds_at f i [x] \<longleftrightarrow> data_at f i = Some x \<and> 0 \<le> i"
    by (auto simp: holds_at_def data_at_def rd_def hd_drop_conv_nth take_Suc_conv_app_nth
        simp flip: Cons_nth_drop_Suc split: if_splits)
  then show ?thesis using holds_at_append [of f i "[x]" xs] by simp
qed

lemma holds_at_bytes: "holds_at f i bs \<Longrightarrow> data_bytes f i (length bs) = Some bs"
  by (auto simp: holds_at_def data_bytes_def)

lemma u8_of_nat_bits:
  "len < 128 \<Longrightarrow> (of_nat len :: u8) AND 0x80 = 0" "len < 256 \<Longrightarrow> unat (of_nat len :: u8) = len"
  "len < 256 \<Longrightarrow> uint (of_nat len :: u8) = int len"
proof -
  show "len < 256 \<Longrightarrow> uint (of_nat len :: u8) = int len"
    by (simp add: unsigned_of_nat take_bit_nat_eq_self flip: of_nat_take_bit)
  show u: "len < 256 \<Longrightarrow> unat (of_nat len :: u8) = len" by (simp add: unsigned_of_nat take_bit_nat_eq_self)
  assume l: "len < 128"
  then have "\<not> bit len 7" by (simp add: bit_iff_odd)
  then have "\<not> bit (of_nat len :: u8) 7" by (simp add: bit_simps)
  then have "(of_nat len :: u8) AND 2 ^ 7 = 0" by (simp only: and_exp_eq_0_iff_not_bit simp_thms)
  then show "(of_nat len :: u8) AND 0x80 = 0" by simp
qed

lemma lengthSize_pos: "1 \<le> lengthSize n" "lengthSize n \<le> 5"
  by (simp_all add: lengthSize_def)

lemma length_writeLength: "length (writeLength len) = lengthSize len"
  by (simp add: writeLength_def lengthSize_def)

lemma push_or_16: "unat (push_bit 8 (ucast (a :: u8) :: u16) OR ucast (b :: u8)) = 256 * unat a + unat b"
proof -
  have "push_bit 8 (ucast a :: u16) OR ucast b = dec16 [b, a]" by (simp add: dec16_def or.commute)
  then show ?thesis by (simp add: unat_dec16)
qed

lemma readLength_write:
  assumes "holds_at f i (writeLength len)" "len < 2 ^ 16" "i + int (lengthSize len) < dlen \<or> len < 128 \<and> i < dlen"
  shows "readLength f i dlen r = Some (i + int (lengthSize len), int len)"
proof -
  have i: "0 \<le> i" using assms(1) by (simp add: holds_at_def)
  consider "len < 128" | "128 \<le> len" "len < 256" | "256 \<le> len" "len < 65536" using assms(2) by fastforce
  then show ?thesis
  proof cases
    case 1
    with assms i show ?thesis
      by (auto simp: readLength_def writeLength_def lengthSize_def holds_at_Cons u8_of_nat_bits)
  next
    case 2
    then have d: "data_at f i = Some 0x81" "data_at f (i + 1) = Some (of_nat len)"
      using assms(1) by (simp_all add: writeLength_def holds_at_Cons)
    have "i + 2 < dlen" using assms(3) 2 by (simp add: lengthSize_def)
    with 2 d i show ?thesis by (simp add: readLength_def lengthSize_def u8_of_nat_bits)
  next
    case 3
    then have d: "data_at f i = Some 0x82" "data_at f (i + 1) = Some (of_nat (len div 256))"
      "data_at f (i + 2) = Some (of_nat len)"
      using assms(1) by (simp_all add: writeLength_def holds_at_Cons add.commute)
    have dl: "i + 3 < dlen" using assms(3) 3 by (simp add: lengthSize_def)
    have "len div 256 < 256" using 3 by (simp add: less_mult_imp_div_less)
    have "unat (push_bit 8 (ucast (of_nat (len div 256) :: u8) :: u16) OR ucast (of_nat len :: u8)) = len"
    proof -
      have "unat (of_nat (len div 256) :: u8) = len div 256" "unat (of_nat len :: u8) = len mod 256"
        using \<open>len div 256 < 256\<close> by (simp_all add: unsigned_of_nat take_bit_eq_mod)
      then show ?thesis by (simp only: push_or_16) simp
    qed
    then have "uint (push_bit 8 (ucast (of_nat (len div 256) :: u8) :: u16) OR ucast (of_nat len :: u8)) = int len"
      by (simp only: uint_nat)
    moreover have "data_at f (2 + i) = Some (of_nat len)" "3 + i = i + 3" using d(3) by (simp_all add: add.commute)
    ultimately show ?thesis using 3 d dl i by (simp add: readLength_def lengthSize_def)
  qed
qed

lemma join_words: "push_bit 16 (push_bit 16 0 OR (ucast (ucast (drop_bit 16 v) :: u16) :: u32)) OR ucast (ucast v :: u16) = (v :: u32)"
  by (rule bit_word_eqI) (auto simp: bit_simps not_less)

lemma rev_enc32: "rev (enc32 v) = rev (enc16 (ucast (drop_bit 16 v))) @ rev (enc16 (ucast v))"
  by (simp add: enc32_def)

lemma word_at_holds: "holds_at f i (rev (enc16 w)) \<Longrightarrow> word_at f i = Some w"
  using holds_at_bytes [of f i "rev (enc16 w)"] by (simp add: word_at_def htons_def enc16_dec16 dec16_enc16)

lemma readInt32_write:
  assumes "holds_at f i (writeInteger (enc32 v))" "i + 6 \<le> dlen"
  shows "readInt32 f i dlen r = Some (i + 6, v)"
proof -
  have i: "0 \<le> i" using assms(1) by (simp add: holds_at_def)
  have "writeInteger (enc32 v) = [0x02] @ writeLength 4 @ rev (enc32 v)"
    by (simp add: writeInteger_def writeLength_def)
  with assms(1) have "holds_at f i ([0x02] @ writeLength 4 @ rev (enc32 v))" by (simp only:)
  then have h: "data_at f i = Some 0x02" "holds_at f (i + 1) (writeLength 4)" "holds_at f (i + 2) (rev (enc32 v))"
    unfolding holds_at_append by (simp_all add: holds_at_Cons [of f i _ "[]"] length_writeLength lengthSize_def add.assoc)
  have len: "readLength f (i + 1) dlen 0 = Some (i + 2, 4)"
    using readLength_write [OF h(2), of dlen 0] assms(2) by (simp add: lengthSize_def)
  have w: "word_at f (i + 2) = Some (ucast (drop_bit 16 v))" "word_at f (i + 4) = Some (ucast v)"
    using h(3) by (auto simp: rev_enc32 holds_at_append add.commute intro!: word_at_holds)
  have "append_words 2 f (i + 2) 0 = Some v"
    using w by (simp add: numeral_2_eq_2 add.assoc join_words [simplified])
  with assms(2) i h(1) len show ?thesis by (simp add: readInt32_def)
qed

lemma readInt32_byte:
  assumes "holds_at f i [0x02, 0x01, b]" "i + 3 \<le> dlen"
  shows "readInt32 f i dlen r = Some (i + 3, scast b)"
proof -
  have i: "0 \<le> i" using assms(1) by (simp add: holds_at_def)
  have "[0x02, 0x01, b] = [0x02] @ writeLength 1 @ [b]"
    by (simp add: writeLength_def)
  with assms(1) have "holds_at f i ([0x02] @ writeLength 1 @ [b])" by (simp only:)
  then have h: "data_at f i = Some 0x02" "holds_at f (i + 1) (writeLength 1)" "data_at f (i + 2) = Some b"
    unfolding holds_at_append by (simp_all add: holds_at_Cons [of f _ _ "[]"] length_writeLength lengthSize_def add.assoc)
  have "readLength f (i + 1) dlen 0 = Some (i + 2, 1)"
    using readLength_write [OF h(2), of dlen 0] assms(2) by (simp add: lengthSize_def)
  with assms(2) i h show ?thesis by (simp add: readInt32_def)
qed

lemma parse_section_write:
  assumes "holds_at f i ([tag] @ writeLength len)" "len < 2 ^ 16" "i + 1 + int (lengthSize len) + int len = dlen"
  shows "parse_section c tag f i dlen r = Some (Some (i + 1 + int (lengthSize len), int len))"
proof -
  have i: "0 \<le> i" "data_at f i = Some tag" "holds_at f (i + 1) (writeLength len)"
    using assms(1) by (simp_all add: holds_at_Cons)
  have "i + 1 + int (lengthSize len) < dlen \<or> len < 128 \<and> i + 1 < dlen"
    using assms(3) lengthSize_pos(1) [of len] by (cases len) auto
  from readLength_write [OF i(3) assms(2) this] i assms(3) show ?thesis
    by (simp add: parse_section_def)
qed

lemma readOctets_write:
  assumes "holds_at f i ([tag] @ writeLength (length v) @ v)" "length v < 128" "length v \<le> 16"
    "i + 2 + int (length v) \<le> dlen"
  shows "readOctets tag f i dlen buf 16 = Some (i + 2 + int (length v), wr buf 0 v, int (length v))"
proof -
  have l: "writeLength (length v) = [of_nat (length v)]" "lengthSize (length v) = 1"
    using assms(2) by (simp_all add: writeLength_def lengthSize_def)
  have i: "0 \<le> i" "data_at f i = Some tag" "holds_at f (i + 1) (writeLength (length v))" "holds_at f (i + 2) v"
    using assms(1) unfolding holds_at_append
    by (simp_all add: holds_at_Cons [of f i _ "[]"] length_writeLength l(2) add.assoc)
  have "readLength f (i + 1) dlen 0 = Some (i + 2, int (length v))"
    using readLength_write [OF i(3), of dlen 0] assms(2,4) l by simp
  moreover have "data_bytes f (i + 2) (length v) = Some v" using i(4) by (rule holds_at_bytes)
  ultimately show ?thesis using assms(3,4) i
    by (cases "length v = 16") (auto simp: readOctets_def Let_def)
qed

lemmas readBytes_write = readOctets_write [of _ _ "0x04", folded readBytes_def]
lemmas readOID_write = readOctets_write [of _ _ "0x06", folded readOID_def]

text \<open>A client's reading of a response with the agent's own readers.\<close>

definition parse_response :: "bytes \<Rightarrow> int \<Rightarrow> (u32 \<times> u32 \<times> u32 \<times> int) option option" where
  "parse_response f dlen =
     Option.bind (parse_head f dlen) (\<lambda>h. case h of None \<Rightarrow> Some None | Some (offset, slen) \<Rightarrow>
     Option.bind (parse_section True 0xA2 f offset dlen slen) (\<lambda>r. case r of None \<Rightarrow> Some None | Some (offset, slen) \<Rightarrow>
     Option.bind (readInt32 f offset dlen 0) (\<lambda>(offset, rid).
     Option.bind (readInt32 f offset dlen 0) (\<lambda>(offset, stat).
     Option.bind (readInt32 f offset dlen 0) (\<lambda>(offset, idx).
     Option.bind (parse_section True 0x30 f offset dlen slen) (\<lambda>r. case r of None \<Rightarrow> Some None | Some (offset, slen) \<Rightarrow>
       Some (Some (rid, stat, idx, offset))))))))"

lemma length_writeInteger: "length (writeInteger v) = 2 + length v"
  by (simp add: writeInteger_def)

lemma wrapVars_parse:
  assumes h: "holds_at f 0 (wrapVars rid vars)" and n: "length vars < 60000"
    and d: "dlen = int (length (wrapVars rid vars))"
  shows "\<exists>off. parse_response f dlen = Some (Some (rid, 0, 0, off)) \<and> holds_at f off vars
    \<and> off + int (length vars) = dlen"
proof -
  define len where "len = length vars"
  define rlen where "rlen = len + (1 + lengthSize len) + 6 + 6"
  define tlen where "tlen = rlen + lengthSize rlen + 12"
  have w: "wrapVars rid vars = [0x30] @ writeLength tlen @ [0x02, 0x01, 0x00]
      @ ([0x04] @ writeLength (length community) @ community) @ ([0xA2] @ writeLength rlen)
      @ writeInteger (enc32 rid) @ [0x02, 0x01, 0x00] @ [0x02, 0x01, 0x00] @ ([0x30] @ writeLength len) @ vars"
  proof -
    have "writeLength (length community) = [6]" by (simp add: community_def writeLength_def)
    then show ?thesis
      by (simp add: wrapVars_def Let_def RESP_HEAD_def RESP_ERR_def lengthInteger_def len_def rlen_def tlen_def
        community_def)
  qed
  have b: "rlen < 2 ^ 16" "tlen < 2 ^ 16" "len < 2 ^ 16"
    using n lengthSize_pos(2) [of len] lengthSize_pos(2) [of rlen] by (simp_all add: rlen_def tlen_def len_def)
  have c: "length community = 6" by (simp add: community_def)
  define o1 where "o1 = 1 + int (lengthSize tlen)"
  define o2 where "o2 = o1 + 11"
  define o3 where "o3 = o2 + 1 + int (lengthSize rlen)"
  define o4 where "o4 = o3 + 12 + 1 + int (lengthSize len)"
  have dl: "dlen = o1 + int tlen" "dlen = o3 + int rlen" "dlen = o4 + int len"
    by (simp_all add: d w length_writeLength length_writeInteger c o1_def o2_def o3_def o4_def rlen_def tlen_def
        len_def lengthSize_def [of 6])
  have p: "holds_at f 0 ([0x30] @ writeLength tlen)" "holds_at f o1 [0x02, 0x01, 0x00]"
    "holds_at f (o1 + 3) ([0x04] @ writeLength (length community) @ community)"
    "holds_at f o2 ([0xA2] @ writeLength rlen)" "holds_at f o3 (writeInteger (enc32 rid))"
    "holds_at f (o3 + 6) [0x02, 0x01, 0x00]" "holds_at f (o3 + 9) [0x02, 0x01, 0x00]"
    "holds_at f (o3 + 12) ([0x30] @ writeLength len)" "holds_at f o4 vars"
    using h unfolding w holds_at_append length_append length_writeLength length_writeInteger c
    by (simp_all add: o1_def o2_def o3_def o4_def lengthSize_def [of 6] algebra_simps)
  have s1: "parse_section True 0x30 f 0 dlen 0 = Some (Some (o1, int tlen))"
    using parse_section_write [OF p(1) b(2), of dlen True 0] dl(1) by (simp add: o1_def)
  have s2: "readInt32 f o1 dlen 0 = Some (o1 + 3, 0)"
    using readInt32_byte [OF p(2), of dlen 0] dl(1) by (simp add: tlen_def)
  have s3: "readBytes f (o1 + 3) dlen (replicate 16 0) 16 = Some (o2, wr (replicate 16 0) 0 community, 6)"
    using readBytes_write [OF p(3), of dlen "replicate 16 0"] dl(1) by (simp add: c o2_def tlen_def)
  have "take 6 (wr (replicate 16 0) 0 community) = community"
    using rd_wr_same [of 6 community 0 "replicate 16 0"] by (simp add: rd_def c)
  moreover have "0 \<le> o1" "0 \<le> o2" by (simp_all add: o1_def o2_def)
  ultimately have hd: "parse_head f dlen = Some (Some (o2, int tlen))"
    using s1 s2 s3 by (simp add: parse_head_def)
  have s4: "parse_section True 0xA2 f o2 dlen (int tlen) = Some (Some (o3, int rlen))"
    using parse_section_write [OF p(4) b(1), of dlen True "int tlen"] dl(2) by (simp add: o3_def)
  have s5: "readInt32 f o3 dlen 0 = Some (o3 + 6, rid)"
    using readInt32_write [OF p(5), of dlen 0] dl(2) by (simp add: rlen_def)
  have s6: "readInt32 f (o3 + 6) dlen 0 = Some (o3 + 9, 0)"
    using readInt32_byte [OF p(6), of dlen 0] dl(2) by (simp add: rlen_def)
  have s7: "readInt32 f (o3 + 9) dlen 0 = Some (o3 + 12, 0)"
    using readInt32_byte [OF p(7), of dlen 0] dl(2) by (simp add: rlen_def)
  have s8: "parse_section True 0x30 f (o3 + 12) dlen (int rlen) = Some (Some (o4, int len))"
    using parse_section_write [OF p(8) b(3), of dlen True "int rlen"] dl(3) by (simp add: o4_def add.assoc)
  have "parse_response f dlen = Some (Some (rid, 0, 0, o4))"
    by (simp add: parse_response_def hd s4 s5 s6 s7 s8)
  then show ?thesis using p(9) dl(3) len_def by blast
qed

section \<open>Reads stay within two bytes of the message\<close>

text \<open>\<open>slack f dlen\<close>: the buffer holds the payload of \<open>dlen\<close> bytes and two more.\<close>

definition slack :: "bytes \<Rightarrow> int \<Rightarrow> bool" where
  "slack f dlen \<longleftrightarrow> 0 \<le> dlen \<and> nat (DATA_OFFSET + dlen) + 2 \<le> length f"

definition valid_off :: "int \<Rightarrow> int \<Rightarrow> bool" where
  "valid_off dlen offset \<longleftrightarrow> offset = - 1 \<or> 0 \<le> offset \<and> offset \<le> dlen"

lemma data_at_slack: "slack f dlen \<Longrightarrow> - 1 \<le> i \<Longrightarrow> i \<le> dlen + 1 \<Longrightarrow> \<exists>b. data_at f i = Some b"
  by (auto simp: slack_def data_at_def nat_less_iff le_nat_iff)

lemma data_bytes_slack:
  assumes "slack f dlen" "0 \<le> i" "i + int n \<le> dlen + 2"
  shows "\<exists>bs. data_bytes f i n = Some bs"
proof -
  have "nat (42 + i) + n \<le> length f" using assms by (simp add: slack_def) linarith
  then show ?thesis using assms by (simp add: data_bytes_def)
qed

lemma readLength_slack:
  assumes "slack f dlen" "- 1 \<le> offset" "offset \<le> dlen + 1"
  shows "\<exists>o' l. readLength f offset dlen r = Some (o', l) \<and> valid_off dlen o'
    \<and> (0 \<le> o' \<longrightarrow> 0 \<le> l \<and> offset < o') \<and> (o' = - 1 \<longrightarrow> l = r)"
proof (cases "0 \<le> offset \<and> offset < dlen")
  case True
  with data_at_slack [OF assms(1), of offset] obtain h where h: "data_at f offset = Some h" by auto
  from True data_at_slack [OF assms(1), of "offset + 1"] obtain a where a: "data_at f (offset + 1) = Some a" by auto
  show ?thesis
  proof (cases "offset + 2 \<le> dlen + 1")
    case b: True
    with True data_at_slack [OF assms(1), of "offset + 2"] obtain b where "data_at f (2 + offset) = Some b"
      by (auto simp: add.commute)
    then show ?thesis using True h a
      by (auto simp: readLength_def valid_off_def Let_def)
  next
    case False
    then show ?thesis using True h a by (auto simp: readLength_def valid_off_def Let_def)
  qed
qed (use assms in \<open>auto simp: readLength_def valid_off_def\<close>)

lemma readOctets_slack:
  assumes "slack f dlen" "valid_off dlen offset" "0 \<le> rlen"
  shows "\<exists>o' res l. readOctets tag f offset dlen result rlen = Some (o', res, l) \<and> valid_off dlen o' \<and> length res = length result"
proof (cases "0 \<le> offset \<and> offset < dlen")
  case True
  with data_at_slack [OF assms(1), of offset] obtain t where t: "data_at f offset = Some t" by auto
  obtain o' l where o: "readLength f (offset + 1) dlen 0 = Some (o', l)" "valid_off dlen o'" "0 \<le> o' \<longrightarrow> 0 \<le> l"
    using readLength_slack [OF assms(1), of "offset + 1" 0] True by auto
  show ?thesis
  proof (cases "t \<noteq> tag \<or> o' < 0 \<or> dlen < o' + l")
    case False
    then have p: "0 \<le> o'" "0 \<le> l" "o' + l \<le> dlen" using o by auto
    obtain bs where "data_bytes f o' (nat (min rlen l)) = Some bs"
    proof -
      have "o' + int (nat (min rlen l)) \<le> dlen + 2" using p assms(3) by (simp add: min_def)
      from data_bytes_slack [OF assms(1) p(1) this] that show thesis by blast
    qed
    moreover have "(if rlen > l then l else rlen) = min rlen l" by simp
    ultimately show ?thesis using True t o p False
      by (simp add: readOctets_def valid_off_def Let_def del: of_nat_min)
  next
    case r: True
    have "valid_off dlen (- 1)" by (simp add: valid_off_def)
    with r show ?thesis using True t o by (auto simp: readOctets_def)
  qed
qed (use assms in \<open>auto simp: readOctets_def valid_off_def\<close>)

lemma append_words_slack:
  "slack f dlen \<Longrightarrow> 0 \<le> i \<Longrightarrow> i + 2 * int n \<le> dlen + 2 \<Longrightarrow> \<exists>v. append_words n f i temp = Some v"
proof (induction n arbitrary: i temp)
  case (Suc n)
  obtain bs where "data_bytes f i 2 = Some bs" using data_bytes_slack [OF Suc.prems(1,2), of 2] Suc.prems(3) by auto
  with Suc show ?case by (simp add: word_at_def)
qed simp

lemma readInt32_slack:
  assumes "slack f dlen" "valid_off dlen offset"
  shows "\<exists>o' v. readInt32 f offset dlen result = Some (o', v) \<and> valid_off dlen o'"
proof (cases "0 \<le> offset \<and> offset < dlen")
  case True
  with data_at_slack [OF assms(1), of offset] obtain t where t: "data_at f offset = Some t" by auto
  obtain o' l where o: "readLength f (offset + 1) dlen 0 = Some (o', l)" "valid_off dlen o'" "0 \<le> o' \<longrightarrow> 0 \<le> l"
    using readLength_slack [OF assms(1), of "offset + 1" 0] True by auto
  have bad: ?thesis if "t \<noteq> 0x02 \<or> o' < 0 \<or> dlen < o' + l"
  proof -
    have "valid_off dlen (- 1)" by (simp add: valid_off_def)
    with that show ?thesis using True t o by (auto simp: readInt32_def)
  qed
  show ?thesis
  proof (cases "t \<noteq> 0x02 \<or> o' < 0 \<or> dlen < o' + l")
    case False
    then have p: "0 \<le> o'" "0 \<le> l" "o' + l \<le> dlen" using o by auto
    consider "odd l" | "even l" "l < 4" | "even l" "4 \<le> l" by linarith
    then show ?thesis
    proof cases
      case 1
      then have "0 < l" using p(2) by (cases "l = 0") auto
      then obtain b where b: "data_at f o' = Some b" using data_at_slack [OF assms(1), of o'] p by auto
      have "o' + 1 + 2 * int (nat ((l - 1 + 1) div 2)) \<le> dlen + 2" using p 1 by simp
      from append_words_slack [OF assms(1) _ this] p obtain v where
        "append_words (nat ((l - 1 + 1) div 2)) f (o' + 1) (scast b) = Some v" by auto
      with True t o p False 1 b show ?thesis by (simp add: readInt32_def valid_off_def)
    next
      case 2
      obtain bs where "data_bytes f o' 2 = Some bs" using data_bytes_slack [OF assms(1) p(1), of 2] p by auto
      moreover have "l = 0 \<or> l = 2" using p 2 by presburger
      then have "o' + 2 + 2 * int (nat ((l - 2 + 1) div 2)) \<le> dlen + 2" using p by auto
      from append_words_slack [OF assms(1) _ this] p obtain v where
        "append_words (nat ((l - 2 + 1) div 2)) f (o' + 2) (scast (htons (dec16 bs))) = Some v" by auto
      ultimately show ?thesis using True t o p False 2 by (simp add: readInt32_def valid_off_def word_at_def)
    next
      case 3
      have "0 \<le> (l + 1) div 2" "2 * ((l + 1) div 2) \<le> l + 1" using p(2) by presburger+
      then have "o' + 2 * int (nat ((l + 1) div 2)) \<le> dlen + 2" using p(3) by simp
      from append_words_slack [OF assms(1) p(1) this] obtain v where
        "append_words (nat ((l + 1) div 2)) f o' 0 = Some v" by auto
      with True t o p False 3 show ?thesis by (simp add: readInt32_def valid_off_def)
    qed
  qed (use bad in blast)
qed (use assms in \<open>auto simp: readInt32_def valid_off_def\<close>)

lemma parse_section_slack:
  assumes "slack f dlen" "valid_off dlen offset"
  shows "\<exists>r. parse_section c tag f offset dlen slen = Some r \<and> (\<forall>o' l. r = Some (o', l) \<longrightarrow> valid_off dlen o')"
proof -
  have b: "- 1 \<le> offset" "offset \<le> dlen" using assms by (auto simp: valid_off_def slack_def)
  obtain t where t: "data_at f offset = Some t" using data_at_slack [OF assms(1), of offset] b by auto
  obtain o' l where o: "readLength f (offset + 1) dlen slen = Some (o', l)" "valid_off dlen o'"
    using readLength_slack [OF assms(1), of "offset + 1" slen] b by auto
  with t show ?thesis by (auto simp: parse_section_def)
qed

lemma parse_head_slack:
  assumes "slack f dlen"
  shows "\<exists>r. parse_head f dlen = Some r \<and> (\<forall>o' l. r = Some (o', l) \<longrightarrow> valid_off dlen o')"
proof -
  have "valid_off dlen 0" using assms by (auto simp: valid_off_def slack_def)
  from parse_section_slack [OF assms this, where c = True and tag = "0x30" and slen = 0] obtain r1 where
    r1: "parse_section True 0x30 f 0 dlen 0 = Some r1" "\<forall>o' l. r1 = Some (o', l) \<longrightarrow> valid_off dlen o'" by blast
  show ?thesis
  proof (cases r1)
    case None
    with r1 show ?thesis by (simp add: parse_head_def)
  next
    case (Some p)
    then obtain o1 l1 where p: "r1 = Some (o1, l1)" "valid_off dlen o1" using r1 by (cases p) auto
    from readInt32_slack [OF assms p(2), of 0] obtain o2 v where i: "readInt32 f o1 dlen 0 = Some (o2, v)" "valid_off dlen o2"
      by blast
    from readOctets_slack [OF assms i(2), where rlen = 16 and tag = "0x04" and result = "replicate 16 0"] obtain o3 res l3 where
      "readBytes f o2 dlen (replicate 16 0) 16 = Some (o3, res, l3)" "valid_off dlen o3"
      by (auto simp: readBytes_def)
    with r1(1) p i show ?thesis by (auto simp: parse_head_def)
  qed
qed

lemma parse_request_slack:
  assumes s: "slack f dlen" and o: "valid_off dlen offset"
  shows "parse_request f offset dlen slen n \<noteq> None"
proof -
  obtain r1 where r1: "parse_section False 0xA0 f offset dlen slen = Some r1" "\<forall>o' l. r1 = Some (o', l) \<longrightarrow> valid_off dlen o'"
    using parse_section_slack [OF s o] by blast
  show ?thesis
  proof (cases r1)
    case None
    with r1 show ?thesis by (simp add: parse_request_def)
  next
    case (Some p)
    then obtain o1 l1 where p: "r1 = Some (o1, l1)" "valid_off dlen o1" using r1 by (cases p) auto
    obtain o2 v2 where i2: "readInt32 f o1 dlen (reqId n) = Some (o2, v2)" "valid_off dlen o2"
      using readInt32_slack [OF s p(2)] by blast
    obtain o3 v3 where i3: "readInt32 f o2 dlen (errorStat n) = Some (o3, v3)" "valid_off dlen o3"
      using readInt32_slack [OF s i2(2)] by blast
    obtain o4 v4 where i4: "readInt32 f o3 dlen (errorId n) = Some (o4, v4)" "valid_off dlen o4"
      using readInt32_slack [OF s i3(2)] by blast
    obtain r5 where r5: "parse_section False 0x30 f o4 dlen l1 = Some r5" "\<forall>o' l. r5 = Some (o', l) \<longrightarrow> valid_off dlen o'"
      using parse_section_slack [OF s i4(2)] by blast
    show ?thesis
    proof (cases r5)
      case None
      with r1(1) p i2 i3 i4 r5 show ?thesis by (simp add: parse_request_def Let_def)
    next
      case (Some p5)
      then obtain o5 l5 where p5: "r5 = Some (o5, l5)" "valid_off dlen o5" using r5 by (cases p5) auto
      obtain r6 where r6: "parse_section False 0x30 f o5 dlen l5 = Some r6" "\<forall>o' l. r6 = Some (o', l) \<longrightarrow> valid_off dlen o'"
        using parse_section_slack [OF s p5(2)] by blast
      show ?thesis
      proof (cases r6)
        case None
        with r1(1) p i2 i3 i4 r5 p5 r6 show ?thesis by (simp add: parse_request_def Let_def)
      next
        case (Some p6)
        then obtain o6 l6 where p6: "r6 = Some (o6, l6)" "valid_off dlen o6" using r6 by (cases p6) auto
        obtain o7 res l7 where "readOID f o6 dlen (buffOID n) 16 = Some (o7, res, l7)"
          using readOctets_slack [OF s p6(2), where rlen = 16] by (fastforce simp: readOID_def)
        with r1(1) p i2 i3 i4 r5 p5 r6 p6 show ?thesis by (simp add: parse_request_def Let_def)
      qed
    qed
  qed
qed

lemma snmp_process_slack:
  assumes "slack f (int flen - DATA_OFFSET)"
  shows "snmp_process r f flen n s \<noteq> None"
proof -
  obtain h where h: "parse_head f (int flen - 42) = Some h" "\<forall>o' l. h = Some (o', l) \<longrightarrow> valid_off (int flen - 42) o'"
    using parse_head_slack [OF assms] by blast
  show ?thesis
  proof (cases h)
    case None
    with h show ?thesis by (simp add: snmp_process_def Let_def)
  next
    case (Some p)
    then obtain o1 l1 where p: "h = Some (o1, l1)" "valid_off (int flen - 42) o1" using h by (cases p) auto
    obtain n' ok where "parse_request f o1 (int flen - 42) l1 n = Some (n', ok)"
      using parse_request_slack [OF assms p(2), of l1 n] by auto
    with h(1) p(1) show ?thesis by (simp add: snmp_process_def Let_def)
  qed
qed

text \<open>
  Without the extra bytes a read leaves the buffer: this frame of the minimal Ethernet length ends with
  the community, and the handler reads the tag of the request after it.
\<close>

definition cut_request :: bytes where
  "cut_request = replicate 42 0 @ [0x30, 0, 0x02, 6, 0, 0, 0, 0, 0, 0] @ ([0x04, 6] @ community)"

lemma snmp_process_overread:
  assumes "isMyMAC s (replicate 6 0) = 0" "ipAddress s = 0"
  shows "length cut_request = 60" "snmp_process r cut_request 60 n s = None"
proof -
  show len: "length cut_request = 60" by (simp add: cut_request_def community_def)
  have d: "data_at cut_request (int i) = Some (cut_request ! (42 + i))" if "i < 18" for i
    using that len by (simp add: data_at_def nat_add_distrib)
  have "data_at cut_request 18 = None" using len by (simp add: data_at_def)
  moreover have "parse_head cut_request 18 = Some (Some (18, 0))"
    by code_simp
  ultimately have "parse_head cut_request 18 = Some (Some (18, 0))" "parse_request cut_request 18 18 0 n = None"
    by (simp_all add: parse_request_def parse_section_def)
  moreover have "rd cut_request 0 6 = replicate 6 0" "get32 cut_request 30 = 0" by code_simp+
  ultimately show "snmp_process r cut_request 60 n s = None"
    using assms by (simp add: snmp_process_def)
qed

section \<open>The agent answers a request\<close>

text \<open>The request for one sensor column that a manager sends.\<close>

definition get_request :: "u32 \<Rightarrow> u8 \<Rightarrow> bytes" where
  "get_request rid col =
     [0x30, 43] @ [0x02, 0x01, 0x00] @ ([0x04] @ writeLength (length community) @ community)
     @ [0xA0, 30] @ writeInteger (enc32 rid) @ [0x02, 0x01, 0x00] @ [0x02, 0x01, 0x00]
     @ [0x30, 16] @ [0x30, 14] @ ([0x06] @ writeLength (length (OID_PREFIX_MGMT @ [99, 1, 1, 1, col]))
       @ (OID_PREFIX_MGMT @ [99, 1, 1, 1, col])) @ [0x05, 0x00]"

lemma length_get_request: "length (get_request rid col) = 45"
  by (simp add: get_request_def length_writeLength length_writeInteger lengthSize_def community_def OID_PREFIX_MGMT_def)

lemma parse_get_request:
  assumes h: "holds_at f 0 (get_request rid col)" and b: "length (buffOID n) = 16"
  shows "parse_head f 45 = Some (Some (13, 43))"
    "parse_request f 13 45 43 n = Some (n\<lparr>reqId := rid, errorStat := 0, errorId := 0,
       buffOID := wr (buffOID n) 0 (OID_PREFIX_MGMT @ [99, 1, 1, 1, col]), lenOID := 10\<rparr>, True)"
proof -
  let ?oid = "OID_PREFIX_MGMT @ [99, 1, 1, 1, col]"
  have c: "length community = 6" "length ?oid = 10" by (simp_all add: community_def OID_PREFIX_MGMT_def)
  have l: "writeLength 43 = [43]" "writeLength 30 = [30]" "writeLength 16 = [16]" "writeLength 14 = [14]"
    by (simp_all add: writeLength_def)
  have p: "holds_at f 0 [0x30, 43]" "holds_at f 2 [0x02, 0x01, 0x00]"
    "holds_at f 5 ([0x04] @ writeLength (length community) @ community)"
    "holds_at f 13 [0xA0, 30]" "holds_at f 15 (writeInteger (enc32 rid))"
    "holds_at f 21 [0x02, 0x01, 0x00]" "holds_at f 24 [0x02, 0x01, 0x00]"
    "holds_at f 27 [0x30, 16]" "holds_at f 29 [0x30, 14]"
    "holds_at f 31 ([0x06] @ writeLength (length ?oid) @ ?oid)"
    using h unfolding get_request_def holds_at_append length_append length_writeLength length_writeInteger c
    by (simp_all add: lengthSize_def)
  have s1: "parse_section True 0x30 f 0 45 0 = Some (Some (2, 43))"
    using parse_section_write [of f 0 "0x30" 43 45 True 0] p(1) by (simp add: l lengthSize_def)
  have s2: "readInt32 f 2 45 0 = Some (5, 0)" using readInt32_byte [OF p(2), of 45 0] by simp
  have s3: "readBytes f 5 45 (replicate 16 0) 16 = Some (13, wr (replicate 16 0) 0 community, 6)"
    using readBytes_write [OF p(3), of 45 "replicate 16 0"] by (simp add: c)
  have "take 6 (wr (replicate 16 0) 0 community) = community"
    using rd_wr_same [of 6 community 0 "replicate 16 0"] by (simp add: rd_def c)
  with s1 s2 s3 show "parse_head f 45 = Some (Some (13, 43))" by (simp add: parse_head_def)
  have s4: "parse_section False 0xA0 f 13 45 43 = Some (Some (15, 30))"
    using parse_section_write [of f 13 "0xA0" 30 45 False 43] p(4) by (simp add: l lengthSize_def)
  have s5: "readInt32 f 15 45 v = Some (21, rid)" for v using readInt32_write [OF p(5), of 45 v] by simp
  have s6: "readInt32 f 21 45 v = Some (24, 0)" for v using readInt32_byte [OF p(6), of 45 v] by simp
  have s7: "readInt32 f 24 45 v = Some (27, 0)" for v using readInt32_byte [OF p(7), of 45 v] by simp
  have s8: "parse_section False 0x30 f 27 45 30 = Some (Some (29, 16))"
    using parse_section_write [of f 27 "0x30" 16 45 False 30] p(8) by (simp add: l lengthSize_def)
  have s9: "parse_section False 0x30 f 29 45 16 = Some (Some (31, 14))"
    using parse_section_write [of f 29 "0x30" 14 45 False 16] p(9) by (simp add: l lengthSize_def)
  have s10: "readOID f 31 45 buf 16 = Some (43, wr buf 0 ?oid, 10)" for buf
    using readOID_write [OF p(10), of 45 buf] unfolding c(2) by simp
  show "parse_request f 13 45 43 n = Some (n\<lparr>reqId := rid, errorStat := 0, errorId := 0,
       buffOID := wr (buffOID n) 0 ?oid, lenOID := 10\<rparr>, True)"
    by (simp add: parse_request_def s4 s5 s6 s7 s8 s9 s10)
qed

lemma respond_sensors:
  assumes "length (buffOID n) = 16" "buffOID n = wr buf 0 (OID_PREFIX_MGMT @ [99, 1, 1, 1, col])"
    "lenOID n = 10"
  shows "respond r f n s = sendResults f (sensor_table r col) n s"
proof -
  let ?oid = "OID_PREFIX_MGMT @ [99, 1, 1, 1, col]"
  have n: "buffOID n ! i = ?oid ! i" if "i < 10" for i
  proof -
    have "length ?oid = 10" by (simp add: OID_PREFIX_MGMT_def)
    with that assms(1) show ?thesis unfolding assms(2) by (simp only: nth_wr length_wr) simp
  qed
  have "take 5 (buffOID n) = OID_PREFIX_MGMT"
  proof (rule nth_equalityI)
    show "length (take 5 (buffOID n)) = length OID_PREFIX_MGMT" using assms(1) by (simp add: OID_PREFIX_MGMT_def)
    show "take 5 (buffOID n) ! i = OID_PREFIX_MGMT ! i" if "i < length (take 5 (buffOID n))" for i
    proof -
      have "length OID_PREFIX_MGMT = 5" by (simp add: OID_PREFIX_MGMT_def)
      with that n [of i] show ?thesis by (simp add: nth_append)
    qed
  qed
  with n [of 5] n [of 6] n [of 7] n [of 8] n [of 9] assms(3) show ?thesis
    by (simp add: respond_def oid_section_def sendSensors_def OID_PREFIX_MGMT_def)
qed

text \<open>Sizes of the tables.\<close>

lemma length_writeValueInt: "length (writeValueInt p i v) = length p + length v + 5"
  by (simp add: writeValueInt_def length_writeInteger)

lemma length_concat_const: "(\<And>x. x \<in> set xs \<Longrightarrow> length (g x) = k) \<Longrightarrow> length (concat (map g xs)) = k * length xs"
  by (induction xs) auto

lemma length_snmpSensors: "length snmpSensors = 18"
  by (simp add: snmpSensors_def)

lemma sensor_table_size: "length (sensor_table r col) \<le> 594"
proof -
  have p: "length OID_SENSOR_PREFIX = 11" by (simp add: OID_SENSOR_PREFIX_def)
  have i8: "length (writeValueInt8 OID_SENSOR_PREFIX i v) = 17" for i v
    by (simp add: writeValueInt8_def length_writeValueInt p enc8_def)
  have i32: "length (writeValueInt32 OID_SENSOR_PREFIX i v) = 20" for i v
    by (simp add: writeValueInt32_def length_writeValueInt p)
  have "length writeSensorTypes = 17 * 18" "length writeSensorScales = 17 * 18" "length writeSensorPrecs = 17 * 18"
    "length writeSensorStatuses = 17 * 18" "length writeSensorUpdateRates = 17 * 18"
    "length (writeSensorUpdateTimes (snd r)) = 20 * 18"
    unfolding writeSensorTypes_def writeSensorScales_def writeSensorPrecs_def writeSensorStatuses_def
      writeSensorUpdateRates_def writeSensorUpdateTimes_def
    by (simp_all only: length_concat_const i8 i32 length_snmpSensors length_upt diff_zero Let_def)
  moreover have "length (writeSensorValues (fst r)) \<le> 20 * 18"
  proof -
    have "length (writeSensorValues (fst r)) = 20 * length (zip snmpSensors (fst r))"
      unfolding writeSensorValues_def by (rule length_concat_const) (auto simp: i32)
    then show ?thesis by (simp add: length_snmpSensors)
  qed
  moreover have "length writeSensorUnits \<le> 594" "length writeSensorNames \<le> 594" by code_simp+
  ultimately show ?thesis by (simp add: sensor_table_def)
qed

text \<open>The frame of an answer: addressed to the sender, verifying, with the message in its payload.\<close>

lemma returnToSender_fields:
  assumes "42 \<le> length f"
  shows "length (returnToSender f) = length f" "rd (returnToSender f) eth_macDst 6 = rd f eth_macSrc 6"
    "get32 (returnToSender f) ip4_dst = get32 f ip4_src" "get16 (returnToSender f) udp_portDst = get16 f udp_portSrc"
  using assms by (simp_all add: returnToSender_def Let_def copyMAC_def buf_simps length_rd)

lemma sendResults_frame:
  assumes f: "42 \<le> length f" and n: "length vars \<le> 1024"
  shows "\<exists>g. sendResults f vars n s = s\<lparr>outbox := outbox s @ [(g, length g)]\<rparr>
    \<and> rd g eth_macDst 6 = rd f eth_macSrc 6 \<and> get32 g ip4_dst = get32 f ip4_src
    \<and> get16 g udp_portDst = get16 f udp_portSrc
    \<and> RFC1071_checksum (rd g ip4_head 20) = 0 \<and> udp_verifies g (length g)
    \<and> length g = 42 + length (wrapVars (reqId n) vars) \<and> holds_at g 0 (wrapVars (reqId n) vars)"
proof -
  define w where "w = wrapVars (reqId n) vars"
  have w: "length w \<le> 1100"
    using n lengthSize_pos(2)
    by (simp add: w_def wrapVars_def Let_def length_writeLength length_writeInteger RESP_HEAD_def RESP_ERR_def
        lengthInteger_def lengthSize_def)
  define h where "h = returnToSender (rd f 0 42)"
  have "42 \<le> length (rd f 0 42)" using f by (simp add: length_rd)
  note r = returnToSender_fields [OF this]
  have h: "length h = 42" "rd h eth_macDst 6 = rd f eth_macSrc 6" "get32 h ip4_dst = get32 f ip4_src"
    "get16 h udp_portDst = get16 f udp_portSrc"
    using f by (simp_all add: h_def r) (simp_all add: length_rd rd_rd get32_def get16_def)
  define L where "L = length (h @ w)"
  define g where "g = IPv4_finalize (UDP_finalize (h @ w) L) L"
  have L: "42 \<le> L" "L \<le> length (h @ w)" "L \<le> 65535" "L = 42 + length w" using w h(1) by (simp_all add: L_def)
  note u = UDP_finalize_correct [OF L(1-3)]
  have lg: "length g = L" using u(1) L by (simp add: g_def IPv4_finalize_correct(1) L_def)
  have keep: "rd g j k = rd (h @ w) j k" if "j + k \<le> 12 \<or> 26 \<le> j \<and> (j + k \<le> 38 \<or> 42 \<le> j)" for j k
    using that by (auto simp: g_def IPv4_finalize_rd UDP_finalize_rd)
  have head: "rd (h @ w) j k = rd h j k" if "j + k \<le> 42" for j k
    using that h(1) by (simp add: rd_def)
  have "rd g eth_macDst 6 = rd f eth_macSrc 6" by (simp add: keep head h(2))
  moreover have "get32 g ip4_dst = get32 f ip4_src"
    using h(3) by (simp add: get32_def keep head)
  moreover have "get16 g udp_portDst = get16 f udp_portSrc"
    using h(4) by (simp add: get16_def keep head)
  moreover have "RFC1071_checksum (rd g ip4_head 20) = 0"
    unfolding g_def by (rule IPv4_finalize_correct(2)) (use u(1) L in simp)
  moreover have "udp_verifies g (length g)"
    using finalized_datagram [OF L(1-3)] by (simp add: g_def [symmetric] lg Let_def)
  moreover have "holds_at g 0 w"
    using keep [of 42 "length w"] h(1) by (simp add: holds_at_def lg L(4) rd_def)
  moreover have "sendResults f vars n s = s\<lparr>outbox := outbox s @ [(g, L)]\<rparr>"
    unfolding sendResults_def transmit_frame_def Let_def g_def L_def h_def w_def by simp
  ultimately show ?thesis
    by (intro exI [of _ g]) (simp add: lg L(4) w_def)
qed

lemma answer_get_request:
  assumes f: "isMyMAC s (rd f eth_macDst 6) = 0" "get32 f ip4_dst = ipAddress s" "length f = 87"
    "holds_at f 0 (get_request rid col)" and b: "length (buffOID n) = 16"
  shows "\<exists>n' g off. snmp_process r f 87 n s = Some (n', s\<lparr>outbox := outbox s @ [(g, length g)]\<rparr>)
    \<and> rd g eth_macDst 6 = rd f eth_macSrc 6 \<and> get32 g ip4_dst = get32 f ip4_src
    \<and> get16 g udp_portDst = get16 f udp_portSrc
    \<and> RFC1071_checksum (rd g ip4_head 20) = 0 \<and> udp_verifies g (length g) \<and> length g \<le> 1518
    \<and> parse_response g (int (length g) - DATA_OFFSET) = Some (Some (rid, 0, 0, off))
    \<and> holds_at g off (sensor_table r col) \<and> 42 + off + int (length (sensor_table r col)) = int (length g)"
proof -
  define n' where "n' = n\<lparr>reqId := rid, errorStat := 0, errorId := 0,
       buffOID := wr (buffOID n) 0 (OID_PREFIX_MGMT @ [99, 1, 1, 1, col]), lenOID := 10\<rparr>"
  let ?v = "sensor_table r col" and ?w = "wrapVars rid (sensor_table r col)"
  have n': "length (buffOID n') = 16" "buffOID n' = wr (buffOID n) 0 (OID_PREFIX_MGMT @ [99, 1, 1, 1, col])"
    "lenOID n' = 10" "reqId n' = rid" using b by (simp_all add: n'_def)
  have v: "length ?v \<le> 594" by (rule sensor_table_size)
  obtain g where g: "sendResults f ?v n' s = s\<lparr>outbox := outbox s @ [(g, length g)]\<rparr>"
    "rd g eth_macDst 6 = rd f eth_macSrc 6" "get32 g ip4_dst = get32 f ip4_src"
    "get16 g udp_portDst = get16 f udp_portSrc" "RFC1071_checksum (rd g ip4_head 20) = 0"
    "udp_verifies g (length g)" "length g = 42 + length ?w" "holds_at g 0 ?w"
    using sendResults_frame [of f ?v n' s] f(3) v n'(4) by auto
  obtain off where off: "parse_response g (int (length ?w)) = Some (Some (rid, 0, 0, off))"
    "holds_at g off ?v" "off + int (length ?v) = int (length ?w)"
    using wrapVars_parse [OF g(8) _ refl] v by auto
  have "snmp_process r f 87 n s = Some (n', s\<lparr>outbox := outbox s @ [(g, length g)]\<rparr>)"
    using f(1,2) parse_get_request [OF f(4) b] respond_sensors [OF n'(1-3), of r f s] g(1)
    by (simp add: snmp_process_def n'_def [symmetric])
  moreover have "length g \<le> 1518"
    using v lengthSize_pos(2)
    by (simp add: g(7) wrapVars_def Let_def length_writeLength length_writeInteger RESP_HEAD_def RESP_ERR_def
        lengthInteger_def lengthSize_def)
  ultimately show ?thesis using g off by (intro exI [of _ n'] exI [of _ g] exI [of _ off]) simp
qed

section \<open>Properties\<close>

text \<open>
  C13: The agent answers. To a well-formed request for one column of the sensor table, for this host,
  the handler sends exactly one frame and changes nothing else of the stack: it goes to the sender,
  its checksums verify, it fits an Ethernet frame, and its message parses, by the agent's own readers,
  to the request's identifier, no error, and exactly the rows of that column. This holds whatever the
  column number and the state that earlier requests left behind.
\<close>
theorem snmp_answers:
  assumes "isMyMAC s (rd f eth_macDst 6) = 0" "get32 f ip4_dst = ipAddress s" "length f = 87"
    "holds_at f 0 (get_request rid col)" "length (buffOID n) = 16"
  shows "\<exists>n' g off. snmp_process r f 87 n s = Some (n', s\<lparr>outbox := outbox s @ [(g, length g)]\<rparr>)
    \<and> rd g eth_macDst 6 = rd f eth_macSrc 6 \<and> get32 g ip4_dst = get32 f ip4_src
    \<and> get16 g udp_portDst = get16 f udp_portSrc
    \<and> RFC1071_checksum (rd g ip4_head 20) = 0 \<and> udp_verifies g (length g) \<and> length g \<le> 1518
    \<and> parse_response g (int (length g) - DATA_OFFSET) = Some (Some (rid, 0, 0, off))
    \<and> holds_at g off (sensor_table r col) \<and> 42 + off + int (length (sensor_table r col)) = int (length g)"
  by (rule answer_get_request [OF assms])

definition snmp_reset :: snmpst where
  "snmp_reset = \<lparr>buffOID = replicate 16 0, lenOID = 0, reqId = 0, errorStat = 0, errorId = 0\<rparr>"

theorem snmp_answers_witness:
  "let f = replicate 42 0 @ get_request 5 9; r = (replicate 18 7, 0) in
    \<exists>n' g off. snmp_process r f 87 snmp_reset ip_reset = Some (n', ip_reset\<lparr>outbox := outbox ip_reset @ [(g, length g)]\<rparr>)
    \<and> rd g eth_macDst 6 = rd f eth_macSrc 6 \<and> get32 g ip4_dst = get32 f ip4_src
    \<and> get16 g udp_portDst = get16 f udp_portSrc
    \<and> RFC1071_checksum (rd g ip4_head 20) = 0 \<and> udp_verifies g (length g) \<and> length g \<le> 1518
    \<and> parse_response g (int (length g) - DATA_OFFSET) = Some (Some (5, 0, 0, off))
    \<and> holds_at g off (sensor_table r 9) \<and> 42 + off + int (length (sensor_table r 9)) = int (length g)"
  unfolding Let_def
proof (rule snmp_answers)
  let ?f = "replicate 42 0 @ get_request 5 9"
  show "isMyMAC ip_reset (rd ?f eth_macDst 6) = 0" "get32 ?f ip4_dst = ipAddress ip_reset" by code_simp+
  show "length ?f = 87" by (simp add: length_get_request)
  show "holds_at ?f 0 (get_request 5 9)" by (simp add: holds_at_def rd_def length_get_request)
qed (simp add: snmp_reset_def)

text \<open>
  C19: The handler reads at most two bytes beyond the message. Whatever the bytes of the frame, when
  the buffer extends two bytes past the message every read of the handler stays inside the buffer.
\<close>
theorem snmp_reads_bounded:
  assumes "slack f (int flen - DATA_OFFSET)"
  shows "snmp_process r f flen n s \<noteq> None"
  by (rule snmp_process_slack [OF assms])

theorem snmp_reads_bounded_witness:
  "snmp_process ([], 0) (cut_request @ [0, 0]) 60 snmp_reset ip_reset \<noteq> None"
proof (rule snmp_reads_bounded)
  show "slack (cut_request @ [0, 0]) (int 60 - 42)" by (simp add: slack_def cut_request_def community_def)
qed

text \<open>
  Responses round trip. Any variable bindings below 60000 bytes that \<open>wrapVars\<close> wraps are read
  back from the message: version and community pass, every length matches, and the identifier and the
  bindings are those written.
\<close>
theorem response_roundtrip:
  assumes "holds_at f 0 (wrapVars rid vars)" "length vars < 60000"
  shows "\<exists>off. parse_response f (int (length (wrapVars rid vars))) = Some (Some (rid, 0, 0, off))
    \<and> holds_at f off vars \<and> off + int (length vars) = int (length (wrapVars rid vars))"
  by (rule wrapVars_parse [OF assms refl])

theorem response_roundtrip_witness:
  "let vars = replicate 300 9; f = replicate 42 0 @ wrapVars 7 vars in
    \<exists>off. parse_response f (int (length (wrapVars 7 vars))) = Some (Some (7, 0, 0, off))
    \<and> holds_at f off vars \<and> off + int (length vars) = int (length (wrapVars 7 vars))"
  unfolding Let_def by (rule response_roundtrip) (simp_all add: holds_at_def rd_def)

end
