(* ===== verification/Float32.thy ===== *)
theory Float32
  imports Complex_Main Prelude "HOL-Library.Log_Nat"
begin

text \<open>
  Single-precision arithmetic. A finite float is the rational number it stands for, and an operation
  rounds the exact result to the nearest representable number, ties to even, as the floating-point unit
  does. The range of the exponent is not limited here and the sign of zero is not kept; \<open>Ieee\<close> adds infinities and NaN.
\<close>

text \<open>The exponent of the leading bit of a positive rational.\<close>

definition flog2 :: "rat \<Rightarrow> int" where
  "flog2 x = (let (a, b) = quotient_of x; e = bitlen a - bitlen b in if 2 powi e \<le> x then e else e - 1)"

text \<open>Rounding to an integer, half to even.\<close>

definition rne :: "rat \<Rightarrow> int" where
  "rne x = (let n = \<lfloor>x\<rfloor>; d = x - of_int n
     in if d < 1 / 2 \<or> d = 1 / 2 \<and> even n then n else n + 1)"

definition ulp :: "rat \<Rightarrow> rat" where
  "ulp x = 2 powi (max (flog2 \<bar>x\<bar> - 23) (- 149))"

definition f32 :: "rat \<Rightarrow> rat" where
  "f32 x = (if x = 0 then 0 else of_int (rne (x / ulp x)) * ulp x)"

definition fmul :: "rat \<Rightarrow> rat \<Rightarrow> rat" where "fmul x y = f32 (x * y)"
definition fadd :: "rat \<Rightarrow> rat \<Rightarrow> rat" where "fadd x y = f32 (x + y)"
definition fsub :: "rat \<Rightarrow> rat \<Rightarrow> rat" where "fsub x y = f32 (x - y)"
definition fdiv :: "rat \<Rightarrow> rat \<Rightarrow> rat" where "fdiv x y = f32 (x / y)"

lemma ulp_pos: "0 < ulp x"
  by (simp add: ulp_def)

lemma rne_error: "\<bar>of_int (rne x) - x\<bar> \<le> 1 / 2"
proof -
  have "of_int \<lfloor>x\<rfloor> \<le> x" "x < of_int \<lfloor>x\<rfloor> + 1" by linarith+
  then show ?thesis by (auto simp: rne_def Let_def abs_le_iff not_less field_simps)
qed

lemma rne_of_int [simp]: "rne (of_int n) = n"
  by (simp add: rne_def)

lemma flog2_bounds:
  assumes "0 < x"
  shows "2 powi flog2 x \<le> x" "x < 2 * 2 powi flog2 x"
proof -
  obtain a b where q: "quotient_of x = (a, b)" by fastforce
  then have b: "0 < b" and x: "x = of_int a / of_int b"
    using quotient_of_denom_pos quotient_of_div by auto
  with assms have a: "0 < a" by (simp add: zero_less_divide_iff)
  have l: "2 powi (bitlen n - 1) \<le> (of_int n :: rat)" "(of_int n :: rat) < 2 powi bitlen n" if n: "0 < n" for n
  proof -
    have "1 \<le> bitlen n" using n by (simp add: bitlen_ge_iff_power)
    then have "(2 :: rat) powi (bitlen n - 1) = of_int (2 ^ nat (bitlen n - 1))"
      "(2 :: rat) powi bitlen n = of_int (2 ^ nat (bitlen n))" by (simp_all add: power_int_def)
    with bitlen_bounds [OF n] show "2 powi (bitlen n - 1) \<le> (of_int n :: rat)" "(of_int n :: rat) < 2 powi bitlen n"
      by (simp_all only: of_int_le_iff of_int_less_iff)
  qed
  let ?p = "bitlen a" and ?q = "bitlen b"
  have e: "(2 :: rat) powi (?p - ?q) = 2 powi ?p / 2 powi ?q" by (simp add: power_int_diff)
  have half: "(2 :: rat) powi (k - 1) = 2 powi k / 2" for k by (simp add: power_int_diff)
  have pos: "(0 :: rat) < 2 powi ?p" "(0 :: rat) < 2 powi ?q" "(0 :: rat) < of_int b" using b by simp_all
  have "x * of_int b = of_int a" using x pos(3) by (simp add: field_simps)
  have up: "x < 2 * 2 powi (?p - ?q)"
  proof -
    have "x \<le> of_int a / (2 powi ?q / 2)"
      unfolding x using l(1) [OF b] a pos by (intro divide_left_mono) (simp_all add: half)
    also have "\<dots> < 2 powi ?p / (2 powi ?q / 2)"
      using l(2) [OF a] pos by (intro divide_strict_right_mono) simp_all
    finally show ?thesis by (simp add: e field_simps)
  qed
  have low: "2 powi (?p - ?q) / 2 \<le> x"
  proof -
    have "(2 :: rat) powi ?p / 2 / 2 powi ?q \<le> of_int a / 2 powi ?q"
      using l(1) [OF a] pos by (intro divide_right_mono) (simp_all add: half)
    also have "\<dots> \<le> x"
      unfolding x using l(2) [OF b] a pos by (intro divide_left_mono) simp_all
    finally show ?thesis by (simp add: e field_simps)
  qed
  show "2 powi flog2 x \<le> x" "x < 2 * 2 powi flog2 x"
    using up low by (auto simp: flog2_def q Let_def half)
qed

lemma two_powi_less: "(2 :: rat) powi m < 2 powi n \<Longrightarrow> m < n"
  using power_int_increasing [of n m "2 :: rat"] by (cases "m < n") simp_all

text \<open>An operation is off by at most half a unit in the last place.\<close>

lemma f32_error: "\<bar>f32 x - x\<bar> \<le> ulp x / 2"
proof (cases "x = 0")
  case False
  have "f32 x - x = (of_int (rne (x / ulp x)) - x / ulp x) * ulp x"
    using False ulp_pos [of x] by (simp add: f32_def algebra_simps)
  then have "\<bar>f32 x - x\<bar> = \<bar>of_int (rne (x / ulp x)) - x / ulp x\<bar> * ulp x"
    using ulp_pos [of x] by (simp add: abs_mult)
  also have "\<dots> \<le> 1 / 2 * ulp x" using ulp_pos [of x] by (intro mult_right_mono rne_error) simp
  finally show ?thesis by simp
qed (simp add: f32_def ulp_def)

lemma f32_relative:
  assumes "2 powi (- 126) \<le> \<bar>x\<bar>"
  shows "\<bar>f32 x - x\<bar> \<le> \<bar>x\<bar> / 2 ^ 24"
proof -
  have "0 < \<bar>x\<bar>" using assms by (auto intro: less_le_trans [of _ "2 powi (- 126)"])
  note b = flog2_bounds [OF this]
  have "(2 :: rat) powi (- 126) < 2 powi (flog2 \<bar>x\<bar> + 1)" using assms b(2) by (simp add: power_int_add)
  then have "- 126 \<le> flog2 \<bar>x\<bar>" using two_powi_less [of "- 126" "flog2 \<bar>x\<bar> + 1"] by linarith
  then have "max (flog2 \<bar>x\<bar> - 23) (- 149) = flog2 \<bar>x\<bar> - 23" by simp
  then have "ulp x = 2 powi (flog2 \<bar>x\<bar> - 23)" by (simp only: ulp_def)
  then have "ulp x = 2 powi flog2 \<bar>x\<bar> / 2 ^ 23" by (simp add: power_int_diff)
  with b(1) f32_error [of x] show ?thesis by (simp add: field_simps)
qed

text \<open>Integers of at most 24 bits are exact.\<close>

lemma f32_of_int:
  assumes "\<bar>n\<bar> < 2 ^ 24"
  shows "f32 (of_int n) = of_int n"
proof (cases "n = 0")
  case False
  let ?x = "\<bar>of_int n :: rat\<bar>"
  have "1 \<le> \<bar>n\<bar>" using False by linarith
  then have "(of_int 1 :: rat) \<le> of_int \<bar>n\<bar>" "(of_int \<bar>n\<bar> :: rat) < of_int (2 ^ 24)"
    using assms by (simp_all only: of_int_le_iff of_int_less_iff)
  then have x: "0 < ?x" "1 \<le> ?x" "?x < 2 ^ 24" by simp_all
  note b = flog2_bounds [OF x(1)]
  have "(2 :: rat) powi flog2 ?x < 2 powi 24" using b(1) x(3) by simp
  then have lt: "flog2 ?x < 24" by (rule two_powi_less)
  have "(2 :: rat) powi 0 < 2 powi (flog2 ?x + 1)" using b(2) x(2) by (simp add: power_int_add)
  then have ge: "0 \<le> flog2 ?x" using two_powi_less [of 0 "flog2 ?x + 1"] by linarith
  define k where "k = nat (23 - flog2 ?x)"
  have "ulp (of_int n) = 1 / 2 ^ k"
    using lt ge by (simp add: ulp_def max_def k_def power_int_def field_simps)
  then have "of_int n / ulp (of_int n) = of_int (n * 2 ^ k)" "ulp (of_int n) = 1 / 2 ^ k" by simp_all
  with False show ?thesis by (simp add: f32_def del: of_int_mult) simp
qed (simp add: f32_def)

end
