(* ===== verification/Gps.thy ===== *)
theory Gps
  imports ClockMath Float32
begin

unbundle bit_operations_syntax

text \<open>
  The GPS receiver (lib/gps.cpp): the UART rings, the parser of the receiver's byte stream, the UBX
  messages, the configuration that the health check sends, and the time of day in a position message.
  The UART is an argument: the bytes in its receive FIFO, and how many bytes its transmit FIFO takes.
  What has been written to it is \<open>uartTx\<close>. Ring indices are 8-bit words, since the rings have 256
  entries. An access outside an array is \<open>None\<close>.
\<close>

type_synonym ring8 = "8 word"

abbreviation (input) MAX_LENGTH :: int where "MAX_LENGTH \<equiv> 256"
abbreviation (input) GPS_RST_INTV :: u32 where "GPS_RST_INTV \<equiv> 600"
abbreviation (input) GPS_RST_THR :: u32 where "GPS_RST_THR \<equiv> 300"

record gpsst =
  rxBuff :: "ring8 \<Rightarrow> u8"
  txBuff :: "ring8 \<Rightarrow> u8"
  msgBuff :: bytes
  rxHead :: ring8
  rxTail :: ring8
  txHead :: ring8
  txTail :: ring8
  lenNEMA :: int
  lenUBX :: int
  endUBX :: int
  lastReset :: u32
  fixGood :: int
  locLat :: rat
  locLon :: rat
  locAlt :: rat
  clkBias :: i32
  clkDrift :: i32
  accTime :: i32
  accFreq :: i32
  taiEpochUpdate :: u64
  taiEpoch :: u32
  taiOffset :: i32
  hasNema :: bool
  hasPvt :: bool
  hasGpsTime :: bool
  hasClock :: bool
  wasReset :: bool
  resetPin :: bool
  uartTx :: bytes

definition incrRing :: "ring8 \<Rightarrow> ring8" where
  "incrRing ptr = ptr + 1"

definition gps_init :: gpsst where
  "gps_init = \<lparr>rxBuff = (\<lambda>_. 0), txBuff = (\<lambda>_. 0), msgBuff = replicate 256 0, rxHead = 0, rxTail = 0, txHead = 0,
     txTail = 0, lenNEMA = 0, lenUBX = 0, endUBX = 0, lastReset = 0, fixGood = 0, locLat = 0, locLon = 0, locAlt = 0,
     clkBias = 0, clkDrift = 0, accTime = 0, accFreq = 0, taiEpochUpdate = 0, taiEpoch = 0, taiOffset = 37,
     hasNema = False, hasPvt = False, hasGpsTime = False, hasClock = False, wasReset = True, resetPin = False,
     uartTx = []\<rparr>"

section \<open>UART\<close>

text \<open>Both loops that feed the UART from the transmit ring; \<open>room\<close> bytes fit the FIFO.\<close>

fun fill_fifo :: "nat \<Rightarrow> gpsst \<Rightarrow> gpsst" where
  "fill_fifo 0 s = s"
| "fill_fifo (Suc room) s =
     (if txTail s \<noteq> txHead s
      then fill_fifo room (s\<lparr>uartTx := uartTx s @ [txBuff s (txTail s)], txTail := incrRing (txTail s)\<rparr>)
      else s)"

definition startTx :: "nat \<Rightarrow> gpsst \<Rightarrow> gpsst" where
  "startTx room s = fill_fifo room s"

fun drain_fifo :: "bytes \<Rightarrow> gpsst \<Rightarrow> gpsst" where
  "drain_fifo [] s = s"
| "drain_fifo (b # bs) s =
     drain_fifo bs (s\<lparr>rxBuff := (rxBuff s)(rxHead s := b), rxHead := incrRing (rxHead s)\<rparr>)"

text \<open>The result says whether the parser task is woken.\<close>

definition ISR_UART3 :: "u32 \<Rightarrow> bytes \<Rightarrow> nat \<Rightarrow> gpsst \<Rightarrow> gpsst \<times> bool" where
  "ISR_UART3 flags fifo room s =
     (let rx = flags AND 0x50 \<noteq> 0;
          s = (if rx then drain_fifo fifo s else s);
          s = (if flags AND 0x20 \<noteq> 0 then fill_fifo room s else s)
      in (s, rx))"

section \<open>Messages of the receiver\<close>

definition gps_fromHex :: "u8 \<Rightarrow> u8" where
  "gps_fromHex c = (if c < 0x41 then c - 0x30 else if c < 0x61 then c - 0x41 + 10 else c - 0x61 + 10)"

function nema_scan :: "bytes \<Rightarrow> nat \<Rightarrow> nat \<Rightarrow> u8 \<Rightarrow> u8 \<times> nat option" where
  "nema_scan m fin i csum =
     (if i < fin
      then if m ! i = 0x2A then (csum, Some (i + 1)) else nema_scan m fin (i + 1) (csum XOR m ! i)
      else (csum, None))"
  by pat_completeness auto
termination by (relation "measure (\<lambda>(m, fin, i, csum). fin - i)") auto

declare nema_scan.simps [simp del]

definition processNEMA :: "nat \<Rightarrow> gpsst \<Rightarrow> gpsst option" where
  "processNEMA len s =
     (case nema_scan (msgBuff s) len 1 0 of
        (csum, None) \<Rightarrow> Some (s\<lparr>hasNema := True\<rparr>)
      | (csum, Some c) \<Rightarrow>
          if c + 1 < length (msgBuff s) then
            let test = push_bit 4 (gps_fromHex (msgBuff s ! c)) OR gps_fromHex (msgBuff s ! (c + 1))
            in Some (if csum \<noteq> test then s else s\<lparr>hasNema := True\<rparr>)
          else None)"

definition processUbxClock :: "bytes \<Rightarrow> gpsst \<Rightarrow> gpsst" where
  "processUbxClock payload s = s\<lparr>hasClock := True, clkBias := get32 payload 4, clkDrift := get32 payload 8,
     accTime := get32 payload 12, accFreq := get32 payload 16\<rparr>"

definition processUbxGpsTime :: "bytes \<Rightarrow> gpsst \<Rightarrow> gpsst" where
  "processUbxGpsTime payload s =
     (let s = s\<lparr>hasGpsTime := True\<rparr>
      in if get8 payload 11 AND 3 \<noteq> 3 then s
         else s\<lparr>taiOffset := scast (get8 payload 10) + 19\<rparr>)"

definition lutDays365 :: "u32 list" where
  "lutDays365 = [0, 0, 31, 59, 90, 120, 151, 181, 212, 243, 273, 304, 334, 365, 0, 0]"

definition lutDays366 :: "u32 list" where
  "lutDays366 = [0, 0, 31, 60, 91, 121, 152, 182, 213, 244, 274, 305, 335, 366, 0, 0]"

text \<open>The seconds of the date and time in a position message; first its years as days.\<close>

definition pvt_years :: "u32 \<Rightarrow> u32 \<times> u32" where
  "pvt_years offset =
     (let isLeap = (if offset AND 3 = 0 then 1 else 0);
          isLeap = (if offset mod 100 = 0 then 0 else isLeap);
          leap = drop_bit 2 offset;
          leap = leap - leap div 25;
          leap = leap - isLeap;
          offset = offset * 365
      in (offset + leap, isLeap))"

definition pvt_epoch :: "bytes \<Rightarrow> i32 \<Rightarrow> u32 option" where
  "pvt_epoch payload tai =
     (let (offset, isLeap) = pvt_years (ucast (get16 payload 4) - 1900);
          month = unat (get8 payload 6)
      in if month < 16 then
           let offset = offset + (if isLeap \<noteq> 0 then lutDays366 else lutDays365) ! month;
               offset = offset + ucast (get8 payload 7);
               offset = offset * 24;
               offset = offset + ucast (get8 payload 8);
               offset = offset * 60;
               offset = offset + ucast (get8 payload 9);
               offset = offset * 60;
               offset = offset + ucast (get8 payload 10);
               offset = offset - 2208988800
           in Some (offset + tai)
         else None)"

definition processUbxPVT :: "u64 \<Rightarrow> bytes \<Rightarrow> gpsst \<Rightarrow> gpsst option" where
  "processUbxPVT now payload s =
     (let s = s\<lparr>hasPvt := True, fixGood := int (unat (get8 payload 21 AND 1)),
            locLon := fmul (f32 (1 / 10 ^ 7)) (f32 (of_int (sint (get32 payload 24)))),
            locLat := fmul (f32 (1 / 10 ^ 7)) (f32 (of_int (sint (get32 payload 28)))),
            locAlt := fmul (f32 (1 / 10 ^ 3)) (f32 (of_int (sint (get32 payload 36))))\<rparr>
      in if get8 payload 11 AND 3 \<noteq> 3 then Some s
         else Option.bind (pvt_epoch payload (taiOffset s)) (\<lambda>offset.
           let s = s\<lparr>taiEpoch := offset\<rparr>
           in Some (if taiOffset s \<noteq> 0 then s\<lparr>taiEpochUpdate := now\<rparr> else s)))"

text \<open>The two running sums of a UBX checksum.\<close>

definition ubx_step :: "u8 \<Rightarrow> u8 \<times> u8 \<Rightarrow> u8 \<times> u8" where
  "ubx_step x chk = (fst chk + x, snd chk + (fst chk + x))"

definition ubx_dispatch :: "u64 \<Rightarrow> u8 \<Rightarrow> u8 \<Rightarrow> u16 \<Rightarrow> bytes \<Rightarrow> gpsst \<Rightarrow> gpsst option" where
  "ubx_dispatch now cls ident sz payload s =
     (if cls = 0x01 then
        if ident = 0x07 \<and> sz = 92 then processUbxPVT now payload s
        else if ident = 0x20 \<and> sz = 16 then Some (processUbxGpsTime payload s)
        else if ident = 0x22 \<and> sz = 20 then Some (processUbxClock payload s)
        else Some s
      else Some s)"

definition processUBX :: "u64 \<Rightarrow> nat \<Rightarrow> gpsst \<Rightarrow> gpsst option" where
  "processUBX now len s =
     (let msg = msgBuff s;
          (chkA, chkB) = fold ubx_step (rd msg 2 (len - 4)) (0, 0)
      in if chkA \<noteq> msg ! (len - 2) \<or> chkB \<noteq> msg ! (len - 1) then Some s
         else ubx_dispatch now (msg ! 2) (msg ! 3) (get16 msg 4) (drop 6 msg) s)"

section \<open>The byte parser\<close>

text \<open>The end of a line is stored one past the last byte, also when the line fills the buffer.\<close>

definition nema_byte :: "u8 \<Rightarrow> gpsst \<Rightarrow> gpsst option" where
  "nema_byte byte s =
     (let s = (if lenNEMA s < MAX_LENGTH
               then s\<lparr>msgBuff := (msgBuff s)[nat (lenNEMA s) := byte], lenNEMA := lenNEMA s + 1\<rparr> else s)
      in if byte = 0x0D \<or> byte = 0x0A then
           if nat (lenNEMA s) < length (msgBuff s) then
             let s = s\<lparr>msgBuff := (msgBuff s)[nat (lenNEMA s) := 0], lenNEMA := lenNEMA s - 1\<rparr>
             in map_option (\<lambda>s. s\<lparr>lenNEMA := 0\<rparr>) (processNEMA (nat (lenNEMA s)) s)
           else None
         else Some s)"

definition ubx_append :: "u8 \<Rightarrow> gpsst \<Rightarrow> gpsst" where
  "ubx_append byte s =
     (let s = (if lenUBX s < MAX_LENGTH then s\<lparr>msgBuff := (msgBuff s)[nat (lenUBX s) := byte]\<rparr> else s)
      in s\<lparr>lenUBX := lenUBX s + 1\<rparr>)"

definition ubx_byte :: "u64 \<Rightarrow> u8 \<Rightarrow> gpsst \<Rightarrow> gpsst option" where
  "ubx_byte now byte s =
     (let s = ubx_append byte s
      in if lenUBX s \<ge> endUBX s then
           let s = (if lenUBX s > MAX_LENGTH then s\<lparr>lenUBX := MAX_LENGTH\<rparr> else s)
           in map_option (\<lambda>s. s\<lparr>lenUBX := 0, endUBX := 0\<rparr>) (processUBX now (nat (lenUBX s)) s)
         else if lenUBX s = 6 then
           let s = s\<lparr>endUBX := 8 + int (unat (get16 (msgBuff s) 4))\<rparr>
           in Some (if endUBX s > MAX_LENGTH then s\<lparr>lenUBX := 0\<rparr> else s)
         else Some (if lenUBX s = 2 \<and> msgBuff s ! 1 \<noteq> 0x62 then s\<lparr>lenUBX := 0\<rparr> else s))"

definition gps_byte :: "u64 \<Rightarrow> u8 \<Rightarrow> gpsst \<Rightarrow> gpsst option" where
  "gps_byte now byte s =
     (if lenUBX s \<noteq> 0 then ubx_byte now byte s
      else Option.bind (if lenNEMA s \<noteq> 0 then nema_byte byte s else Some s) (\<lambda>s.
        if byte = 0x24 then Some (s\<lparr>msgBuff := (msgBuff s)[0 := byte], lenNEMA := 1\<rparr>)
        else if byte = 0xB5
        then Some (s\<lparr>lenNEMA := 0, msgBuff := (msgBuff s)[0 := byte], lenUBX := 1, endUBX := 8\<rparr>)
        else Some s))"

text \<open>
  The loop of \<open>runParse\<close>, with fuel: it takes a byte per turn until the tail meets the head.
  \<open>clk i\<close> is the reading of the monotonic clock while the byte at ring position \<open>i\<close> is processed.
\<close>

datatype 'a run = Returns 'a | Faults | OutOfFuel

fun parse_loop :: "nat \<Rightarrow> (ring8 \<Rightarrow> u64) \<Rightarrow> ring8 \<Rightarrow> gpsst \<Rightarrow> gpsst run" where
  "parse_loop fuel clk tail s =
     (if tail = rxHead s then Returns (s\<lparr>rxTail := tail\<rparr>)
      else case fuel of 0 \<Rightarrow> OutOfFuel
      | Suc fuel \<Rightarrow>
          (case gps_byte (clk tail) (rxBuff s tail) s of
             None \<Rightarrow> Faults
           | Some s \<Rightarrow> parse_loop fuel clk (incrRing tail) s))"

declare parse_loop.simps [simp del]

definition runParse :: "(ring8 \<Rightarrow> u64) \<Rightarrow> gpsst \<Rightarrow> gpsst run" where
  "runParse clk s = parse_loop 255 clk (rxTail s) s"

section \<open>Configuration and health check\<close>

definition put_raw :: "u8 \<Rightarrow> (ring8 \<Rightarrow> u8) \<times> ring8 \<Rightarrow> (ring8 \<Rightarrow> u8) \<times> ring8" where
  "put_raw byte r = ((fst r)(snd r := byte), incrRing (snd r))"

definition put_sum :: "u8 \<Rightarrow> ((ring8 \<Rightarrow> u8) \<times> ring8) \<times> u8 \<times> u8 \<Rightarrow> ((ring8 \<Rightarrow> u8) \<times> ring8) \<times> u8 \<times> u8" where
  "put_sum byte r = (put_raw byte (fst r), ubx_step byte (snd r))"

definition sendUBX :: "u8 \<Rightarrow> u8 \<Rightarrow> bytes \<Rightarrow> nat \<Rightarrow> gpsst \<Rightarrow> gpsst" where
  "sendUBX cls ident payload room s =
     (if length payload > 512 then s
      else let r = put_raw 0x62 (put_raw 0xB5 (txBuff s, txHead s));
               (r, chkA, chkB) = put_sum ident (put_sum cls (r, 0, 0));
               (r, chkA, chkB) = fold put_sum (enc16 (of_nat (length payload))) (r, chkA, chkB);
               (r, chkA, chkB) = fold put_sum payload (r, chkA, chkB);
               r = put_raw chkB (put_raw chkA r)
           in startTx room (s\<lparr>txBuff := fst r, txHead := snd r\<rparr>))"

definition payloadDisableNMEA :: bytes where
  "payloadDisableNMEA = [0x01, 0x00, 0x00, 0x00, 0xC0, 0x08, 0x00, 0x00, 0x80, 0x25, 0x00, 0x00,
     0x01, 0x00, 0x01, 0x00, 0x00, 0x00, 0x00, 0x00]"

definition payloadEnablePVT :: bytes where "payloadEnablePVT = [0x01, 0x07, 0x01]"
definition payloadEnableGpsTime :: bytes where "payloadEnableGpsTime = [0x01, 0x20, 0x01]"
definition payloadEnableClock :: bytes where "payloadEnableClock = [0x01, 0x22, 0x01]"

definition payloadNavConfig :: bytes where
  "payloadNavConfig = [0x01, 0x04, 0x02, 0x02, 0x00, 0x00, 0x00, 0x00, 0x00, 0x00, 0x01, 0x00, 0x00, 0x00,
     0x00, 0x00, 0x00, 0x00, 0x00, 0x00, 0x00, 0x00, 0x00, 0x00, 0x00, 0x00, 0x00, 0x00, 0x00, 0x00,
     0x03, 0x00, 0x00, 0x00, 0x00, 0x00]"

text \<open>\<open>room i\<close> is what the transmit FIFO takes at the \<open>i\<close>-th stanza.\<close>

definition configureGPS :: "(nat \<Rightarrow> nat) \<Rightarrow> gpsst \<Rightarrow> gpsst" where
  "configureGPS room s =
     (let s = (if hasNema s then sendUBX 0x06 0x00 payloadDisableNMEA (room 0) s else s);
          s = (if \<not> hasClock s then sendUBX 0x06 0x01 payloadEnableClock (room 1) s else s);
          s = (if \<not> hasGpsTime s then sendUBX 0x06 0x01 payloadEnableGpsTime (room 2) s else s);
          s = (if \<not> hasPvt s then sendUBX 0x06 0x01 payloadEnablePVT (room 3) s else s);
          s = (if wasReset s then sendUBX 0x06 0x24 payloadNavConfig (room 4) s else s)
      in s\<lparr>hasNema := False, hasClock := False, hasGpsTime := False, hasPvt := False, wasReset := False\<rparr>)"

text \<open>
  The readings: the monotonic seconds, the monotonic time, and the time of the last GPS pulse. The pin
  is high (\<open>True\<close>) when the module is out of reset.
\<close>

definition runHealth :: "(nat \<Rightarrow> nat) \<Rightarrow> u32 \<Rightarrow> u64 \<Rightarrow> u64 \<Rightarrow> gpsst \<Rightarrow> gpsst" where
  "runHealth room seconds now pps s =
     (let s = configureGPS room s;
          s = (if \<not> resetPin s then s\<lparr>resetPin := True, wasReset := True\<rparr> else s)
      in if seconds - lastReset s > GPS_RST_INTV then
           let age = now - pps
           in if fx_ipart age > GPS_RST_THR then s\<lparr>resetPin := False, lastReset := seconds\<rparr> else s
         else s)"

section \<open>The transmit stream\<close>

definition ring_list :: "(ring8 \<Rightarrow> 'a) \<Rightarrow> ring8 \<Rightarrow> ring8 \<Rightarrow> 'a list" where
  "ring_list f a b = map (\<lambda>k. f (a + of_nat k)) [0 ..< unat (b - a)]"

text \<open>What the UART has been given and what the ring still holds for it.\<close>

definition tx_stream :: "gpsst \<Rightarrow> bytes" where
  "tx_stream s = uartTx s @ ring_list (txBuff s) (txTail s) (txHead s)"

definition ubx_body :: "u8 \<Rightarrow> u8 \<Rightarrow> bytes \<Rightarrow> bytes" where
  "ubx_body cls ident payload = [cls, ident] @ enc16 (of_nat (length payload)) @ payload"

definition ubx_frame :: "u8 \<Rightarrow> u8 \<Rightarrow> bytes \<Rightarrow> bytes" where
  "ubx_frame cls ident payload =
     (let (a, b) = fold ubx_step (ubx_body cls ident payload) (0, 0)
      in [0xB5, 0x62] @ ubx_body cls ident payload @ [a, b])"

lemma unat_minus_one_step: "a \<noteq> b \<Longrightarrow> unat (b - a) = Suc (unat (b - (a + 1)))" for a b :: ring8
proof -
  assume "a \<noteq> b"
  then have "b - a \<noteq> 0" by simp
  then have "unat (b - a) = Suc (unat (b - a - 1))" by (simp add: unat_minus_one unat_gt_0 Suc_diff_1)
  then show ?thesis by (simp add: diff_diff_eq)
qed

lemma ring_list_Cons: "a \<noteq> b \<Longrightarrow> ring_list f a b = f a # ring_list f (incrRing a) b"
  by (simp add: ring_list_def incrRing_def unat_minus_one_step map_upt_Suc add.assoc del: upt_Suc)

lemma ring_list_same [simp]: "ring_list f a a = []"
  by (simp add: ring_list_def)

lemma fill_fifo_stream:
  "tx_stream (fill_fifo room s) = tx_stream s"
  by (induction room s rule: fill_fifo.induct) (auto simp: tx_stream_def ring_list_Cons)

text \<open>Appending to a ring that is not full.\<close>

lemma ring_list_put:
  assumes "unat (b - a) < 255"
  shows "ring_list (f(b := x)) a (incrRing b) = ring_list f a b @ [x]"
proof -
  have s: "unat (b + 1 - a) = Suc (unat (b - a))"
  proof -
    have "b + 1 - a = b - a + 1" by (simp only: diff_add_eq)
    moreover have "unat (b - a + 1) = unat (b - a) + 1"
      using assms by (subst unat_plus_simple [THEN iffD1]) (simp_all add: word_le_nat_alt unat_word_ariths)
    ultimately show ?thesis by (simp only: Suc_eq_plus1)
  qed
  have "a + of_nat k \<noteq> b" if "k < unat (b - a)" for k
  proof
    assume "a + of_nat k = b"
    then have "of_nat k = b - a" by (simp add: eq_diff_eq add.commute)
    then have "unat (of_nat k :: ring8) = unat (b - a)" by simp
    then show False using that assms by (simp add: unat_of_nat)
  qed
  then show ?thesis by (simp add: ring_list_def incrRing_def s)
qed

text \<open>\<open>sendUBX\<close> puts exactly the frame on the stream when the ring has room for it.\<close>

definition ring_put :: "bytes \<Rightarrow> (ring8 \<Rightarrow> u8) \<times> ring8 \<Rightarrow> (ring8 \<Rightarrow> u8) \<times> ring8" where
  "ring_put bs r = fold put_raw bs r"

lemma ring_put_list:
  assumes "unat (b - a) + length bs \<le> 255" "ring_put bs (f, b) = (f', b')"
  shows "ring_list f' a b' = ring_list f a b @ bs \<and> unat (b' - a) = unat (b - a) + length bs"
  using assms
proof (induction bs arbitrary: f b)
  case (Cons x bs)
  let ?f = "f(b := x)" and ?b = "incrRing b"
  have l: "unat (b - a) < 255" using Cons.prems(1) by simp
  have s: "ring_list ?f a ?b = ring_list f a b @ [x]" by (rule ring_list_put [OF l])
  then have "length (ring_list ?f a ?b) = length (ring_list f a b @ [x])" by simp
  then have u: "unat (?b - a) = Suc (unat (b - a))" by (simp add: ring_list_def)
  have "ring_put bs (?f, ?b) = (f', b')" using Cons.prems(2) by (simp add: ring_put_def put_raw_def)
  from Cons.IH [OF _ this] u Cons.prems(1)
  have "ring_list f' a b' = ring_list ?f a ?b @ bs" "unat (b' - a) = Suc (unat (b - a)) + length bs"
    by (simp_all only: u list.size)
  then show ?case by (simp only: s append_assoc append_Cons append_Nil list.size add_Suc_right add_Suc add_0_right simp_thms)
qed (simp add: ring_put_def)

lemma fold_put_sum: "fold put_sum bs (r, c) = (ring_put bs r, fold ubx_step bs c)"
  by (induction bs arbitrary: r c) (auto simp: put_sum_def ring_put_def)

lemma ring_put_append: "ring_put (xs @ ys) r = ring_put ys (ring_put xs r)"
  by (simp add: ring_put_def)

lemma sendUBX_frame:
  assumes "length payload \<le> 512"
  shows "sendUBX cls ident payload room s = (let r = ring_put (ubx_frame cls ident payload) (txBuff s, txHead s)
    in fill_fifo room (s\<lparr>txBuff := fst r, txHead := snd r\<rparr>))"
proof -
  let ?b = "ubx_body cls ident payload" and ?r = "put_raw 0x62 (put_raw 0xB5 (txBuff s, txHead s))"
  have e: "put_sum ident (put_sum cls (r, c)) = fold put_sum [cls, ident] (r, c)" for r c by simp
  obtain c1 d1 where f: "fold ubx_step ?b (0, 0) = (c1, d1)" by fastforce
  have "fold put_sum payload (fold put_sum (enc16 (of_nat (length payload))) (fold put_sum [cls, ident] (?r, 0, 0)))
    = fold put_sum ?b (?r, 0, 0)" by (simp add: ubx_body_def)
  also have "\<dots> = (ring_put ?b ?r, c1, d1)" by (simp add: fold_put_sum f)
  finally have x: "fold put_sum payload (fold put_sum (enc16 (of_nat (length payload))) (fold put_sum [cls, ident] (?r, 0, 0)))
    = (ring_put ?b ?r, c1, d1)" .
  have "ring_put (ubx_frame cls ident payload) (txBuff s, txHead s) = put_raw d1 (put_raw c1 (ring_put ?b ?r))"
    by (simp add: ubx_frame_def f ring_put_append ring_put_def)
  with x assms show ?thesis
    by (simp add: sendUBX_def startTx_def e Let_def split_def del: fold.simps)
qed

lemma sendUBX_stream:
  assumes "length payload \<le> 512" "unat (txHead s - txTail s) + 8 + length payload \<le> 255"
  shows "tx_stream (sendUBX cls ident payload room s) = tx_stream s @ ubx_frame cls ident payload"
proof -
  obtain f b where r: "ring_put (ubx_frame cls ident payload) (txBuff s, txHead s) = (f, b)" by fastforce
  have "length (ubx_frame cls ident payload) = 8 + length payload"
    by (simp add: ubx_frame_def ubx_body_def split_def Let_def)
  with ring_put_list [OF _ r, of "txTail s"] assms(2)
  have "ring_list f (txTail s) b = ring_list (txBuff s) (txTail s) (txHead s) @ ubx_frame cls ident payload" by simp
  then show ?thesis
    by (simp add: sendUBX_frame [OF assms(1)] Let_def r fill_fifo_stream) (simp add: tx_stream_def)
qed

section \<open>The parser's state\<close>

text \<open>What the parser relies on between two bytes.\<close>

definition parser_ok :: "gpsst \<Rightarrow> bool" where
  "parser_ok s \<longleftrightarrow> length (msgBuff s) = 256 \<and> 0 \<le> lenNEMA s \<and> lenNEMA s \<le> 256 \<and> 0 \<le> lenUBX s
     \<and> (0 < lenUBX s \<longrightarrow> lenUBX s < endUBX s \<and> 8 \<le> endUBX s \<and> endUBX s \<le> 256
          \<and> (lenUBX s < 6 \<longrightarrow> endUBX s = 8))"

definition parser_of :: "gpsst \<Rightarrow> bytes \<times> int \<times> int \<times> int" where
  "parser_of s = (msgBuff s, lenNEMA s, lenUBX s, endUBX s)"

lemma parser_okI: "parser_of s' = parser_of s \<Longrightarrow> parser_ok s \<Longrightarrow> parser_ok s'"
  by (simp add: parser_of_def parser_ok_def)

lemma processNEMA_parser: "processNEMA len s = Some s' \<Longrightarrow> parser_of s' = parser_of s"
  by (auto simp: processNEMA_def parser_of_def Let_def split: prod.splits option.splits if_splits)

lemma dispatch_parser: "ubx_dispatch now c i n p s = Some s' \<Longrightarrow> parser_of s' = parser_of s"
  by (auto simp: ubx_dispatch_def processUbxPVT_def processUbxGpsTime_def processUbxClock_def parser_of_def Let_def
      bind_eq_Some_conv split: if_splits)

lemma processUBX_parser: "processUBX now len s = Some s' \<Longrightarrow> parser_of s' = parser_of s"
  by (auto simp: processUBX_def Let_def split: prod.splits if_splits dest: dispatch_parser)

lemma nema_scan_bound: "nema_scan m fin i c = (d, Some k) \<Longrightarrow> k \<le> fin"
  by (induction m fin i c rule: nema_scan.induct) (subst (asm) nema_scan.simps, auto split: if_splits)

lemma processNEMA_Some: "len + 1 < length (msgBuff s) \<Longrightarrow> processNEMA len s \<noteq> None"
  by (auto simp: processNEMA_def Let_def split: prod.splits option.splits dest!: nema_scan_bound)

lemma nema_byte_ok:
  assumes "parser_ok s" "lenUBX s = 0"
  shows "nema_byte b s = Some s' \<Longrightarrow> parser_ok s' \<and> lenUBX s' = 0"
    and "nema_byte b s = None \<longleftrightarrow> 255 \<le> lenNEMA s \<and> (b = 0x0D \<or> b = 0x0A)"
proof -
  let ?s = "if lenNEMA s < 256 then s\<lparr>msgBuff := (msgBuff s)[nat (lenNEMA s) := b], lenNEMA := lenNEMA s + 1\<rparr> else s"
  have k: "parser_ok ?s" "lenUBX ?s = 0" "length (msgBuff ?s) = 256" "lenNEMA ?s \<le> 256" "0 \<le> lenNEMA ?s"
    using assms by (auto simp: parser_ok_def)
  let ?t = "?s\<lparr>msgBuff := (msgBuff ?s)[nat (lenNEMA ?s) := 0], lenNEMA := lenNEMA ?s - 1\<rparr>"
  have e: "nema_byte b s = (if b = 0x0D \<or> b = 0x0A then if nat (lenNEMA ?s) < length (msgBuff ?s)
      then map_option (\<lambda>s. s\<lparr>lenNEMA := 0\<rparr>) (processNEMA (nat (lenNEMA ?t)) ?t) else None else Some ?s)"
    by (simp only: nema_byte_def Let_def)
  show "nema_byte b s = Some s' \<Longrightarrow> parser_ok s' \<and> lenUBX s' = 0"
  proof (cases "b = 0x0D \<or> b = 0x0A")
    case False
    then show "nema_byte b s = Some s' \<Longrightarrow> parser_ok s' \<and> lenUBX s' = 0" using k unfolding e by simp
  next
    case True
    assume "nema_byte b s = Some s'"
    then obtain u where u: "processNEMA (nat (lenNEMA ?t)) ?t = Some u" "s' = u\<lparr>lenNEMA := 0\<rparr>"
      using True unfolding e by (auto split: if_splits)
    from processNEMA_parser [OF u(1)] have "msgBuff u = msgBuff ?t" "lenUBX u = lenUBX ?t" "endUBX u = endUBX ?t"
      by (simp_all only: parser_of_def prod.inject)
    then show "parser_ok s' \<and> lenUBX s' = 0"
      using k assms by (auto simp: u(2) parser_ok_def)
  qed
  show "nema_byte b s = None \<longleftrightarrow> 255 \<le> lenNEMA s \<and> (b = 0x0D \<or> b = 0x0A)"
  proof (cases "nat (lenNEMA ?s) < 256")
    case True
    then have "processNEMA (nat (lenNEMA ?t)) ?t \<noteq> None" using k by (intro processNEMA_Some) auto
    with True k show ?thesis unfolding e by (auto split: if_splits)
  next
    case False
    then have "lenNEMA ?s = 256" using k by linarith
    with False k assms(1) show ?thesis unfolding e by (auto simp: parser_ok_def split: if_splits)
  qed
qed

lemma ubx_append_fields:
  assumes "parser_ok s" "0 < lenUBX s"
  shows "lenUBX (ubx_append b s) = lenUBX s + 1" "endUBX (ubx_append b s) = endUBX s"
    "lenNEMA (ubx_append b s) = lenNEMA s" "msgBuff (ubx_append b s) = (msgBuff s)[nat (lenUBX s) := b]"
    "ubx_append b s = s\<lparr>msgBuff := (msgBuff s)[nat (lenUBX s) := b], lenUBX := lenUBX s + 1\<rparr>"
  using assms by (auto simp: ubx_append_def parser_ok_def)

lemma ubx_byte_ok:
  assumes "parser_ok s" "0 < lenUBX s"
  shows "ubx_byte now b s = Some s' \<Longrightarrow> parser_ok s'"
    and "ubx_byte now b s = None \<Longrightarrow> lenUBX s + 1 = endUBX s"
proof -
  define t where "t = ubx_append b s"
  note f = ubx_append_fields [OF assms, of b, folded t_def]
  have p: "lenUBX s < endUBX s" "lenUBX s < 256" "length (msgBuff t) = 256" "8 \<le> endUBX s" "endUBX s \<le> 256"
    "lenUBX s < 6 \<longrightarrow> endUBX s = 8" "0 \<le> lenNEMA s" "lenNEMA s \<le> 256" using assms by (auto simp: parser_ok_def f)
  show "ubx_byte now b s = None \<Longrightarrow> lenUBX s + 1 = endUBX s"
  proof (cases "endUBX s \<le> lenUBX s + 1")
    case False
    then have "ubx_byte now b s \<noteq> None" by (simp add: ubx_byte_def t_def [symmetric] f Let_def)
    then show "ubx_byte now b s = None \<Longrightarrow> lenUBX s + 1 = endUBX s" by simp
  qed (use p in linarith)
  assume r: "ubx_byte now b s = Some s'"
  show "parser_ok s'"
  proof (cases "endUBX s \<le> lenUBX s + 1")
    case True
    with r f(1,2) p(2) obtain u where u: "processUBX now (nat (lenUBX t)) t = Some u" "s' = u\<lparr>lenUBX := 0, endUBX := 0\<rparr>"
      by (auto simp: ubx_byte_def t_def [symmetric])
    from processUBX_parser [OF u(1)] have "msgBuff u = msgBuff t" "lenNEMA u = lenNEMA t"
      by (simp_all only: parser_of_def prod.inject)
    then show ?thesis using p by (simp add: u(2) parser_ok_def f)
  next
    case False
    have "0 < 2 + uint (get16 (msgBuff t) 4)" by (simp add: add_pos_nonneg)
    with False show ?thesis
      using r p f(1-3) assms(2) by (auto simp: ubx_byte_def t_def [symmetric] parser_ok_def Let_def split: if_splits)
  qed
qed

lemma gps_byte_ok:
  assumes "parser_ok s"
  shows "gps_byte now b s = Some s' \<Longrightarrow> parser_ok s'"
    and "gps_byte now b s = None \<Longrightarrow>
      (lenUBX s = 0 \<and> 255 \<le> lenNEMA s \<and> (b = 0x0D \<or> b = 0x0A)) \<or> (0 < lenUBX s \<and> lenUBX s + 1 = endUBX s)"
proof -
  have "0 \<le> lenUBX s" using assms by (simp add: parser_ok_def)
  then have n: "lenUBX s \<noteq> 0 \<longleftrightarrow> 0 < lenUBX s" by auto
  show "gps_byte now b s = None \<Longrightarrow>
      (lenUBX s = 0 \<and> 255 \<le> lenNEMA s \<and> (b = 0x0D \<or> b = 0x0A)) \<or> (0 < lenUBX s \<and> lenUBX s + 1 = endUBX s)"
    using assms ubx_byte_ok(2) [of s now b] nema_byte_ok(2) [of s b] n
    by (auto simp: gps_byte_def bind_eq_None_conv split: if_splits)
  assume r: "gps_byte now b s = Some s'"
  show "parser_ok s'"
  proof (cases "lenUBX s = 0")
    case False
    with r n ubx_byte_ok(1) [OF assms] show ?thesis by (simp add: gps_byte_def)
  next
    case True
    obtain u where u: "(if lenNEMA s \<noteq> 0 then nema_byte b s else Some s) = Some u"
      "Some s' = (if b = 0x24 then Some (u\<lparr>msgBuff := (msgBuff u)[0 := b], lenNEMA := 1\<rparr>)
        else if b = 0xB5
        then Some (u\<lparr>lenNEMA := 0, msgBuff := (msgBuff u)[0 := b], lenUBX := 1, endUBX := 8\<rparr>) else Some u)"
      using r True by (auto simp: gps_byte_def bind_eq_Some_conv)
    have "parser_ok u \<and> lenUBX u = 0"
      using u(1) assms True nema_byte_ok(1) [OF assms True, of b u] by (auto split: if_splits)
    with u(2) show ?thesis by (auto simp: parser_ok_def split: if_splits)
  qed
qed

section \<open>The parser loop\<close>

text \<open>The parser as a fold over a list of bytes with their clock readings.\<close>

fun gps_feed :: "(u64 \<times> u8) list \<Rightarrow> gpsst \<Rightarrow> gpsst option" where
  "gps_feed [] s = Some s"
| "gps_feed ((now, b) # bs) s = Option.bind (gps_byte now b s) (gps_feed bs)"

lemma gps_feed_append: "gps_feed (xs @ ys) s = Option.bind (gps_feed xs s) (gps_feed ys)"
proof (induction xs s rule: gps_feed.induct)
  case (2 now b bs s)
  then show ?case by (cases "gps_byte now b s") simp_all
qed simp

lemma gps_feed_ok: "parser_ok s \<Longrightarrow> gps_feed bs s = Some s' \<Longrightarrow> parser_ok s'"
  by (induction bs s rule: gps_feed.induct) (auto simp: bind_eq_Some_conv dest: gps_byte_ok(1))

text \<open>Processing a byte leaves the rings alone.\<close>

definition rings_of :: "gpsst \<Rightarrow> (ring8 \<Rightarrow> u8) \<times> ring8 \<times> ring8" where
  "rings_of s = (rxBuff s, rxHead s, rxTail s)"

lemma processUBX_rings: "processUBX now n s = Some s' \<Longrightarrow> rings_of s' = rings_of s"
  by (auto simp: processUBX_def ubx_dispatch_def processUbxPVT_def processUbxGpsTime_def processUbxClock_def
      rings_of_def Let_def bind_eq_Some_conv split: prod.splits if_splits)

lemma processNEMA_rings: "processNEMA n s = Some s' \<Longrightarrow> rings_of s' = rings_of s"
  by (auto simp: processNEMA_def rings_of_def Let_def split: prod.splits option.splits if_splits)

lemma rings_simps [simp]:
  "rings_of (s\<lparr>msgBuff := m\<rparr>) = rings_of s" "rings_of (s\<lparr>lenNEMA := n\<rparr>) = rings_of s"
  "rings_of (s\<lparr>lenUBX := n\<rparr>) = rings_of s" "rings_of (s\<lparr>endUBX := n\<rparr>) = rings_of s"
  by (simp_all add: rings_of_def)

lemma gps_byte_rings:
  assumes "gps_byte now b s = Some s'"
  shows "rings_of s' = rings_of s"
proof -
  have u: "ubx_byte now b s = Some t \<Longrightarrow> rings_of t = rings_of s" for b s t
    by (auto simp: ubx_byte_def ubx_append_def Let_def split: if_splits dest!: processUBX_rings)
  have n: "nema_byte b s = Some t \<Longrightarrow> rings_of t = rings_of s" for b s t
    by (auto simp: nema_byte_def Let_def split: if_splits dest!: processNEMA_rings)
  show ?thesis using assms by (auto simp: gps_byte_def bind_eq_Some_conv split: if_splits dest: u n)
qed

lemma parse_loop_feed:
  assumes "unat (rxHead s - tail) \<le> fuel"
  shows "parse_loop fuel clk tail s =
    (case gps_feed (ring_list (\<lambda>i. (clk i, rxBuff s i)) tail (rxHead s)) s of
       None \<Rightarrow> Faults | Some s' \<Rightarrow> Returns (s'\<lparr>rxTail := rxHead s\<rparr>))"
  using assms
proof (induction fuel arbitrary: tail s)
  case 0
  then have "tail = rxHead s" by (simp add: unat_eq_0)
  then show ?case by (simp add: parse_loop.simps)
next
  case (Suc fuel)
  show ?case
  proof (cases "tail = rxHead s")
    case False
    show ?thesis
    proof (cases "gps_byte (clk tail) (rxBuff s tail) s")
      case None
      with False show ?thesis by (simp add: parse_loop.simps ring_list_Cons)
    next
      case (Some t)
      from gps_byte_rings [OF this] have k: "rxBuff t = rxBuff s" "rxHead t = rxHead s"
        by (simp_all add: rings_of_def)
      have "unat (rxHead t - incrRing tail) \<le> fuel"
        using Suc.prems False unat_minus_one_step [of tail "rxHead s"] by (simp add: k incrRing_def)
      from Suc.IH [OF this] Some False show ?thesis
        by (subst parse_loop.simps) (simp add: ring_list_Cons k split: option.split)
    qed
  qed (simp add: parse_loop.simps)
qed

lemma runParse_feed:
  "runParse clk s = (case gps_feed (ring_list (\<lambda>i. (clk i, rxBuff s i)) (rxTail s) (rxHead s)) s of
     None \<Rightarrow> Faults | Some s' \<Rightarrow> Returns (s'\<lparr>rxTail := rxHead s\<rparr>))"
proof -
  have "unat (rxHead s - rxTail s) \<le> 255" using unat_u8_lt [of "rxHead s - rxTail s"] by linarith
  then show ?thesis unfolding runParse_def by (rule parse_loop_feed)
qed

section \<open>Reception of a UBX frame\<close>

text \<open>The parser in the middle of a UBX message whose first \<open>n\<close> bytes are \<open>xs\<close>.\<close>

definition in_ubx :: "gpsst \<Rightarrow> bytes \<Rightarrow> gpsst \<Rightarrow> bool" where
  "in_ubx s0 xs s \<longleftrightarrow> (\<exists>m e. s = s0\<lparr>msgBuff := m, lenNEMA := 0, lenUBX := int (length xs), endUBX := e\<rparr>
     \<and> length m = 256 \<and> take (length xs) m = xs \<and> e = (if length xs < 6 then 8 else 8 + int (unat (dec16 (rd xs 4 2)))))"

lemma ubx_start:
  assumes "parser_ok s" "lenUBX s = 0"
  shows "\<exists>s'. gps_byte now 0xB5 s = Some s' \<and> in_ubx s [0xB5] s'"
proof -
  have "\<exists>m. (if lenNEMA s \<noteq> 0 then nema_byte 0xB5 s else Some s)
      = Some (s\<lparr>msgBuff := m, lenNEMA := (if 0 < lenNEMA s \<and> lenNEMA s < 256 then lenNEMA s + 1 else lenNEMA s)\<rparr>)
      \<and> length m = 256"
    using assms by (auto simp: nema_byte_def parser_ok_def Let_def intro: exI [of _ "msgBuff s"])
  then obtain m where m: "(if lenNEMA s \<noteq> 0 then nema_byte 0xB5 s else Some s)
      = Some (s\<lparr>msgBuff := m, lenNEMA := (if 0 < lenNEMA s \<and> lenNEMA s < 256 then lenNEMA s + 1 else lenNEMA s)\<rparr>)"
    "length m = 256" by blast
  then have "gps_byte now 0xB5 s = Some (s\<lparr>msgBuff := m[0 := 0xB5], lenNEMA := 0, lenUBX := 1, endUBX := 8\<rparr>)"
    using assms(2) by (simp add: gps_byte_def)
  moreover have "take 1 (m[0 := 0xB5]) = [0xB5]" using m(2) by (cases m) simp_all
  ultimately show ?thesis using m(2) by (auto simp: in_ubx_def)
qed

lemma take_update: "n < length m \<Longrightarrow> take (Suc n) (m[n := b]) = take n m @ [b]"
  by (simp add: take_Suc_conv_app_nth)

text \<open>A byte that does not complete the message.\<close>

lemma ubx_more:
  assumes "in_ubx s0 xs s" "0 < length xs" "length xs + 1 < n" "n \<le> 256" "8 \<le> n"
    and sync: "length xs = 1 \<Longrightarrow> b = 0x62"
    and len: "5 \<le> length xs \<Longrightarrow> unat (dec16 (rd (xs @ [b]) 4 2)) + 8 = n"
  shows "\<exists>s'. gps_byte now b s = Some s' \<and> in_ubx s0 (xs @ [b]) s'"
proof -
  obtain m e where s: "s = s0\<lparr>msgBuff := m, lenNEMA := 0, lenUBX := int (length xs), endUBX := e\<rparr>"
    "length m = 256" "take (length xs) m = xs" "e = (if length xs < 6 then 8 else 8 + int (unat (dec16 (rd xs 4 2))))"
    using assms(1) by (auto simp: in_ubx_def)
  define m' where "m' = m[length xs := b]"
  have m': "length m' = 256" "take (Suc (length xs)) m' = xs @ [b]"
    using s(2,3) assms(3,4) by (simp_all add: m'_def take_update)
  have a: "ubx_append b s = s0\<lparr>msgBuff := m', lenNEMA := 0, lenUBX := 1 + int (length xs), endUBX := e\<rparr>"
    using assms(3,4) by (simp add: ubx_append_def s(1) m'_def add.commute)
  have g: "gps_byte now b s = ubx_byte now b s" using assms(2) by (simp add: gps_byte_def s(1))
  have r6: "rd (xs @ [b]) 4 2 = rd xs 4 2" if "6 \<le> length xs" using that by (simp add: rd_def)
  have e: "\<not> e \<le> int (length xs) + 1"
  proof (cases "length xs < 6")
    case True
    then show ?thesis using s(4) by simp
  next
    case False
    then have "int (unat (dec16 (rd xs 4 2))) + 8 = int n" using len r6 by auto
    moreover have "e = 8 + int (unat (dec16 (rd xs 4 2)))" using s(4) False by (simp only: if_False)
    ultimately show ?thesis using assms(3) by linarith
  qed
  consider "length xs + 1 = 6" | "length xs + 1 = 2" | "length xs + 1 \<noteq> 6" "length xs + 1 \<noteq> 2" by blast
  then show ?thesis
  proof cases
    case 1
    then have "rd m' 4 2 = rd (xs @ [b]) 4 2" by (simp add: rd_take flip: m'(2))
    moreover have "uint (dec16 (rd (xs @ [b]) 4 2)) \<le> 248"
      using len 1 assms(4) by (simp only: uint_nat) linarith
    ultimately show ?thesis
      using 1 m' e len assms(4) by (auto simp: g ubx_byte_def a Let_def in_ubx_def get16_def)
  next
    case 2
    have "m' ! 1 = (xs @ [b]) ! 1" using 2 by (simp flip: m'(2))
    then have "m' ! 1 = 0x62" using 2 sync by (simp add: nth_append)
    then show ?thesis using 2 m' e s(4) by (auto simp: g ubx_byte_def a Let_def in_ubx_def)
  next
    case 3
    then show ?thesis using m' e s(4) r6 by (auto simp: g ubx_byte_def a Let_def in_ubx_def)
  qed
qed

text \<open>A complete message of \<open>n\<close> bytes: its sync bytes and length field are right.\<close>

definition ubx_shape :: "bytes \<Rightarrow> bool" where
  "ubx_shape F \<longleftrightarrow> 8 \<le> length F \<and> length F \<le> 256 \<and> F ! 0 = 0xB5 \<and> F ! 1 = 0x62
     \<and> unat (dec16 (rd F 4 2)) + 8 = length F"

lemma ubx_prefix:
  assumes "parser_ok s" "lenUBX s = 0" "ubx_shape F" "0 < k" "k < length F"
  shows "\<exists>s'. gps_feed (map (Pair now) (take k F)) s = Some s' \<and> in_ubx s (take k F) s'"
  using assms(4,5)
proof (induction k)
  case (Suc k)
  have t: "take (Suc k) F = take k F @ [F ! k]" using Suc.prems by (simp add: take_Suc_conv_app_nth)
  show ?case
  proof (cases "k = 0")
    case True
    then show ?thesis using ubx_start [OF assms(1,2), of now] assms(3) t by (auto simp: ubx_shape_def)
  next
    case False
    with Suc obtain s1 where s1: "gps_feed (map (Pair now) (take k F)) s = Some s1" "in_ubx s (take k F) s1"
      by auto
    have l: "length (take k F) = k" using Suc.prems by simp
    have "rd (take k F @ [F ! k]) 4 2 = rd F 4 2" if "5 \<le> k"
      using that by (simp add: rd_take flip: t)
    then obtain s2 where "gps_byte now (F ! k) s1 = Some s2" "in_ubx s (take k F @ [F ! k]) s2"
      using ubx_more [OF s1(2), of "length F" "F ! k" now] Suc.prems False assms(3)
      by (auto simp: ubx_shape_def l)
    with s1(1) t show ?thesis by (simp add: gps_feed_append)
  qed
qed simp

lemma ubx_complete:
  assumes "parser_ok s" "lenUBX s = 0" "ubx_shape F"
  shows "\<exists>m. length m = 256 \<and> take (length F) m = F \<and> gps_feed (map (Pair now) F) s
    = map_option (\<lambda>s. s\<lparr>lenUBX := 0, endUBX := 0\<rparr>) (processUBX now (length F)
        (s\<lparr>msgBuff := m, lenNEMA := 0, lenUBX := int (length F), endUBX := int (length F)\<rparr>))"
proof -
  obtain k where Sk: "length F = Suc k" using assms(3) by (cases F) (auto simp: ubx_shape_def)
  then have k: "0 < k" "k < length F" "length (take k F) = k" "8 \<le> length F" "length F \<le> 256" "\<not> k < 6"
    using assms(3) by (auto simp: ubx_shape_def)
  have F: "F = take k F @ [F ! k]" using Sk take_Suc_conv_app_nth [of k F] by simp
  obtain s1 where s1: "gps_feed (map (Pair now) (take k F)) s = Some s1" "in_ubx s (take k F) s1"
    using ubx_prefix [OF assms k(1,2)] by blast
  obtain m e where m: "s1 = s\<lparr>msgBuff := m, lenNEMA := 0, lenUBX := int k, endUBX := e\<rparr>" "length m = 256"
    "take k m = take k F" "e = (if k < 6 then 8 else 8 + int (unat (dec16 (rd (take k F) 4 2))))"
    using s1(2) unfolding in_ubx_def k(3) by blast
  have "rd (take k F) 4 2 = rd F 4 2" using k by (simp add: rd_take)
  moreover have "int (unat (dec16 (rd F 4 2))) + 8 = int (length F)" using assms(3) by (simp only: ubx_shape_def) linarith
  moreover have "e = 8 + int (unat (dec16 (rd (take k F) 4 2)))" using m(4) k(6) by (simp only: if_False)
  ultimately have e: "e = int (length F)" by simp
  define m' where "m' = m[k := F ! k]"
  have "take (length F) m' = take k m @ [F ! k]"
    using take_update [of k m "F ! k"] m(2) k by (simp add: m'_def Sk)
  then have m': "length m' = 256" "take (length F) m' = F"
    using m(2,3) F by (simp_all add: m'_def)
  have a: "ubx_append (F ! k) s1 = s\<lparr>msgBuff := m', lenNEMA := 0, lenUBX := int (length F), endUBX := int (length F)\<rparr>"
    using k(2,5) by (simp add: ubx_append_def m(1) m'_def e Sk add.commute)
  have one: "gps_feed [x] t = gps_byte (fst x) (snd x) t" for x t
    by (cases x; cases "gps_byte (fst x) (snd x) t") simp_all
  have "gps_feed (map (Pair now) F) s = gps_byte now (F ! k) s1"
    using s1(1) by (subst F) (simp add: gps_feed_append one del: gps_feed.simps)
  also have "\<dots> = ubx_byte now (F ! k) s1" using k by (simp add: gps_byte_def m(1))
  also have "\<dots> = map_option (\<lambda>s. s\<lparr>lenUBX := 0, endUBX := 0\<rparr>) (processUBX now (length F)
      (s\<lparr>msgBuff := m', lenNEMA := 0, lenUBX := int (length F), endUBX := int (length F)\<rparr>))"
    using k by (simp add: ubx_byte_def a Let_def)
  finally show ?thesis using m' by blast
qed

lemma length_ubx_frame: "length (ubx_frame c i p) = 8 + length p"
  by (simp add: ubx_frame_def ubx_body_def split_def Let_def)

lemma ubx_frame_shape: "length p \<le> 248 \<Longrightarrow> ubx_shape (ubx_frame c i p)"
proof -
  assume "length p \<le> 248"
  moreover have "rd (ubx_frame c i p) 4 2 = enc16 (of_nat (length p))"
    by (simp add: ubx_frame_def ubx_body_def rd_def split_def Let_def)
  ultimately show ?thesis
    by (simp add: ubx_shape_def length_ubx_frame dec16_enc16 unat_of_nat)
       (simp add: ubx_frame_def ubx_body_def split_def Let_def)
qed

text \<open>A frame that the firmware's own encoder makes is accepted and dispatched with its payload.\<close>

lemma ubx_received:
  assumes "parser_ok s" "lenUBX s = 0" "length p \<le> 248"
  shows "\<exists>m. length m = 256 \<and> rd m 6 (length p) = p \<and> gps_feed (map (Pair now) (ubx_frame c i p)) s
    = map_option (\<lambda>s. s\<lparr>lenUBX := 0, endUBX := 0\<rparr>) (ubx_dispatch now c i (of_nat (length p)) (drop 6 m)
        (s\<lparr>msgBuff := m, lenNEMA := 0, lenUBX := 8 + int (length p), endUBX := 8 + int (length p)\<rparr>))"
proof -
  let ?F = "ubx_frame c i p"
  obtain m where m: "length m = 256" "take (length ?F) m = ?F" and
    f: "gps_feed (map (Pair now) ?F) s = map_option (\<lambda>s. s\<lparr>lenUBX := 0, endUBX := 0\<rparr>) (processUBX now (length ?F)
        (s\<lparr>msgBuff := m, lenNEMA := 0, lenUBX := int (length ?F), endUBX := int (length ?F)\<rparr>))"
    using ubx_complete [OF assms(1,2) ubx_frame_shape [OF assms(3)]] by blast
  obtain x y where xy: "fold ubx_step (ubx_body c i p) (0, 0) = (x, y)" by fastforce
  have F: "?F = [0xB5, 0x62] @ ubx_body c i p @ [x, y]" by (simp add: ubx_frame_def xy)
  have B: "ubx_body c i p = [c, i] @ enc16 (of_nat (length p)) @ p" "length (ubx_body c i p) = length p + 4"
    by (simp_all add: ubx_body_def)
  have n: "m ! j = ?F ! j" if "j < length ?F" for j using that m by (metis nth_take)
  have r: "rd m j k = rd ?F j k" if "j + k \<le> length ?F" for j k
  proof -
    have "rd (take (length ?F) m) j k = rd m j k" using that by (simp add: rd_def drop_take min_def)
    then show ?thesis using m(2) by simp
  qed
  have "rd m 2 (length ?F - 4) = rd ?F 2 (length ?F - 4)" by (simp add: r length_ubx_frame)
  also have "\<dots> = ubx_body c i p" unfolding F by (rule rd_middle) (simp_all add: B(2))
  finally have "rd m 2 (length ?F - 4) = ubx_body c i p" .
  moreover have "get16 m 4 = of_nat (length p)" "rd m 6 (length p) = p"
    by (simp_all add: r length_ubx_frame get16_def) (simp_all add: F B rd_def dec16_enc16)
  moreover have "m ! 2 = c" "m ! 3 = i" "m ! (length ?F - 2) = x" "m ! (length ?F - 1) = y"
    by (simp_all add: n length_ubx_frame) (simp_all add: F B nth_append)
  ultimately show ?thesis using m(1) f xy
    by (intro exI [of _ m]) (simp add: processUBX_def length_ubx_frame)
qed

end
