(* ===== verification/GpsTime.thy ===== *)
theory GpsTime
  imports Gps
begin

text \<open>
  The time of day that a position message of the receiver carries, against the Gregorian calendar, and
  the properties of the GPS component.
\<close>

section \<open>The Gregorian calendar\<close>

text \<open>Leap years, the days of a month, and the days from 1970-01-01 to a date.\<close>

definition is_leap :: "nat \<Rightarrow> bool" where
  "is_leap y \<longleftrightarrow> y mod 4 = 0 \<and> (y mod 100 \<noteq> 0 \<or> y mod 400 = 0)"
definition month_days :: "bool \<Rightarrow> nat \<Rightarrow> nat" where
  "month_days leap m = [31, if leap then 29 else 28, 31, 30, 31, 30, 31, 31, 30, 31, 30, 31] ! (m - 1)"

definition civil_days :: "nat \<Rightarrow> nat \<Rightarrow> nat \<Rightarrow> nat" where
  "civil_days y m d = (\<Sum>k \<leftarrow> [1970 ..< y]. if is_leap k then 366 else 365)
     + (\<Sum>k \<leftarrow> [1 ..< m]. month_days (is_leap y) k) + (d - 1)"

text \<open>The days of the years from 1970 on in closed form.\<close>

lemma leap_step:
  fixes S a b c d :: nat
  assumes "S + c + 477 = 365 * d + a + b" "r \<Longrightarrow> q" "q \<Longrightarrow> p"
  shows "S + (if p \<and> (\<not> q \<or> r) then 366 else 365) + (c + (if q then 1 else 0)) + 477
    = 365 * (d + 1) + (a + (if p then 1 else 0)) + (b + (if r then 1 else 0))"
  using assms by (cases p; cases q; cases r) auto

lemma civil_years:
  "1969 \<le> z \<Longrightarrow> (\<Sum>k \<leftarrow> [1970 ..< Suc z]. if is_leap k then 366 else 365) + z div 100 + 477
     = 365 * (z - 1969) + z div 4 + z div 400"
proof (induction z rule: dec_induct)
  case base
  have "[1970 ..< Suc 1969] = []" by simp
  then show ?case by simp
next
  case (step z)
  have s: "(\<Sum>k \<leftarrow> [1970 ..< Suc (Suc z)]. if is_leap k then 366 else 365)
    = (\<Sum>k \<leftarrow> [1970 ..< Suc z]. if is_leap k then 366 else 365) + (if is_leap (Suc z) then 366 else 365)"
    using step.hyps by simp
  have d: "Suc z div n = z div n + (if Suc z mod n = 0 then 1 else 0)" for n by (simp add: div_Suc)
  have "Suc z mod 100 = 0 \<Longrightarrow> Suc z mod 4 = 0" "Suc z mod 400 = 0 \<Longrightarrow> Suc z mod 100 = 0" by presburger+
  from leap_step [OF step.IH this(2,1)]
  have g: "(\<Sum>k \<leftarrow> [1970 ..< Suc z]. if is_leap k then 366 else 365)
      + (if Suc z mod 4 = 0 \<and> (\<not> Suc z mod 100 = 0 \<or> Suc z mod 400 = 0) then 366 else 365)
      + (z div 100 + (if Suc z mod 100 = 0 then 1 else 0)) + 477
    = 365 * (z - 1969 + 1) + (z div 4 + (if Suc z mod 4 = 0 then 1 else 0))
      + (z div 400 + (if Suc z mod 400 = 0 then 1 else 0))" .
  have e: "Suc z - 1969 = z - 1969 + 1" using step.hyps by (simp add: Suc_diff_le)
  have l: "is_leap (Suc z) = (Suc z mod 4 = 0 \<and> (\<not> Suc z mod 100 = 0 \<or> Suc z mod 400 = 0))" by (simp only: is_leap_def)
  show ?case unfolding s d e l by (rule g)
qed

text \<open>The code's computation of the years, on naturals.\<close>

lemma small_word:
  assumes "n < 4294967296" "k < 4294967296"
  shows "(of_nat n :: u32) mod of_nat k = of_nat (n mod k)" "(of_nat n :: u32) div of_nat k = of_nat (n div k)"
    "drop_bit 2 (of_nat n :: u32) = of_nat (n div 4)" "(of_nat n :: u32) AND 3 = of_nat (n mod 4)"
    "(of_nat n = (0 :: u32)) = (n = 0)"
proof -
  have u: "unat (of_nat m :: u32) = m" if "m < 4294967296" for m
    using that by (simp add: unsigned_of_nat take_bit_nat_eq_self)
  have b: "n mod k < 4294967296" "n div k < 4294967296" "n div 4 < 4294967296" "n mod 4 < 4294967296"
    using assms by (auto intro: le_less_trans [OF mod_less_eq_dividend] le_less_trans [OF div_le_dividend])
  show "(of_nat n :: u32) mod of_nat k = of_nat (n mod k)" "(of_nat n :: u32) div of_nat k = of_nat (n div k)"
    using assms b by (simp_all add: word_unat_eq_iff unat_mod_distrib unat_div_distrib u)
  show "drop_bit 2 (of_nat n :: u32) = of_nat (n div 4)"
    using assms b by (simp add: word_unat_eq_iff unsigned_drop_bit_eq u drop_bit_eq_div [where 'a = nat] take_bit_nat_eq_self)
  have "(of_nat n :: u32) AND 3 = take_bit 2 (of_nat n)" by (simp add: take_bit_eq_mask mask_eq_exp_minus_1)
  also have "\<dots> = of_nat (take_bit 2 n)" by (simp only: of_nat_take_bit)
  finally show "(of_nat n :: u32) AND 3 = of_nat (n mod 4)" by (simp add: take_bit_eq_mod)
  show "(of_nat n = (0 :: u32)) = (n = 0)" using u [OF assms(1)] by (auto simp: word_unat_eq_iff)
qed

lemma pvt_years_nat:
  assumes "n < 500"
  shows "pvt_years (of_nat n) = (of_nat (365 * n) + (of_nat (n div 4) - of_nat (n div 100) - (if n mod 4 = 0 \<and> n mod 100 \<noteq> 0 then 1 else 0)),
     if n mod 4 = 0 \<and> n mod 100 \<noteq> 0 then 1 else 0)"
proof -
  have "n < 4294967296" using assms by simp
  note w = small_word [OF this, of 100, simplified]
  have "(of_nat (n div 4) :: u32) div 25 = of_nat (n div 4 div 25)"
    using small_word(2) [of "n div 4" 25] assms by simp
  moreover have "n div 4 div 25 = n div 100" by (simp add: div_mult2_eq [symmetric])
  moreover have "(of_nat (n mod 100) = (0 :: u32)) = (n mod 100 = 0)" "(of_nat (n mod 4) = (0 :: u32)) = (n mod 4 = 0)"
    by (rule small_word(5) [where k = 0]; simp)+
  ultimately show ?thesis by (simp add: pvt_years_def w Let_def mult.commute)
qed

definition month_ok :: "nat \<Rightarrow> bool" where
  "month_ok m \<longleftrightarrow> lutDays365 ! m = of_nat (\<Sum>k \<leftarrow> [1 ..< m]. month_days False k)
     \<and> lutDays366 ! m = of_nat (\<Sum>k \<leftarrow> [1 ..< m]. month_days True k)"

lemma month_ok_all: "list_all month_ok [1 ..< 13]"
  by code_simp

lemma month_table:
  assumes "1 \<le> m" "m \<le> 12"
  shows "(if leap then lutDays366 else lutDays365) ! m = of_nat (\<Sum>k \<leftarrow> [1 ..< m]. month_days leap k)"
proof -
  have "m \<in> set [1 ..< 13]" using assms by (simp only: set_upt atLeastLessThan_iff) simp
  with month_ok_all have "month_ok m" unfolding list_all_iff by (rule bspec)
  then show ?thesis by (cases leap) (simp_all only: month_ok_def if_True if_False)
qed

lemma years_nat:
  fixes n y :: nat
  assumes "n + 1900 = y" "2001 \<le> y" "y < 2400"
  shows "is_leap y \<longleftrightarrow> n mod 4 = 0 \<and> n mod 100 \<noteq> 0"
    and "(\<Sum>k \<leftarrow> [1970 ..< y]. if is_leap k then 366 else 365) + 25566 + n div 100 + (if is_leap y then 1 else 0)
      = 365 * n + n div 4"
proof -
  have "(n + 475 * 4) mod 4 = n mod 4" "(n + 19 * 100) mod 100 = n mod 100" by (simp_all only: mod_mult_self1)
  then have y: "y mod 4 = n mod 4" "y mod 100 = n mod 100" using assms(1) by simp_all
  have "y div 400 = 5" using assms by (intro div_nat_eqI) simp_all
  then have y3: "y mod 400 \<noteq> 0" using assms by (simp add: modulo_nat_def)
  show l: "is_leap y \<longleftrightarrow> n mod 4 = 0 \<and> n mod 100 \<noteq> 0" using y y3 by (auto simp: is_leap_def)
  obtain z where z: "y = Suc z" using assms(2) by (cases y) auto
  define S where "S = (\<Sum>k \<leftarrow> [1970 ..< y]. if is_leap k then 366 else 365 :: nat)"
  have c: "S + z div 100 + 477 = 365 * (z - 1969) + z div 4 + z div 400"
    using civil_years [of z] assms z unfolding S_def by simp
  have "(n + 475 * 4) div 4 = n div 4 + 475" "(n + 19 * 100) div 100 = n div 100 + 19"
    by (simp_all only: div_mult_self1 add.commute)
  then have "Suc z div 4 = n div 4 + 475" "Suc z div 100 = n div 100 + 19" using assms(1) z by simp_all
  moreover have "Suc z div k = z div k + (if Suc z mod k = 0 then 1 else 0)" for k by (simp add: div_Suc)
  ultimately have q: "n div 4 + 475 = z div 4 + (if n mod 4 = 0 then 1 else 0)"
    "n div 100 + 19 = z div 100 + (if n mod 100 = 0 then 1 else 0)" using y z by metis+
  have r: "n mod 100 = 0 \<Longrightarrow> n mod 4 = 0" by presburger
  have z5: "z div 400 = 5" using assms z by (intro div_nat_eqI) simp_all
  have e: "365 * n = 365 * (z - 1969) + 365 * 70" using assms z by simp
  have arith: "S + 25566 + c + (if p \<and> \<not> q then 1 else 0) = N + a"
    if "S + c' + 477 = D + a' + 5" "a + 475 = a' + (if p then 1 else 0)" "c + 19 = c' + (if q then 1 else 0)"
      "N = D + 25550" "q \<Longrightarrow> p" for S c c' D a a' N :: nat and p q
    using that by (cases p; cases q) simp_all
  show "(\<Sum>k \<leftarrow> [1970 ..< y]. if is_leap k then 366 else 365) + 25566 + n div 100 + (if is_leap y then 1 else 0)
      = 365 * n + n div 4"
    unfolding S_def [symmetric] l
    by (rule arith [OF c [unfolded z5] q _ r]) (simp add: e)
qed

lemma pvt_years_civil:
  assumes "2001 \<le> y" "y < 2400"
  shows "pvt_years (of_nat y - 1900)
    = (of_nat ((\<Sum>k \<leftarrow> [1970 ..< y]. if is_leap k then 366 else 365) + 25566), if is_leap y then 1 else 0)"
proof -
  define n where "n = y - 1900"
  have n: "n + 1900 = y" "n < 500" using assms by (simp_all add: n_def)
  define S where "S = (\<Sum>k \<leftarrow> [1970 ..< y]. if is_leap k then 366 else 365 :: nat)"
  note yn = years_nat [OF n(1) assms, folded S_def]
  have "(of_nat y - 1900 :: u32) = of_nat n" by (simp flip: n(1))
  moreover have "(of_nat (S + 25566 + n div 100 + (if is_leap y then 1 else 0)) :: u32) = of_nat (365 * n + n div 4)"
    by (simp only: yn(2))
  then have "(of_nat (S + 25566) :: u32) = of_nat (365 * n) + (of_nat (n div 4) - of_nat (n div 100) - (if is_leap y then 1 else 0))"
    by (simp add: algebra_simps split: if_splits)
  ultimately show ?thesis
    using pvt_years_nat [OF n(2)] unfolding S_def [symmetric] yn(1) by (simp only:)
qed

lemma pvt_epoch_civil:
  assumes y: "unat (get16 p 4) = y" "2001 \<le> y" "y < 2400" and m: "unat (get8 p 6) = m" "1 \<le> m" "m \<le> 12"
    and d: "unat (get8 p 7) = d" "1 \<le> d"
    and t: "unat (get8 p 8) = h" "unat (get8 p 9) = mi" "unat (get8 p 10) = s"
  shows "pvt_epoch p tai = Some (of_nat (((civil_days y m d * 24 + h) * 60 + mi) * 60 + s) + tai)"
proof -
  define Y where "Y = (\<Sum>k \<leftarrow> [1970 ..< y]. if is_leap k then 366 else 365 :: nat)"
  define M where "M = (\<Sum>k \<leftarrow> [1 ..< m]. month_days (is_leap y) k)"
  have b: "ucast (get8 p i) = (of_nat (unat (get8 p i)) :: u32)" "ucast (get16 p 4) = (of_nat (unat (get16 p 4)) :: u32)" for i
    by simp_all
  have l: "((if is_leap y then 1 else 0) \<noteq> (0 :: u32)) = is_leap y" by simp
  have c: "(of_nat (Y + 25566) :: u32) + of_nat M + of_nat d = of_nat (civil_days y m d) + 25567"
    using d(2) by (simp add: civil_days_def of_nat_diff Y_def M_def)
  have "m < 16" using m by simp
  then have "pvt_epoch p tai = Some ((((of_nat (Y + 25566) + of_nat M + of_nat d) * 24 + of_nat h) * 60 + of_nat mi) * 60
      + of_nat s - 2208988800 + tai)"
    unfolding pvt_epoch_def Let_def b t y(1) d(1) m(1) pvt_years_civil [OF y(2,3)] Y_def [symmetric] prod.case l
      month_table [OF m(2,3)] M_def [symmetric] by (simp only: if_True)
  also have "\<dots> = Some (of_nat (((civil_days y m d * 24 + h) * 60 + mi) * 60 + s) + tai)"
    unfolding c by (simp add: algebra_simps)
  finally show ?thesis .
qed
lemma get_drop: "get8 (drop k m) i = get8 m (k + i)" "get16 (drop k m) i = get16 m (k + i)" "get32 (drop k m) i = get32 m (k + i)"
  by (simp_all add: get_defs rd_def add.commute)

lemma get_rd:
  "i + 1 \<le> n \<Longrightarrow> get8 (rd m k n) i = get8 m (k + i)" "i + 2 \<le> n \<Longrightarrow> get16 (rd m k n) i = get16 m (k + i)"
  by (simp_all add: get_defs rd_rd)

lemma pvt_epoch_cong:
  assumes "rd m 6 (length p) = p" "length p = 92"
  shows "pvt_epoch (drop 6 m) tai = pvt_epoch p tai" "get8 (drop 6 m) 11 = get8 p 11"
proof -
  have "get8 p i = get8 m (6 + i)" if "i < 92" for i using get_rd(1) [of i 92 m 6] that assms by simp
  moreover have "get16 p 4 = get16 m 10" using get_rd(2) [of 4 92 m 6] assms by simp
  ultimately show "pvt_epoch (drop 6 m) tai = pvt_epoch p tai" "get8 (drop 6 m) 11 = get8 p 11"
    by (simp_all add: pvt_epoch_def get_drop Let_def split_def)
qed

section \<open>Properties\<close>

text \<open>
  C16: The UBX encoder and parser agree. A message that \<open>sendUBX\<close> queues when the ring has room appears,
  behind all earlier output and in order, in the stream to the UART as one frame; that frame, read byte by
  byte by the parser in any idle state, is accepted and handed to the dispatcher with its class, identifier,
  length and payload, after which the parser is idle again.
\<close>
theorem ubx_roundtrip:
  assumes "unat (txHead s - txTail s) + 8 + length p \<le> 255" "parser_ok r" "lenUBX r = 0"
  shows "\<exists>F m. tx_stream (sendUBX c i p room s) = tx_stream s @ F \<and> length m = 256 \<and> rd m 6 (length p) = p
    \<and> gps_feed (map (Pair now) F) r
      = map_option (\<lambda>s. s\<lparr>lenUBX := 0, endUBX := 0\<rparr>) (ubx_dispatch now c i (of_nat (length p)) (drop 6 m)
          (r\<lparr>msgBuff := m, lenNEMA := 0, lenUBX := 8 + int (length p), endUBX := 8 + int (length p)\<rparr>))"
proof -
  have "length p \<le> 248" using assms(1) by simp
  from ubx_received [OF assms(2,3) this] sendUBX_stream [OF _ assms(1)] this show ?thesis by fastforce
qed

theorem ubx_roundtrip_witness:
  "\<exists>F m. tx_stream (sendUBX 0x06 0x24 payloadNavConfig 16 gps_init) = tx_stream gps_init @ F \<and> length m = 256
    \<and> rd m 6 (length payloadNavConfig) = payloadNavConfig
    \<and> gps_feed (map (Pair 5) F) gps_init
      = map_option (\<lambda>s. s\<lparr>lenUBX := 0, endUBX := 0\<rparr>) (ubx_dispatch 5 0x06 0x24 (of_nat (length payloadNavConfig)) (drop 6 m)
          (gps_init\<lparr>msgBuff := m, lenNEMA := 0, lenUBX := 8 + int (length payloadNavConfig),
             endUBX := 8 + int (length payloadNavConfig)\<rparr>))"
  by (rule ubx_roundtrip) (simp_all add: gps_init_def parser_ok_def payloadNavConfig_def)

text \<open>
  The parser loop ends. From any state \<open>runParse\<close> takes each byte between tail and head once, in
  order, never runs out of its fuel of 255 turns (one for each byte that the ring can hold), and ends with
  the tail at the head, unless a byte makes it store outside its buffer.
\<close>
theorem runParse_terminates:
  "runParse clk s \<noteq> OutOfFuel
   \<and> runParse clk s = (case gps_feed (ring_list (\<lambda>i. (clk i, rxBuff s i)) (rxTail s) (rxHead s)) s of
       None \<Rightarrow> Faults | Some s' \<Rightarrow> Returns (s'\<lparr>rxTail := rxHead s\<rparr>))"
  by (simp add: runParse_feed split: option.split)

text \<open>
  C38: The parser keeps its state well formed. Every byte, in every well-formed state, leaves the state well
  formed (lengths inside the message buffer, the expected end consistent with the received length), or is
  one of two faults: the end of a line that has filled the buffer, which is stored one past its end, or the
  last byte of a UBX message (whose handler indexes the table of months).
\<close>
theorem parser_type:
  assumes "parser_ok s"
  shows "case gps_byte now b s of
      None \<Rightarrow> (lenUBX s = 0 \<and> 255 \<le> lenNEMA s \<and> (b = 0x0D \<or> b = 0x0A)) \<or> (0 < lenUBX s \<and> lenUBX s + 1 = endUBX s)
    | Some s' \<Rightarrow> parser_ok s'"
  using gps_byte_ok [OF assms] by (auto split: option.split)

theorem parser_type_witness:
  "case gps_byte 9 0xB5 gps_init of
      None \<Rightarrow> (lenUBX gps_init = 0 \<and> 255 \<le> lenNEMA gps_init \<and> ((0xB5 :: u8) = 0x0D \<or> (0xB5 :: u8) = 0x0A))
        \<or> (0 < lenUBX gps_init \<and> lenUBX gps_init + 1 = endUBX gps_init)
    | Some s' \<Rightarrow> parser_ok s'"
  by (rule parser_type) (simp add: gps_init_def parser_ok_def)

text \<open>
  C8: The time of a position message is right. A position message with valid date and time, received
  by the parser in any idle state, sets the epoch to the seconds since 1970-01-01 of its Gregorian date and
  time plus the TAI offset, modulo 2^32, for all dates of the years 2001 to 2399, and stamps it with the
  time of reception.
\<close>
theorem pvt_time:
  assumes "parser_ok s" "lenUBX s = 0" "taiOffset s \<noteq> 0" "length p = 92" "get8 p 11 AND 3 = 3"
    "unat (get16 p 4) = y" "2001 \<le> y" "y < 2400" "unat (get8 p 6) = m" "1 \<le> m" "m \<le> 12"
    "unat (get8 p 7) = d" "1 \<le> d" "unat (get8 p 8) = h" "unat (get8 p 9) = mi" "unat (get8 p 10) = sec"
  shows "\<exists>s'. gps_feed (map (Pair now) (ubx_frame 0x01 0x07 p)) s = Some s'
    \<and> taiEpoch s' = of_nat (((civil_days y m d * 24 + h) * 60 + mi) * 60 + sec) + taiOffset s
    \<and> taiEpochUpdate s' = now \<and> hasPvt s' \<and> lenUBX s' = 0"
proof -
  obtain b where b: "rd b 6 (length p) = p" "gps_feed (map (Pair now) (ubx_frame 0x01 0x07 p)) s
    = map_option (\<lambda>s. s\<lparr>lenUBX := 0, endUBX := 0\<rparr>) (ubx_dispatch now 0x01 0x07 (of_nat (length p)) (drop 6 b)
        (s\<lparr>msgBuff := b, lenNEMA := 0, lenUBX := 8 + int (length p), endUBX := 8 + int (length p)\<rparr>))"
    using ubx_received [OF assms(1,2), where p = p and now = now and c = "0x01" and i = "0x07"] assms(4) by auto
  show ?thesis
    using pvt_epoch_civil [OF assms(6-16), where tai = "taiOffset s"] assms(3,5)
    by (simp add: b(2) assms(4) ubx_dispatch_def processUbxPVT_def pvt_epoch_cong [OF b(1) assms(4)])
qed

definition leap_day :: bytes where
  "leap_day = [0, 0, 0, 0, 0xE8, 0x07, 2, 29, 23, 59, 58, 3] @ replicate 80 0"

theorem pvt_time_witness:
  "\<exists>s'. gps_feed (map (Pair 77) (ubx_frame 0x01 0x07 leap_day)) gps_init = Some s'
    \<and> taiEpoch s' = of_nat (((civil_days 2024 2 29 * 24 + 23) * 60 + 59) * 60 + 58) + taiOffset gps_init
    \<and> taiEpochUpdate s' = 77 \<and> hasPvt s' \<and> lenUBX s' = 0"
  by (rule pvt_time) (simp_all add: gps_init_def parser_ok_def leap_day_def get_defs rd_def dec16_def dec8_def)

end
