(* ===== verification/Arp.thy ===== *)
theory Arp
  imports Inet
begin

unbundle bit_operations_syntax

text \<open>
  Address resolution (lib/net/arp.cpp): the table of pending requests, the handler of received frames,
  the periodic task, and the router's address. A callback is a value: the router's own callback of this
  file, or one of another layer, which the argument \<open>call\<close> runs on the whole state. The argument \<open>now\<close>
  is the reading of the monotonic seconds during the event.
\<close>

abbreviation (input) ANNOUNCE_INTERVAL :: u32 where "ANNOUNCE_INTERVAL \<equiv> 60"
abbreviation (input) MAX_ARP_REQUESTS :: nat where "MAX_ARP_REQUESTS \<equiv> 16"
abbreviation (input) ARP_EXPIRE :: u32 where "ARP_EXPIRE \<equiv> 5"
abbreviation (input) ARP_MAX_AGE :: u32 where "ARP_MAX_AGE \<equiv> 64"
abbreviation (input) ARP_FRAME_LEN :: nat where "ARP_FRAME_LEN \<equiv> 60"

definition ARP_OP_REQUEST :: u16 where "ARP_OP_REQUEST = 0x0100"
definition ARP_OP_REPLY :: u16 where "ARP_OP_REPLY = 0x0200"

abbreviation (input) arp_HTYPE :: nat where "arp_HTYPE \<equiv> 14"
abbreviation (input) arp_PTYPE :: nat where "arp_PTYPE \<equiv> 16"
abbreviation (input) arp_HLEN :: nat where "arp_HLEN \<equiv> 18"
abbreviation (input) arp_PLEN :: nat where "arp_PLEN \<equiv> 19"
abbreviation (input) arp_OPER :: nat where "arp_OPER \<equiv> 20"
abbreviation (input) arp_SHA :: nat where "arp_SHA \<equiv> 22"
abbreviation (input) arp_SPA :: nat where "arp_SPA \<equiv> 28"
abbreviation (input) arp_THA :: nat where "arp_THA \<equiv> 32"
abbreviation (input) arp_TPA :: nat where "arp_TPA \<equiv> 38"

datatype 'e arp_callback = ArpRouter | ArpClient 'e

text \<open>A reference is an opaque pointer.\<close>

record 'e arp_request =
  expire :: u32
  remoteAddress :: u32
  callback :: "'e arp_callback"
  ref :: u32

record ('cb, 'e) arpst = "'cb ipst" +
  arpRequests :: "'e arp_request list"
  macRouter :: mac
  nextAnnounce :: u32
  lastRouterPoll :: u32

type_synonym ('cb, 'e, 'z) arp_call =
  "'e \<Rightarrow> u32 \<Rightarrow> u32 \<Rightarrow> mac \<Rightarrow> ('cb, 'e, 'z) arpst_scheme \<Rightarrow> ('cb, 'e, 'z) arpst_scheme"

section \<open>Requests\<close>

definition makeArpIp4 :: "u16 \<Rightarrow> mac \<Rightarrow> u32 \<Rightarrow> ('cb, 'z) ipst_scheme \<Rightarrow> bytes" where
  "makeArpIp4 op macTrg ipTrg s =
     (let f = replicate ARP_FRAME_LEN 0;
          f = put16 f eth_ethType ETHTYPE_ARP;
          f = put16 f arp_HTYPE 0x0100;
          f = put16 f arp_PTYPE ETHTYPE_IP4;
          f = put8 f arp_HLEN 6;
          f = put8 f arp_PLEN 4;
          f = put16 f arp_OPER op;
          f = copyMAC f arp_SHA (myMac s);
          f = put32 f arp_SPA (ipAddress s);
          f = copyMAC f arp_THA macTrg
      in put32 f arp_TPA ipTrg)"

definition wildCard :: mac where "wildCard = replicate 6 0"

definition arpAnnounce :: "('cb, 'z) ipst_scheme \<Rightarrow> ('cb, 'z) ipst_scheme" where
  "arpAnnounce s =
     (if ipAddress s = 0 then s
      else let f = makeArpIp4 ARP_OP_REQUEST wildCard (ipAddress s) s;
               f = copyMAC f eth_macDst broadcastMAC
           in transmit_frame f ARP_FRAME_LEN s)"

definition ARP_request :: "u32 \<Rightarrow> u32 \<Rightarrow> 'e arp_callback \<Rightarrow> u32 \<Rightarrow> ('cb, 'e, 'z) arpst_scheme
    \<Rightarrow> int \<times> ('cb, 'e, 'z) arpst_scheme" where
  "ARP_request now remote cb r s =
     (case first_slot (\<lambda>q. remoteAddress q = 0) (arpRequests s) of
        None \<Rightarrow> (- 1, s)
      | Some i \<Rightarrow>
          let f = makeArpIp4 ARP_OP_REQUEST wildCard remote s;
              f = copyMAC f eth_macDst broadcastMAC;
              s = s\<lparr>arpRequests := (arpRequests s)[i := \<lparr>expire = now + ARP_EXPIRE, remoteAddress = remote,
                     callback = cb, ref = r\<rparr>]\<rparr>
          in (0, transmit_frame f ARP_FRAME_LEN s))"

definition ARP_refreshRouter :: "u32 \<Rightarrow> ('cb, 'e, 'z) arpst_scheme \<Rightarrow> ('cb, 'e, 'z) arpst_scheme" where
  "ARP_refreshRouter now s = snd (ARP_request now (ipRouter s) ArpRouter 0 (s\<lparr>lastRouterPoll := now\<rparr>))"

definition arpRouter :: "u32 \<Rightarrow> mac \<Rightarrow> ('cb, 'e, 'z) arpst_scheme \<Rightarrow> ('cb, 'e, 'z) arpst_scheme" where
  "arpRouter now macAddress s =
     (if isNullMAC macAddress then ARP_refreshRouter now s
      else s\<lparr>macRouter := copyMAC (macRouter s) 0 macAddress\<rparr>)"

definition call_arp :: "('cb, 'e, 'z) arp_call \<Rightarrow> u32 \<Rightarrow> 'e arp_request \<Rightarrow> mac
    \<Rightarrow> ('cb, 'e, 'z) arpst_scheme \<Rightarrow> ('cb, 'e, 'z) arpst_scheme" where
  "call_arp call now q macAddress s =
     (case callback q of
        ArpRouter \<Rightarrow> arpRouter now macAddress s
      | ArpClient e \<Rightarrow> call e (ref q) (remoteAddress q) macAddress s)"

text \<open>The slot of a finished request; the table may have changed while its callback ran.\<close>

definition free_slot :: "nat \<Rightarrow> ('cb, 'e, 'z) arpst_scheme \<Rightarrow> ('cb, 'e, 'z) arpst_scheme" where
  "free_slot i s = s\<lparr>arpRequests := (arpRequests s)[i := (arpRequests s ! i)\<lparr>remoteAddress := 0\<rparr>]\<rparr>"

section \<open>The periodic task\<close>

definition expire_slot :: "('cb, 'e, 'z) arp_call \<Rightarrow> u32 \<Rightarrow> nat \<Rightarrow> ('cb, 'e, 'z) arpst_scheme
    \<Rightarrow> ('cb, 'e, 'z) arpst_scheme" where
  "expire_slot call now i s =
     (let request = arpRequests s ! i
      in if remoteAddress request = 0 then s
         else if sint (now - expire request) \<le> 0 then s
         else free_slot i (call_arp call now request wildCard s))"

definition arpRun :: "('cb, 'e, 'z) arp_call \<Rightarrow> u32 \<Rightarrow> bool \<Rightarrow> ('cb, 'e, 'z) arpst_scheme
    \<Rightarrow> ('cb, 'e, 'z) arpst_scheme" where
  "arpRun call now link s =
     (let s = fold (expire_slot call now) [0 ..< length (arpRequests s)] s
      in if \<not> link then s
         else let s = (if sint (nextAnnounce s - now) \<le> 0
                       then arpAnnounce (s\<lparr>nextAnnounce := now + ANNOUNCE_INTERVAL\<rparr>) else s)
              in if now - lastRouterPoll s > ARP_MAX_AGE then ARP_refreshRouter now s else s)"

section \<open>Received frames\<close>

definition match_slot :: "('cb, 'e, 'z) arp_call \<Rightarrow> u32 \<Rightarrow> u32 \<Rightarrow> mac \<Rightarrow> nat \<Rightarrow> ('cb, 'e, 'z) arpst_scheme
    \<Rightarrow> ('cb, 'e, 'z) arpst_scheme" where
  "match_slot call now spa sha i s =
     (let request = arpRequests s ! i
      in if remoteAddress request = spa then free_slot i (call_arp call now request sha s) else s)"

definition ARP_process :: "('cb, 'e, 'z) arp_call \<Rightarrow> u32 \<Rightarrow> bytes \<Rightarrow> nat \<Rightarrow> ('cb, 'e, 'z) arpst_scheme
    \<Rightarrow> ('cb, 'e, 'z) arpst_scheme" where
  "ARP_process call now frame flen s =
     (if flen \<noteq> ARP_FRAME_LEN then s
      else if get16 frame arp_HTYPE \<noteq> 0x0100 then s
      else if get16 frame arp_PTYPE \<noteq> ETHTYPE_IP4 then s
      else if get8 frame arp_HLEN \<noteq> 6 then s
      else if get8 frame arp_PLEN \<noteq> 4 then s
      else if get16 frame arp_OPER = ARP_OP_REQUEST then
        if ipAddress s \<noteq> 0 \<and> ipAddress s = get32 frame arp_TPA then
          let f = makeArpIp4 ARP_OP_REPLY (rd frame arp_SHA 6) (get32 frame arp_SPA) s;
              f = copyMAC f eth_macDst (rd frame eth_macSrc 6)
          in transmit_frame f ARP_FRAME_LEN s
        else s
      else if get16 frame arp_OPER = ARP_OP_REPLY then
        if isMyMAC s (rd frame eth_macDst 6) \<noteq> 0 then s
        else if get32 frame arp_SPA \<noteq> 0 then
          fold (match_slot call now (get32 frame arp_SPA) (rd frame arp_SHA 6)) [0 ..< length (arpRequests s)] s
        else s
      else s)"

section \<open>Frames\<close>

lemma makeArpIp4_fields:
  assumes "length (myMac s) = 6" "length m = 6"
  shows "length (makeArpIp4 op m a s) = 60" "get16 (makeArpIp4 op m a s) eth_ethType = ETHTYPE_ARP"
    "get16 (makeArpIp4 op m a s) arp_HTYPE = 0x0100" "get16 (makeArpIp4 op m a s) arp_PTYPE = ETHTYPE_IP4"
    "get8 (makeArpIp4 op m a s) arp_HLEN = 6" "get8 (makeArpIp4 op m a s) arp_PLEN = 4"
    "get16 (makeArpIp4 op m a s) arp_OPER = op" "rd (makeArpIp4 op m a s) arp_SHA 6 = myMac s"
    "get32 (makeArpIp4 op m a s) arp_SPA = ipAddress s" "rd (makeArpIp4 op m a s) arp_THA 6 = m"
    "get32 (makeArpIp4 op m a s) arp_TPA = a"
  using assms by (simp_all add: makeArpIp4_def Let_def copyMAC_def buf_simps length_rd rd_whole)

text \<open>The address fields of the Ethernet header do not overlap the others.\<close>

lemma copyMAC_other:
  "i + 6 \<le> 12 \<Longrightarrow> 12 \<le> j \<Longrightarrow> get16 (copyMAC f i m) j = get16 f j"
  "i + 6 \<le> 12 \<Longrightarrow> 12 \<le> j \<Longrightarrow> get8 (copyMAC f i m) j = get8 f j"
  "i + 6 \<le> 12 \<Longrightarrow> 12 \<le> j \<Longrightarrow> get32 (copyMAC f i m) j = get32 f j"
  "i + 6 \<le> 12 \<Longrightarrow> 12 \<le> j \<Longrightarrow> rd (copyMAC f i m) j n = rd f j n"
  "length (copyMAC f i m) = length f"
proof -
  have "length (rd m 0 6) \<le> 6" by (simp add: rd_def)
  then show "i + 6 \<le> 12 \<Longrightarrow> 12 \<le> j \<Longrightarrow> get16 (copyMAC f i m) j = get16 f j"
    "i + 6 \<le> 12 \<Longrightarrow> 12 \<le> j \<Longrightarrow> get8 (copyMAC f i m) j = get8 f j"
    "i + 6 \<le> 12 \<Longrightarrow> 12 \<le> j \<Longrightarrow> get32 (copyMAC f i m) j = get32 f j"
    "i + 6 \<le> 12 \<Longrightarrow> 12 \<le> j \<Longrightarrow> rd (copyMAC f i m) j n = rd f j n"
    by (simp_all add: copyMAC_def get_defs rd_wr_disj)
  show "length (copyMAC f i m) = length f" by (simp add: copyMAC_def)
qed

lemma copyMAC_same: "length m = 6 \<Longrightarrow> i + 6 \<le> length f \<Longrightarrow> rd (copyMAC f i m) i 6 = m"
  using rd_wr_same [of 6 m i f] by (simp add: copyMAC_def rd_whole)

lemma copyMAC_disj: "length m = 6 \<Longrightarrow> j + n \<le> i \<or> i + 6 \<le> j \<Longrightarrow> rd (copyMAC f i m) j n = rd f j n"
  by (simp add: copyMAC_def rd_wr_disj rd_whole)

lemmas copyMAC_simps = copyMAC_other copyMAC_same copyMAC_disj

lemma cmpMac_refl: "cmpMac m m = 0"
  by (induction m) auto

text \<open>The answer to a request for this host.\<close>

lemma ARP_process_request:
  assumes "flen = 60" "get16 f arp_HTYPE = 0x0100" "get16 f arp_PTYPE = ETHTYPE_IP4" "get8 f arp_HLEN = 6"
    "get8 f arp_PLEN = 4" "get16 f arp_OPER = ARP_OP_REQUEST"
  shows "ARP_process call now f flen s = (if ipAddress s \<noteq> 0 \<and> ipAddress s = get32 f arp_TPA
    then transmit_frame (copyMAC (makeArpIp4 ARP_OP_REPLY (rd f arp_SHA 6) (get32 f arp_SPA) s) eth_macDst (rd f eth_macSrc 6))
      60 s else s)"
  using assms by (simp add: ARP_process_def Let_def)

section \<open>The table\<close>

text \<open>Callbacks of other layers leave the table alone when they are told an address.\<close>

locale arp_clients =
  fixes call :: "('cb, 'e, 'z) arp_call"
  assumes keeps_table: "\<not> isNullMAC m \<Longrightarrow> arpRequests (call e r a m s) = arpRequests s"
begin

lemma call_table: "\<not> isNullMAC m \<Longrightarrow> arpRequests (call_arp call now q m s) = arpRequests s"
  by (simp add: call_arp_def arpRouter_def keeps_table split: arp_callback.split)

lemma match_slot_other:
  "remoteAddress (arpRequests s ! i) \<noteq> spa \<Longrightarrow> match_slot call now spa sha i s = s"
  by (simp add: match_slot_def Let_def)

lemma fold_match_none:
  "\<forall>i \<in> set is. remoteAddress (arpRequests s ! i) \<noteq> spa \<Longrightarrow> fold (match_slot call now spa sha) is s = s"
  by (induction "is") (auto simp: match_slot_other)

text \<open>A reply to the only pending request for an address runs its callback once and frees its slot.\<close>

lemma fold_match_one:
  assumes "i < length (arpRequests s)" "remoteAddress (arpRequests s ! i) = spa" "spa \<noteq> 0" "\<not> isNullMAC sha"
    and other: "\<And>j. j < length (arpRequests s) \<Longrightarrow> j \<noteq> i \<Longrightarrow> remoteAddress (arpRequests s ! j) \<noteq> spa"
  shows "fold (match_slot call now spa sha) [0 ..< length (arpRequests s)] s
    = free_slot i (call_arp call now (arpRequests s ! i) sha s)"
proof -
  let ?t = "free_slot i (call_arp call now (arpRequests s ! i) sha s)"
  have t: "arpRequests ?t = (arpRequests s)[i := (arpRequests s ! i)\<lparr>remoteAddress := 0\<rparr>]"
    by (simp add: free_slot_def call_table [OF assms(4)])
  have s: "[0 ..< length (arpRequests s)] = [0 ..< i] @ i # [Suc i ..< length (arpRequests s)]"
    using upt_add_eq_append [of 0 i "length (arpRequests s) - i"] assms(1) by (simp add: upt_conv_Cons)
  have "fold (match_slot call now spa sha) [0 ..< i] s = s"
    by (rule fold_match_none) (use other assms(1) in simp)
  moreover have "match_slot call now spa sha i s = ?t" using assms(2) by (simp add: match_slot_def Let_def)
  moreover have "fold (match_slot call now spa sha) [Suc i ..< length (arpRequests s)] ?t = ?t"
    by (rule fold_match_none) (use other t in auto)
  ultimately show ?thesis by (simp add: s)
qed

end

definition arp_reply_to :: "bytes \<Rightarrow> ('cb, 'e, 'z) arpst_scheme \<Rightarrow> u32 \<Rightarrow> mac \<Rightarrow> bool" where
  "arp_reply_to f s spa sha \<longleftrightarrow> get16 f arp_HTYPE = 0x0100 \<and> get16 f arp_PTYPE = ETHTYPE_IP4 \<and> get8 f arp_HLEN = 6
     \<and> get8 f arp_PLEN = 4 \<and> get16 f arp_OPER = ARP_OP_REPLY \<and> rd f eth_macDst 6 = myMac s
     \<and> get32 f arp_SPA = spa \<and> rd f arp_SHA 6 = sha"

lemma ARP_process_reply:
  "arp_reply_to f s spa sha \<Longrightarrow> spa \<noteq> 0 \<Longrightarrow> ARP_process call now f 60 s
    = fold (match_slot call now spa sha) [0 ..< length (arpRequests s)] s"
  by (simp add: ARP_process_def arp_reply_to_def isMyMAC_def cmpMac_refl ARP_OP_REPLY_def ARP_OP_REQUEST_def)

text \<open>
  The exchange between two hosts. The request of host \<open>a\<close> reaches host \<open>b\<close> with the source address that the
  MAC inserts, and the reply of \<open>b\<close> reaches \<open>a\<close> likewise.
\<close>

definition sent_by :: "mac \<Rightarrow> bytes \<Rightarrow> bytes" where
  "sent_by m f = copyMAC f eth_macSrc m"

lemma request_answered:
  assumes b: "length (myMac b) = 6" "ipAddress b \<noteq> 0" and a: "length (myMac a) = 6"
  defines "q \<equiv> sent_by (myMac a) (copyMAC (makeArpIp4 ARP_OP_REQUEST wildCard (ipAddress b) a) eth_macDst broadcastMAC)"
  shows "\<exists>r. ARP_process call now q 60 b = transmit_frame r 60 b
    \<and> arp_reply_to (sent_by (myMac b) r) a (ipAddress b) (myMac b)"
proof -
  have w: "length wildCard = 6" "length broadcastMAC = 6" by (simp_all add: wildCard_def broadcastMAC_def)
  note mq = makeArpIp4_fields [OF a w(1), of ARP_OP_REQUEST "ipAddress b"]
  have q: "get16 q arp_HTYPE = 0x0100" "get16 q arp_PTYPE = ETHTYPE_IP4" "get8 q arp_HLEN = 6" "get8 q arp_PLEN = 4"
    "get16 q arp_OPER = ARP_OP_REQUEST" "rd q arp_SHA 6 = myMac a" "get32 q arp_TPA = ipAddress b"
    "rd q eth_macSrc 6 = myMac a"
    using a w by (simp_all add: q_def sent_by_def copyMAC_simps mq)
  let ?m = "makeArpIp4 ARP_OP_REPLY (rd q arp_SHA 6) (get32 q arp_SPA) b"
  have l: "length (rd q arp_SHA 6) = 6" using q(6) a by simp
  note mr = makeArpIp4_fields [OF b(1) l, of ARP_OP_REPLY "get32 q arp_SPA"]
  let ?r = "copyMAC ?m eth_macDst (rd q eth_macSrc 6)"
  have "arp_reply_to (sent_by (myMac b) ?r) a (ipAddress b) (myMac b)"
    using a b by (simp add: arp_reply_to_def sent_by_def copyMAC_simps mr q(8))
  moreover have "ARP_process call now q 60 b = transmit_frame ?r 60 b"
    using ARP_process_request [OF refl q(1-5), where s = b and call = call] b(2) q(7) by simp
  ultimately show ?thesis by blast
qed

end
