(* ===== verification/Dns.thy ===== *)
theory Dns
  imports Arp
begin

unbundle bit_operations_syntax

text \<open>
  The DNS client (lib/net/dns.cpp): the hardware address of the server, lookups, and responses. The
  client's own ARP callback is the value \<open>DnsArp\<close>; the callbacks of lookups are values that the argument
  \<open>report\<close> runs. \<open>None\<close> is an access outside a buffer or a call of a null callback.
\<close>

abbreviation (input) DNS_CLIENT_PORT :: u16 where "DNS_CLIENT_PORT \<equiv> 1367"
abbreviation (input) DNS_SERVER_PORT :: u16 where "DNS_SERVER_PORT \<equiv> 53"
abbreviation (input) DNS_EXPIRE :: u32 where "DNS_EXPIRE \<equiv> 5"

abbreviation (input) dns_id :: nat where "dns_id \<equiv> 42"
abbreviation (input) dns_flags :: nat where "dns_flags \<equiv> 44"
abbreviation (input) dns_qcount :: nat where "dns_qcount \<equiv> 46"
abbreviation (input) dns_ancount :: nat where "dns_ancount \<equiv> 48"
abbreviation (input) dns_body :: nat where "dns_body \<equiv> 54"

datatype 'e dns_arp = DnsArp | OtherArp 'e

record 'd dns_request =
  dns_expire :: u32
  requestId :: u32
  dns_callback :: "'d option"
  dns_ref :: u32

record ('cb, 'e, 'd) dnsst = "('cb, 'e) arpst" +
  dnsRequests :: "'d dns_request list"
  lastArp :: u32
  nextRequest :: u16
  dnsMAC :: mac

section \<open>The server's hardware address\<close>

definition DNS_updateMAC :: "u32 \<Rightarrow> ('cb, 'e dns_arp, 'd, 'z) dnsst_scheme \<Rightarrow> ('cb, 'e dns_arp, 'd, 'z) dnsst_scheme" where
  "DNS_updateMAC now s =
     (let s = s\<lparr>lastArp := now\<rparr>
      in if IPv4_testSubnet (ipSubnet s) (ipAddress s) (ipDNS s) \<noteq> 0
         then s\<lparr>dnsMAC := copyMAC (dnsMAC s) 0 (macRouter s)\<rparr>
         else snd (ARP_request now (ipDNS s) (ArpClient DnsArp) 0 s))"

definition dns_callbackARP :: "u32 \<Rightarrow> u32 \<Rightarrow> mac \<Rightarrow> ('cb, 'e dns_arp, 'd, 'z) dnsst_scheme
    \<Rightarrow> ('cb, 'e dns_arp, 'd, 'z) dnsst_scheme" where
  "dns_callbackARP now remote macAddress s =
     (if remote = ipDNS s then
        if isNullMAC macAddress then DNS_updateMAC now s
        else s\<lparr>dnsMAC := copyMAC (dnsMAC s) 0 macAddress\<rparr>
      else s)"

definition DNS_init :: "'cb \<Rightarrow> ('cb, 'e, 'd, 'z) dnsst_scheme \<Rightarrow> ('cb, 'e, 'd, 'z) dnsst_scheme" where
  "DNS_init cb s =
     (let s = s\<lparr>nextRequest := push_bit 8 (ucast (myMac s ! 1)) OR ucast (myMac s ! 0)\<rparr>
      in snd (UDP_register DNS_CLIENT_PORT cb s))"

section \<open>Queries\<close>

text \<open>A host name as a sequence of counted labels; dots separate, and one before a label is skipped.\<close>

function dns_labels :: "bytes \<Rightarrow> bytes" where
  "dns_labels host =
     (let host = (if host \<noteq> [] \<and> hd host = 0x2E then tl host else host)
      in if host = [] then []
         else let label = takeWhile (\<lambda>c. c \<noteq> 0x2E) host
              in of_nat (length label) # label @ dns_labels (dropWhile (\<lambda>c. c \<noteq> 0x2E) host))"
  by pat_completeness auto
termination
proof (relation "measure length", goal_cases)
  case (2 host x)
  have "length (dropWhile (\<lambda>c. c \<noteq> 0x2E) x) \<le> length x" by (rule length_dropWhile_le)
  moreover have "hd x \<noteq> 0x2E \<Longrightarrow> length (dropWhile (\<lambda>c. c \<noteq> 0x2E) x) < length x"
    using 2(2) length_dropWhile_le [of "\<lambda>c. c \<noteq> 0x2E" "tl x"] by (cases x) auto
  ultimately show ?case using 2 by (cases host) (auto split: if_splits)
qed simp

declare dns_labels.simps [simp del]

definition sendRequest :: "bytes \<Rightarrow> u16 \<Rightarrow> ('cb, 'e, 'd, 'z) dnsst_scheme \<Rightarrow> ('cb, 'e, 'd, 'z) dnsst_scheme option" where
  "sendRequest host rid s =
     (let f = copyMAC (replicate dns_body 0) eth_macDst (dnsMAC s);
          (f, s) = IPv4_init f s;
          f = put32 f ip4_dst (ipDNS s);
          f = put32 f ip4_src (ipAddress s);
          f = put8 f ip4_proto IP_PROTO_UDP;
          f = put16 f udp_portSrc (htons DNS_CLIENT_PORT);
          f = put16 f udp_portDst (htons DNS_SERVER_PORT);
          f = put16 f dns_id rid;
          f = put8 f dns_flags (get8 f dns_flags OR 1);
          f = put16 f dns_qcount (htons 1);
          f = f @ dns_labels host @ [0] @ enc16 (htons 1) @ enc16 (htons 1);
          flen = length f
      in if flen > 1520 then None
         else Some (transmit_frame (IPv4_finalize (UDP_finalize f flen) flen) flen s))"

text \<open>A slot is passed over when it has a callback and its time is over.\<close>

definition lookup_slot :: "u32 \<Rightarrow> 'd dns_request \<Rightarrow> bool" where
  "lookup_slot now q \<longleftrightarrow> \<not> (dns_callback q \<noteq> None \<and> sint (now - dns_expire q) > 0)"

definition DNS_lookup :: "u32 \<Rightarrow> bytes \<Rightarrow> 'd \<Rightarrow> u32 \<Rightarrow> ('cb, 'e dns_arp, 'd, 'z) dnsst_scheme
    \<Rightarrow> (int \<times> ('cb, 'e dns_arp, 'd, 'z) dnsst_scheme) option" where
  "DNS_lookup now host cb r s =
     (let s = (if now - lastArp s > ARP_MAX_AGE then DNS_updateMAC now s else s)
      in if isNullMAC (dnsMAC s) then Some (- 2, s)
         else case first_slot (lookup_slot now) (dnsRequests s) of
           None \<Rightarrow> Some (- 1, s)
         | Some i \<Rightarrow>
             let rid = nextRequest s;
                 s = s\<lparr>nextRequest := rid + 1, dnsRequests := (dnsRequests s)[i :=
                        \<lparr>dns_expire = now + DNS_EXPIRE, requestId = ucast rid, dns_callback = Some cb, dns_ref = r\<rparr>]\<rparr>
             in map_option (Pair 0) (sendRequest host rid s))"

section \<open>Responses\<close>

definition byte_at :: "bytes \<Rightarrow> nat \<Rightarrow> u8 option" where
  "byte_at f i = (if i < length f then Some (f ! i) else None)"

definition u16_at :: "bytes \<Rightarrow> nat \<Rightarrow> u16 option" where
  "u16_at f i = (if i + 2 \<le> length f then Some (get16 f i) else None)"

definition u32_at :: "bytes \<Rightarrow> nat \<Rightarrow> u32 option" where
  "u32_at f i = (if i + 4 \<le> length f then Some (get32 f i) else None)"

function skip_name :: "bytes \<Rightarrow> nat \<Rightarrow> nat \<Rightarrow> nat option" where
  "skip_name f fin next =
     (if next < fin then
        Option.bind (byte_at f next) (\<lambda>len.
          if len = 0 then Some (next + 1)
          else if len = 0xC0 then Some (next + 2)
          else skip_name f fin (next + 1 + unat len))
      else Some next)"
  by pat_completeness auto
termination by (relation "measure (\<lambda>(f, fin, next). fin - next)") auto

declare skip_name.simps [simp del]

fun skip_questions :: "bytes \<Rightarrow> nat \<Rightarrow> nat \<Rightarrow> nat \<Rightarrow> nat option" where
  "skip_questions f fin 0 next = Some next"
| "skip_questions f fin (Suc cnt) next =
     Option.bind (skip_name f fin next) (\<lambda>next. skip_questions f fin cnt (next + 4))"

text \<open>The addresses of the A records in order, and whether the loop ran to its end.\<close>

fun dns_answers :: "bytes \<Rightarrow> nat \<Rightarrow> nat \<Rightarrow> nat \<Rightarrow> (u32 list \<times> bool) option" where
  "dns_answers f fin 0 next = Some ([], True)"
| "dns_answers f fin (Suc cnt) next =
     Option.bind (skip_name f fin next) (\<lambda>next.
       if next \<ge> fin then Some ([], False)
       else Option.bind (u16_at f next) (\<lambda>t.
         let atype = htons t; next = next + 2
         in Option.bind (u16_at f next) (\<lambda>c.
           let aclass = htons c; next = next + 2; next = next + 4
           in Option.bind (u16_at f next) (\<lambda>l.
             let len = htons l; next = next + 2
             in if next \<ge> fin then Some ([], False)
                else if atype \<noteq> 1 \<or> aclass \<noteq> 1 \<or> len \<noteq> 4 then dns_answers f fin cnt (next + unat len)
                else Option.bind (u32_at f next) (\<lambda>addr.
                  map_option (\<lambda>(as, ok). (addr # as, ok)) (dns_answers f fin cnt (next + 4)))))))"

declare dns_answers.simps [simp del]

text \<open>The callback is read from the slot again for each address.\<close>

definition report_addr :: "('d \<Rightarrow> u32 \<Rightarrow> u32 \<Rightarrow> ('cb, 'e, 'd, 'z) dnsst_scheme \<Rightarrow> ('cb, 'e, 'd, 'z) dnsst_scheme)
    \<Rightarrow> nat \<Rightarrow> u32 \<Rightarrow> ('cb, 'e, 'd, 'z) dnsst_scheme option \<Rightarrow> ('cb, 'e, 'd, 'z) dnsst_scheme option" where
  "report_addr report i addr s =
     Option.bind s (\<lambda>s. case dns_callback (dnsRequests s ! i) of
        None \<Rightarrow> None
      | Some cb \<Rightarrow> Some (report cb (dns_ref (dnsRequests s ! i)) addr s))"

definition dns_processFrame :: "('d \<Rightarrow> u32 \<Rightarrow> u32 \<Rightarrow> ('cb, 'e, 'd, 'z) dnsst_scheme \<Rightarrow> ('cb, 'e, 'd, 'z) dnsst_scheme)
    \<Rightarrow> bytes \<Rightarrow> nat \<Rightarrow> ('cb, 'e, 'd, 'z) dnsst_scheme \<Rightarrow> ('cb, 'e, 'd, 'z) dnsst_scheme option" where
  "dns_processFrame report f flen s =
     (if flen < dns_body then Some s
      else if isMyMAC s (rd f eth_macDst 6) \<noteq> 0 then Some s
      else if get32 f ip4_dst \<noteq> ipAddress s then Some s
      else if drop_bit 7 (get8 f dns_flags) \<noteq> 1 then Some s
      else if drop_bit 3 (get8 f dns_flags) AND 0xF \<noteq> 0 then Some s
      else case first_slot (\<lambda>q. dns_callback q \<noteq> None \<and> requestId q = ucast (get16 f dns_id)) (dnsRequests s) of
        None \<Rightarrow> Some s
      | Some i \<Rightarrow>
          Option.bind (skip_questions f flen (unat (htons (get16 f dns_qcount))) dns_body) (\<lambda>next.
            if next \<ge> flen then Some s
            else Option.bind (dns_answers f flen (unat (htons (get16 f dns_ancount))) next) (\<lambda>(as, ok).
              map_option (\<lambda>s. if ok
                  then s\<lparr>dnsRequests := (dnsRequests s)[i := (dnsRequests s ! i)\<lparr>dns_callback := None\<rparr>]\<rparr>
                  else s)
                (fold (report_addr report i) as (Some s)))))"

section \<open>Parsing what servers send\<close>

definition enc_labels :: "bytes list \<Rightarrow> bytes" where
  "enc_labels ls = concat (map (\<lambda>l. of_nat (length l) # l) ls)"

definition label_ok :: "bytes \<Rightarrow> bool" where
  "label_ok l \<longleftrightarrow> 1 \<le> length l \<and> length l \<le> 63 \<and> 0x2E \<notin> set l"

text \<open>The host name of a list of labels.\<close>

fun dotted :: "bytes list \<Rightarrow> bytes" where
  "dotted [] = []"
| "dotted [l] = l"
| "dotted (l # ls) = l @ 0x2E # dotted ls"

lemma takeWhile_label: "0x2E \<notin> set l \<Longrightarrow> takeWhile (\<lambda>c. c \<noteq> 0x2E) l = l" for l :: bytes
  by (induction l) auto

lemma split_label:
  "0x2E \<notin> set l \<Longrightarrow> takeWhile (\<lambda>c. c \<noteq> 0x2E) (l @ 0x2E # x) = l \<and> dropWhile (\<lambda>c. c \<noteq> 0x2E) (l @ 0x2E # x) = 0x2E # x"
  for l :: bytes
  by (induction l) auto

lemma dns_labels_dot: "host = [] \<or> hd host \<noteq> 0x2E \<Longrightarrow> dns_labels (0x2E # host) = dns_labels host"
  by (subst (1 2) dns_labels.simps) auto

lemma dns_labels_dotted: "list_all label_ok ls \<Longrightarrow> dns_labels (dotted ls) = enc_labels ls"
proof (induction ls rule: dotted.induct)
  case 1
  show ?case by (simp add: dns_labels.simps enc_labels_def)
next
  case (2 l)
  then have l: "l \<noteq> []" "0x2E \<notin> set l" by (auto simp: label_ok_def)
  then have "hd l \<noteq> 0x2E" by (metis hd_in_set)
  moreover have "dns_labels [] = []" by (simp add: dns_labels.simps)
  moreover have "dropWhile (\<lambda>c. c \<noteq> 0x2E) l = []" using l(2) by (induction l) auto
  ultimately show ?case using l
    by (subst dns_labels.simps) (simp add: takeWhile_label enc_labels_def Let_def del: dropWhile_eq_Nil_conv)
next
  case (3 l k ls)
  then have l: "l \<noteq> []" "0x2E \<notin> set l" "label_ok k" by (auto simp: label_ok_def)
  then have h: "hd (l @ x) \<noteq> 0x2E" for x by (metis hd_append hd_in_set)
  have t: "takeWhile (\<lambda>c. c \<noteq> 0x2E) (l @ 0x2E # x) = l" "dropWhile (\<lambda>c. c \<noteq> 0x2E) (l @ 0x2E # x) = 0x2E # x" for x
    using split_label [OF l(2), of x] by simp_all
  have k: "k \<noteq> []" "0x2E \<notin> set k" using l(3) by (auto simp: label_ok_def)
  then have "hd (dotted (k # ls)) \<noteq> 0x2E" by (cases ls) (auto simp: hd_append dest: hd_in_set)
  then have "dns_labels (0x2E # dotted (k # ls)) = dns_labels (dotted (k # ls))" by (intro dns_labels_dot) simp
  then show ?case using 3 l h
    by (subst dns_labels.simps) (simp add: t Let_def enc_labels_def)
qed

lemma skip_name_labels:
  assumes "sits f i (enc_labels ls @ [0])" "list_all label_ok ls" "i + length (enc_labels ls) < fin"
  shows "skip_name f fin i = Some (i + length (enc_labels ls) + 1)"
  using assms
proof (induction ls arbitrary: i)
  case Nil
  then show ?case by (subst skip_name.simps) (simp add: enc_labels_def byte_at_def sits_Cons)
next
  case (Cons l ls)
  have e: "enc_labels (l # ls) = of_nat (length l) # l @ enc_labels ls" by (simp add: enc_labels_def)
  have l: "1 \<le> length l" "length l \<le> 63" using Cons.prems(2) by (auto simp: label_ok_def)
  have u: "unat (of_nat (length l) :: u8) = length l" using l by (simp add: unat_of_nat)
  then have ne: "(of_nat (length l) :: u8) \<noteq> 0" "(of_nat (length l) :: u8) \<noteq> 0xC0" using l by (auto simp flip: unat_eq_zero)
  have p: "byte_at f i = Some (of_nat (length l))" "sits f (i + 1 + length l) (enc_labels ls @ [0])" "i < fin"
    using Cons.prems(1,3) by (auto simp: e sits_Cons sits_append byte_at_def)
  have "skip_name f fin (i + 1 + length l) = Some (i + 1 + length l + length (enc_labels ls) + 1)"
    using Cons.prems p by (intro Cons.IH) (auto simp: e)
  with p ne show ?case by (subst skip_name.simps) (simp add: u e)
qed

lemma skip_name_pointer:
  "sits f i [0xC0, x] \<Longrightarrow> i < fin \<Longrightarrow> skip_name f fin i = Some (i + 2)"
  by (subst skip_name.simps) (simp add: byte_at_def sits_Cons)

text \<open>Resource records: an address, or something else.\<close>

datatype rr = RrA u32 u32 | RrOther u16 u16 u32 bytes

fun rr_ok :: "rr \<Rightarrow> bool" where
  "rr_ok (RrA ttl a) = True"
| "rr_ok (RrOther t c ttl d) = ((t \<noteq> 1 \<or> c \<noteq> 1) \<and> 1 \<le> length d \<and> length d < 65536)"

fun enc_rr :: "rr \<Rightarrow> bytes" where
  "enc_rr (RrA ttl a) = [0xC0, 12] @ enc16 (htons 1) @ enc16 (htons 1) @ enc32 ttl @ enc16 (htons 4) @ enc32 a"
| "enc_rr (RrOther t c ttl d) =
     [0xC0, 12] @ enc16 (htons t) @ enc16 (htons c) @ enc32 ttl @ enc16 (htons (of_nat (length d))) @ d"

fun rr_addr :: "rr \<Rightarrow> u32 list" where
  "rr_addr (RrA ttl a) = [a]"
| "rr_addr (RrOther t c ttl d) = []"

lemma at_sits: "sits f i (enc16 w) \<Longrightarrow> u16_at f i = Some w" "sits f i (enc32 v) \<Longrightarrow> u32_at f i = Some v"
  by (auto simp: sits_def u16_at_def u32_at_def get16_def get32_def dec16_enc16 dec32_enc32)

lemma dns_answers_step:
  assumes "skip_name f fin i = Some (i + 2)" "u16_at f (i + 2) = Some t" "u16_at f (i + 4) = Some c"
    "u16_at f (i + 10) = Some l" "i + 12 < fin"
  shows "dns_answers f fin (Suc n) i =
    (if htons t \<noteq> 1 \<or> htons c \<noteq> 1 \<or> htons l \<noteq> 4 then dns_answers f fin n (i + 12 + unat (htons l))
     else Option.bind (u32_at f (i + 12)) (\<lambda>addr.
       map_option (\<lambda>(as, ok). (addr # as, ok)) (dns_answers f fin n (i + 16))))"
proof -
  have e: "i + 2 + 2 = i + 4" "i + 4 + 2 + 4 = i + 10" "i + 10 + 2 = i + 12" "i + 12 + 4 = i + 16" by simp_all
  have "\<not> fin \<le> i + 2" "\<not> fin \<le> i + 12" using assms(5) by simp_all
  then show ?thesis unfolding dns_answers.simps Let_def assms(1-4) Option.bind.bind_lunit e by (simp only: if_False assms Option.bind.bind_lunit)
qed

lemma dns_answers_rrs:
  assumes "sits f i (concat (map enc_rr rrs))" "list_all rr_ok rrs" "fin = i + length (concat (map enc_rr rrs))"
  shows "dns_answers f fin (length rrs) i = Some (concat (map rr_addr rrs), True)"
  using assms
proof (induction rrs arbitrary: i)
  case (Cons r rrs)
  let ?rest = "concat (map enc_rr rrs)"
  show ?case
  proof (cases r)
    case (RrA ttl a)
    have q: "sits f i [0xC0, 12]" "sits f (i + 2) (enc16 (htons 1))" "sits f (i + 4) (enc16 (htons 1))"
      "sits f (i + 10) (enc16 (htons 4))" "sits f (i + 12) (enc32 a)" "sits f (i + 16) ?rest"
      using Cons.prems(1) unfolding RrA enc_rr.simps list.map concat.simps append_assoc sits_append
      by (simp_all add: eval_nat_numeral)
    note p = q(1) at_sits(1) [OF q(2)] at_sits(1) [OF q(3)] at_sits(1) [OF q(4)] at_sits(2) [OF q(5)] q(6)
    have fin: "fin = i + 16 + length ?rest" using Cons.prems(3) by (simp add: RrA)
    have "dns_answers f fin (length rrs) (i + 16) = Some (concat (map rr_addr rrs), True)"
      using Cons.prems(2) p(6) fin by (intro Cons.IH) simp_all
    then show ?thesis
      using p(5) dns_answers_step [OF skip_name_pointer [OF p(1)] p(2-4), of fin] fin by (simp add: RrA)
  next
    case (RrOther t c ttl d)
    have q: "sits f i [0xC0, 12]" "sits f (i + 2) (enc16 (htons t))" "sits f (i + 4) (enc16 (htons c))"
      "sits f (i + 10) (enc16 (htons (of_nat (length d))))" "sits f (i + 12 + length d) ?rest"
      using Cons.prems(1) unfolding RrOther enc_rr.simps list.map concat.simps append_assoc sits_append
      by (simp_all add: eval_nat_numeral)
    note p = q(1) at_sits(1) [OF q(2)] at_sits(1) [OF q(3)] at_sits(1) [OF q(4)] q(5)
    have ok: "t \<noteq> 1 \<or> c \<noteq> 1" "1 \<le> length d" "unat (of_nat (length d) :: u16) = length d"
      using Cons.prems(2) by (auto simp: RrOther unat_of_nat)
    have fin: "fin = i + 12 + length d + length ?rest" using Cons.prems(3) by (simp add: RrOther)
    have lt: "i < fin" "i + 12 < fin" using fin ok(2) by linarith+
    have "dns_answers f fin (length rrs) (i + 12 + length d) = Some (concat (map rr_addr rrs), True)"
      using Cons.prems(2) p(5) fin by (intro Cons.IH) simp_all
    then show ?thesis
      using ok dns_answers_step [OF skip_name_pointer [OF p(1) lt(1)] p(2-4) lt(2)] by (auto simp: RrOther)
  qed
qed (simp add: dns_answers.simps)

section \<open>Lookups and responses\<close>

definition question :: "bytes list \<Rightarrow> bytes" where
  "question ls = (enc_labels ls @ [0]) @ enc16 (htons 1) @ enc16 (htons 1)"

text \<open>A response for this host: the request's identifier, its question, and the records of the answer.\<close>

definition dns_response :: "('cb, 'e, 'd, 'z) dnsst_scheme \<Rightarrow> u16 \<Rightarrow> bytes list \<Rightarrow> rr list \<Rightarrow> bytes \<Rightarrow> bool" where
  "dns_response s rid ls rrs f \<longleftrightarrow> rd f eth_macDst 6 = myMac s \<and> get32 f ip4_dst = ipAddress s
     \<and> drop_bit 7 (get8 f dns_flags) = 1 \<and> drop_bit 3 (get8 f dns_flags) AND 0xF = 0
     \<and> get16 f dns_id = rid \<and> get16 f dns_qcount = htons 1 \<and> get16 f dns_ancount = htons (of_nat (length rrs))
     \<and> sits f dns_body (question ls @ concat (map enc_rr rrs))
     \<and> length f = dns_body + length (question ls @ concat (map enc_rr rrs))
     \<and> list_all label_ok ls \<and> list_all rr_ok rrs \<and> rrs \<noteq> [] \<and> length rrs < 65536"

lemma enc_rr_nonempty: "0 < length (enc_rr r)"
  by (cases r) simp_all

text \<open>The callbacks of lookups leave the table alone.\<close>

locale dns_clients =
  fixes report :: "'d \<Rightarrow> u32 \<Rightarrow> u32 \<Rightarrow> ('cb, 'e, 'd, 'z) dnsst_scheme \<Rightarrow> ('cb, 'e, 'd, 'z) dnsst_scheme"
  assumes keeps_requests: "dnsRequests (report cb r a s) = dnsRequests s"
begin

lemma fold_report:
  assumes "dns_callback (dnsRequests s ! i) = Some cb" "dns_ref (dnsRequests s ! i) = r"
  shows "fold (report_addr report i) as (Some s) = Some (fold (report cb r) as s)
    \<and> dnsRequests (fold (report cb r) as s) = dnsRequests s"
  using assms by (induction as arbitrary: s) (simp_all add: report_addr_def keeps_requests)

lemma response_reported:
  assumes f: "dns_response s rid ls rrs f" and i: "i < length (dnsRequests s)"
    "dnsRequests s ! i = \<lparr>dns_expire = e, requestId = ucast rid, dns_callback = Some cb, dns_ref = r\<rparr>"
    and other: "\<forall>j < i. dns_callback (dnsRequests s ! j) = None \<or> requestId (dnsRequests s ! j) \<noteq> ucast rid"
  shows "dns_processFrame report f (length f) s =
    (let t = fold (report cb r) (concat (map rr_addr rrs)) s
     in Some (t\<lparr>dnsRequests := (dnsRequests s)[i := (dnsRequests s ! i)\<lparr>dns_callback := None\<rparr>]\<rparr>))"
proof -
  let ?P = "\<lambda>q. dns_callback q \<noteq> None \<and> requestId q = ucast (get16 f dns_id)"
  have q0: "sits f dns_body (question ls)" "sits f (dns_body + length (question ls)) (concat (map enc_rr rrs))"
    using f unfolding dns_response_def sits_append by blast+
  then have q: "sits f dns_body (enc_labels ls @ [0])" unfolding question_def sits_append [of _ _ "enc_labels ls @ [0]"] by blast
  have fin: "length f = dns_body + length (question ls) + length (concat (map enc_rr rrs))"
    using f by (simp add: dns_response_def)
  have ql: "length (question ls) = length (enc_labels ls) + 5" by (simp add: question_def)
  obtain r1 rs where rrs: "rrs = r1 # rs" using f by (cases rrs) (auto simp: dns_response_def)
  then have pos: "0 < length (concat (map enc_rr rrs))" using enc_rr_nonempty [of r1] by simp
  have "skip_name f (length f) dns_body = Some (dns_body + length (enc_labels ls) + 1)"
    using f fin by (intro skip_name_labels [OF q]) (auto simp: dns_response_def ql)
  then have s1: "skip_questions f (length f) (Suc 0) dns_body = Some (dns_body + length (question ls))"
    by (simp add: ql)
  have s2: "dns_answers f (length f) (length rrs) (dns_body + length (question ls)) = Some (concat (map rr_addr rrs), True)"
    using f q0(2) fin by (intro dns_answers_rrs) (auto simp: dns_response_def)
  have id: "get16 f dns_id = rid" and qc: "unat (htons (get16 f dns_qcount)) = 1"
    and ac: "unat (htons (get16 f dns_ancount)) = length rrs"
    using f by (auto simp: dns_response_def unat_of_nat)
  have "first_slot ?P (dnsRequests s) = Some i"
  proof (cases "first_slot ?P (dnsRequests s)")
    case None
    then show ?thesis using i by (auto simp: first_slot_None id set_conv_nth)
  next
    case (Some k)
    from first_slot_Some [OF this] have k: "?P (dnsRequests s ! k)" "\<forall>j < k. \<not> ?P (dnsRequests s ! j)" by auto
    have "?P (dnsRequests s ! i)" using i(2) id by simp
    with k other have "k = i" unfolding id by (metis linorder_neqE_nat)
    with Some show ?thesis by simp
  qed
  moreover have "\<not> length f \<le> dns_body + length (question ls)" "\<not> length f < dns_body" using pos fin by simp_all
  moreover have "isMyMAC s (rd f eth_macDst 6) = 0" "get32 f ip4_dst = ipAddress s" "drop_bit 7 (get8 f dns_flags) = 1"
    "drop_bit 3 (get8 f dns_flags) AND 0xF = 0" using f by (auto simp: dns_response_def isMyMAC_def cmpMac_refl)
  moreover have "dns_callback (dnsRequests s ! i) = Some cb" "dns_ref (dnsRequests s ! i) = r" using i(2) by simp_all
  note fold_report [OF this, of "concat (map rr_addr rrs)"]
  ultimately show ?thesis
    by (simp add: dns_processFrame_def qc ac s1 s2 Let_def del: skip_questions.simps)
qed

end

text \<open>A lookup sends one query for the name, and stores its callback under the query's identifier.\<close>

lemma length_sendRequest_labels: "length (enc_labels ls) = sum_list (map (\<lambda>l. Suc (length l)) ls)"
  by (induction ls) (simp_all add: enc_labels_def)

text \<open>
  Which slots a lookup may take. Since the test passes over the slots whose time is over, a request that
  is never answered keeps its slot for ever, and a pending request is replaced by the next lookup.
\<close>

lemma lookup_keeps_expired:
  assumes "DNS_lookup now host cb r s = Some (v, t)" "i < length (dnsRequests s)"
    "dns_callback (dnsRequests s ! i) \<noteq> None" "sint (now - dns_expire (dnsRequests s ! i)) > 0"
  shows "dnsRequests t ! i = dnsRequests s ! i \<and> length (dnsRequests t) = length (dnsRequests s)"
proof -
  have u: "dnsRequests (DNS_updateMAC now s) = dnsRequests s"
    by (simp add: DNS_updateMAC_def ARP_request_def transmit_frame_def Let_def split: option.split)
  have sr: "sendRequest host rid x = Some y \<Longrightarrow> dnsRequests y = dnsRequests x" for rid and x y :: "('a, 'b dns_arp, 'c, 'd) dnsst_scheme"
    by (auto simp: sendRequest_def IPv4_init_def transmit_frame_def Let_def split: if_splits)
  show ?thesis
    using assms by (auto simp: DNS_lookup_def Let_def u lookup_slot_def nth_list_update split: if_splits option.splits
        dest!: sr first_slot_Some)
qed

lemma lookup_full:
  assumes "list_all (\<lambda>q. dns_callback q \<noteq> None \<and> sint (now - dns_expire q) > 0) (dnsRequests s)"
    "\<not> isNullMAC (dnsMAC s)" "now - lastArp s \<le> ARP_MAX_AGE"
  shows "DNS_lookup now host cb r s = Some (- 1, s)"
proof -
  have "first_slot (lookup_slot now) (dnsRequests s) = None"
    using assms(1) by (auto simp: first_slot_None list_all_iff lookup_slot_def)
  moreover have "\<not> now - lastArp s > ARP_MAX_AGE" using assms(3) by (simp add: not_less)
  ultimately show ?thesis using assms(2) by (simp add: DNS_lookup_def)
qed

section \<open>The server's address is resolved\<close>

text \<open>The ARP callbacks of the stack: that of this client, and those of the layers above.\<close>

definition dns_call :: "u32 \<Rightarrow> ('e \<Rightarrow> u32 \<Rightarrow> u32 \<Rightarrow> mac \<Rightarrow> ('cb, 'e dns_arp, 'd, 'z) dnsst_scheme \<Rightarrow> ('cb, 'e dns_arp, 'd, 'z) dnsst_scheme)
    \<Rightarrow> 'e dns_arp \<Rightarrow> u32 \<Rightarrow> u32 \<Rightarrow> mac \<Rightarrow> ('cb, 'e dns_arp, 'd, 'z) dnsst_scheme \<Rightarrow> ('cb, 'e dns_arp, 'd, 'z) dnsst_scheme" where
  "dns_call now other e r a m s =
     (case e of DnsArp \<Rightarrow> dns_callbackARP now a m s | OtherArp x \<Rightarrow> other x r a m s)"

lemma dns_call_keeps:
  assumes "\<And>x r a m s. \<not> isNullMAC m \<Longrightarrow> arpRequests (other x r a m s) = arpRequests s"
  shows "\<not> isNullMAC m \<Longrightarrow> arpRequests (dns_call now other e r a m s) = arpRequests s"
  using assms by (simp add: dns_call_def dns_callbackARP_def split: dns_arp.split)

locale other_clients =
  fixes other :: "'e \<Rightarrow> u32 \<Rightarrow> u32 \<Rightarrow> mac \<Rightarrow> ('cb, 'e dns_arp, 'd, 'z) dnsst_scheme \<Rightarrow> ('cb, 'e dns_arp, 'd, 'z) dnsst_scheme"
    and now :: u32
  assumes other_keeps: "\<not> isNullMAC m \<Longrightarrow> arpRequests (other x r a m s) = arpRequests s"

sublocale other_clients \<subseteq> arp_clients "dns_call now other"
  by unfold_locales (rule dns_call_keeps [OF other_keeps])

context other_clients begin

lemma server_resolved:
  assumes net: "IPv4_testSubnet (ipSubnet a) (ipAddress a) (ipDNS a) = 0" "ipDNS a = ipAddress b" "ipAddress b \<noteq> 0"
    and mac: "length (myMac a) = 6" "length (myMac b) = 6" "\<not> isNullMAC (myMac b)" "length (dnsMAC a) = 6"
    and table: "first_slot (\<lambda>q. remoteAddress q = 0) (arpRequests a) = Some i"
      "list_all (\<lambda>q. remoteAddress q \<noteq> ipDNS a) (arpRequests a)"
  shows "\<exists>q r. outbox (DNS_updateMAC now a) = outbox a @ [(q, 60)]
    \<and> ARP_process callb nowb (sent_by (myMac a) q) 60 b = transmit_frame r 60 b
    \<and> (let a' = ARP_process (dns_call now other) now (sent_by (myMac b) r) 60 (DNS_updateMAC now a)
       in dnsMAC a' = myMac b \<and> list_all (\<lambda>q. remoteAddress q \<noteq> ipDNS a) (arpRequests a'))"
proof -
  let ?q = "copyMAC (makeArpIp4 ARP_OP_REQUEST wildCard (ipAddress b) a) eth_macDst broadcastMAC"
  let ?Q = "\<lparr>expire = now + 5, remoteAddress = ipDNS a, callback = ArpClient DnsArp, ref = 0\<rparr>"
  define a1 where "a1 = DNS_updateMAC now a"
  have a1: "a1 = a\<lparr>lastArp := now, arpRequests := (arpRequests a)[i := ?Q], outbox := outbox a @ [(?q, 60)]\<rparr>"
    using net table(1) by (simp add: a1_def DNS_updateMAC_def ARP_request_def Let_def transmit_frame_def makeArpIp4_def)
  obtain r where r: "ARP_process callb nowb (sent_by (myMac a) ?q) 60 b = transmit_frame r 60 b"
    "arp_reply_to (sent_by (myMac b) r) a (ipAddress b) (myMac b)"
    using request_answered [OF mac(2) net(3) mac(1), of callb nowb] by blast
  have i: "i < length (arpRequests a)" using first_slot_Some [OF table(1)] by simp
  have t: "arpRequests a1 = (arpRequests a)[i := ?Q]" "arpRequests a1 ! i = ?Q" "i < length (arpRequests a1)"
    using i by (simp_all add: a1)
  have "arp_reply_to (sent_by (myMac b) r) a1 (ipAddress b) (myMac b)"
    using r(2) by (simp add: arp_reply_to_def a1)
  from ARP_process_reply [OF this net(3)]
  have "ARP_process (dns_call now other) now (sent_by (myMac b) r) 60 a1
    = fold (match_slot (dns_call now other) now (ipAddress b) (myMac b)) [0 ..< length (arpRequests a1)] a1" by simp
  also have "\<dots> = free_slot i (call_arp (dns_call now other) now (arpRequests a1 ! i) (myMac b) a1)"
  proof (rule fold_match_one [OF t(3)])
    show "remoteAddress (arpRequests a1 ! j) \<noteq> ipAddress b" if "j < length (arpRequests a1)" "j \<noteq> i" for j
      using that table(2) net(2) by (simp add: t(1) list_all_length)
  qed (use t(2) net mac in simp_all)
  also have "\<dots> = free_slot i (a1\<lparr>dnsMAC := myMac b\<rparr>)"
  proof -
    have "dnsMAC a1 = dnsMAC a" "ipDNS a1 = ipDNS a" by (simp_all add: a1)
    then show ?thesis unfolding t(2) using mac net
      by (simp add: call_arp_def dns_call_def dns_callbackARP_def copyMAC_def rd_whole wr_whole)
  qed
  finally have "ARP_process (dns_call now other) now (sent_by (myMac b) r) 60 a1 = free_slot i (a1\<lparr>dnsMAC := myMac b\<rparr>)" .
  moreover have "list_all (\<lambda>q. remoteAddress q \<noteq> ipDNS a) (arpRequests (free_slot i (a1\<lparr>dnsMAC := myMac b\<rparr>)))"
    using table(2) i net by (auto simp: free_slot_def t list_all_length nth_list_update)
  ultimately show ?thesis
    using r(1) by (intro exI [of _ ?q] exI [of _ r]) (simp add: a1_def [symmetric] Let_def free_slot_def, simp add: a1)
qed

end

end
