(* ===== verification/Dhcp.thy ===== *)
theory Dhcp
  imports Dns
begin

unbundle bit_operations_syntax

text \<open>
  The DHCP client (lib/net/dhcp.cpp): the lease timer, discovery and renewal, and the handler of offers
  and acknowledgements with its option parser. The offsets of options are positions in the received frame.
  The device's unique identifier is an argument of the initialisation, \<open>now\<close> is the reading of the
  monotonic seconds during an event.
\<close>

abbreviation (input) DHCP_PORT_SRV :: u16 where "DHCP_PORT_SRV \<equiv> 67"
abbreviation (input) DHCP_PORT_CLI :: u16 where "DHCP_PORT_CLI \<equiv> 68"
abbreviation (input) DHCP_MAGIC :: u32 where "DHCP_MAGIC \<equiv> 0x63538263"
abbreviation (input) REATTEMPT_INTVL :: u32 where "REATTEMPT_INTVL \<equiv> 10"

abbreviation (input) dhcp_OP :: nat where "dhcp_OP \<equiv> 42"
abbreviation (input) dhcp_HTYPE :: nat where "dhcp_HTYPE \<equiv> 43"
abbreviation (input) dhcp_HLEN :: nat where "dhcp_HLEN \<equiv> 44"
abbreviation (input) dhcp_XID :: nat where "dhcp_XID \<equiv> 46"
abbreviation (input) dhcp_CIADDR :: nat where "dhcp_CIADDR \<equiv> 54"
abbreviation (input) dhcp_YIADDR :: nat where "dhcp_YIADDR \<equiv> 58"
abbreviation (input) dhcp_SIADDR :: nat where "dhcp_SIADDR \<equiv> 62"
abbreviation (input) dhcp_CHADDR :: nat where "dhcp_CHADDR \<equiv> 70"
abbreviation (input) dhcp_MAGIC :: nat where "dhcp_MAGIC \<equiv> 278"
abbreviation (input) dhcp_options :: nat where "dhcp_options \<equiv> 282"

record ('cb, 'e, 'd) dhcpst = "('cb, 'e, 'd) dnsst" +
  dhcpUUID :: u32
  dhcpXID :: u32
  dhcpLeaseExpire :: u32
  hostname :: bytes
  ntpAddr :: "u32 list"
  ntpLen :: nat

definition DHCP_OPT_DISCOVER :: bytes where "DHCP_OPT_DISCOVER = [53, 1, 1, 0]"
definition DHCP_OPT_REQUEST :: bytes where "DHCP_OPT_REQUEST = [53, 1, 3, 0]"
definition DHCP_OPT_PARAM_REQ :: bytes where "DHCP_OPT_PARAM_REQ = [55, 4, 1, 3, 6, 42]"

definition pad_opts :: "bytes \<Rightarrow> bytes" where
  "pad_opts f = (if odd (length f) then f @ [0] else f)"

definition initPacket :: "('cb, 'e, 'd, 'z) dhcpst_scheme \<Rightarrow> bytes \<times> ('cb, 'e, 'd, 'z) dhcpst_scheme" where
  "initPacket s =
     (let f = replicate dhcp_options 0;
          f = copyMAC f eth_macDst broadcastMAC;
          (f, s) = IPv4_init f s;
          f = put32 f ip4_dst 0xFFFFFFFF;
          f = put8 f ip4_proto IP_PROTO_UDP;
          f = put16 f udp_portSrc (htons DHCP_PORT_CLI);
          f = put16 f udp_portDst (htons DHCP_PORT_SRV);
          f = put8 f dhcp_OP 1;
          f = put8 f dhcp_HTYPE 1;
          f = put8 f dhcp_HLEN 6;
          f = put32 f dhcp_XID (dhcpXID s);
          f = copyMAC f dhcp_CHADDR (myMac s);
          f = put32 f dhcp_MAGIC DHCP_MAGIC
      in (f, s))"

definition send_dhcp :: "bytes \<Rightarrow> ('cb, 'e, 'd, 'z) dhcpst_scheme \<Rightarrow> ('cb, 'e, 'd, 'z) dhcpst_scheme" where
  "send_dhcp f s = (let flen = length f in transmit_frame (IPv4_finalize (UDP_finalize f flen) flen) flen s)"

definition hostname_opt :: "('cb, 'e, 'd, 'z) dhcpst_scheme \<Rightarrow> bytes" where
  "hostname_opt s = [12, of_nat (length (hostname s))] @ hostname s"

definition DHCP_renew :: "u32 \<Rightarrow> ('cb, 'e, 'd, 'z) dhcpst_scheme \<Rightarrow> ('cb, 'e, 'd, 'z) dhcpst_scheme" where
  "DHCP_renew now s =
     (let s = s\<lparr>dhcpXID := dhcpUUID s + now\<rparr>;
          (f, s) = initPacket s
      in if ipAddress s = 0 then
           let f = f @ DHCP_OPT_DISCOVER;
               f = f @ DHCP_OPT_PARAM_REQ;
               f = pad_opts (f @ hostname_opt s);
               f = pad_opts (f @ [0xFF])
           in send_dhcp f s
         else
           let f = put32 f ip4_src (ipAddress s);
               f = put32 f dhcp_CIADDR (ipAddress s);
               f = f @ DHCP_OPT_REQUEST;
               f = f @ DHCP_OPT_PARAM_REQ;
               f = pad_opts (f @ [0xFF])
           in send_dhcp f s)"

definition sendReply :: "bytes \<Rightarrow> ('cb, 'e, 'd, 'z) dhcpst_scheme \<Rightarrow> ('cb, 'e, 'd, 'z) dhcpst_scheme" where
  "sendReply response s =
     (let (f, s) = initPacket s;
          f = put32 f dhcp_CIADDR (get32 response dhcp_YIADDR);
          f = put32 f dhcp_SIADDR (get32 response dhcp_SIADDR);
          f = f @ DHCP_OPT_REQUEST;
          f = f @ DHCP_OPT_PARAM_REQ;
          f = pad_opts (f @ hostname_opt s);
          f = f @ [50, 4] @ enc32 (get32 response dhcp_YIADDR);
          f = f @ [54, 4] @ enc32 (get32 response dhcp_SIADDR);
          f = pad_opts (f @ [0xFF])
      in send_dhcp f s)"

definition dhcpRun :: "u32 \<Rightarrow> bool \<Rightarrow> ('cb, 'e, 'd, 'z) dhcpst_scheme \<Rightarrow> ('cb, 'e, 'd, 'z) dhcpst_scheme" where
  "dhcpRun now link s =
     (if \<not> link then s
      else if sint (now - dhcpLeaseExpire s) \<ge> 0
      then DHCP_renew now (s\<lparr>dhcpLeaseExpire := dhcpLeaseExpire s + REATTEMPT_INTVL\<rparr>)
      else s)"

text \<open>\<open>uniqueid\<close> are the four words of the device's identifier.\<close>

definition DHCP_init :: "u32 list \<Rightarrow> 'cb \<Rightarrow> ('cb, 'e, 'd, 'z) dhcpst_scheme \<Rightarrow> ('cb, 'e, 'd, 'z) dhcpst_scheme" where
  "DHCP_init uniqueid cb s =
     (let uuid = fold (+) uniqueid 0;
          digits = map (\<lambda>i. ascii ''0123456789abcdef'' ! unat (drop_bit (i * 4) uuid AND 0xF)) [0 ..< 4];
          s = s\<lparr>dhcpUUID := uuid, hostname := ascii ''gpsdo-'' @ digits\<rparr>
      in snd (UDP_register DHCP_PORT_CLI cb s))"

definition DHCP_expires :: "u32 \<Rightarrow> ('cb, 'e, 'd, 'z) dhcpst_scheme \<Rightarrow> u32" where
  "DHCP_expires now s = dhcpLeaseExpire s - now"

section \<open>Options\<close>

record dhcp_opts =
  optSubnet :: u32
  optDHCP :: u32
  optLease :: u32
  optMsgType :: u8
  optDns :: "(nat \<times> nat) option"
  optRouter :: "(nat \<times> nat) option"
  optNtp :: "(nat \<times> nat) option"

text \<open>One option: its key, the position and the length of its value.\<close>

definition dhcp_option :: "bytes \<Rightarrow> u8 \<Rightarrow> nat \<Rightarrow> nat \<Rightarrow> dhcp_opts \<Rightarrow> dhcp_opts" where
  "dhcp_option f key ptr len opts =
     (let opts = (if key = 1 \<and> len = 4 then opts\<lparr>optSubnet := get32 f ptr\<rparr> else opts);
          opts = (if key = 3 \<and> len mod 4 = 0 then opts\<lparr>optRouter := Some (ptr, len)\<rparr> else opts);
          opts = (if key = 6 \<and> len mod 4 = 0 then opts\<lparr>optDns := Some (ptr, len)\<rparr> else opts);
          opts = (if key = 42 \<and> len mod 4 = 0 then opts\<lparr>optNtp := Some (ptr, len)\<rparr> else opts);
          opts = (if key = 51 \<and> len = 4
                  then opts\<lparr>optLease := dec32 [f ! (ptr + 3), f ! (ptr + 2), f ! (ptr + 1), f ! ptr]\<rparr> else opts);
          opts = (if key = 53 then opts\<lparr>optMsgType := f ! ptr\<rparr> else opts)
      in if key = 54 \<and> len = 4 then opts\<lparr>optDHCP := get32 f ptr\<rparr> else opts)"

function parse_opts :: "bytes \<Rightarrow> nat \<Rightarrow> nat \<Rightarrow> dhcp_opts \<Rightarrow> dhcp_opts" where
  "parse_opts f fin ptr opts =
     (if ptr + 1 < fin then
        let key = f ! ptr in
        if key = 0xFF then opts
        else if key = 0 then parse_opts f fin (ptr + 1) opts
        else let len = unat (f ! (ptr + 1)) in
          if ptr + 2 + len \<ge> fin then opts
          else parse_opts f fin (ptr + 2 + len) (dhcp_option f key (ptr + 2) len opts)
      else opts)"
  by pat_completeness auto
termination by (relation "measure (\<lambda>(f, fin, ptr, opts). fin - ptr)") auto

declare parse_opts.simps [simp del]

text \<open>The addresses of an option.\<close>

definition opt_addrs :: "bytes \<Rightarrow> (nat \<times> nat) option \<Rightarrow> u32 list" where
  "opt_addrs f v = (case v of None \<Rightarrow> [] | Some (ptr, len) \<Rightarrow> map (\<lambda>k. get32 f (ptr + 4 * k)) [0 ..< len div 4])"

section \<open>Received frames\<close>

definition lease_time :: "u32 \<Rightarrow> u32 \<Rightarrow> u32" where
  "lease_time lease now =
     (let t = lease;
          t = t - lease div 10;
          t = (if t > 86400 then 86400 else t)
      in t + now)"

definition ack_address :: "bytes \<Rightarrow> dhcp_opts \<Rightarrow> ('cb, 'e dns_arp, 'd, 'z) dhcpst_scheme
    \<Rightarrow> ('cb, 'e dns_arp, 'd, 'z) dhcpst_scheme" where
  "ack_address f opts s =
     (let s = s\<lparr>ipAddress := get32 f dhcp_YIADDR, ipSubnet := optSubnet opts\<rparr>
      in s\<lparr>ipBroadcast := ipAddress s OR NOT (ipSubnet s)\<rparr>)"

definition ack_router :: "u32 \<Rightarrow> bytes \<Rightarrow> dhcp_opts \<Rightarrow> ('cb, 'e dns_arp, 'd, 'z) dhcpst_scheme
    \<Rightarrow> ('cb, 'e dns_arp, 'd, 'z) dhcpst_scheme" where
  "ack_router now f opts s =
     (case find (\<lambda>addr. IPv4_testSubnet (ipSubnet s) (ipAddress s) addr = 0) (opt_addrs f (optRouter opts)) of
        None \<Rightarrow> s
      | Some addr \<Rightarrow> ARP_refreshRouter now (s\<lparr>ipRouter := addr\<rparr>))"

definition ack_dns :: "u32 \<Rightarrow> bytes \<Rightarrow> dhcp_opts \<Rightarrow> ('cb, 'e dns_arp, 'd, 'z) dhcpst_scheme
    \<Rightarrow> ('cb, 'e dns_arp, 'd, 'z) dhcpst_scheme" where
  "ack_dns now f opts s =
     (case find (\<lambda>addr. addr \<noteq> 0) (opt_addrs f (optDns opts)) of
        None \<Rightarrow> s
      | Some addr \<Rightarrow> DNS_updateMAC now (s\<lparr>ipDNS := addr\<rparr>))"

definition ack_ntp :: "bytes \<Rightarrow> dhcp_opts \<Rightarrow> ('cb, 'e dns_arp, 'd, 'z) dhcpst_scheme
    \<Rightarrow> ('cb, 'e dns_arp, 'd, 'z) dhcpst_scheme" where
  "ack_ntp f opts s =
     (case optNtp opts of
        None \<Rightarrow> s
      | Some (ptr, len) \<Rightarrow>
          let len = (if len > 32 then 32 else len);
              as = opt_addrs f (Some (ptr, len))
          in s\<lparr>ntpAddr := as @ drop (length as) (ntpAddr s), ntpLen := len div 4\<rparr>)"

definition dhcp_ack :: "u32 \<Rightarrow> bytes \<Rightarrow> dhcp_opts \<Rightarrow> ('cb, 'e dns_arp, 'd, 'z) dhcpst_scheme
    \<Rightarrow> ('cb, 'e dns_arp, 'd, 'z) dhcpst_scheme" where
  "dhcp_ack now f opts s =
     (let s = ack_address f opts s;
          s = ack_router now f opts s;
          s = ack_dns now f opts s;
          s = ack_ntp f opts s
      in s\<lparr>dhcpLeaseExpire := lease_time (optLease opts) now\<rparr>)"

definition dhcp_processFrame :: "u32 \<Rightarrow> bytes \<Rightarrow> nat \<Rightarrow> ('cb, 'e dns_arp, 'd, 'z) dhcpst_scheme
    \<Rightarrow> ('cb, 'e dns_arp, 'd, 'z) dhcpst_scheme" where
  "dhcp_processFrame now f flen s =
     (if flen < 282 then s
      else if isMyMAC s (rd f eth_macDst 6) \<noteq> 0 then s
      else if get16 f udp_portSrc \<noteq> htons DHCP_PORT_SRV then s
      else if get8 f dhcp_OP \<noteq> 2 then s
      else if get8 f dhcp_HTYPE \<noteq> 1 then s
      else if get8 f dhcp_HLEN \<noteq> 6 then s
      else if get32 f dhcp_MAGIC \<noteq> DHCP_MAGIC then s
      else if get32 f dhcp_XID \<noteq> dhcpXID s then s
      else let opts = parse_opts f flen dhcp_options
                 \<lparr>optSubnet = ipSubnet s, optDHCP = 0, optLease = 0, optMsgType = 0, optDns = None,
                  optRouter = None, optNtp = None\<rparr>
        in if optMsgType opts = 2 then sendReply f s
           else if optMsgType opts = 5 then dhcp_ack now f opts s
           else s)"

section \<open>What the options say\<close>

text \<open>
  The options as their sender lists them, and what a client learns from them: an abstract record
  without positions in a frame.
\<close>

datatype dhcp_opt = OptPad | Opt u8 bytes

fun enc_opt :: "dhcp_opt \<Rightarrow> bytes" where
  "enc_opt OptPad = [0]"
| "enc_opt (Opt k v) = k # of_nat (length v) # v"

fun opt_ok :: "dhcp_opt \<Rightarrow> bool" where
  "opt_ok OptPad = True"
| "opt_ok (Opt k v) = (k \<noteq> 0 \<and> k \<noteq> 0xFF \<and> length v < 256 \<and> (k = 53 \<longrightarrow> v \<noteq> []))"

definition words :: "bytes \<Rightarrow> u32 list" where
  "words v = map (\<lambda>k. get32 v (4 * k)) [0 ..< length v div 4]"

record offer =
  mask :: u32
  server :: u32
  lease :: u32
  msgType :: u8
  dnsServers :: "u32 list"
  routers :: "u32 list"
  ntpServers :: "u32 list option"

fun learn :: "dhcp_opt \<Rightarrow> offer \<Rightarrow> offer" where
  "learn OptPad a = a"
| "learn (Opt k v) a =
     (if k = 1 \<and> length v = 4 then a\<lparr>mask := dec32 v\<rparr>
      else if k = 3 \<and> length v mod 4 = 0 then a\<lparr>routers := words v\<rparr>
      else if k = 6 \<and> length v mod 4 = 0 then a\<lparr>dnsServers := words v\<rparr>
      else if k = 42 \<and> length v mod 4 = 0 then a\<lparr>ntpServers := Some (words v)\<rparr>
      else if k = 51 \<and> length v = 4 then a\<lparr>lease := dec32 (rev v)\<rparr>
      else if k = 53 then a\<lparr>msgType := hd v\<rparr>
      else if k = 54 \<and> length v = 4 then a\<lparr>server := dec32 v\<rparr>
      else a)"

definition abs_opts :: "bytes \<Rightarrow> dhcp_opts \<Rightarrow> offer" where
  "abs_opts f o1 = \<lparr>mask = optSubnet o1, server = optDHCP o1, lease = optLease o1, msgType = optMsgType o1,
     dnsServers = opt_addrs f (optDns o1), routers = opt_addrs f (optRouter o1),
     ntpServers = map_option (\<lambda>v. opt_addrs f (Some v)) (optNtp o1)\<rparr>"

lemma sits_get32: "sits f i v \<Longrightarrow> j + 4 \<le> length v \<Longrightarrow> get32 f (i + j) = get32 v j"
  using rd_rd [of j 4 "length v" f i] by (simp add: sits_def get32_def)

lemma sits_addrs: "sits f i v \<Longrightarrow> opt_addrs f (Some (i, length v)) = words v"
proof -
  assume v: "sits f i v"
  have "get32 f (i + 4 * k) = get32 v (4 * k)" if "k < length v div 4" for k
    using that by (intro sits_get32 [OF v]) linarith
  then show ?thesis by (simp add: opt_addrs_def words_def)
qed

lemma dhcp_option_learn:
  assumes v: "sits f i v" and k: "opt_ok (Opt k v)"
  shows "abs_opts f (dhcp_option f k i (length v) o1) = learn (Opt k v) (abs_opts f o1)"
proof -
  have four: "length v = 4 \<Longrightarrow> get32 f i = dec32 v"
    using v by (simp add: sits_def get32_def)
  have rev4: "length v = 4 \<Longrightarrow> [f ! (i + 3), f ! (i + 2), f ! (i + 1), f ! i] = rev v"
  proof -
    assume "length v = 4"
    then obtain a b c d where w: "v = [a, b, c, d]" by (auto simp: length_Suc_conv eval_nat_numeral)
    with v show ?thesis by (simp add: sits_Cons eval_nat_numeral)
  qed
  have one: "v \<noteq> [] \<Longrightarrow> f ! i = hd v" using v by (cases v) (auto simp: sits_Cons)
  show ?thesis
    using k four rev4 one sits_addrs [OF v]
    by (auto simp: dhcp_option_def abs_opts_def Let_def)
qed

lemma parse_opts_learn:
  assumes "sits f i (concat (map enc_opt os) @ [0xFF])" "list_all opt_ok os"
    "i + length (concat (map enc_opt os)) < fin"
  shows "abs_opts f (parse_opts f fin i o1) = fold learn os (abs_opts f o1)"
  using assms
proof (induction os arbitrary: i o1)
  case Nil
  then show ?case by (subst parse_opts.simps) (auto simp: sits_Cons)
next
  case (Cons x os)
  show ?case
  proof (cases x)
    case OptPad
    then have p: "f ! i = 0" "sits f (i + 1) (concat (map enc_opt os) @ [0xFF])"
      using Cons.prems(1) by (simp_all add: sits_Cons)
    have "i + 1 < fin" using Cons.prems(3) by (simp add: OptPad)
    with p Cons.IH [OF p(2)] Cons.prems show ?thesis
      by (subst parse_opts.simps) (simp add: OptPad)
  next
    case (Opt k v)
    have ok: "opt_ok (Opt k v)" using Cons.prems(2) by (simp add: Opt)
    then have u: "unat (of_nat (length v) :: u8) = length v" by (simp add: unat_of_nat)
    have "sits f i (k # of_nat (length v) # v @ concat (map enc_opt os) @ [0xFF])"
      using Cons.prems(1) by (simp add: Opt)
    then have p: "f ! i = k" "f ! (i + 1) = of_nat (length v)" "sits f (i + 2) v"
      "sits f (i + 2 + length v) (concat (map enc_opt os) @ [0xFF])"
      by (auto simp: sits_Cons sits_append)
    have fin: "i + 1 < fin" "\<not> fin \<le> i + 2 + length v" "i + 2 + length v + length (concat (map enc_opt os)) < fin"
      using Cons.prems(3) by (simp_all add: Opt)
    let ?o = "dhcp_option f k (i + 2) (length v) o1"
    have "parse_opts f fin i o1 = parse_opts f fin (i + 2 + length v) ?o"
      using ok fin by (subst parse_opts.simps) (simp add: p(1) p(2) [simplified] u Let_def)
    moreover have "abs_opts f (parse_opts f fin (i + 2 + length v) ?o) = fold learn os (abs_opts f ?o)"
      using Cons.prems(2) by (intro Cons.IH [OF p(4) _ fin(3)]) simp
    ultimately show ?thesis using dhcp_option_learn [OF p(3) ok] by (simp add: Opt)
  qed
qed

section \<open>The lease\<close>

text \<open>Requests for hardware addresses change none of the configuration.\<close>

definition ip_config :: "('cb, 'e, 'd, 'z) dhcpst_scheme \<Rightarrow> (mac \<times> u32 \<times> u32 \<times> u32 \<times> u32 \<times> u32) \<times> u32 list \<times> nat \<times> u32" where
  "ip_config s = ((myMac s, ipAddress s, ipSubnet s, ipBroadcast s, ipRouter s, ipDNS s), ntpAddr s, ntpLen s, dhcpXID s)"

lemma ARP_request_config: "ip_config (snd (ARP_request now a cb r s)) = ip_config s"
  by (simp add: ARP_request_def transmit_frame_def ip_config_def Let_def split: option.split)

lemma refresh_config:
  "ip_config (ARP_refreshRouter now s) = ip_config s" "ip_config (DNS_updateMAC now s) = ip_config s"
proof -
  have k: "ip_config (s\<lparr>lastRouterPoll := now\<rparr>) = ip_config s" "ip_config (s\<lparr>lastArp := now\<rparr>) = ip_config s"
    "ip_config (t\<lparr>dnsMAC := m\<rparr>) = ip_config t" for t :: "('a, 'b dns_arp, 'c, 'd) dhcpst_scheme" and m
    by (simp_all add: ip_config_def)
  then show "ip_config (ARP_refreshRouter now s) = ip_config s" "ip_config (DNS_updateMAC now s) = ip_config s"
    by (simp_all add: ARP_refreshRouter_def DNS_updateMAC_def ARP_request_config Let_def)
qed

lemma words_append: "opt_addrs f (Some (i, if 32 < n then 32 else n)) = take 8 (opt_addrs f (Some (i, n)))"
proof -
  have "(if 32 < n then 32 else n) div 4 = min 8 (n div 4)" by (auto simp: min_def)
  then show ?thesis by (auto simp: opt_addrs_def take_map min_def)
qed

definition router_of :: "u32 \<Rightarrow> u32 \<Rightarrow> u32 list \<Rightarrow> u32 \<Rightarrow> u32" where
  "router_of nm ip rs old = (case find (\<lambda>x. IPv4_testSubnet nm ip x = 0) rs of None \<Rightarrow> old | Some x \<Rightarrow> x)"

definition dns_of :: "u32 list \<Rightarrow> u32 \<Rightarrow> u32" where
  "dns_of ds old = (case find (\<lambda>x. x \<noteq> 0) ds of None \<Rightarrow> old | Some x \<Rightarrow> x)"

definition ntp_of :: "u32 list option \<Rightarrow> u32 list \<Rightarrow> nat \<Rightarrow> u32 list \<times> nat" where
  "ntp_of l old n = (case l of None \<Rightarrow> (old, n) | Some l \<Rightarrow> (take 8 l @ drop (length (take 8 l)) old, length (take 8 l)))"

lemma ack_configs:
  "ip_config (ack_router now f opts s) = ip_config (s\<lparr>ipRouter :=
     router_of (ipSubnet s) (ipAddress s) (opt_addrs f (optRouter opts)) (ipRouter s)\<rparr>)"
  "ip_config (ack_dns now f opts s) = ip_config (s\<lparr>ipDNS := dns_of (opt_addrs f (optDns opts)) (ipDNS s)\<rparr>)"
  by (simp_all add: ack_router_def ack_dns_def refresh_config router_of_def dns_of_def split: option.split)

lemma ack_ntp_config:
  assumes "\<forall>v. optNtp opts = Some v \<longrightarrow> snd v mod 4 = 0"
  shows "ip_config (ack_ntp f opts s)
    = (let (as, n) = ntp_of (map_option (\<lambda>v. opt_addrs f (Some v)) (optNtp opts)) (ntpAddr s) (ntpLen s)
       in ip_config (s\<lparr>ntpAddr := as, ntpLen := n\<rparr>))"
proof (cases "optNtp opts")
  case (Some v)
  obtain i n where v: "v = (i, n)" by (cases v)
  have "n mod 4 = 0" using assms Some by (auto simp: v)
  then have "(if 32 < n then 32 else n) div 4 = length (take 8 (opt_addrs f (Some (i, n))))"
    by (auto simp: opt_addrs_def min_def)
  then show ?thesis by (simp add: ack_ntp_def Some v words_append Let_def ntp_of_def)
qed (simp add: ack_ntp_def ip_config_def ntp_of_def)

lemma dhcp_ack_config:
  assumes "\<forall>v. optNtp opts = Some v \<longrightarrow> snd v mod 4 = 0"
  shows "ip_config (dhcp_ack now f opts s) =
    (let ip = get32 f dhcp_YIADDR; i = abs_opts f opts; (as, n) = ntp_of (ntpServers i) (ntpAddr s) (ntpLen s)
     in ((myMac s, ip, mask i, ip OR NOT (mask i), router_of (mask i) ip (routers i) (ipRouter s),
          dns_of (dnsServers i) (ipDNS s)), as, n, dhcpXID s))"
    and "dhcpLeaseExpire (dhcp_ack now f opts s) = lease_time (lease (abs_opts f opts)) now"
proof -
  define s1 where "s1 = ack_address f opts s"
  define s2 where "s2 = ack_router now f opts s1"
  define s3 where "s3 = ack_dns now f opts s2"
  have c1: "ip_config s1 = ((myMac s, get32 f dhcp_YIADDR, optSubnet opts, get32 f dhcp_YIADDR OR NOT (optSubnet opts),
      ipRouter s, ipDNS s), ntpAddr s, ntpLen s, dhcpXID s)"
    by (simp add: s1_def ack_address_def ip_config_def Let_def)
  have c2: "ip_config s2 = ip_config (s1\<lparr>ipRouter :=
     router_of (ipSubnet s1) (ipAddress s1) (opt_addrs f (optRouter opts)) (ipRouter s1)\<rparr>)"
    unfolding s2_def by (rule ack_configs)
  have c3: "ip_config s3 = ip_config (s2\<lparr>ipDNS := dns_of (opt_addrs f (optDns opts)) (ipDNS s2)\<rparr>)"
    unfolding s3_def by (rule ack_configs)
  have e: "dhcp_ack now f opts s = (ack_ntp f opts s3)\<lparr>dhcpLeaseExpire := lease_time (optLease opts) now\<rparr>"
    by (simp only: dhcp_ack_def Let_def s3_def s2_def s1_def)
  then show "dhcpLeaseExpire (dhcp_ack now f opts s) = lease_time (lease (abs_opts f opts)) now" by (simp add: abs_opts_def)
  have "ip_config (dhcp_ack now f opts s) = ip_config (ack_ntp f opts s3)" by (simp add: e ip_config_def)
  also have "\<dots> = (let (as, n) = ntp_of (map_option (\<lambda>v. opt_addrs f (Some v)) (optNtp opts)) (ntpAddr s3) (ntpLen s3)
       in ip_config (s3\<lparr>ntpAddr := as, ntpLen := n\<rparr>))" by (rule ack_ntp_config [OF assms])
  finally show "ip_config (dhcp_ack now f opts s) =
    (let ip = get32 f dhcp_YIADDR; i = abs_opts f opts; (as, n) = ntp_of (ntpServers i) (ntpAddr s) (ntpLen s)
     in ((myMac s, ip, mask i, ip OR NOT (mask i), router_of (mask i) ip (routers i) (ipRouter s),
          dns_of (dnsServers i) (ipDNS s)), as, n, dhcpXID s))"
    using c1 c2 c3 by (simp add: ip_config_def abs_opts_def Let_def split_def)
qed

lemma parse_opts_ntp:
  "\<forall>v. optNtp o1 = Some v \<longrightarrow> snd v mod 4 = 0 \<Longrightarrow> \<forall>v. optNtp (parse_opts f fin i o1) = Some v \<longrightarrow> snd v mod 4 = 0"
proof (induction f fin i o1 rule: parse_opts.induct)
  case (1 f fin i o1)
  let ?k = "f ! i" and ?n = "unat (f ! (i + 1))"
  have o: "\<forall>v. optNtp (dhcp_option f ?k (i + 2) ?n o1) = Some v \<longrightarrow> snd v mod 4 = 0"
    using "1.prems" by (auto simp: dhcp_option_def Let_def)
  show ?case
  proof (cases "i + 1 < fin \<and> ?k \<noteq> 0xFF")
    case True
    then show ?thesis
      using "1.IH" "1.prems" o by (subst parse_opts.simps) (simp add: Let_def)
  next
    case False
    then show ?thesis using "1.prems" by (subst parse_opts.simps) auto
  qed
qed

text \<open>A message of a DHCP server to this host for its current transaction.\<close>

definition from_server :: "('cb, 'e, 'd, 'z) dhcpst_scheme \<Rightarrow> dhcp_opt list \<Rightarrow> bytes \<Rightarrow> bool" where
  "from_server s os f \<longleftrightarrow> rd f eth_macDst 6 = myMac s \<and> get16 f udp_portSrc = htons DHCP_PORT_SRV
     \<and> get8 f dhcp_OP = 2 \<and> get8 f dhcp_HTYPE = 1 \<and> get8 f dhcp_HLEN = 6 \<and> get32 f dhcp_MAGIC = DHCP_MAGIC
     \<and> get32 f dhcp_XID = dhcpXID s \<and> sits f dhcp_options (concat (map enc_opt os) @ [0xFF]) \<and> list_all opt_ok os"

definition no_offer :: "u32 \<Rightarrow> offer" where
  "no_offer nm = \<lparr>mask = nm, server = 0, lease = 0, msgType = 0, dnsServers = [], routers = [], ntpServers = None\<rparr>"

lemma from_server_process:
  assumes "from_server s os f"
  shows "\<exists>opts. dhcp_processFrame now f (length f) s = (if optMsgType opts = 2 then sendReply f s
        else if optMsgType opts = 5 then dhcp_ack now f opts s else s)
    \<and> abs_opts f opts = fold learn os (no_offer (ipSubnet s)) \<and> (\<forall>v. optNtp opts = Some v \<longrightarrow> snd v mod 4 = 0)"
proof -
  let ?o = "\<lparr>optSubnet = ipSubnet s, optDHCP = 0, optLease = 0, optMsgType = 0, optDns = None, optRouter = None, optNtp = None\<rparr>"
  let ?p = "parse_opts f (length f) dhcp_options ?o"
  have l: "dhcp_options + length (concat (map enc_opt os)) < length f"
    using assms unfolding from_server_def sits_def by (auto simp: less_eq_Suc_le)
  then have "abs_opts f ?p = fold learn os (abs_opts f ?o)"
    using assms by (intro parse_opts_learn) (auto simp: from_server_def)
  moreover have "abs_opts f ?o = no_offer (ipSubnet s)" by (simp add: abs_opts_def no_offer_def opt_addrs_def)
  moreover have "\<forall>v. optNtp ?p = Some v \<longrightarrow> snd v mod 4 = 0" by (rule parse_opts_ntp) simp
  moreover have "dhcp_processFrame now f (length f) s = (if optMsgType ?p = 2 then sendReply f s
        else if optMsgType ?p = 5 then dhcp_ack now f ?p s else s)"
    using assms l by (simp add: dhcp_processFrame_def from_server_def isMyMAC_def cmpMac_refl Let_def)
  ultimately show ?thesis by metis
qed

lemma lease_time_early:
  "unat (lease_time l now - now) = min 86400 (unat l - unat l div 10)"
proof -
  have d: "unat (l div 10) = unat l div 10" by (simp add: unat_div)
  then have "l div 10 \<le> l" by (simp add: word_le_nat_alt)
  then have s: "unat (l - l div 10) = unat l - unat l div 10" by (simp add: unat_sub d)
  have "lease_time l now - now = (if l - l div 10 > 86400 then 86400 else l - l div 10)"
    by (simp add: lease_time_def Let_def)
  then show ?thesis by (simp add: s word_less_nat_alt min_def)
qed

section \<open>The request for an offered lease\<close>

lemma initPacket_fields:
  assumes "length (myMac s) = 6" "initPacket s = (f, s')"
  shows "length f = dhcp_options" "get32 f dhcp_XID = dhcpXID s" "rd f eth_macDst 6 = broadcastMAC"
    "get32 f ip4_dst = 0xFFFFFFFF" "get16 f udp_portDst = htons DHCP_PORT_SRV" "get8 f dhcp_OP = 1"
    "get32 f dhcp_MAGIC = DHCP_MAGIC" "s' = s\<lparr>ipID := ipID s + 1\<rparr>"
proof -
  have "length broadcastMAC = 6" by (simp add: broadcastMAC_def)
  with assms show "length f = dhcp_options" "get32 f dhcp_XID = dhcpXID s" "rd f eth_macDst 6 = broadcastMAC"
    "get32 f ip4_dst = 0xFFFFFFFF" "get16 f udp_portDst = htons DHCP_PORT_SRV" "get8 f dhcp_OP = 1"
    "get32 f dhcp_MAGIC = DHCP_MAGIC" "s' = s\<lparr>ipID := ipID s + 1\<rparr>"
    by (auto simp: initPacket_def IPv4_init_def Let_def copyMAC_def buf_simps length_rd rd_whole)
qed

definition request_opts :: "bytes \<Rightarrow> u32 \<Rightarrow> u32 \<Rightarrow> dhcp_opt list" where
  "request_opts host yiaddr siaddr =
     [Opt 53 [3], OptPad, Opt 55 [1, 3, 6, 42], Opt 12 host, Opt 50 (enc32 yiaddr), Opt 54 (enc32 siaddr)]"

lemma sealed_sits: "sits f i bs \<Longrightarrow> 42 \<le> i \<Longrightarrow> length f \<le> 65535 \<Longrightarrow> sits (sealed f) i bs"
  by (auto simp: sits_def sealed_rd sealed_ok)

lemma send_dhcp_sealed: "send_dhcp f s = s\<lparr>outbox := outbox s @ [(sealed f, length f)]\<rparr>"
  by (simp add: send_dhcp_def sealed_def transmit_frame_def Let_def)

lemma sendReply_frame:
  assumes m: "length (myMac s) = 6" and h: "length (hostname s) = 10"
  shows "\<exists>g. sendReply f s = s\<lparr>ipID := ipID s + 1, outbox := outbox s @ [(g, length g)]\<rparr>
    \<and> length g = 318 \<and> rd g eth_macDst 6 = broadcastMAC \<and> get32 g ip4_dst = 0xFFFFFFFF
    \<and> get16 g udp_portDst = htons DHCP_PORT_SRV
    \<and> RFC1071_checksum (rd g ip4_head 20) = 0 \<and> udp_verifies g (length g)
    \<and> get8 g dhcp_OP = 1 \<and> get32 g dhcp_XID = dhcpXID s \<and> get32 g dhcp_CIADDR = get32 f dhcp_YIADDR
    \<and> sits g dhcp_options (concat (map enc_opt (request_opts (hostname s) (get32 f dhcp_YIADDR) (get32 f dhcp_SIADDR))) @ [0xFF])"
proof -
  obtain p s' where p: "initPacket s = (p, s')" by fastforce
  note b = initPacket_fields [OF m p]
  define q where "q = put32 (put32 p dhcp_CIADDR (get32 f dhcp_YIADDR)) dhcp_SIADDR (get32 f dhcp_SIADDR)"
  define os where "os = concat (map enc_opt (request_opts (hostname s) (get32 f dhcp_YIADDR) (get32 f dhcp_SIADDR)))"
  define r where "r = q @ os @ [0xFF, 0]"
  have q: "length q = 282" "rd q eth_macDst 6 = broadcastMAC" "get32 q ip4_dst = 0xFFFFFFFF"
    "get16 q udp_portDst = htons DHCP_PORT_SRV" "get8 q dhcp_OP = 1" "get32 q dhcp_XID = dhcpXID s"
    "get32 q dhcp_CIADDR = get32 f dhcp_YIADDR"
    using b by (simp_all add: q_def buf_simps)
  have os: "length os = 34"
    "os = DHCP_OPT_REQUEST @ DHCP_OPT_PARAM_REQ @ hostname_opt s @ [50, 4] @ enc32 (get32 f dhcp_YIADDR)
      @ [54, 4] @ enc32 (get32 f dhcp_SIADDR)"
    by (simp_all add: os_def request_opts_def DHCP_OPT_REQUEST_def DHCP_OPT_PARAM_REQ_def hostname_opt_def h)
  have r: "length r = 318" by (simp add: r_def q(1) os(1))
  have "hostname s' = hostname s" by (simp add: b(8))
  then have "sendReply f s = send_dhcp r s'"
    by (simp add: sendReply_def p q_def [symmetric] Let_def pad_opts_def hostname_opt_def h q(1) b(1) r_def os(2)
        DHCP_OPT_REQUEST_def DHCP_OPT_PARAM_REQ_def)
  then have e: "sendReply f s = s\<lparr>ipID := ipID s + 1, outbox := outbox s @ [(sealed r, length (sealed r))]\<rparr>"
    using r sealed_ok(1) [of r] by (simp add: send_dhcp_sealed b(8))
  have k: "rd (sealed r) j n = rd q j n" if "j + n \<le> 12 \<or> 18 \<le> j \<and> j + n \<le> 24 \<or> 26 \<le> j \<and> j + n \<le> 38 \<or> 42 \<le> j \<and> j + n \<le> 282"
    for j n
  proof -
    have "rd (sealed r) j n = rd r j n" by (rule sealed_rd) (use that in auto)
    also have "\<dots> = rd q j n" using that q(1) by (auto simp: r_def rd_def)
    finally show ?thesis .
  qed
  have "sits r dhcp_options (os @ [0xFF])"
    using sitsI [of dhcp_options q "os @ [0xFF]" "[0]"] q(1) by (simp add: r_def)
  then have "sits (sealed r) dhcp_options (os @ [0xFF])" using r by (intro sealed_sits) simp_all
  moreover have "rd (sealed r) eth_macDst 6 = broadcastMAC" "get32 (sealed r) ip4_dst = 0xFFFFFFFF"
    "get16 (sealed r) udp_portDst = htons DHCP_PORT_SRV" "get8 (sealed r) dhcp_OP = 1"
    "get32 (sealed r) dhcp_XID = dhcpXID s" "get32 (sealed r) dhcp_CIADDR = get32 f dhcp_YIADDR"
    using q by (simp_all add: get_defs k)
  ultimately show ?thesis
    using e r sealed_ok [of r] by (intro exI [of _ "sealed r"]) (simp add: os_def)
qed

section \<open>Properties\<close>

text \<open>
  C9: A lease is acquired. An acknowledgement of the current transaction sets the address, mask, broadcast
  address, router (the first listed one inside the new subnet), name server (the first non-zero one) and
  time servers (at most eight) to what its options say, whatever their order and padding, and the lease is
  renewed after nine tenths of its time, or after a day when that is less.
\<close>
theorem dhcp_lease:
  assumes "from_server s os f" "fold learn os (no_offer (ipSubnet s)) = i" "msgType i = 5"
  shows "let s' = dhcp_processFrame now f (length f) s; ip = get32 f dhcp_YIADDR;
      (as, n) = ntp_of (ntpServers i) (ntpAddr s) (ntpLen s)
    in ip_config s' = ((myMac s, ip, mask i, ip OR NOT (mask i), router_of (mask i) ip (routers i) (ipRouter s),
          dns_of (dnsServers i) (ipDNS s)), as, n, dhcpXID s)
     \<and> unat (DHCP_expires now s') = min 86400 (unat (lease i) - unat (lease i) div 10)"
proof -
  obtain opts where o: "dhcp_processFrame now f (length f) s = (if optMsgType opts = 2 then sendReply f s
        else if optMsgType opts = 5 then dhcp_ack now f opts s else s)"
    "abs_opts f opts = i" "\<forall>v. optNtp opts = Some v \<longrightarrow> snd v mod 4 = 0"
    using from_server_process [OF assms(1)] assms(2) by metis
  have "optMsgType opts = 5" using o(2) assms(3) by (auto simp: abs_opts_def)
  with o(1) have "dhcp_processFrame now f (length f) s = dhcp_ack now f opts s" by simp
  with dhcp_ack_config [OF o(3), of now f s] show ?thesis
    by (simp add: o(2) Let_def split_def DHCP_expires_def lease_time_early)
qed

text \<open>
  Offers are requested. An offer of the current transaction is answered by exactly one broadcast
  request, with the same identifier, the offered address and server, checksums that verify, and a
  well-formed list of options; the configuration does not change.
\<close>
theorem dhcp_offer_requested:
  assumes "from_server s os f" "msgType (fold learn os (no_offer (ipSubnet s))) = 2"
    "length (myMac s) = 6" "length (hostname s) = 10"
  shows "let s' = dhcp_processFrame now f (length f) s
    in \<exists>g. s' = s\<lparr>ipID := ipID s + 1, outbox := outbox s @ [(g, length g)]\<rparr>
    \<and> length g = 318 \<and> rd g eth_macDst 6 = broadcastMAC \<and> get32 g ip4_dst = 0xFFFFFFFF
    \<and> get16 g udp_portDst = htons DHCP_PORT_SRV
    \<and> RFC1071_checksum (rd g ip4_head 20) = 0 \<and> udp_verifies g (length g)
    \<and> get8 g dhcp_OP = 1 \<and> get32 g dhcp_XID = dhcpXID s \<and> get32 g dhcp_CIADDR = get32 f dhcp_YIADDR
    \<and> sits g dhcp_options (concat (map enc_opt (request_opts (hostname s) (get32 f dhcp_YIADDR) (get32 f dhcp_SIADDR))) @ [0xFF])"
proof -
  obtain opts where o: "dhcp_processFrame now f (length f) s = (if optMsgType opts = 2 then sendReply f s
        else if optMsgType opts = 5 then dhcp_ack now f opts s else s)"
    "abs_opts f opts = fold learn os (no_offer (ipSubnet s))"
    using from_server_process [OF assms(1)] by metis
  have "optMsgType opts = msgType (abs_opts f opts)" by (simp add: abs_opts_def)
  then have "optMsgType opts = 2" using o(2) assms(2) by simp
  with o(1) sendReply_frame [OF assms(3,4), of f] show ?thesis by (simp add: Let_def)
qed

definition dhcp_reset :: "(nat, nat dns_arp, nat) dhcpst" where
  "dhcp_reset = \<lparr>myMac = [2, 0, 0, 0, 0, 1], ipBroadcast = 0, ipAddress = 0, ipSubnet = - 1, ipRouter = 0, ipDNS = 0,
     ipID = 0x1234, udpRegistry = replicate 16 (0, None), outbox = [],
     arpRequests = replicate 16 \<lparr>expire = 0, remoteAddress = 0, callback = ArpRouter, ref = 0\<rparr>,
     macRouter = replicate 6 0, nextAnnounce = 0, lastRouterPoll = 0,
     dnsRequests = replicate 16 \<lparr>dns_expire = 0, requestId = 0, dns_callback = None, dns_ref = 0\<rparr>,
     lastArp = 0, nextRequest = 0, dnsMAC = replicate 6 0,
     dhcpUUID = 7, dhcpXID = 0x01020304, dhcpLeaseExpire = 0, hostname = replicate 10 0x67,
     ntpAddr = replicate 8 0, ntpLen = 0\<rparr>"

text \<open>The frame of a server with the given message type, for the witnesses.\<close>

definition server_frame :: "dhcp_opt list \<Rightarrow> bytes" where
  "server_frame os = [2, 0, 0, 0, 0, 1] @ replicate 28 0 @ [0, 67] @ replicate 6 0 @ [2, 1, 6, 0]
     @ enc32 0x01020304 @ replicate 8 0 @ enc32 0x0A03A8C0 @ replicate 216 0 @ enc32 0x63538263
     @ concat (map enc_opt os) @ [0xFF]"

definition ack_opts :: "dhcp_opt list" where
  "ack_opts = [Opt 53 [5], OptPad, Opt 51 [0, 0, 0x0E, 0x10], Opt 1 (enc32 0x00FFFFFF), Opt 3 (enc32 0x0103A8C0),
     Opt 6 (enc32 0 @ enc32 0x08080808)]"

lemma server_frame_ok:
  assumes "list_all opt_ok os" "length (concat (map enc_opt os)) < 1000"
  shows "from_server dhcp_reset os (server_frame os)"
proof -
  let ?h = "[2, 0, 0, 0, 0, 1] @ replicate 28 0 @ [0, 67] @ replicate 6 0 @ [2, 1, 6, 0]
     @ enc32 0x01020304 @ replicate 8 0 @ enc32 0x0A03A8C0 @ replicate 216 0 @ enc32 (0x63538263 :: u32)"
  have f: "server_frame os = ?h @ concat (map enc_opt os) @ [0xFF]" by (simp add: server_frame_def)
  have h: "length ?h = 282" by simp
  have r: "rd (server_frame os) j n = rd ?h j n" if "j + n \<le> 282" for j n
    using that h unfolding f by (simp only: rd_append_left)
  have "rd ?h eth_macDst 6 = myMac dhcp_reset" "get16 ?h udp_portSrc = htons 67" "get8 ?h dhcp_OP = 2"
    "get8 ?h dhcp_HTYPE = 1" "get8 ?h dhcp_HLEN = 6" "get32 ?h dhcp_MAGIC = 0x63538263"
    "get32 ?h dhcp_XID = dhcpXID dhcp_reset"
    by code_simp+
  moreover have "sits (server_frame os) dhcp_options (concat (map enc_opt os) @ [0xFF])"
    using sitsI [of dhcp_options ?h "concat (map enc_opt os) @ [0xFF]" "[]"] h by (simp add: f)
  ultimately show ?thesis using assms(1) by (simp add: from_server_def get_defs r)
qed

theorem dhcp_lease_witness:
  "let i = fold learn ack_opts (no_offer (ipSubnet dhcp_reset)); f = server_frame ack_opts;
      s' = dhcp_processFrame 100 f (length f) dhcp_reset; ip = get32 f dhcp_YIADDR;
      (as, n) = ntp_of (ntpServers i) (ntpAddr dhcp_reset) (ntpLen dhcp_reset)
    in ip_config s' = ((myMac dhcp_reset, ip, mask i, ip OR NOT (mask i),
          router_of (mask i) ip (routers i) (ipRouter dhcp_reset), dns_of (dnsServers i) (ipDNS dhcp_reset)), as, n, dhcpXID dhcp_reset)
     \<and> unat (DHCP_expires 100 s') = min 86400 (unat (lease i) - unat (lease i) div 10)"
  unfolding Let_def
proof (rule dhcp_lease [unfolded Let_def, OF _ refl])
  show "from_server dhcp_reset ack_opts (server_frame ack_opts)"
    by (rule server_frame_ok) (simp_all add: ack_opts_def)
  show "msgType (fold learn ack_opts (no_offer (ipSubnet dhcp_reset))) = 5"
    by (simp add: ack_opts_def no_offer_def)
qed

theorem dhcp_offer_requested_witness:
  "let os = [Opt 53 [2], Opt 54 (enc32 0x0103A8C0)]; f = server_frame os; s' = dhcp_processFrame 100 f (length f) dhcp_reset
    in \<exists>g. s' = dhcp_reset\<lparr>ipID := ipID dhcp_reset + 1, outbox := outbox dhcp_reset @ [(g, length g)]\<rparr>
    \<and> length g = 318 \<and> rd g eth_macDst 6 = broadcastMAC \<and> get32 g ip4_dst = 0xFFFFFFFF
    \<and> get16 g udp_portDst = htons DHCP_PORT_SRV
    \<and> RFC1071_checksum (rd g ip4_head 20) = 0 \<and> udp_verifies g (length g)
    \<and> get8 g dhcp_OP = 1 \<and> get32 g dhcp_XID = dhcpXID dhcp_reset \<and> get32 g dhcp_CIADDR = get32 f dhcp_YIADDR
    \<and> sits g dhcp_options (concat (map enc_opt (request_opts (hostname dhcp_reset) (get32 f dhcp_YIADDR) (get32 f dhcp_SIADDR))) @ [0xFF])"
  unfolding Let_def
proof (rule dhcp_offer_requested [unfolded Let_def])
  show "from_server dhcp_reset [Opt 53 [2], Opt 54 (enc32 0x0103A8C0)] (server_frame [Opt 53 [2], Opt 54 (enc32 0x0103A8C0)])"
    by (rule server_frame_ok) simp_all
  show "msgType (fold learn [Opt 53 [2], Opt 54 (enc32 0x0103A8C0)] (no_offer (ipSubnet dhcp_reset))) = 2"
    by (simp add: no_offer_def)
qed (simp_all add: dhcp_reset_def)

end
