(* ===== verification/Ieee.thy ===== *)
theory Ieee
  imports Float32
begin

text \<open>
  Single-precision values that may not be finite, and their arithmetic: a result that rounds beyond the
  largest finite number is infinite, and an undefined one is NaN. The sign of zero is not kept; a
  division by zero takes the zero to be positive, which it is where the code divides by a difference
  or by a sum of squares. The bits of a value are those of the IEEE 754 interchange format.
\<close>

unbundle bit_operations_syntax

section \<open>Values\<close>

datatype flt = Fin rat | PInf | NInf | NaN

fun flt_less :: "flt \<Rightarrow> flt \<Rightarrow> bool" where
  "flt_less (Fin x) (Fin y) = (x < y)"
| "flt_less (Fin _) PInf = True"
| "flt_less NInf (Fin _) = True"
| "flt_less NInf PInf = True"
| "flt_less _ _ = False"

definition flt_le :: "flt \<Rightarrow> flt \<Rightarrow> bool" where
  "flt_le x y \<longleftrightarrow> flt_less x y \<or> x = y \<and> x \<noteq> NaN"

lemma flt_le_Fin [simp]: "flt_le (Fin x) (Fin y) \<longleftrightarrow> x \<le> y" "\<not> flt_le NaN z" "\<not> flt_le z NaN"
  "\<not> flt_le PInf (Fin y)" "flt_le NInf (Fin y)"
  by (cases z; auto simp: flt_le_def)+

definition flt_of :: "rat \<Rightarrow> flt" where
  "flt_of x = (let y = f32 x in if 2 ^ 128 \<le> y then PInf else if y \<le> - (2 ^ 128) then NInf else Fin y)"

fun flt_neg :: "flt \<Rightarrow> flt" where
  "flt_neg (Fin x) = Fin (- x)"
| "flt_neg PInf = NInf"
| "flt_neg NInf = PInf"
| "flt_neg NaN = NaN"

fun flt_abs :: "flt \<Rightarrow> flt" where
  "flt_abs (Fin x) = Fin \<bar>x\<bar>"
| "flt_abs NaN = NaN"
| "flt_abs _ = PInf"

fun flt_add :: "flt \<Rightarrow> flt \<Rightarrow> flt" where
  "flt_add (Fin x) (Fin y) = flt_of (x + y)"
| "flt_add NaN _ = NaN"
| "flt_add _ NaN = NaN"
| "flt_add PInf NInf = NaN"
| "flt_add NInf PInf = NaN"
| "flt_add PInf _ = PInf"
| "flt_add NInf _ = NInf"
| "flt_add _ y = y"

definition flt_sub :: "flt \<Rightarrow> flt \<Rightarrow> flt" where "flt_sub x y = flt_add x (flt_neg y)"

definition flt_inf :: "rat \<Rightarrow> flt" where
  "flt_inf x = (if x = 0 then NaN else if 0 < x then PInf else NInf)"

fun flt_sgn :: "flt \<Rightarrow> rat" where
  "flt_sgn (Fin x) = sgn x"
| "flt_sgn PInf = 1"
| "flt_sgn NInf = - 1"
| "flt_sgn NaN = 0"

fun flt_mul :: "flt \<Rightarrow> flt \<Rightarrow> flt" where
  "flt_mul (Fin x) (Fin y) = flt_of (x * y)"
| "flt_mul NaN _ = NaN"
| "flt_mul _ NaN = NaN"
| "flt_mul x y = flt_inf (flt_sgn x * flt_sgn y)"

fun flt_div :: "flt \<Rightarrow> flt \<Rightarrow> flt" where
  "flt_div (Fin x) (Fin y) = (if y = 0 then flt_inf x else flt_of (x / y))"
| "flt_div NaN _ = NaN"
| "flt_div _ NaN = NaN"
| "flt_div (Fin x) _ = Fin 0"
| "flt_div x (Fin y) = flt_inf (flt_sgn x * (if y < 0 then - 1 else 1))"
| "flt_div _ _ = NaN"

text \<open>The operators of the source are these.\<close>

instantiation flt :: "{ord, plus, minus, times, uminus, inverse}"
begin
definition less_flt :: "flt \<Rightarrow> flt \<Rightarrow> bool" where "less_flt = flt_less"
definition less_eq_flt :: "flt \<Rightarrow> flt \<Rightarrow> bool" where "less_eq_flt = flt_le"
definition plus_flt :: "flt \<Rightarrow> flt \<Rightarrow> flt" where "plus_flt = flt_add"
definition minus_flt :: "flt \<Rightarrow> flt \<Rightarrow> flt" where "minus_flt = flt_sub"
definition times_flt :: "flt \<Rightarrow> flt \<Rightarrow> flt" where "times_flt = flt_mul"
definition uminus_flt :: "flt \<Rightarrow> flt" where "uminus_flt = flt_neg"
definition divide_flt :: "flt \<Rightarrow> flt \<Rightarrow> flt" where "divide_flt = flt_div"
definition inverse_flt :: "flt \<Rightarrow> flt" where "inverse_flt = flt_div (Fin 1)"
instance ..
end

lemmas flt_ops = less_flt_def less_eq_flt_def plus_flt_def minus_flt_def times_flt_def uminus_flt_def divide_flt_def

text \<open>The square root is the rounded one: \<open>isqrt\<close> is the integer root of a scaled argument.\<close>

function isqrt :: "int \<Rightarrow> int" where
  "isqrt n = (if n \<le> 0 then 0 else let r = 2 * isqrt (n div 4) in if (r + 1) ^ 2 \<le> n then r + 1 else r)"
  by auto
termination by (relation "measure nat") auto

declare isqrt.simps [simp del]

definition f32_sqrt :: "rat \<Rightarrow> rat" where
  "f32_sqrt x =
     (let u = 2 powi (flog2 x div 2 - 23);
          q = x / u ^ 2;
          n = of_int (isqrt \<lfloor>q\<rfloor>)
      in (if q < (n + 1 / 2) ^ 2 then n else n + 1) * u)"

fun flt_sqrt :: "flt \<Rightarrow> flt" where
  "flt_sqrt (Fin x) = (if x = 0 then Fin 0 else if x < 0 then NaN else Fin (f32_sqrt x))"
| "flt_sqrt PInf = PInf"
| "flt_sqrt _ = NaN"

section \<open>The interchange format\<close>

definition finite_bits :: "rat \<Rightarrow> u32" where
  "finite_bits y =
     (if y < 2 powi (- 126) then word_of_int \<lfloor>y / 2 powi (- 149)\<rfloor>
      else push_bit 23 (word_of_int (flog2 y + 127)) OR take_bit 23 (word_of_int \<lfloor>y / 2 powi (flog2 y - 23)\<rfloor>))"

fun float_bits :: "flt \<Rightarrow> u32" where
  "float_bits (Fin x) = (if x < 0 then 0x80000000 OR finite_bits (- x) else finite_bits x)"
| "float_bits PInf = 0x7F800000"
| "float_bits NInf = 0xFF800000"
| "float_bits NaN = 0x7FC00000"

section \<open>Fixed point\<close>

definition toFloatU :: "u64 \<Rightarrow> rat" where
  "toFloatU value = fadd (f32 (of_int (uint (ucast (drop_bit 32 value) :: u32))))
     (fmul (1 / 2 ^ 32) (f32 (of_int (uint (ucast value :: u32)))))"

definition toFloat :: "i64 \<Rightarrow> rat" where
  "toFloat value = (if value <s 0 then - toFloatU (- value) else toFloatU value)"

definition trunc_int :: "rat \<Rightarrow> int" where "trunc_int m = (if m < 0 then - \<lfloor>- m\<rfloor> else \<lfloor>m\<rfloor>)"

lemma trunc_of_int [simp]: "trunc_int (of_int k) = k"
proof -
  have "- (of_int k :: rat) = of_int (- k)" by simp
  then show ?thesis unfolding trunc_int_def by (simp only: floor_of_int split: if_split) simp
qed

definition toFixedPoint :: "rat \<Rightarrow> i64" where
  "toFixedPoint value =
     (if value = 0 then 0
      else let exp = flog2 \<bar>value\<bar> + 1;
               m = value * 2 powi (32 - exp);
               mantissa = word_of_int (trunc_int m)
           in if 0 < exp then push_bit (nat exp) mantissa else signed_drop_bit (nat (- exp)) mantissa)"

section \<open>Rounding\<close>

lemma f32_exact_less:
  assumes "\<bar>M\<bar> < 2 ^ 24" "- 149 \<le> k"
  shows "f32 (of_int M * 2 powi k) = of_int M * 2 powi k"
proof (cases "M = 0")
  case False
  let ?x = "of_int M * 2 powi k :: rat"
  define j where "j = max (flog2 \<bar>?x\<bar> - 23) (- 149)"
  have x: "0 < \<bar>?x\<bar>" using False by simp
  have "of_int \<bar>M\<bar> < (2 :: rat) ^ 24" using assms(1) by (metis of_int_less_iff of_int_numeral of_int_power)
  then have "\<bar>?x\<bar> < 2 ^ 24 * 2 powi k" by (simp add: abs_mult)
  also have "\<dots> = 2 powi (k + 24)" by (simp add: power_int_add)
  finally have "(2 :: rat) powi flog2 \<bar>?x\<bar> < 2 powi (k + 24)" using flog2_bounds(1) [OF x] by linarith
  then have "flog2 \<bar>?x\<bar> < k + 24" by (rule two_powi_less)
  then have j: "j \<le> k" using assms(2) by (simp add: j_def)
  have "(2 :: rat) powi k = 2 ^ nat (k - j) * 2 powi j"
    using j power_int_add [of "2 :: rat" "k - j" j] by (simp add: power_int_def)
  moreover have u: "ulp ?x = 2 powi j" by (simp only: ulp_def j_def)
  ultimately have "?x / ulp ?x = of_int (M * 2 ^ nat (k - j))" unfolding u by simp
  moreover have "0 < ulp ?x" by (rule ulp_pos)
  ultimately show ?thesis using False by (simp add: f32_def del: of_int_mult of_int_power) (simp add: field_simps)
qed (simp add: f32_def)

lemma f32_exact:
  assumes "\<bar>M\<bar> \<le> 2 ^ 24" "- 149 \<le> k"
  shows "f32 (of_int M * 2 powi k) = of_int M * 2 powi k"
proof (cases "\<bar>M\<bar> = 2 ^ 24")
  case True
  then have "of_int M * 2 powi k = of_int (sgn M * 2 ^ 23) * (2 :: rat) powi (k + 1)" by (auto simp: power_int_add abs_if split: if_splits)
  moreover have "\<bar>sgn M * 2 ^ 23\<bar> < 2 ^ 24" by (simp add: abs_mult abs_sgn_eq)
  ultimately show ?thesis using f32_exact_less [of "sgn M * 2 ^ 23" "k + 1"] assms(2) by simp
qed (use assms f32_exact_less in simp)

lemma f32_value: "\<exists>M k. f32 x = of_int M * 2 powi k \<and> \<bar>M\<bar> \<le> 2 ^ 24 \<and> - 149 \<le> k"
proof (cases "x = 0")
  case False
  define k where "k = max (flog2 \<bar>x\<bar> - 23) (- 149)"
  have u: "ulp x = 2 powi k" by (simp add: ulp_def k_def)
  have "\<bar>x\<bar> < 2 * 2 powi flog2 \<bar>x\<bar>" using flog2_bounds(2) False by simp
  also have "\<dots> = 2 powi (flog2 \<bar>x\<bar> + 1)" by (simp add: power_int_add)
  also have "\<dots> \<le> 2 powi (k + 24)" by (intro power_int_increasing) (simp_all add: k_def)
  finally have "\<bar>x / ulp x\<bar> < 2 ^ 24" by (simp add: u abs_divide power_int_add field_simps)
  moreover have "\<bar>of_int (rne (x / ulp x)) - x / ulp x\<bar> \<le> 1 / 2" by (rule rne_error)
  ultimately have "\<bar>of_int (rne (x / ulp x))\<bar> < (2 ^ 24 + 1 :: rat)" by linarith
  then have "of_int \<bar>rne (x / ulp x)\<bar> < (of_int (2 ^ 24 + 1) :: rat)" by simp
  then have "\<bar>rne (x / ulp x)\<bar> \<le> 2 ^ 24" unfolding of_int_less_iff by simp
  moreover have "f32 x = of_int (rne (x / ulp x)) * 2 powi k" using False by (simp add: f32_def u)
  ultimately show ?thesis by (intro exI conjI) (assumption+, simp add: k_def)
qed (intro exI [of _ 0], simp add: f32_def)

lemma f32_idem [simp]: "f32 (f32 x) = f32 x"
  using f32_value [of x] f32_exact by metis

lemma f32_0 [simp]: "f32 0 = 0" by (simp add: f32_def)

lemma f32_crude:
  assumes "2 powi (- 126) \<le> x"
  shows "x / 2 \<le> f32 x" "f32 x \<le> 2 * x"
proof -
  have "0 < x" using assms by (auto intro: less_le_trans [of _ "2 powi (- 126)"])
  then have "\<bar>f32 x - x\<bar> \<le> x / 2 ^ 24" using f32_relative [of x] assms by simp
  also have "x / 2 ^ 24 \<le> x / 2" using \<open>0 < x\<close> by (intro divide_left_mono) simp_all
  finally show "x / 2 \<le> f32 x" "f32 x \<le> 2 * x" using \<open>0 < x\<close> unfolding abs_le_iff by linarith+
qed

lemma f32_count: "f32 (of_int n) = 0 \<and> n = 0 \<or> 1 / 2 \<le> f32 (of_int n) \<and> f32 (of_int n) \<le> 2 * of_int n" if "0 \<le> n"
proof (cases "n = 0")
  case False
  then have "1 \<le> (of_int n :: rat)" using that by simp
  moreover have "(2 :: rat) powi (- 126) \<le> 2 powi 0" by (intro power_int_increasing) simp_all
  ultimately have "2 powi (- 126) \<le> (of_int n :: rat)" by simp
  from f32_crude [OF this] \<open>1 \<le> (of_int n :: rat)\<close> show ?thesis by simp
qed simp

section \<open>The range of fixed-point values\<close>

text \<open>A 64-bit fixed-point value is zero or far from the limits of the format.\<close>

lemma toFloatU_range: "toFloatU v = 0 \<or> 2 powi (- 36) \<le> toFloatU v \<and> toFloatU v \<le> 2 powi 36"
proof -
  define h l where "h = f32 (of_int (uint (ucast (drop_bit 32 v) :: u32)))" and "l = f32 (of_int (uint (ucast v :: u32)))"
  have c: "f32 (of_int (uint w)) = 0 \<or> 1 / 2 \<le> f32 (of_int (uint w)) \<and> f32 (of_int (uint w)) \<le> 2 ^ 33" for w :: u32
  proof -
    have "(of_int (uint w) :: rat) \<le> of_int (2 ^ 32)" using uint_u32_range [of w] by (simp only: of_int_le_iff) simp
    then show ?thesis using f32_count [of "uint w"] by auto
  qed
  have h: "h = 0 \<or> 1 / 2 \<le> h \<and> h \<le> 2 ^ 33" and l: "l = 0 \<or> 1 / 2 \<le> l \<and> l \<le> 2 ^ 33"
    unfolding h_def l_def by (rule c)+
  define m where "m = fmul (1 / 2 ^ 32) l"
  have p: "(2 :: rat) powi (- 126) \<le> 1 / 2 ^ 36" using power_int_increasing [of "- 126" "- 36" "2 :: rat"] by (simp add: power_int_minus_divide)
  have m: "m = 0 \<or> 1 / 2 ^ 34 \<le> m \<and> m \<le> 2 ^ 34"
  proof (cases "l = 0")
    case False
    then have "2 powi (- 126) \<le> 1 / 2 ^ 32 * l" using l p by simp
    from f32_crude [OF this] l False show ?thesis by (simp add: m_def fmul_def)
  qed (simp add: m_def fmul_def)
  have t: "toFloatU v = f32 (h + m)" by (simp add: toFloatU_def fadd_def h_def l_def m_def)
  show ?thesis
  proof (cases "h + m = 0")
    case True
    then show ?thesis by (simp add: t)
  next
    case False
    then have s: "1 / 2 ^ 34 \<le> h + m" "h + m \<le> 2 ^ 34 + 2 ^ 33" using h m by auto
    then have "2 powi (- 126) \<le> h + m" using p by simp
    from f32_crude [OF this] s have "1 / 2 ^ 36 \<le> f32 (h + m)" "f32 (h + m) \<le> 2 ^ 36" by simp_all
    then show ?thesis by (simp add: t power_int_minus_divide)
  qed
qed

lemma toFloat_range: "f32 (toFloat v) = toFloat v" "toFloat v = 0 \<or> 2 powi (- 36) \<le> \<bar>toFloat v\<bar> \<and> \<bar>toFloat v\<bar> \<le> 2 powi 36"
proof -
  have n: "f32 (- f32 x) = - f32 x" for x
  proof -
    from f32_value [of x] obtain M k where "f32 x = of_int M * 2 powi k" "\<bar>M\<bar> \<le> 2 ^ 24" "- 149 \<le> k" by auto
    then show ?thesis using f32_exact [of "- M" k] by simp
  qed
  show "f32 (toFloat v) = toFloat v" by (simp add: toFloat_def toFloatU_def fadd_def n)
  show "toFloat v = 0 \<or> 2 powi (- 36) \<le> \<bar>toFloat v\<bar> \<and> \<bar>toFloat v\<bar> \<le> 2 powi 36"
    using toFloatU_range [of v] toFloatU_range [of "- v"] by (auto simp: toFloat_def)
qed

text \<open>A number of single precision is an integer of 24 bits times a power of two.\<close>

lemma f32_form:
  assumes "f32 x = x" "x \<noteq> 0" "- 126 \<le> flog2 \<bar>x\<bar>"
  shows "\<exists>M. \<bar>x\<bar> = of_int M * 2 powi (flog2 \<bar>x\<bar> - 23) \<and> 2 ^ 23 \<le> M \<and> M < 2 ^ 24"
proof -
  let ?e = "flog2 \<bar>x\<bar>"
  define u :: rat where "u = 2 powi (?e - 23)"
  define M where "M = \<bar>rne (x / u)\<bar>"
  have u: "0 < u" "ulp x = u" using assms(3) by (simp_all add: u_def ulp_def)
  have "x = of_int (rne (x / u)) * u" using assms(1,2) by (simp add: f32_def u)
  then have x: "\<bar>x\<bar> = of_int M * u" using u(1) by (metis M_def abs_mult abs_of_pos of_int_abs)
  have p: "(2 :: rat) powi ?e = 2 ^ 23 * u" by (simp add: u_def power_int_diff)
  have "2 ^ 23 * u \<le> of_int M * u" "of_int M * u < 2 ^ 24 * u"
    using flog2_bounds [of "\<bar>x\<bar>"] assms(2) unfolding p x [symmetric] by simp_all
  then have "(2 :: rat) ^ 23 \<le> of_int M" "of_int M < (2 :: rat) ^ 24" using u(1) by simp_all
  then have "2 ^ 23 \<le> M" "M < 2 ^ 24"
    by (metis of_int_le_iff of_int_numeral of_int_power, metis of_int_less_iff of_int_numeral of_int_power)
  then show ?thesis using x by (auto simp: u_def)
qed

lemma toFixedPoint_exact:
  assumes "f32 x = x" "\<bar>x\<bar> < 2 ^ 31" "- 126 \<le> flog2 \<bar>x\<bar>"
  shows "sint (toFixedPoint x) = \<lfloor>x * 2 ^ 32\<rfloor>"
proof (cases "x = 0")
  case x: False
  obtain M where M: "\<bar>x\<bar> = of_int M * 2 powi (flog2 \<bar>x\<bar> - 23)" "2 ^ 23 \<le> M" "M < 2 ^ 24"
    using f32_form [OF assms(1) x assms(3)] by auto
  define e where "e = flog2 \<bar>x\<bar> + 1"
  define N where "N = (if x < 0 then - M else M)"
  have N: "\<bar>N\<bar> < 2 ^ 24" using M by (simp add: N_def)
  have xN: "x = of_int N * 2 powi (e - 24)" using M(1) by (auto simp: N_def e_def abs_if split: if_splits)
  have m: "x * 2 powi (32 - e) = of_int (N * 256)"
  proof -
    have "(2 :: rat) powi (e - 24) * 2 powi (32 - e) = 2 powi 8" by (simp flip: power_int_add)
    then show ?thesis unfolding xN mult.assoc by simp
  qed
  have t: "toFixedPoint x = (if 0 < e then push_bit (nat e) (word_of_int (N * 256)) else signed_drop_bit (nat (- e)) (word_of_int (N * 256)))"
    using x unfolding toFixedPoint_def e_def [symmetric] Let_def m trunc_of_int by simp
  have s: "sint (word_of_int (N * 256) :: i64) = N * 256" using N by (intro sint_of_int_64) auto
  show ?thesis
  proof (cases "0 < e")
    case True
    have z: "x * 2 ^ 32 = of_int (N * 256 * 2 ^ nat e)"
    proof -
      have "(2 :: rat) ^ nat e = 2 powi e" using True by (simp add: power_int_def)
      moreover have "x * 2 ^ 32 = (x * 2 powi (32 - e)) * 2 powi e" by (simp add: power_int_diff)
      ultimately show ?thesis unfolding m by simp
    qed
    have "\<bar>x * 2 ^ 32\<bar> < 2 ^ 63" using assms(2) by (simp add: abs_mult)
    then have "of_int \<bar>N * 256 * 2 ^ nat e\<bar> < (of_int (2 ^ 63) :: rat)" unfolding z by (simp add: abs_mult)
    then have "\<bar>N * 256 * 2 ^ nat e\<bar> < 2 ^ 63" by (simp only: of_int_less_iff)
    then have "sint (word_of_int (N * 256 * 2 ^ nat e) :: i64) = N * 256 * 2 ^ nat e" by (intro sint_of_int_64) auto
    then show ?thesis using True unfolding t z floor_of_int by (simp add: push_bit_eq_mult)
  next
    case False
    have "sint (signed_drop_bit (nat (- e)) (word_of_int (N * 256) :: i64)) = N * 256 div 2 ^ nat (- e)"
      unfolding sint_signed_drop_bit_eq s by (simp add: drop_bit_eq_div)
    moreover have "x * 2 ^ 32 = of_int (N * 256) / of_int (2 ^ nat (- e))"
    proof -
      have "(2 :: rat) ^ nat (- e) = 2 powi (- e)" using False by (simp add: power_int_def)
      moreover have "x * 2 ^ 32 = (x * 2 powi (32 - e)) / 2 powi (- e)" by (simp add: power_int_diff power_int_minus field_simps)
      ultimately show ?thesis unfolding m by simp
    qed
    ultimately show ?thesis using False unfolding t by (simp only: if_False floor_divide_of_int_eq)
  qed
qed (simp add: toFixedPoint_def)

end
