(* ===== verification/NtpPeer.thy ===== *)
theory NtpPeer
  imports Dhcp Ieee ClockMath
begin

unbundle bit_operations_syntax

text \<open>
  The time sources (lib/ntp/Source.cpp, Peer.cpp, GPS.cpp and their headers): the ring of samples, the
  status of a source, and the poll of a remote peer with its client frames. Peers live in the eight slots
  of the static array \<open>rawPeers\<close>; a method takes the index of its slot, which is the pointer \<open>this\<close> and
  what the peer passes as the reference of its callbacks. The task of a peer is the interval that its
  last \<open>runSleep\<close> or \<open>runAdjust\<close> set. The record \<open>moment\<close> holds what an event reads: clocks, the raw PPS
  time, the next random word, and the statistics that the regression computes in single precision. Every
  statement here is for any statistics; the theory \<open>Regression\<close> computes them.
\<close>

section \<open>Constants and headers\<close>

abbreviation (input) ntp_mode :: nat where "ntp_mode \<equiv> 42"
abbreviation (input) ntp_stratum :: nat where "ntp_stratum \<equiv> 43"
abbreviation (input) ntp_poll :: nat where "ntp_poll \<equiv> 44"
abbreviation (input) ntp_precision :: nat where "ntp_precision \<equiv> 45"
abbreviation (input) ntp_rootDelay :: nat where "ntp_rootDelay \<equiv> 46"
abbreviation (input) ntp_rootDispersion :: nat where "ntp_rootDispersion \<equiv> 50"
abbreviation (input) ntp_refID :: nat where "ntp_refID \<equiv> 54"
abbreviation (input) ntp_refTime :: nat where "ntp_refTime \<equiv> 58"
abbreviation (input) ntp_origTime :: nat where "ntp_origTime \<equiv> 66"
abbreviation (input) ntp_rxTime :: nat where "ntp_rxTime \<equiv> 74"
abbreviation (input) ntp_txTime :: nat where "ntp_txTime \<equiv> 82"
abbreviation (input) FrameNtp_size :: nat where "FrameNtp_size \<equiv> 90"

abbreviation (input) NTP_PORT_SRV :: u16 where "NTP_PORT_SRV \<equiv> 123"
abbreviation (input) NTP_PORT_CLI :: u16 where "NTP_PORT_CLI \<equiv> 12345"
abbreviation (input) NTP_MODE_CLI :: u8 where "NTP_MODE_CLI \<equiv> 3"
abbreviation (input) NTP_MODE_SRV :: u8 where "NTP_MODE_SRV \<equiv> 4"
abbreviation (input) NTP_CLK_PREC :: u8 where "NTP_CLK_PREC \<equiv> - 27"

definition NTP_UTC_OFFSET :: u64 where "NTP_UTC_OFFSET = 0x83AA7E8000000000"

text \<open>The three bit fields of the first byte.\<close>

definition get_mode :: "bytes \<Rightarrow> u8" where "get_mode f = take_bit 3 (get8 f ntp_mode)"
definition get_version :: "bytes \<Rightarrow> u8" where "get_version f = take_bit 3 (drop_bit 3 (get8 f ntp_mode))"
definition get_status :: "bytes \<Rightarrow> u8" where "get_status f = take_bit 2 (drop_bit 6 (get8 f ntp_mode))"

definition set_field :: "nat \<Rightarrow> nat \<Rightarrow> u8 \<Rightarrow> u8 \<Rightarrow> u8" where
  "set_field i n v x = take_bit i x OR push_bit i (take_bit n v) OR push_bit (i + n) (drop_bit (i + n) x)"

definition put_mode :: "bytes \<Rightarrow> u8 \<Rightarrow> bytes" where
  "put_mode f v = put8 f ntp_mode (set_field 0 3 v (get8 f ntp_mode))"
definition put_version :: "bytes \<Rightarrow> u8 \<Rightarrow> bytes" where
  "put_version f v = put8 f ntp_mode (set_field 3 3 v (get8 f ntp_mode))"
definition put_status :: "bytes \<Rightarrow> u8 \<Rightarrow> bytes" where
  "put_status f v = put8 f ntp_mode (set_field 6 2 v (get8 f ntp_mode))"

lemma bits_set_field:
  "i + n \<le> 8 \<Longrightarrow> take_bit n (drop_bit i (set_field i n v x)) = take_bit n v"
  "j + k \<le> i \<or> i + n \<le> j \<Longrightarrow> take_bit k (drop_bit j (set_field i n v x)) = take_bit k (drop_bit j x)"
  using bit_imp_le_length [of x] by (auto simp: set_field_def bit_simps intro!: bit_word_eqI)

lemma mode_put [buf_simps]:
  assumes "43 \<le> length f"
  shows "get_mode (put_mode f v) = take_bit 3 v" "get_version (put_mode f v) = get_version f" "get_status (put_mode f v) = get_status f"
    "get_mode (put_version f v) = get_mode f" "get_version (put_version f v) = take_bit 3 v" "get_status (put_version f v) = get_status f"
    "get_mode (put_status f v) = get_mode f" "get_version (put_status f v) = get_version f" "get_status (put_status f v) = take_bit 2 v"
  using assms bits_set_field(1) [of 0 3] bits_set_field(2) [of 0 3]
  by (simp_all add: get_mode_def get_version_def get_status_def put_mode_def put_version_def put_status_def buf_simps bits_set_field)

lemma length_put_bits [simp]: "length (put_mode f v) = length f" "length (put_version f v) = length f" "length (put_status f v) = length f"
  by (simp_all add: put_mode_def put_version_def put_status_def)

lemma get_bits_other [buf_simps]:
  "43 \<le> j \<Longrightarrow> get_mode (put8 f j a) = get_mode f" "43 \<le> j \<Longrightarrow> get_version (put8 f j a) = get_version f"
  "43 \<le> j \<Longrightarrow> get_status (put8 f j a) = get_status f" "43 \<le> j \<Longrightarrow> get_mode (put32 f j b) = get_mode f"
  "43 \<le> j \<Longrightarrow> get_version (put32 f j b) = get_version f" "43 \<le> j \<Longrightarrow> get_status (put32 f j b) = get_status f"
  "43 \<le> j \<Longrightarrow> get_mode (put64 f j c) = get_mode f" "43 \<le> j \<Longrightarrow> get_version (put64 f j c) = get_version f"
  "43 \<le> j \<Longrightarrow> get_status (put64 f j c) = get_status f"
  by (simp_all add: get_mode_def get_version_def get_status_def buf_simps)

lemma put_bits_other [buf_simps]:
  "43 \<le> j \<Longrightarrow> get8 (put_mode f v) j = get8 f j" "43 \<le> j \<Longrightarrow> get8 (put_version f v) j = get8 f j" "43 \<le> j \<Longrightarrow> get8 (put_status f v) j = get8 f j"
  "j + n \<le> 42 \<or> 43 \<le> j \<Longrightarrow> rd (put_mode f v) j n = rd f j n" "j + n \<le> 42 \<or> 43 \<le> j \<Longrightarrow> rd (put_version f v) j n = rd f j n"
  "j + n \<le> 42 \<or> 43 \<le> j \<Longrightarrow> rd (put_status f v) j n = rd f j n"
  by (simp_all add: put_mode_def put_version_def put_status_def buf_simps)

lemma put_bits_get [buf_simps]:
  "j + 2 \<le> 42 \<Longrightarrow> get16 (put_mode f v) j = get16 f j" "j + 2 \<le> 42 \<Longrightarrow> get16 (put_version f v) j = get16 f j"
  "j + 2 \<le> 42 \<Longrightarrow> get16 (put_status f v) j = get16 f j"
  "j + 4 \<le> 42 \<or> 43 \<le> j \<Longrightarrow> get32 (put_mode f v) j = get32 f j" "j + 4 \<le> 42 \<or> 43 \<le> j \<Longrightarrow> get32 (put_version f v) j = get32 f j"
  "j + 4 \<le> 42 \<or> 43 \<le> j \<Longrightarrow> get32 (put_status f v) j = get32 f j"
  "43 \<le> j \<Longrightarrow> get64 (put_mode f v) j = get64 f j" "43 \<le> j \<Longrightarrow> get64 (put_version f v) j = get64 f j"
  "43 \<le> j \<Longrightarrow> get64 (put_status f v) j = get64 f j"
  by (simp_all add: get_defs buf_simps)

section \<open>Sources\<close>

record sample =
  taiLocal :: u64
  taiRemote :: u64
  delay :: rat

definition getOffset :: "sample \<Rightarrow> i64" where
  "getOffset x = taiRemote x - taiLocal x"

record fit =
  usedOffset :: u8
  usedDrift :: u8
  delayMean :: flt
  delayStdDev :: flt
  freqSkew :: flt
  score :: flt

record source =
  ringSamples :: "sample list"
  ringPtr :: u8
  sampleCount :: u8
  span :: i32
  filteredOffset :: i64
  lastUpdate :: u64
  refTime :: u64
  src_id :: u32
  refId :: u32
  rootDelay :: u32
  rootDispersion :: u32
  rxCount :: u32
  rxValid :: u32
  txCount :: u32
  src_mode :: u16
  src_state :: u16
  reach :: u16
  stratum :: u16
  poll :: "16 word"
  pollCounter :: u16
  minPoll :: "16 word"
  maxPoll :: "16 word"
  precision :: u8
  leap :: u8
  version :: u8
  ntpMode :: u8
  stats :: fit
  xleave :: bool
  prune :: bool
  lost :: bool

abbreviation (input) MAX_HISTORY :: "'a :: numeral" where "MAX_HISTORY \<equiv> 16"
abbreviation (input) RING_MASK :: u8 where "RING_MASK \<equiv> 15"
abbreviation (input) MAX_STRATUM :: u16 where "MAX_STRATUM \<equiv> 3"
definition MAX_DELAY :: flt where "MAX_DELAY = Fin (f32 (50 / 10 ^ 3))"
definition MAX_FREQ_SKEW :: flt where "MAX_FREQ_SKEW = Fin (f32 (50 / 10 ^ 6))"

abbreviation (input) RPY_SD_MD_CLIENT :: u16 where "RPY_SD_MD_CLIENT \<equiv> 0"
abbreviation (input) RPY_SD_MD_REF :: u16 where "RPY_SD_MD_REF \<equiv> 2"
abbreviation (input) RPY_SD_ST_SELECTED :: u16 where "RPY_SD_ST_SELECTED \<equiv> 0"
abbreviation (input) RPY_SD_ST_NONSELECTABLE :: u16 where "RPY_SD_ST_NONSELECTABLE \<equiv> 1"
abbreviation (input) RPY_SD_ST_FALSETICKER :: u16 where "RPY_SD_ST_FALSETICKER \<equiv> 2"
abbreviation (input) RPY_SD_ST_JITTERY :: u16 where "RPY_SD_ST_JITTERY \<equiv> 3"
abbreviation (input) RPY_SD_ST_UNSELECTED :: u16 where "RPY_SD_ST_UNSELECTED \<equiv> 4"
abbreviation (input) RPY_SD_ST_SELECTABLE :: u16 where "RPY_SD_ST_SELECTABLE \<equiv> 5"

definition no_sample :: sample where
  "no_sample = \<lparr>taiLocal = 0, taiRemote = 0, delay = 0\<rparr>"

definition no_fit :: fit where
  "no_fit = \<lparr>usedOffset = 0, usedDrift = 0, delayMean = Fin 0, delayStdDev = Fin 0, freqSkew = Fin 0, score = Fin 0\<rparr>"

definition Source_new :: "u32 \<Rightarrow> u16 \<Rightarrow> source" where
  "Source_new i m = \<lparr>ringSamples = replicate MAX_HISTORY no_sample, ringPtr = 0, sampleCount = 0, span = 0,
     filteredOffset = 0, lastUpdate = 0, refTime = 0, src_id = i, refId = 0, rootDelay = 0, rootDispersion = 0,
     rxCount = 0, rxValid = 0, txCount = 0, src_mode = m, src_state = RPY_SD_ST_UNSELECTED, reach = 0, stratum = 0,
     poll = 0, pollCounter = 0, minPoll = 0, maxPoll = 0, precision = 0, leap = 0, version = 0, ntpMode = 0,
     stats = no_fit, xleave = False, prune = False, lost = True\<rparr>"

text \<open>
  The destructor also cancels the tasks that refer to the source; that is a request of the scheduler, in theory
  \<open>Scheduler\<close>.
\<close>

definition Source_delete :: "'z source_scheme \<Rightarrow> 'z source_scheme" where
  "Source_delete p = p\<lparr>src_mode := 0, src_id := 0\<rparr>"

definition isAllocated :: "'z source_scheme \<Rightarrow> bool" where "isAllocated p \<longleftrightarrow> src_id p \<noteq> 0"
definition isReference :: "'z source_scheme \<Rightarrow> bool" where "isReference p \<longleftrightarrow> src_mode p = RPY_SD_MD_REF"
definition isRemote :: "'z source_scheme \<Rightarrow> bool" where "isRemote p \<longleftrightarrow> src_mode p = RPY_SD_MD_CLIENT"
definition isRecipient :: "u32 \<Rightarrow> 'z source_scheme \<Rightarrow> bool" where
  "isRecipient srcAddr p \<longleftrightarrow> isRemote p \<and> src_id p = srcAddr"
definition isPruneable :: "'z source_scheme \<Rightarrow> bool" where "isPruneable p \<longleftrightarrow> \<not> isReference p \<and> prune p"
definition select :: "'z source_scheme \<Rightarrow> 'z source_scheme" where "select p = p\<lparr>src_state := RPY_SD_ST_SELECTED\<rparr>"

definition isSelectable :: "'z source_scheme \<Rightarrow> bool \<times> 'z source_scheme" where
  "isSelectable p =
     (if reach p = 0 \<or> lost p then (False, p\<lparr>src_state := RPY_SD_ST_NONSELECTABLE\<rparr>)
      else if usedOffset (stats p) < 8 \<or> usedDrift (stats p) < 4 then (False, p\<lparr>src_state := RPY_SD_ST_FALSETICKER\<rparr>)
      else if flt_less MAX_FREQ_SKEW (freqSkew (stats p)) then (False, p\<lparr>src_state := RPY_SD_ST_JITTERY\<rparr>)
      else (True, p\<lparr>src_state := RPY_SD_ST_SELECTABLE\<rparr>))"

definition applyOffset :: "i64 \<Rightarrow> 'z source_scheme \<Rightarrow> 'z source_scheme" where
  "applyOffset offset p = p\<lparr>ringSamples := map (\<lambda>x. x\<lparr>taiLocal := taiLocal x + offset\<rparr>) (ringSamples p)\<rparr>"

definition advanceFilter :: "'z source_scheme \<Rightarrow> 'z source_scheme" where
  "advanceFilter p = p\<lparr>ringPtr := (ringPtr p + 1) AND RING_MASK,
     sampleCount := (if sampleCount p < MAX_HISTORY then sampleCount p + 1 else sampleCount p)\<rparr>"

text \<open>The sample that the reference returned by \<open>advanceFilter\<close> denotes is the one at the ring pointer.\<close>

definition put_sample :: "sample \<Rightarrow> 'z source_scheme \<Rightarrow> 'z source_scheme" where
  "put_sample x p = p\<lparr>ringSamples := (ringSamples p)[unat (ringPtr p) := x]\<rparr>"

definition ring_sample :: "nat \<Rightarrow> 'z source_scheme \<Rightarrow> sample" where
  "ring_sample i p = ringSamples p ! unat ((ringPtr p - of_nat i) AND RING_MASK)"

definition sampled_span :: "'z source_scheme \<Rightarrow> i32" where
  "sampled_span p = ucast (drop_bit 32 (taiLocal (ring_sample 0 p) - taiLocal (ring_sample (unat (sampleCount p - 1)) p)))"

definition updateFilter :: "fit \<Rightarrow> u64 \<Rightarrow> 'z source_scheme \<Rightarrow> 'z source_scheme" where
  "updateFilter ft now p = p\<lparr>span := sampled_span p, filteredOffset := getOffset (ring_sample 0 p),
     stats := ft, lastUpdate := now\<rparr>"

section \<open>Peers\<close>

type_synonym stamps = "u64 \<times> u64 \<times> u64"

record peer = source +
  filterTx :: u64
  filterRx :: u64
  local_tx_hw :: stamps
  remote_rx :: u64
  remote_tx :: u64
  local_rx_hw :: stamps
  pollStart :: u64
  pollWait :: u32
  pollTrim :: u32
  peerArp :: u32
  peerIntv :: u32
  pollActive :: bool
  pollXleave :: bool
  pktSent :: bool
  pktRecv :: bool
  macAddr :: mac

datatype ntp_arp = PeerArp
datatype ntp_dns = NtpDns

record 'cb peerst = "('cb, ntp_arp dns_arp, ntp_dns) dhcpst" +
  peers :: "peer list"
  utcOffset :: u64

record moment =
  m_now :: u64
  m_seconds :: u32
  m_ethRaw :: u32
  m_random :: u32
  m_fit :: fit

abbreviation (input) RUN_SEC :: u32 where "RUN_SEC \<equiv> push_bit 24 1"
abbreviation (input) IDLE_INTV :: u32 where "IDLE_INTV \<equiv> drop_bit 1 RUN_SEC"
abbreviation (input) ACTV_INTV :: u32 where "ACTV_INTV \<equiv> drop_bit 4 RUN_SEC"
abbreviation (input) PEER_RESPONSE_TIMEOUT :: u64 where "PEER_RESPONSE_TIMEOUT \<equiv> push_bit 31 1"
abbreviation (input) PEER_MIN_POLL :: "16 word" where "PEER_MIN_POLL \<equiv> 4"
abbreviation (input) PEER_MAX_POLL :: "16 word" where "PEER_MAX_POLL \<equiv> 6"

definition avg64 :: "u64 \<Rightarrow> u64 \<Rightarrow> u64" where
  "avg64 a b = a + word_of_int (sint (b - a) div 2)"

definition upd_peer :: "nat \<Rightarrow> (peer \<Rightarrow> peer) \<Rightarrow> ('cb, 'z) peerst_scheme \<Rightarrow> ('cb, 'z) peerst_scheme" where
  "upd_peer i f s = s\<lparr>peers := (peers s)[i := f (peers s ! i)]\<rparr>"

text \<open>Whether the peer is on another network, so that its frames go to the router.\<close>

definition routed :: "('cb, 'z) peerst_scheme \<Rightarrow> u32 \<Rightarrow> bool" where
  "routed s a \<longleftrightarrow> IPv4_testSubnet (ipSubnet s) (ipAddress s) a \<noteq> 0"

definition Peer_new :: "u32 \<Rightarrow> ('cb, 'z) peerst_scheme \<Rightarrow> peer" where
  "Peer_new ipAddr s =
     (let p = source.extend (Source_new ipAddr RPY_SD_MD_CLIENT) (peer.fields 0 0 (0, 0, 0) 0 0 (0, 0, 0) 0 0 0 0 0
                False False False False (replicate 6 0));
          p = (if \<not> routed s ipAddr then p\<lparr>maxPoll := 4, minPoll := 2, poll := 1\<rparr>
               else p\<lparr>maxPoll := PEER_MAX_POLL, minPoll := PEER_MIN_POLL, poll := PEER_MIN_POLL\<rparr>)
      in p\<lparr>peerIntv := IDLE_INTV\<rparr>)"

subsection \<open>The remote hardware address\<close>

definition updateMac :: "u32 \<Rightarrow> nat \<Rightarrow> ('cb, 'z) peerst_scheme \<Rightarrow> ('cb, 'z) peerst_scheme" where
  "updateMac seconds i s =
     (let s = upd_peer i (\<lambda>p. p\<lparr>peerArp := seconds\<rparr>) s
      in if routed s (src_id (peers s ! i))
         then upd_peer i (\<lambda>p. p\<lparr>macAddr := copyMAC (macAddr p) 0 (macRouter s)\<rparr>) s
         else snd (ARP_request seconds (src_id (peers s ! i)) (ArpClient (OtherArp PeerArp)) (of_nat i) s))"

definition isMacInvalid :: "u32 \<Rightarrow> nat \<Rightarrow> ('cb, 'z) peerst_scheme \<Rightarrow> bool \<times> ('cb, 'z) peerst_scheme" where
  "isMacInvalid seconds i s =
     (let a = peerArp (peers s ! i);
          s = (if a = 0 \<or> seconds - a > ARP_MAX_AGE then updateMac seconds i s else s)
      in (isNullMAC (macAddr (peers s ! i)), s))"

definition peer_arpCallback :: "u32 \<Rightarrow> ntp_arp \<Rightarrow> u32 \<Rightarrow> u32 \<Rightarrow> mac \<Rightarrow> ('cb, 'z) peerst_scheme \<Rightarrow> ('cb, 'z) peerst_scheme" where
  "peer_arpCallback seconds e r remote macAddress s =
     (let i = unat r
      in if isNullMAC macAddress then updateMac seconds i s
         else upd_peer i (\<lambda>p. p\<lparr>macAddr := copyMAC (macAddr p) 0 macAddress\<rparr>) s)"

subsection \<open>Frames\<close>

definition peer_txCallback :: "stamps \<Rightarrow> nat \<Rightarrow> ('cb, 'z) peerst_scheme \<Rightarrow> ('cb, 'z) peerst_scheme" where
  "peer_txCallback tx i s = upd_peer i (\<lambda>p. p\<lparr>local_tx_hw := tx\<rparr>) s"

text \<open>The time fields of a request: those of the last exchange when the query is interleaved.\<close>

definition poll_stamps :: "u64 \<Rightarrow> peer \<Rightarrow> peer" where
  "poll_stamps now p =
     (if pollXleave p then p\<lparr>filterRx := htonll (fst (local_rx_hw p)), filterTx := htonll (fst (local_tx_hw p))\<rparr>
      else p\<lparr>filterRx := 0, filterTx := htonll now\<rparr>)"

definition poll_frame :: "peer \<Rightarrow> bytes \<Rightarrow> bytes" where
  "poll_frame p f =
     (let f = put_version f 4;
          f = put_mode f 3;
          f = put8 f ntp_poll (ucast (poll p));
          f = put8 f ntp_stratum 16;
          f = put8 f ntp_precision NTP_CLK_PREC;
          f = put32 f ntp_refID 0;
          f = put64 f ntp_refTime 0;
          f = put64 f ntp_origTime (if pollXleave p then remote_rx p else 0);
          f = put64 f ntp_rxTime (filterRx p)
      in put64 f ntp_txTime (filterTx p))"

definition pollSend :: "u64 \<Rightarrow> nat \<Rightarrow> ('cb, 'z) peerst_scheme \<Rightarrow> ('cb, 'z) peerst_scheme" where
  "pollSend now i s =
     (let s = upd_peer i (\<lambda>p. (poll_stamps now p)\<lparr>txCount := txCount p + 1\<rparr>) s;
          p = peers s ! i;
          f = copyMAC (replicate FrameNtp_size 0) eth_macDst (macAddr p);
          (f, s) = IPv4_init f s;
          f = put32 f ip4_dst (src_id p);
          f = put32 f ip4_src (ipAddress s);
          f = put8 f ip4_proto IP_PROTO_UDP;
          f = put16 f udp_portSrc (htons NTP_PORT_CLI);
          f = put16 f udp_portDst (htons NTP_PORT_SRV);
          f = poll_frame p f
      in transmit_frame (IPv4_finalize (UDP_finalize f FrameNtp_size) FrameNtp_size) FrameNtp_size s)"

definition receive_first :: "stamps \<Rightarrow> bytes \<Rightarrow> peer \<Rightarrow> peer" where
  "receive_first rx f p =
     (if get64 f ntp_origTime \<noteq> filterTx p then p
      else p\<lparr>filterTx := 0, pktRecv := True, local_rx_hw := rx, stratum := ucast (get8 f ntp_stratum),
             leap := get_status f, precision := get8 f ntp_precision, version := get_version f, ntpMode := get_mode f,
             refId := get32 f ntp_refID, refTime := get64 f ntp_refTime, remote_rx := get64 f ntp_rxTime,
             remote_tx := get64 f ntp_txTime, rootDelay := htonl (get32 f ntp_rootDelay),
             rootDispersion := htonl (get32 f ntp_rootDispersion), rxValid := rxValid p + 1\<rparr>)"

definition receive :: "stamps \<Rightarrow> bytes \<Rightarrow> peer \<Rightarrow> peer" where
  "receive rx f p =
     (let p = p\<lparr>rxCount := rxCount p + 1\<rparr>
      in if pollXleave p then
           if get64 f ntp_origTime = filterTx p then p\<lparr>pktRecv := True, xleave := False\<rparr>
           else if get64 f ntp_origTime \<noteq> filterRx p then p
           else p\<lparr>remote_tx := get64 f ntp_txTime, pktRecv := True, xleave := True, rxValid := rxValid p + 1\<rparr>
         else receive_first rx f p)"

subsection \<open>The end of a poll\<close>

definition poll_sample :: "u64 \<Rightarrow> peer \<Rightarrow> sample" where
  "poll_sample utc p =
     (let rrx = htonll (remote_rx p) + utc - NTP_UTC_OFFSET;
          rtx = htonll (remote_tx p) + utc - NTP_UTC_OFFSET;
          d = (fst (snd (local_rx_hw p)) - fst (snd (local_tx_hw p))) - (rtx - rrx)
      in \<lparr>taiLocal = avg64 (snd (snd (local_tx_hw p))) (snd (snd (local_rx_hw p))), taiRemote = avg64 rrx rtx,
          delay = fmul (1 / 2 ^ 31) (f32 (of_int (sint (word_of_int (sint d div 4) :: i32))))\<rparr>)"

definition pollEnd :: "moment \<Rightarrow> u64 \<Rightarrow> peer \<Rightarrow> peer" where
  "pollEnd m utc p =
     (if stratum p > 15 then p
      else let p = p\<lparr>reach := reach p OR 1\<rparr>;
               p = advanceFilter p;
               p = put_sample (poll_sample utc p) p;
               p = updateFilter (m_fit m) (m_now m) p
           in p\<lparr>pollActive := False\<rparr>)"

definition adjust_poll :: "'z source_scheme \<Rightarrow> 'z source_scheme" where
  "adjust_poll p =
     (if sampleCount p = MAX_HISTORY \<and> reach p AND 0xFF = 0xFF \<and> pollCounter p \<ge> 8 \<and> poll p <s maxPoll p then
        let p = p\<lparr>pollCounter := 0, poll := poll p + 1\<rparr>
        in if poll p <s minPoll p then p\<lparr>poll := minPoll p\<rparr> else p
      else if reach p AND 0xF = 0 \<and> pollCounter p \<ge> 4 then
        let p = p\<lparr>lost := True, pollCounter := 0\<rparr>
        in if minPoll p <s poll p then p\<lparr>poll := poll p - 1\<rparr> else p
      else p)"

definition updateStatus :: "'z source_scheme \<Rightarrow> 'z source_scheme" where
  "updateStatus p =
     (let p = (if reach p AND 0xF \<noteq> 0 then p\<lparr>lost := False\<rparr> else p);
          p = p\<lparr>pollCounter := (if pollCounter p + 1 = 0 then - 1 else pollCounter p + 1)\<rparr>;
          p = adjust_poll p
      in p\<lparr>prune := (reach p = 0 \<and> pollCounter p \<ge> 16) \<or> stratum p > MAX_STRATUM
             \<or> usedOffset (stats p) > 7 \<and> flt_less MAX_DELAY (delayMean (stats p))\<rparr>)"

text \<open>The poll is over by a reply, or 500 ms after its start.\<close>

definition poll_timeout :: "moment \<Rightarrow> u64 \<Rightarrow> peer \<Rightarrow> peer" where
  "poll_timeout m utc p =
     (if m_now m - pollStart p > PEER_RESPONSE_TIMEOUT then
        let p = (if pollXleave p then pollEnd m utc (p\<lparr>xleave := False\<rparr>) else p)
        in p\<lparr>pollActive := False\<rparr>
      else p)"

definition pollRun :: "moment \<Rightarrow> nat \<Rightarrow> ('cb, 'z) peerst_scheme \<Rightarrow> bool \<times> ('cb, 'z) peerst_scheme" where
  "pollRun m i s =
     (let p = peers s ! i
      in if \<not> pktSent p then (True, pollSend (m_now m) i (upd_peer i (\<lambda>p. p\<lparr>pktSent := True, pktRecv := False\<rparr>) s))
         else if pktRecv p \<and> \<not> pollXleave p \<and> \<not> routed s (src_id p) then
           (True, pollSend (m_now m) i (upd_peer i (\<lambda>p. p\<lparr>pktRecv := False, pollXleave := True\<rparr>) s))
         else let s = (if pktRecv p then upd_peer i (\<lambda>p. pollEnd m (utcOffset s) (p\<lparr>pktRecv := False\<rparr>)) s
                       else upd_peer i (poll_timeout m (utcOffset s)) s)
              in if \<not> pollActive (peers s ! i) then (False, upd_peer i updateStatus s) else (True, s))"

subsection \<open>The task\<close>

definition poll_fuzz :: "u32 \<Rightarrow> 16 word \<Rightarrow> u64" where
  "poll_fuzz r n = drop_bit (nat (36 - sint n)) (fx_full r 0) OR push_bit (nat (32 + sint n)) 1"

definition schedule_poll :: "u32 \<Rightarrow> peer \<Rightarrow> peer" where
  "schedule_poll r p =
     (let x = poll_fuzz r (poll p)
      in p\<lparr>pollWait := fx_ipart x, pollTrim := drop_bit 8 (fx_fpart x),
           peerIntv := (if fx_ipart x \<noteq> 0 then RUN_SEC else drop_bit 8 (fx_fpart x))\<rparr>)"

definition start_poll :: "u64 \<Rightarrow> peer \<Rightarrow> peer" where
  "start_poll now p = p\<lparr>pollStart := now, pollActive := True, pollXleave := False, filterTx := 0, filterRx := 0,
     reach := push_bit 1 (reach p)\<rparr>"

definition Peer_run :: "moment \<Rightarrow> nat \<Rightarrow> ('cb, 'z) peerst_scheme \<Rightarrow> ('cb, 'z) peerst_scheme" where
  "Peer_run m i s =
     (if pollActive (peers s ! i) then
        let (more, s) = pollRun m i s
        in if more then s else upd_peer i (schedule_poll (m_random m)) s
      else
        let (invalid, s) = (if m_ethRaw m = 0 then (True, s) else isMacInvalid (m_seconds m) i s)
        in if invalid then upd_peer i (\<lambda>p. p\<lparr>peerIntv := IDLE_INTV\<rparr>) s
           else if pollWait (peers s ! i) \<noteq> 0 then
             upd_peer i (\<lambda>p. let p = p\<lparr>pollWait := pollWait p - 1\<rparr>
                              in if pollWait p = 0 then p\<lparr>peerIntv := pollTrim p\<rparr> else p) s
           else upd_peer i (\<lambda>p. p\<lparr>pktSent := True, peerIntv := ACTV_INTV\<rparr>)
                  (pollSend (m_now m) i (upd_peer i (start_poll (m_now m)) s)))"

section \<open>Polling intervals\<close>

text \<open>What every operation on a peer keeps: its identity, its limits, and an interval within them.\<close>

definition poll_ok :: "'z source_scheme \<Rightarrow> bool" where
  "poll_ok p \<longleftrightarrow> 1 \<le> sint (poll p) \<and> sint (poll p) \<le> sint (maxPoll p) \<and> sint (maxPoll p) \<le> 6
     \<and> 1 \<le> sint (minPoll p) \<and> sint (minPoll p) \<le> sint (maxPoll p)"

definition same :: "peer \<Rightarrow> peer \<Rightarrow> bool" where
  "same p q \<longleftrightarrow> src_id q = src_id p \<and> src_mode q = src_mode p \<and> (poll_ok p \<longrightarrow> poll_ok q)"

lemma same_refl [simp]: "same p p" and same_trans: "same p q \<Longrightarrow> same q r \<Longrightarrow> same p r"
  by (simp_all add: same_def)

lemma sameI: "src_id q = src_id p \<Longrightarrow> src_mode q = src_mode p \<Longrightarrow> poll q = poll p \<Longrightarrow> maxPoll q = maxPoll p \<Longrightarrow> minPoll q = minPoll p
    \<Longrightarrow> same p q"
  by (simp add: same_def poll_ok_def)

lemma sint_step16:
  fixes w :: "16 word"
  assumes "- 100 \<le> sint w" "sint w \<le> 100"
  shows "sint (w + 1) = sint w + 1" "sint (w - 1) = sint w - 1"
proof -
  have s: "sint (word_of_int k :: 16 word) = k" if "- 32768 \<le> k" "k < 32768" for k
    using that by (simp add: sint_sbintrunc' signed_take_bit_int_eq_self)
  have "w + 1 = word_of_int (sint w + 1)" "w - 1 = word_of_int (sint w - 1)" by simp_all
  moreover have "sint (word_of_int (sint w + 1) :: 16 word) = sint w + 1" "sint (word_of_int (sint w - 1) :: 16 word) = sint w - 1"
    using assms by (intro s; simp)+
  ultimately show "sint (w + 1) = sint w + 1" "sint (w - 1) = sint w - 1" by metis+
qed

lemma adjust_poll_fields: "src_id (adjust_poll p) = src_id p" "src_mode (adjust_poll p) = src_mode p"
  "maxPoll (adjust_poll p) = maxPoll p" "minPoll (adjust_poll p) = minPoll p"
  by (simp_all add: adjust_poll_def Let_def)

lemma adjust_poll_ok: "poll_ok p \<Longrightarrow> poll_ok (adjust_poll p)"
proof -
  assume p: "poll_ok p"
  then have "sint (poll p + 1) = sint (poll p) + 1" "sint (poll p - 1) = sint (poll p) - 1"
    using sint_step16 [of "poll p"] by (simp_all add: poll_ok_def)
  with p show ?thesis by (simp add: adjust_poll_def Let_def poll_ok_def word_sless_alt)
qed

lemma updateStatus_same: "same p (updateStatus p)"
proof -
  let ?q = "(if reach p AND 0xF \<noteq> 0 then p\<lparr>lost := False\<rparr> else p)"
  let ?r = "?q\<lparr>pollCounter := (if pollCounter ?q + 1 = 0 then - 1 else pollCounter ?q + 1)\<rparr>"
  have "poll_ok p \<Longrightarrow> poll_ok (adjust_poll ?r)" by (rule adjust_poll_ok) (simp add: poll_ok_def)
  then have "poll_ok p \<Longrightarrow> poll_ok (updateStatus p)" by (simp add: updateStatus_def Let_def poll_ok_def)
  then show ?thesis by (simp add: same_def updateStatus_def Let_def adjust_poll_fields)
qed

lemma method_same:
  "same p (poll_stamps t p)" "same p (receive rx f p)" "same p (pollEnd m u p)" "same p (poll_timeout m u p)"
  "same p (schedule_poll r p)" "same p (start_poll t p)" "same p (applyOffset d p)" "same p (snd (isSelectable p))"
  "same p (select p)"
  by (rule sameI; simp add: poll_stamps_def receive_def receive_first_def pollEnd_def poll_timeout_def schedule_poll_def
      start_poll_def Let_def advanceFilter_def put_sample_def updateFilter_def applyOffset_def isSelectable_def select_def)+

lemma int_div_bounds:
  fixes x :: int
  assumes "0 < d"
  shows "x < n * d \<Longrightarrow> x div d < n" "n * d \<le> x \<Longrightarrow> n \<le> x div d"
proof -
  assume "x < n * d"
  moreover have "x div d * d \<le> x" unfolding minus_mod_eq_div_mult [symmetric] using assms by simp
  ultimately have "x div d * d < n * d" by linarith
  then show "x div d < n" using assms by simp
next
  assume "n * d \<le> x"
  from zdiv_mono1 [OF this assms] show "n \<le> x div d" using assms by simp
qed

text \<open>The random part of an interval is below a sixteenth of it.\<close>

lemma poll_fuzz_range:
  assumes "1 \<le> sint n" "sint n \<le> 6"
  shows "2 ^ (32 + nat (sint n)) \<le> uint (poll_fuzz r n)"
    "uint (poll_fuzz r n) < 2 ^ (32 + nat (sint n)) + 2 ^ (28 + nat (sint n))"
proof -
  define k where "k = nat (sint n)"
  have k: "1 \<le> k" "k \<le> 6" "nat (36 - sint n) = 36 - k" "nat (32 + sint n) = 32 + k" using assms by (auto simp: k_def)
  define a where "a = (drop_bit (36 - k) (fx_full r 0) :: u64)"
  have ua: "uint a = uint r * 2 ^ 32 div 2 ^ (36 - k)"
    by (simp add: a_def uint_drop_bit uint_fx_full)
  also have "\<dots> < 2 ^ (28 + k)"
  proof -
    have "uint r * 2 ^ 32 < 2 ^ (28 + k) * 2 ^ (36 - k)"
      using uint_u32_range(2) [of r] k(2) by (simp flip: power_add)
    then show ?thesis by (intro int_div_bounds(1)) simp_all
  qed
  finally have b: "uint a < 2 ^ (28 + k)" .
  have "a AND push_bit (32 + k) 1 = 0"
  proof (rule bit_word_eqI)
    fix i assume i: "i < LENGTH(64)"
    have "(2 :: int) ^ (28 + k) \<le> 2 ^ (32 + k)" by (rule power_increasing) simp_all
    with b have "uint a < 2 ^ (32 + k)" by (rule less_le_trans)
    then have "uint a div 2 ^ (32 + k) = 0" by (simp add: div_pos_pos_trivial)
    then have "\<not> bit (uint a) (32 + k)" by (simp add: bit_iff_odd)
    then have "\<not> bit a (32 + k)" using k by (simp add: bit_uint_iff)
    then show "bit (a AND push_bit (32 + k) 1) i = bit (0 :: u64) i" by (auto simp: bit_simps)
  qed
  then have e: "poll_fuzz r n = a + push_bit (32 + k) 1"
    using k by (simp add: poll_fuzz_def a_def disjunctive_add_eq_or)
  have p: "uint (push_bit (32 + k) 1 :: u64) = 2 ^ (32 + k)"
    using k by (subst unsigned_push_bit_eq) (simp add: take_bit_push_bit push_bit_eq_mult)
  have le: "(2 :: int) ^ (32 + k) \<le> 2 ^ 38" "(2 :: int) ^ (28 + k) \<le> 2 ^ 34" using k by (intro power_increasing; simp)+
  have "uint (poll_fuzz r n) = uint a + 2 ^ (32 + k)"
    unfolding e uint_word_ariths p using b le by (simp add: mod_pos_pos_trivial)
  then show "2 ^ (32 + nat (sint n)) \<le> uint (poll_fuzz r n)"
    "uint (poll_fuzz r n) < 2 ^ (32 + nat (sint n)) + 2 ^ (28 + nat (sint n))"
    using b by (simp_all add: k_def [symmetric])
qed

section \<open>Operations on the slots\<close>

lemma peers_upd_peer [simp]: "peers (upd_peer i f s) = (peers s)[i := f (peers s ! i)]"
  by (simp add: upd_peer_def)

lemma ARP_request_peers [simp]: "peers (snd (ARP_request t a c r s)) = peers s"
  by (simp add: ARP_request_def transmit_frame_def Let_def split: option.split)

lemma updateMac_peers: "\<exists>f. peers (updateMac t i s) = (peers s)[i := f (peers s ! i)] \<and> (\<forall>p. same p (f p))
  \<and> (\<forall>p. pollWait (f p) = pollWait p) \<and> (\<forall>p. pollActive (f p) = pollActive p)"
proof (cases "routed (upd_peer i (\<lambda>p. p\<lparr>peerArp := t\<rparr>) s) (src_id ((peers s)[i := (peers s ! i)\<lparr>peerArp := t\<rparr>] ! i))")
  case True
  then show ?thesis
    by (intro exI [of _ "\<lambda>p. p\<lparr>peerArp := t, macAddr := copyMAC (macAddr p) 0 (macRouter s)\<rparr>"])
      (cases "i < length (peers s)"; auto simp: updateMac_def Let_def upd_peer_def list_update_beyond not_less intro!: sameI)
next
  case False
  then show ?thesis
    by (intro exI [of _ "\<lambda>p. p\<lparr>peerArp := t\<rparr>"]) (auto simp: updateMac_def Let_def intro!: sameI)
qed

lemma pollSend_peers: "peers (pollSend now i s) = (peers s)[i := (poll_stamps now (peers s ! i))\<lparr>txCount := txCount (peers s ! i) + 1\<rparr>]"
  by (simp add: pollSend_def IPv4_init_def transmit_frame_def Let_def)

text \<open>A poll that has waited longer than the timeout is over after at most two more runs of the task.\<close>

definition scheduled :: "peer \<Rightarrow> bool" where
  "scheduled p \<longleftrightarrow> (let n = nat (sint (poll p)); t = uint (pollWait p) * 2 ^ 24 + uint (pollTrim p)
     in 2 ^ (24 + n) \<le> t \<and> t < 2 ^ (24 + n) + 2 ^ (20 + n))"

lemma schedule_poll_scheduled:
  assumes "poll_ok p"
  shows "scheduled (schedule_poll r p)"
proof -
  define n where "n = nat (sint (poll p))"
  define x where "x = uint (poll_fuzz r (poll p))"
  have n: "1 \<le> sint (poll p)" "sint (poll p) \<le> 6" using assms by (auto simp: poll_ok_def)
  from poll_fuzz_range [OF this, of r] have x: "2 ^ (32 + n) \<le> x" "x < 2 ^ (32 + n) + 2 ^ (28 + n)" by (simp_all add: x_def n_def)
  have f: "uint (drop_bit 8 (fx_fpart (poll_fuzz r (poll p)))) = x mod 2 ^ 32 div 2 ^ 8"
    by (simp add: fx_fpart_def uint_drop_bit uint_ucast_64_32 x_def)
  have "x div 2 ^ 32 < 2 ^ 32" using uint_bounded [of "poll_fuzz r (poll p)"] by (simp add: x_def)
  then have i: "uint (fx_ipart (poll_fuzz r (poll p))) = x div 2 ^ 32"
    using pos_imp_zdiv_nonneg_iff [of "2 ^ 32" x]
    by (simp add: fx_ipart_def uint_ucast_64_32 uint_drop_bit mod_pos_pos_trivial x_def)
  have "(x div 2 ^ 32 * 2 ^ 24) * 2 ^ 8 + x mod 2 ^ 32 = x" using div_mult_mod_eq [of x "2 ^ 32"] by simp
  moreover have "((x div 2 ^ 32 * 2 ^ 24) * 2 ^ 8 + x mod 2 ^ 32) div 2 ^ 8 = x div 2 ^ 32 * 2 ^ 24 + x mod 2 ^ 32 div 2 ^ 8"
    by (rule div_mult_self3) simp
  ultimately have "x div 2 ^ 32 * 2 ^ 24 + x mod 2 ^ 32 div 2 ^ 8 = x div 2 ^ 8" by simp
  moreover have "2 ^ (24 + n) \<le> x div 2 ^ 8" "x div 2 ^ 8 < 2 ^ (24 + n) + 2 ^ (20 + n)"
    using x by (intro int_div_bounds; simp add: power_add)+
  ultimately show ?thesis by (simp add: scheduled_def schedule_poll_def Let_def f i n_def [symmetric])
qed

lemma updateStatus_active [simp]: "pollActive (updateStatus p) = pollActive p"
  by (simp add: updateStatus_def adjust_poll_def Let_def)

lemma poll_timeout_late: "m_now m - pollStart p > PEER_RESPONSE_TIMEOUT \<Longrightarrow> \<not> pollActive (poll_timeout m u p)"
  by (simp add: poll_timeout_def Let_def)

lemma pollRun_late:
  assumes i: "i < length (peers s)" and p: "p = peers s ! i" "pktSent p" "pollActive p"
    and late: "m_now m - pollStart p > PEER_RESPONSE_TIMEOUT" and r: "pollRun m i s = (b, t)"
  defines "q \<equiv> peers t ! i"
  shows "length (peers t) = length (peers s)" "same p q" "b = pollActive q" "pollActive q \<Longrightarrow> pktRecv p"
    "pollActive q \<Longrightarrow> pktSent q \<and> \<not> pktRecv q \<and> pollStart q = pollStart p"
    "pollActive q \<Longrightarrow> stratum p \<le> 15 \<Longrightarrow> \<not> pollXleave p \<and> pollXleave q \<and> stratum q = stratum p"
proof -
  consider (follow) "pktRecv p" "\<not> pollXleave p" "\<not> routed s (src_id p)"
    | (reply) "pktRecv p" "pollXleave p \<or> routed s (src_id p)" | (none) "\<not> pktRecv p" by blast
  then have "length (peers t) = length (peers s) \<and> same p q \<and> b = pollActive q \<and> (pollActive q \<longrightarrow> pktRecv p)
    \<and> (pollActive q \<longrightarrow> pktSent q \<and> \<not> pktRecv q \<and> pollStart q = pollStart p)
    \<and> (pollActive q \<longrightarrow> stratum p \<le> 15 \<longrightarrow> \<not> pollXleave p \<and> pollXleave q \<and> stratum q = stratum p)"
  proof cases
    case follow
    have "same p ((poll_stamps t' (p\<lparr>pktRecv := False, pollXleave := True\<rparr>))\<lparr>txCount := n\<rparr>)" for t' n
      by (rule sameI) (simp_all add: poll_stamps_def)
    moreover have "q = (poll_stamps (m_now m) (p\<lparr>pktRecv := False, pollXleave := True\<rparr>))\<lparr>txCount := txCount p + 1\<rparr>"
      "b" "length (peers t) = length (peers s)"
      using r follow i p by (auto simp: pollRun_def Let_def pollSend_peers q_def)
    ultimately show ?thesis using follow p by (simp add: poll_stamps_def)
  next
    case reply
    let ?e = "pollEnd m (utcOffset s) (p\<lparr>pktRecv := False\<rparr>)"
    have e: "pktSent ?e" "\<not> pktRecv ?e" "pollStart ?e = pollStart p"
      using p by (simp_all add: pollEnd_def advanceFilter_def put_sample_def updateFilter_def Let_def)
    have e': "stratum p \<le> 15 \<Longrightarrow> \<not> pollActive ?e" by (auto simp: pollEnd_def Let_def dest: leD)
    have s: "same p ?e" "same p (updateStatus ?e)"
      using same_trans [OF _ method_same(3), of p "p\<lparr>pktRecv := False\<rparr>"] same_trans [OF _ updateStatus_same]
      by (simp_all add: sameI)
    have "q = (if pollActive ?e then ?e else updateStatus ?e)" "b = pollActive ?e" "length (peers t) = length (peers s)"
      using r reply i p by (auto simp: pollRun_def Let_def q_def upd_peer_def split: if_splits)
    then show ?thesis using reply e e' s by (cases "pollActive ?e") auto
  next
    case none
    let ?e = "poll_timeout m (utcOffset s) p"
    have e: "\<not> pollActive ?e" by (rule poll_timeout_late [OF late])
    then have "q = updateStatus ?e" "\<not> b" "length (peers t) = length (peers s)"
      using r none i p by (auto simp: pollRun_def Let_def q_def upd_peer_def split: if_splits)
    then show ?thesis using e same_trans [OF method_same(4) updateStatus_same] by simp
  qed
  then show "length (peers t) = length (peers s)" "same p q" "b = pollActive q" "pollActive q \<Longrightarrow> pktRecv p"
    "pollActive q \<Longrightarrow> pktSent q \<and> \<not> pktRecv q \<and> pollStart q = pollStart p"
    "pollActive q \<Longrightarrow> stratum p \<le> 15 \<Longrightarrow> \<not> pollXleave p \<and> pollXleave q \<and> stratum q = stratum p" by blast+
qed

lemma Peer_run_late:
  assumes i: "i < length (peers s)" and p: "p = peers s ! i" "pktSent p" "pollActive p" "poll_ok p"
    and late: "m_now m - pollStart p > PEER_RESPONSE_TIMEOUT"
  defines "q \<equiv> peers (Peer_run m i s) ! i"
  shows "length (peers (Peer_run m i s)) = length (peers s)" "poll_ok q" "\<not> pollActive q \<Longrightarrow> scheduled q"
    "pollActive q \<Longrightarrow> pktRecv p \<and> pktSent q \<and> \<not> pktRecv q \<and> pollStart q = pollStart p"
    "pollActive q \<Longrightarrow> stratum p \<le> 15 \<Longrightarrow> \<not> pollXleave p \<and> pollXleave q \<and> stratum q = stratum p"
proof -
  obtain b t where r: "pollRun m i s = (b, t)" by fastforce
  note l = pollRun_late [OF i p(1-3) late r]
  have ok: "poll_ok (peers t ! i)" using l(2) p(4) by (simp add: same_def)
  have ok': "poll_ok (schedule_poll (m_random m) (peers t ! i))"
    using method_same(5) ok unfolding same_def by blast
  have a: "pollActive (schedule_poll x y) = pollActive y" for x y by (simp add: schedule_poll_def Let_def)
  have "Peer_run m i s = (if b then t else upd_peer i (schedule_poll (m_random m)) t)"
    using p r by (simp add: Peer_run_def Let_def)
  then have "length (peers (Peer_run m i s)) = length (peers s)"
    "q = (if pollActive (peers t ! i) then peers t ! i else schedule_poll (m_random m) (peers t ! i))"
    using i l(1,3) by (auto simp: q_def)
  then show "length (peers (Peer_run m i s)) = length (peers s)" "poll_ok q" "\<not> pollActive q \<Longrightarrow> scheduled q"
    "pollActive q \<Longrightarrow> pktRecv p \<and> pktSent q \<and> \<not> pktRecv q \<and> pollStart q = pollStart p"
    "pollActive q \<Longrightarrow> stratum p \<le> 15 \<Longrightarrow> \<not> pollXleave p \<and> pollXleave q \<and> stratum q = stratum p"
    using l(4-6) ok ok' schedule_poll_scheduled [OF ok] by (auto simp: a)
qed

definition run_active :: "moment \<Rightarrow> nat \<Rightarrow> ('cb, 'z) peerst_scheme \<Rightarrow> ('cb, 'z) peerst_scheme" where
  "run_active m i s = (if pollActive (peers s ! i) then Peer_run m i s else s)"

text \<open>
  The responses that arrive between two runs. Once the follow-up request is out they leave the stratum alone.
\<close>

definition receives :: "(stamps \<times> bytes) list \<Rightarrow> nat \<Rightarrow> ('cb, 'z) peerst_scheme \<Rightarrow> ('cb, 'z) peerst_scheme" where
  "receives rs i s = fold (\<lambda>(rx, f). upd_peer i (receive rx f)) rs s"

lemma receive_rest:
  "pollActive (receive rx f p) = pollActive p" "pollStart (receive rx f p) = pollStart p" "pktSent (receive rx f p) = pktSent p"
  "pollXleave (receive rx f p) = pollXleave p" "poll_ok (receive rx f p) = poll_ok p" "scheduled (receive rx f p) = scheduled p"
  "pollXleave p \<Longrightarrow> stratum (receive rx f p) = stratum p"
  by (simp_all add: receive_def receive_first_def Let_def poll_ok_def scheduled_def)

lemma receives_rest:
  fixes rs :: "(stamps \<times> bytes) list"
  assumes "i < length (peers s)"
  defines "p \<equiv> peers s ! i" and "q \<equiv> peers (receives rs i s) ! i"
  shows "length (peers (receives rs i s)) = length (peers s)" "pollActive q = pollActive p" "pollStart q = pollStart p"
    "pktSent q = pktSent p" "pollXleave q = pollXleave p" "poll_ok q = poll_ok p" "scheduled q = scheduled p"
    "pollXleave p \<Longrightarrow> stratum q = stratum p"
proof -
  have "length (peers (receives rs i s)) = length (peers s) \<and> pollActive q = pollActive p \<and> pollStart q = pollStart p
    \<and> pktSent q = pktSent p \<and> pollXleave q = pollXleave p \<and> poll_ok q = poll_ok p \<and> scheduled q = scheduled p
    \<and> (pollXleave p \<longrightarrow> stratum q = stratum p)"
    unfolding p_def q_def receives_def using assms(1)
    by (induction rs arbitrary: s) (simp_all add: upd_peer_def receive_rest split: prod.splits)
  then show "length (peers (receives rs i s)) = length (peers s)" "pollActive q = pollActive p" "pollStart q = pollStart p"
    "pktSent q = pktSent p" "pollXleave q = pollXleave p" "poll_ok q = poll_ok p" "scheduled q = scheduled p"
    "pollXleave p \<Longrightarrow> stratum q = stratum p" by blast+
qed

lemma two_runs:
  assumes i: "i < length (peers s)" and p: "p = peers s ! i" "pktSent p" "pollActive p" "poll_ok p"
    and late: "m_now m - pollStart p > PEER_RESPONSE_TIMEOUT" "m_now m' - pollStart p > PEER_RESPONSE_TIMEOUT"
    and rs: "rs = [] \<or> stratum p \<le> 15"
  shows "let q = peers (run_active m' i (receives rs i (run_active m i s))) ! i in \<not> pollActive q \<and> scheduled q"
proof -
  define t where "t = Peer_run m i s"
  define u where "u = receives rs i t"
  have r: "run_active m i s = t" using p by (simp add: run_active_def t_def)
  note l = Peer_run_late [OF i p late(1), folded t_def]
  have it: "i < length (peers t)" using l(1) i by simp
  note c = receives_rest [OF it, of rs, folded u_def]
  show ?thesis
  proof (cases "pollActive (peers t ! i)")
    case False
    then show ?thesis using l(3) c unfolding r u_def [symmetric] by (simp add: run_active_def)
  next
    case True
    note lt = l(4) [OF True]
    have a: "m_now m' - pollStart (peers u ! i) > PEER_RESPONSE_TIMEOUT" "i < length (peers u)" "pktSent (peers u ! i)"
      "pollActive (peers u ! i)" "poll_ok (peers u ! i)"
      using c l(2) lt it late(2) True by simp_all
    note l' = Peer_run_late [OF a(2) refl a(3,4,5) a(1)]
    have n: "\<not> pollActive (peers (Peer_run m' i u) ! i)"
    proof (cases "rs = []")
      case True
      then have "u = t" by (simp add: u_def receives_def)
      with l'(4) lt show ?thesis by blast
    next
      case False
      with rs have st: "stratum p \<le> 15" by simp
      from l(5) [OF True st] c(5,8) st have "pollXleave (peers u ! i)" "stratum (peers u ! i) \<le> 15" by simp_all
      with l'(5) show ?thesis by blast
    qed
    then show ?thesis using l'(3) [OF n] a(4) unfolding r u_def [symmetric] by (simp add: run_active_def)
  qed
qed

end
