(* ===== verification/Ntp.thy ===== *)
theory Ntp
  imports NtpPeer Clocks
begin

unbundle bit_operations_syntax

text \<open>
  The time server (lib/ntp/ntp.cpp and GPS.cpp): replies to clients with the table of interleaved
  timestamps, the list of sources, their selection, and the peers found by DHCP and DNS. The array of
  pointers \<open>sources\<close> is the list of its first \<open>cntSources\<close> entries; a pointer is the GPS source or a slot of
  \<open>rawPeers\<close>. The calls of the phase-locked loop are recorded in \<open>pllCalls\<close>;
  theory \<open>Pll\<close> has the loop and composes it with the server. \<open>None\<close> is a conversion of a float out of the range of the integer.
\<close>

section \<open>State\<close>

datatype src_ref = SrcGps | SrcPeer nat

record gps_source = source +
  lastPoll :: u64
  lastPps :: u64

record 'cb ntpst = "'cb peerst" +
  gpsSource :: gps_source
  sources :: "src_ref list"
  selectedSource :: "src_ref option"
  ntpUpdate :: u64
  leapIndicator :: i32
  clockStratum :: i32
  ntpRefId :: u32
  ntpRootDelay :: u32
  ntpRootDispersion :: u32
  tsXleave :: "10 word \<Rightarrow> u64 \<times> u64"
  pllCalls :: "(16 word \<times> i64) list"

abbreviation (input) MAX_NTP_PEERS :: nat where "MAX_NTP_PEERS \<equiv> 8"
abbreviation (input) MAX_NTP_SRCS :: nat where "MAX_NTP_SRCS \<equiv> 9"
abbreviation (input) GPS_REF_ID :: u32 where "GPS_REF_ID \<equiv> 0x00535047"
abbreviation (input) DEFAULT_CANDM_PORT :: u16 where "DEFAULT_CANDM_PORT \<equiv> 323"

definition NTP_POOL_FQDN :: bytes where
  "NTP_POOL_FQDN = [0x70, 0x6F, 0x6F, 0x6C, 0x2E, 0x6E, 0x74, 0x70, 0x2E, 0x6F, 0x72, 0x67]"

section \<open>The GPS source\<close>

definition GPS_new :: gps_source where
  "GPS_new = source.extend ((Source_new GPS_REF_ID RPY_SD_MD_REF)\<lparr>version := 4, ntpMode := 4, precision := NTP_CLK_PREC,
     maxPoll := 0, minPoll := 0, poll := 0\<rparr>) (gps_source.fields 0 0)"

definition GPS_updateStatus :: "gps_source \<Rightarrow> gps_source" where
  "GPS_updateStatus g = (if reach g = 0 then g\<lparr>lost := True\<rparr> else if reach g = 0xFFFF then g\<lparr>lost := False\<rparr> else g)"

text \<open>The remote time of a pulse: the epoch of the second that the receiver's last report announced.\<close>

definition gps_sample :: "stamps \<Rightarrow> u32 \<Rightarrow> u64 \<Rightarrow> sample" where
  "gps_sample pps epoch update =
     (let x = fst pps - update
      in \<lparr>taiLocal = snd (snd pps), taiRemote = fx_full (fx_ipart x + epoch + 1) 0, delay = 0\<rparr>)"

text \<open>The result has the new UTC offset when a pulse is recorded.\<close>

definition GPS_run :: "moment \<Rightarrow> stamps \<Rightarrow> u32 \<Rightarrow> u32 \<Rightarrow> u64 \<Rightarrow> gps_source \<Rightarrow> u64 option \<times> gps_source" where
  "GPS_run m pps epoch tai_utc update g =
     (if m_now m - fst pps > 0x140000000 then
        if sint (m_now m - lastPoll g) > 0x100000000 then
          (None, GPS_updateStatus (g\<lparr>lastPoll := m_now m, reach := push_bit 1 (reach g), txCount := txCount g + 1\<rparr>))
        else (None, g)
      else if epoch = 0 then (None, g)
      else if fst pps = lastPps g then (None, g)
      else let g = g\<lparr>lastPoll := m_now m, lastPps := fst pps, reach := push_bit 1 (reach g) OR 1, rxCount := rxCount g + 1,
                     rxValid := rxValid g + 1, txCount := txCount g + 1\<rparr>;
               g = put_sample (gps_sample pps epoch update) (advanceFilter g);
               g = updateFilter (m_fit m) (m_now m) g
           in (Some (fx_full tai_utc 0), GPS_updateStatus g))"

definition gps_run :: "moment \<Rightarrow> stamps \<Rightarrow> u32 \<Rightarrow> u32 \<Rightarrow> u64 \<Rightarrow> 'cb ntpst \<Rightarrow> 'cb ntpst" where
  "gps_run m pps epoch tai_utc update s =
     (let (utc, g) = GPS_run m pps epoch tai_utc update (gpsSource s)
      in s\<lparr>gpsSource := g, utcOffset := (case utc of None \<Rightarrow> utcOffset s | Some u \<Rightarrow> u)\<rparr>)"

section \<open>The list of sources\<close>

definition source_of :: "src_ref \<Rightarrow> 'cb ntpst \<Rightarrow> source" where
  "source_of r s = (case r of SrcGps \<Rightarrow> source.truncate (gpsSource s) | SrcPeer i \<Rightarrow> source.truncate (peers s ! i))"

definition newPeer :: "u32 \<Rightarrow> 'cb ntpst \<Rightarrow> 'cb ntpst" where
  "newPeer ipAddr s =
     (case first_slot (\<lambda>p. \<not> isAllocated p) (peers s) of
        None \<Rightarrow> s
      | Some i \<Rightarrow> s\<lparr>peers := (peers s)[i := Peer_new ipAddr s], sources := sources s @ [SrcPeer i]\<rparr>)"

definition last_slot :: "'a \<Rightarrow> 'a list \<Rightarrow> nat option" where
  "last_slot x xs = fold (\<lambda>i slot. if xs ! i = x then Some i else slot) [0 ..< length xs] None"

definition destroy :: "src_ref \<Rightarrow> 'cb ntpst \<Rightarrow> 'cb ntpst" where
  "destroy r s = (case r of SrcGps \<Rightarrow> s\<lparr>gpsSource := Source_delete (gpsSource s)\<rparr> | SrcPeer i \<Rightarrow> upd_peer i Source_delete s)"

definition deletePeer :: "src_ref \<Rightarrow> 'cb ntpst \<Rightarrow> 'cb ntpst" where
  "deletePeer r s =
     (let s = (if selectedSource s = Some r then s\<lparr>selectedSource := None\<rparr> else s)
      in case last_slot r (sources s) of
           None \<Rightarrow> s
         | Some k \<Rightarrow> destroy r (s\<lparr>sources := take k (sources s) @ drop (Suc k) (sources s)\<rparr>))"

definition ntpDnsCallback :: "ntp_dns \<Rightarrow> u32 \<Rightarrow> u32 \<Rightarrow> 'cb ntpst \<Rightarrow> 'cb ntpst" where
  "ntpDnsCallback e r addr s =
     (if length (sources s) \<ge> MAX_NTP_SRCS then s
      else if addr = ipAddress s then s
      else if list_ex (\<lambda>x. isRecipient addr (source_of x s)) (sources s) then s
      else newPeer addr s)"

definition runDnsFill :: "u32 \<Rightarrow> 'cb ntpst \<Rightarrow> 'cb ntpst option" where
  "runDnsFill now s =
     (if length (sources s) < MAX_NTP_SRCS then
        let s = fold (ntpDnsCallback NtpDns 0) (take (ntpLen s) (ntpAddr s)) s
        in map_option snd (DNS_lookup now NTP_POOL_FQDN NtpDns 0 s)
      else Some s)"

definition ntpApplyOffset :: "i64 \<Rightarrow> 'cb ntpst \<Rightarrow> 'cb ntpst" where
  "ntpApplyOffset offset s =
     fold (\<lambda>r s. case r of SrcGps \<Rightarrow> s\<lparr>gpsSource := applyOffset offset (gpsSource s)\<rparr>
                         | SrcPeer i \<Rightarrow> upd_peer i (applyOffset offset) s) (sources s) s"

section \<open>Selection\<close>

definition isSelectable_at :: "src_ref \<Rightarrow> 'cb ntpst \<Rightarrow> bool \<times> 'cb ntpst" where
  "isSelectable_at r s =
     (case r of
        SrcGps \<Rightarrow> let (b, g) = isSelectable (gpsSource s) in (b, s\<lparr>gpsSource := g\<rparr>)
      | SrcPeer i \<Rightarrow> (fst (isSelectable (peers s ! i)), upd_peer i (snd \<circ> isSelectable) s))"

definition select_at :: "src_ref \<Rightarrow> 'cb ntpst \<Rightarrow> 'cb ntpst" where
  "select_at r s = (case r of SrcGps \<Rightarrow> s\<lparr>gpsSource := select (gpsSource s)\<rparr> | SrcPeer i \<Rightarrow> upd_peer i select s)"

definition select_step :: "src_ref \<Rightarrow> 'cb ntpst \<Rightarrow> 'cb ntpst" where
  "select_step r s =
     (let (ok, s) = isSelectable_at r s
      in if \<not> ok then s
         else case selectedSource s of
           None \<Rightarrow> s\<lparr>selectedSource := Some r\<rparr>
         | Some b \<Rightarrow> if flt_less (score (stats (source_of r s))) (score (stats (source_of b s)))
                     then s\<lparr>selectedSource := Some r\<rparr> else s)"

definition prune_sources :: "'cb ntpst \<Rightarrow> 'cb ntpst" where
  "prune_sources s = (case first_slot (\<lambda>r. isPruneable (source_of r s)) (sources s) of
     None \<Rightarrow> s | Some k \<Rightarrow> deletePeer (sources s ! k) s)"

definition select_best :: "'cb ntpst \<Rightarrow> 'cb ntpst" where
  "select_best s = fold select_step (sources s) (s\<lparr>selectedSource := None\<rparr>)"

text \<open>\<open>static_cast<uint32_t>(0x1p16f * x)\<close>\<close>

definition scale16 :: "flt \<Rightarrow> u32 option" where
  "scale16 x = (case x of
     Fin v \<Rightarrow> (let y = fmul (2 ^ 16) v; n = (if y < 0 then - \<lfloor>- y\<rfloor> else \<lfloor>y\<rfloor>)
              in if 0 \<le> n \<and> n < 2 ^ 32 then Some (word_of_int n) else None)
   | _ \<Rightarrow> None)"

definition runSelect :: "'cb ntpst \<Rightarrow> 'cb ntpst option" where
  "runSelect s =
     (let s = select_best (prune_sources s)
      in case selectedSource s of
           None \<Rightarrow> Some (s\<lparr>ntpRefId := 0, clockStratum := 16, leapIndicator := 3, ntpRootDelay := 0, ntpRootDispersion := 0\<rparr>)
         | Some r \<Rightarrow>
             let s = select_at r s; x = source_of r s
             in if ntpUpdate s = lastUpdate x then Some s
                else case (scale16 (delayMean (stats x)), scale16 (delayStdDev (stats x))) of
                  (Some a, Some b) \<Rightarrow>
                    Some (s\<lparr>ntpUpdate := lastUpdate x, ntpRefId := src_id x, clockStratum := ucast (stratum x) + 1,
                            leapIndicator := ucast (leap x), ntpRootDelay := rootDelay x + a,
                            ntpRootDispersion := rootDispersion x + b,
                            pllCalls := pllCalls s @ [(poll x, filteredOffset x)]\<rparr>)
                | _ \<Rightarrow> None)"

section \<open>Clients\<close>

definition hashXleave :: "u32 \<Rightarrow> 10 word" where
  "hashXleave addr = ucast (drop_bit 22 (addr * 0xDE9DB139))"

definition ntp_stamp :: "u64 \<Rightarrow> 'cb ntpst \<Rightarrow> u64" where
  "ntp_stamp tai s = htonll (tai - utcOffset s + NTP_UTC_OFFSET)"

definition ntpTxCallback :: "stamps \<Rightarrow> bytes \<Rightarrow> 'cb ntpst \<Rightarrow> 'cb ntpst" where
  "ntpTxCallback tx f s =
     s\<lparr>tsXleave := (tsXleave s)(hashXleave (get32 f ip4_dst) := (get64 f ntp_rxTime, ntp_stamp (snd (snd tx)) s))\<rparr>"

definition xleave_cell :: "bytes \<Rightarrow> 'cb ntpst \<Rightarrow> (10 word) option" where
  "xleave_cell f s =
     (let orgTime = get64 f ntp_origTime; cell = hashXleave (get32 f ip4_src)
      in if orgTime \<noteq> 0 \<and> get64 f ntp_rxTime \<noteq> get64 f ntp_txTime \<and> orgTime = fst (tsXleave s cell) then Some cell else None)"

definition server_fields :: "u64 \<Rightarrow> 'cb ntpst \<Rightarrow> bytes \<Rightarrow> bytes" where
  "server_fields reftime s f =
     (let f = put_mode f NTP_MODE_SRV;
          f = put_status f (ucast (leapIndicator s));
          f = put8 f ntp_stratum (ucast (clockStratum s));
          f = put8 f ntp_precision NTP_CLK_PREC;
          f = put32 f ntp_rootDelay (htonl (ntpRootDelay s));
          f = put32 f ntp_rootDispersion (htonl (ntpRootDispersion s));
          f = put32 f ntp_refID (ntpRefId s)
      in put64 f ntp_refTime (ntp_stamp reftime s))"

text \<open>The transmission's callback is \<open>ntpTxCallback\<close>, an event of its own.\<close>

definition ntpRequest :: "'a tai_clk_scheme \<Rightarrow> u32 \<Rightarrow> stamps \<Rightarrow> bytes \<Rightarrow> nat \<Rightarrow> 'cb ntpst \<Rightarrow> 'cb ntpst" where
  "ntpRequest c raw rx frame flen s =
     (if flen < FrameNtp_size then s
      else if get32 frame ip4_dst \<noteq> ipAddress s then s
      else if get32 frame ip4_src = ipAddress s then s
      else if get_mode frame \<noteq> NTP_MODE_CLI then s
      else let cell = xleave_cell frame s;
               f = returnToSender (take flen frame);
               f = server_fields (tai_fromMono c (ntpUpdate s)) s f;
               f = (case cell of
                      None \<Rightarrow> put64 (put64 f ntp_origTime (get64 frame ntp_txTime)) ntp_txTime (ntp_stamp (tai_now c raw) s)
                    | Some k \<Rightarrow> put64 (put64 f ntp_origTime (get64 frame ntp_rxTime)) ntp_txTime (snd (tsXleave s k)));
               f = put64 f ntp_rxTime (ntp_stamp (snd (snd rx)) s)
           in transmit_frame (IPv4_finalize (UDP_finalize f flen) flen) flen s)"

definition ntpResponse :: "stamps \<Rightarrow> bytes \<Rightarrow> nat \<Rightarrow> 'cb ntpst \<Rightarrow> 'cb ntpst" where
  "ntpResponse rx frame flen s =
     (if flen < FrameNtp_size then s
      else if isMyMAC s (rd frame eth_macDst 6) \<noteq> 0 then s
      else if get32 frame ip4_dst \<noteq> ipAddress s then s
      else if get32 frame ip4_src = ipAddress s then s
      else if get_mode frame \<noteq> NTP_MODE_SRV then s
      else if get64 frame ntp_origTime = 0 then s
      else case first_slot (\<lambda>r. isRecipient (get32 frame ip4_src) (source_of r s)) (sources s) of
        None \<Rightarrow> s
      | Some k \<Rightarrow> (case sources s ! k of SrcGps \<Rightarrow> s | SrcPeer i \<Rightarrow> upd_peer i (receive rx frame) s))"

definition ntp_init :: "'cb \<Rightarrow> 'cb \<Rightarrow> 'cb \<Rightarrow> 'cb ntpst \<Rightarrow> 'cb ntpst" where
  "ntp_init request response chronyc s =
     (let s = snd (UDP_register NTP_PORT_SRV request s);
          s = snd (UDP_register NTP_PORT_CLI response s);
          s = snd (UDP_register DEFAULT_CANDM_PORT chronyc s)
      in s\<lparr>gpsSource := GPS_new, sources := sources s @ [SrcGps]\<rparr>)"

section \<open>The callbacks of the lower layers\<close>

text \<open>The peers are the clients of address resolution above DNS, and the source list is the client of DNS.\<close>

lemma upd_peer_table [simp]: "arpRequests (upd_peer i f s) = arpRequests s" "dnsRequests (upd_peer i f s) = dnsRequests s"
  by (simp_all add: upd_peer_def)

interpretation peer_arp: other_clients "peer_arpCallback seconds" seconds for seconds
  by unfold_locales (simp add: peer_arpCallback_def Let_def)

lemma newPeer_requests: "dnsRequests (newPeer a s) = dnsRequests s"
  by (simp add: newPeer_def split: option.split)

interpretation ntp_dns: dns_clients ntpDnsCallback
  by unfold_locales (simp add: ntpDnsCallback_def newPeer_requests)

section \<open>The sources are consistent\<close>

fun slots_of :: "src_ref list \<Rightarrow> nat list" where
  "slots_of [] = []"
| "slots_of (SrcGps # rs) = slots_of rs"
| "slots_of (SrcPeer i # rs) = i # slots_of rs"

lemma slots_of_append [simp]: "slots_of (rs @ rs') = slots_of rs @ slots_of rs'"
  by (induction rs rule: slots_of.induct) simp_all

lemma slots_of_map [simp]: "slots_of (map SrcPeer is) = is"
  by (induction "is") simp_all

text \<open>
  The list starts with the GPS source; after it comes every allocated slot of \<open>rawPeers\<close> once. The
  addresses of the peers differ, and their polling intervals are within their limits.
\<close>

definition peer_ids :: "'cb ntpst \<Rightarrow> u32 list" where
  "peer_ids s = map (\<lambda>i. src_id (peers s ! i)) (slots_of (sources s))"

definition sources_ok :: "'cb ntpst \<Rightarrow> bool" where
  "sources_ok s \<longleftrightarrow> length (peers s) = MAX_NTP_PEERS \<and> sources s = SrcGps # map SrcPeer (slots_of (sources s))
     \<and> distinct (slots_of (sources s)) \<and> isReference (gpsSource s)
     \<and> list_all (\<lambda>i. (i \<in> set (slots_of (sources s))) = isAllocated (peers s ! i)) [0 ..< MAX_NTP_PEERS]
     \<and> list_all (\<lambda>i. i < MAX_NTP_PEERS \<and> isRemote (peers s ! i) \<and> poll_ok (peers s ! i)) (slots_of (sources s))
     \<and> distinct (peer_ids s) \<and> poll (gpsSource s) = 0"

lemma sources_okD:
  assumes "sources_ok s"
  shows "length (peers s) = 8" "sources s = SrcGps # map SrcPeer (slots_of (sources s))" "distinct (slots_of (sources s))"
    "isReference (gpsSource s)" "i < 8 \<Longrightarrow> i \<in> set (slots_of (sources s)) \<longleftrightarrow> isAllocated (peers s ! i)"
    "i \<in> set (slots_of (sources s)) \<Longrightarrow> i < 8 \<and> isRemote (peers s ! i) \<and> poll_ok (peers s ! i)" "distinct (peer_ids s)"
    "poll (gpsSource s) = 0"
  using assms by (auto simp: sources_ok_def list_all_iff)

lemma sources_okI:
  assumes "length (peers s) = 8" "sources s = SrcGps # map SrcPeer js" "distinct js" "isReference (gpsSource s)"
    "\<And>i. i < 8 \<Longrightarrow> i \<in> set js \<longleftrightarrow> isAllocated (peers s ! i)"
    "\<And>i. i \<in> set js \<Longrightarrow> i < 8 \<and> isRemote (peers s ! i) \<and> poll_ok (peers s ! i)"
    "distinct (map (\<lambda>i. src_id (peers s ! i)) js)" "poll (gpsSource s) = 0"
  shows "sources_ok s"
  using assms by (auto simp: sources_ok_def list_all_iff peer_ids_def)

lemma sources_ok_bound:
  assumes "sources_ok s"
  shows "length (sources s) \<le> 9" "distinct (sources s)"
proof -
  note d = sources_okD [OF assms]
  have "set (slots_of (sources s)) \<subseteq> {..< 8}" using d(6) by auto
  then have "card (set (slots_of (sources s))) \<le> 8" using card_mono [of "{..< 8 :: nat}"] by fastforce
  moreover have "length (sources s) = Suc (length (slots_of (sources s)))" by (subst d(2)) simp
  ultimately show "length (sources s) \<le> 9" using d(3) by (simp add: distinct_card)
  show "distinct (sources s)" by (subst d(2)) (use d(3) in \<open>auto simp: distinct_map inj_on_def\<close>)
qed

text \<open>Everything but the list operations keeps the list and the identities.\<close>

definition keeps :: "'cb ntpst \<Rightarrow> 'cb ntpst \<Rightarrow> bool" where
  "keeps s t \<longleftrightarrow> sources t = sources s \<and> list_all2 same (peers s) (peers t)
     \<and> (isReference (gpsSource s) \<longrightarrow> isReference (gpsSource t)) \<and> poll (gpsSource t) = poll (gpsSource s)"

lemma keeps_refl [simp]: "keeps s s"
  by (simp add: keeps_def list_all2_refl)

lemma keeps_trans: "keeps s t \<Longrightarrow> keeps t u \<Longrightarrow> keeps s u"
  by (auto simp: keeps_def intro: list_all2_trans [of same same same] same_trans)

lemma keeps_upd: "list_all2 same (peers s) ((peers s)[i := f (peers s ! i)])" if "\<And>p. same p (f p)"
  using that by (simp add: list_all2_conv_all_nth) (metis nth_list_update_eq nth_list_update_neq same_refl)

lemma keeps_upd_peer: "(\<And>p. same p (f p)) \<Longrightarrow> keeps s (upd_peer i f s)"
  by (simp add: keeps_def upd_peer_def keeps_upd)

lemma keeps_ok:
  assumes "keeps s t" "sources_ok s"
  shows "sources_ok t"
proof -
  note d = sources_okD [OF assms(2)]
  have l: "length (peers t) = 8" using assms(1) d(1) by (auto simp: keeps_def dest: list_all2_lengthD)
  have p: "same (peers s ! i) (peers t ! i)" if "i < 8" for i
    using assms(1) d(1) that by (auto simp: keeps_def list_all2_conv_all_nth)
  have t: "sources t = sources s" using assms(1) by (simp add: keeps_def)
  show ?thesis
  proof (rule sources_okI [where js = "slots_of (sources s)"])
    show "sources t = SrcGps # map SrcPeer (slots_of (sources s))" using t d(2) by simp
    show "i \<in> set (slots_of (sources s)) \<longleftrightarrow> isAllocated (peers t ! i)" if "i < 8" for i
      using d(5) [OF that] p [OF that] by (simp add: isAllocated_def same_def)
    show "i < 8 \<and> isRemote (peers t ! i) \<and> poll_ok (peers t ! i)" if "i \<in> set (slots_of (sources s))" for i
      using d(6) [OF that] p [of i] by (simp add: isRemote_def same_def)
    have "map (\<lambda>i. src_id (peers t ! i)) (slots_of (sources s)) = peer_ids s"
      using d(6) p by (simp add: peer_ids_def same_def)
    then show "distinct (map (\<lambda>i. src_id (peers t ! i)) (slots_of (sources s)))" using d(7) by simp
    show "isReference (gpsSource t)" "poll (gpsSource t) = 0" using assms(1) d(4,8) by (simp_all add: keeps_def)
  qed (use l d(3) in auto)
qed

subsection \<open>New peers\<close>

lemma Peer_new_sel: "src_id (Peer_new a s) = a" "isRemote (Peer_new a s)" "poll_ok (Peer_new a s)"
  "isAllocated (Peer_new a s) \<longleftrightarrow> a \<noteq> 0"
  by (simp_all add: Peer_new_def Source_new_def source.defs peer.defs Let_def isRemote_def poll_ok_def isAllocated_def)

lemma source_of_sel [simp]: "isRecipient a (source_of (SrcPeer i) s) = isRecipient a (peers s ! i)"
  "isRecipient a (source_of SrcGps s) = isRecipient a (gpsSource s)"
  "isPruneable (source_of (SrcPeer i) s) = isPruneable (peers s ! i)"
  "isPruneable (source_of SrcGps s) = isPruneable (gpsSource s)"
  by (simp_all add: source_of_def isRecipient_def isRemote_def isPruneable_def isReference_def source.defs)

lemma recipient_known:
  assumes "sources_ok s"
  shows "list_ex (\<lambda>x. isRecipient a (source_of x s)) (sources s) \<longleftrightarrow> a \<in> set (peer_ids s)"
proof -
  note d = sources_okD [OF assms]
  have g: "\<not> isRecipient a (gpsSource s)" using d(4) by (simp add: isRecipient_def isRemote_def isReference_def)
  have "isRecipient a (peers s ! i) \<longleftrightarrow> src_id (peers s ! i) = a" if "i \<in> set (slots_of (sources s))" for i
    using d(6) [OF that] by (simp add: isRecipient_def)
  then have "list_ex (\<lambda>x. isRecipient a (source_of x s)) (map SrcPeer (slots_of (sources s)))
      \<longleftrightarrow> (\<exists>i \<in> set (slots_of (sources s)). src_id (peers s ! i) = a)"
    by (auto simp: list_ex_iff)
  then show ?thesis by (subst d(2)) (auto simp: g peer_ids_def)
qed

lemma free_peer:
  assumes "sources_ok s" "length (peer_ids s) < 8"
  obtains i where "first_slot (\<lambda>p. \<not> isAllocated p) (peers s) = Some i" "i < 8" "i \<notin> set (slots_of (sources s))"
proof (cases "first_slot (\<lambda>p. \<not> isAllocated p) (peers s)")
  case None
  note d = sources_okD [OF assms(1)]
  have "isAllocated (peers s ! i)" if "i < 8" for i using None that d(1) by (auto simp: first_slot_None set_conv_nth)
  then have "{..< 8} \<subseteq> set (slots_of (sources s))" using d(5) by auto
  then have "8 \<le> card (set (slots_of (sources s)))" using card_mono [of "set (slots_of (sources s))" "{..< 8}"] by simp
  then show ?thesis using assms(2) d(3) by (simp add: distinct_card peer_ids_def)
next
  case (Some i)
  from first_slot_Some [OF this] sources_okD(1,5) [OF assms(1)] Some show ?thesis by (intro that) auto
qed

text \<open>Reporting an address adds it to the peers' addresses, unless it is known, this host's, or there is no room.\<close>

definition add_peer :: "u32 \<Rightarrow> u32 \<Rightarrow> u32 list \<Rightarrow> u32 list" where
  "add_peer own a as = (if length as \<ge> MAX_NTP_PEERS \<or> a = own \<or> a \<in> set as then as else as @ [a])"

lemma newPeer_ok:
  assumes "sources_ok s" "length (peer_ids s) < 8" "a \<noteq> 0" "a \<notin> set (peer_ids s)"
  shows "sources_ok (newPeer a s)" "peer_ids (newPeer a s) = peer_ids s @ [a]"
proof -
  note d = sources_okD [OF assms(1)]
  obtain i where i: "first_slot (\<lambda>p. \<not> isAllocated p) (peers s) = Some i" "i < 8" "i \<notin> set (slots_of (sources s))"
    by (rule free_peer [OF assms(1,2)])
  let ?js = "slots_of (sources s)"
  define t where "t = newPeer a s"
  have t: "peers t = (peers s)[i := Peer_new a s]" "sources t = sources s @ [SrcPeer i]" "gpsSource t = gpsSource s"
    using i(1) by (simp_all add: t_def newPeer_def)
  have "peers t ! j = peers s ! j" if "j \<in> set ?js" for j using i(3) that by (metis t(1) nth_list_update_neq)
  then have o: "map (\<lambda>j. src_id (peers t ! j)) ?js = peer_ids s" by (simp add: peer_ids_def)
  have n: "peers t ! i = Peer_new a s" using i(2) d(1) by (simp add: t(1))
  have ids: "peer_ids t = peer_ids s @ [a]" unfolding peer_ids_def t(2) using o n by (simp add: Peer_new_sel peer_ids_def)
  moreover have "sources_ok t"
  proof (rule sources_okI [where js = "?js @ [i]"])
    show "sources t = SrcGps # map SrcPeer (?js @ [i])" unfolding t(2) by (subst d(2)) simp
    show "j \<in> set (?js @ [i]) \<longleftrightarrow> isAllocated (peers t ! j)" if "j < 8" for j
      using d(5) [OF that] d(1) i(2) assms(3) n by (cases "j = i") (simp_all add: t(1) Peer_new_sel)
    show "j < 8 \<and> isRemote (peers t ! j) \<and> poll_ok (peers t ! j)" if "j \<in> set (?js @ [i])" for j
      using d(6) [of j] i n that by (cases "j = i") (auto simp: t(1) Peer_new_sel)
    show "distinct (map (\<lambda>j. src_id (peers t ! j)) (?js @ [i]))"
      using d(7) assms(4) n by (simp add: o Peer_new_sel)
  qed (use d i t in simp_all)
  ultimately show "sources_ok (newPeer a s)" "peer_ids (newPeer a s) = peer_ids s @ [a]" by (simp_all add: t_def)
qed

lemma ntpDnsCallback_abs:
  assumes "sources_ok s" "a \<noteq> 0"
  shows "sources_ok (ntpDnsCallback e r a s)" "peer_ids (ntpDnsCallback e r a s) = add_peer (ipAddress s) a (peer_ids s)"
    "ipAddress (ntpDnsCallback e r a s) = ipAddress s"
proof -
  have l: "length (sources s) = Suc (length (peer_ids s))"
    using arg_cong [OF sources_okD(2) [OF assms(1)], of length] by (simp add: peer_ids_def)
  show "sources_ok (ntpDnsCallback e r a s)" "peer_ids (ntpDnsCallback e r a s) = add_peer (ipAddress s) a (peer_ids s)"
    using newPeer_ok [OF assms(1) _ assms(2)] assms(1)
    by (auto simp: ntpDnsCallback_def recipient_known [OF assms(1)] add_peer_def l not_le)
  show "ipAddress (ntpDnsCallback e r a s) = ipAddress s"
    by (simp add: ntpDnsCallback_def newPeer_def split: option.split)
qed

lemma fold_ntpDnsCallback_abs:
  assumes "sources_ok s" "0 \<notin> set as"
  shows "sources_ok (fold (ntpDnsCallback e r) as s) \<and> ipAddress (fold (ntpDnsCallback e r) as s) = ipAddress s
    \<and> peer_ids (fold (ntpDnsCallback e r) as s) = fold (add_peer (ipAddress s)) as (peer_ids s)"
  using assms by (induction as arbitrary: s) (simp_all add: ntpDnsCallback_abs)

subsection \<open>Deleted peers\<close>

lemma last_slot_distinct:
  assumes "distinct xs" "k < length xs"
  shows "last_slot (xs ! k) xs = Some k"
proof -
  have "n \<le> length xs \<Longrightarrow> fold (\<lambda>i slot. if xs ! i = xs ! k then Some i else slot) [0 ..< n] None
      = (if k < n then Some k else None)" for n
    using assms by (induction n) (auto simp: nth_eq_iff_index_eq less_Suc_eq)
  from this [of "length xs"] show ?thesis using assms(2) by (simp add: last_slot_def)
qed

lemma Source_delete_sel: "\<not> isAllocated (Source_delete p)"
  by (simp add: Source_delete_def isAllocated_def)

lemma remove_nth:
  assumes "distinct xs" "j < length xs"
  shows "distinct (take j xs @ drop (Suc j) xs)" "set (take j xs @ drop (Suc j) xs) = set xs - {xs ! j}"
proof -
  define as bs x where "as = take j xs" and "bs = drop (Suc j) xs" and "x = xs ! j"
  have "xs = as @ x # bs" using id_take_nth_drop [OF assms(2)] by (simp add: as_def bs_def x_def)
  with assms(1) show "distinct (take j xs @ drop (Suc j) xs)" "set (take j xs @ drop (Suc j) xs) = set xs - {xs ! j}"
    unfolding as_def [symmetric] bs_def [symmetric] x_def [symmetric] by auto
qed

lemma deletePeer_ok:
  assumes "sources_ok s" "j < length (slots_of (sources s))"
  shows "sources_ok (deletePeer (sources s ! Suc j) s)"
proof -
  note d = sources_okD [OF assms(1)]
  let ?js = "slots_of (sources s)" and ?i = "slots_of (sources s) ! j"
  have n: "sources s ! Suc j = SrcPeer ?i" by (subst d(2)) (use assms(2) in simp)
  have "Suc j < length (sources s)" by (subst d(2)) (use assms(2) in simp)
  from last_slot_distinct [OF sources_ok_bound(2) [OF assms(1)] this] have l: "last_slot (SrcPeer ?i) (sources s) = Some (Suc j)" by (simp add: n)
  define t where "t = deletePeer (SrcPeer ?i) s"
  let ?ks = "take j ?js @ drop (Suc j) ?js"
  have "sources t = take (Suc j) (sources s) @ drop (Suc (Suc j)) (sources s)" "peers t = (peers s)[?i := Source_delete (peers s ! ?i)]"
    "gpsSource t = gpsSource s"
    by (auto simp: t_def deletePeer_def Let_def l destroy_def upd_peer_def)
  moreover have "take (Suc j) (sources s) @ drop (Suc (Suc j)) (sources s) = SrcGps # map SrcPeer ?ks"
    by (subst (1 2) d(2)) (simp add: take_map drop_map)
  ultimately have t: "sources t = SrcGps # map SrcPeer ?ks" "peers t = (peers s)[?i := Source_delete (peers s ! ?i)]"
    "gpsSource t = gpsSource s" by simp_all
  note ks = remove_nth [OF d(3) assms(2)]
  have o: "peers t ! i = peers s ! i" if "i \<in> set ?ks" for i using that ks(2) by (metis t(2) Diff_iff insertI1 nth_list_update_neq)
  have "sources_ok t"
  proof (rule sources_okI [OF _ t(1)])
    show "i \<in> set ?ks \<longleftrightarrow> isAllocated (peers t ! i)" if "i < 8" for i
      using d(5) [OF that] d(1) that ks(2) by (cases "i = ?i") (simp_all add: t(2) Source_delete_sel)
    show "i < 8 \<and> isRemote (peers t ! i) \<and> poll_ok (peers t ! i)" if "i \<in> set ?ks" for i
      using d(6) [of i] o [OF that] ks(2) that by auto
    have m: "map (\<lambda>i. src_id (peers t ! i)) ?ks = map (\<lambda>i. src_id (peers s ! i)) ?ks"
      using o by (intro map_cong) simp_all
    have "distinct (map (\<lambda>i. src_id (peers s ! i)) ?ks)"
      using remove_nth(1) [OF d(7), of j] assms(2) by (simp add: peer_ids_def take_map drop_map)
    then show "distinct (map (\<lambda>i. src_id (peers t ! i)) ?ks)" unfolding m .
  qed (use d t ks in simp_all)
  then show ?thesis by (simp add: t_def n)
qed

lemma prune_ok:
  assumes "sources_ok s"
  shows "sources_ok (prune_sources s)"
proof (cases "first_slot (\<lambda>r. isPruneable (source_of r s)) (sources s)")
  case None
  then show ?thesis using assms by (simp add: prune_sources_def)
next
  case (Some k)
  note d = sources_okD [OF assms]
  from first_slot_Some [OF Some] have k: "k < length (sources s)" "isPruneable (source_of (sources s ! k) s)" by auto
  have "sources s ! 0 = SrcGps" by (subst d(2)) simp
  with k(2) d(4) have "k \<noteq> 0" by (auto simp: isPruneable_def isReference_def source_of_def source.defs intro: gr0I)
  then obtain j where j: "k = Suc j" by (cases k) auto
  have "length (sources s) = Suc (length (slots_of (sources s)))" by (subst d(2)) simp
  then show ?thesis using Some deletePeer_ok [OF assms, of j] k(1) j by (simp add: prune_sources_def)
qed

subsection \<open>Every event\<close>

lemma keepsI:
  assumes "peers t = (peers s)[i := f (peers s ! i)]" "\<And>p. same p (f p)" "sources t = sources s" "gpsSource t = gpsSource s"
  shows "keeps s t"
  using assms keeps_upd [of f s i] by (simp add: keeps_def)

lemma updateMac_keeps: "keeps s (updateMac t i s)"
proof -
  obtain f where f: "peers (updateMac t i s) = (peers s)[i := f (peers s ! i)]" "\<forall>p. same p (f p)"
    using updateMac_peers by blast
  show ?thesis
    by (rule keepsI [where f = f and i = i])
       (use f in simp_all, simp_all add: updateMac_def ARP_request_def upd_peer_def transmit_frame_def Let_def split: option.split)
qed

lemma pollSend_keeps: "keeps s (pollSend t i s)"
proof -
  let ?f = "\<lambda>p. (poll_stamps t p)\<lparr>txCount := txCount p + 1\<rparr>"
  have f: "same p (?f p)" for p by (rule sameI) (simp_all add: poll_stamps_def)
  show ?thesis
    by (rule keepsI [where f = ?f, OF _ f]) (simp_all add: pollSend_peers, simp_all add: pollSend_def upd_peer_def IPv4_init_def transmit_frame_def Let_def)
qed

lemma isMacInvalid_keeps: "keeps s (snd (isMacInvalid t i s))"
  by (simp add: isMacInvalid_def Let_def updateMac_keeps)

lemma upd_keeps: "keeps s (upd_peer i (\<lambda>p. p\<lparr>pktSent := a, peerIntv := x\<rparr>) s)" "keeps s (upd_peer i (\<lambda>p. p\<lparr>peerIntv := x\<rparr>) s)"
  "keeps s (upd_peer i (\<lambda>p. p\<lparr>pktSent := a, pktRecv := b\<rparr>) s)" "keeps s (upd_peer i (\<lambda>p. p\<lparr>pktRecv := a, pollXleave := b\<rparr>) s)"
  "keeps s (upd_peer i (\<lambda>p. let p = p\<lparr>pollWait := pollWait p - 1\<rparr> in if g' p then p\<lparr>peerIntv := pollTrim p\<rparr> else p) s)"
  "keeps s (upd_peer i (\<lambda>p. p\<lparr>macAddr := g (macAddr p)\<rparr>) s)" "keeps s (upd_peer i (\<lambda>p. p\<lparr>local_tx_hw := w\<rparr>) s)"
  by (rule keeps_upd_peer; simp add: Let_def sameI)+

lemma pollEnd_keeps: "keeps s (upd_peer i (\<lambda>p. pollEnd m u (p\<lparr>pktRecv := a\<rparr>)) s)"
proof (rule keeps_upd_peer)
  show "same p (pollEnd m u (p\<lparr>pktRecv := a\<rparr>))" for p by (rule same_trans [OF _ method_same(3)]) (simp add: sameI)
qed

lemma updateStatus_keeps: "keeps s (upd_peer i updateStatus s)"
  by (rule keeps_upd_peer) (rule updateStatus_same)

lemma method_keeps: "keeps s (upd_peer i (poll_timeout m u) s)" "keeps s (upd_peer i (schedule_poll r) s)"
  "keeps s (upd_peer i (start_poll t) s)" "keeps s (upd_peer i (receive rx f) s)" "keeps s (upd_peer i (applyOffset d) s)"
  "keeps s (upd_peer i (snd \<circ> isSelectable) s)" "keeps s (upd_peer i select s)"
  by (rule keeps_upd_peer; simp add: method_same)+

lemma pollRun_keeps: "keeps s (snd (pollRun m i s))"
  by (auto simp: pollRun_def Let_def intro: keeps_trans [OF upd_keeps(3) pollSend_keeps] keeps_trans [OF upd_keeps(4) pollSend_keeps]
      keeps_trans [OF pollEnd_keeps updateStatus_keeps] keeps_trans [OF method_keeps(1) updateStatus_keeps] pollEnd_keeps method_keeps(1))

lemma Peer_run_keeps: "keeps s (Peer_run m i s)"
proof (cases "pollActive (peers s ! i)")
  case True
  then show ?thesis
    by (simp add: Peer_run_def split_beta pollRun_keeps keeps_trans [OF pollRun_keeps method_keeps(2)])
next
  case False
  define t where "t = (if m_ethRaw m = 0 then s else snd (isMacInvalid (m_seconds m) i s))"
  have "keeps s t" by (simp add: t_def isMacInvalid_keeps)
  moreover have "keeps t (Peer_run m i s)"
    using False keeps_trans [OF keeps_trans [OF method_keeps(3) pollSend_keeps] upd_keeps(1)]
    by (auto simp: Peer_run_def split_beta t_def upd_keeps Let_def intro!: keeps_upd_peer sameI)
  ultimately show ?thesis by (rule keeps_trans)
qed

lemma peer_arpCallback_keeps: "keeps s (peer_arpCallback t e r a m s)"
  by (auto simp: peer_arpCallback_def Let_def updateMac_keeps intro!: keeps_upd_peer sameI)

lemma ntpResponse_keeps: "keeps s (ntpResponse rx f n s)"
  by (auto simp: ntpResponse_def method_keeps split: option.split src_ref.split)

lemma keeps_same:
  "sources t = sources s \<Longrightarrow> peers t = peers s \<Longrightarrow> isReference (gpsSource t) = isReference (gpsSource s) \<Longrightarrow>
    poll (gpsSource t) = poll (gpsSource s) \<Longrightarrow> keeps s t"
  by (simp add: keeps_def list_all2_refl)

lemma frame_keeps: "keeps s (ntpRequest c raw rx f n s)" "keeps s (ntpTxCallback tx f s)" "keeps s (gps_run m pps e u w s)"
  by (rule keeps_same; simp add: ntpRequest_def ntpTxCallback_def transmit_frame_def Let_def gps_run_def GPS_run_def
      GPS_updateStatus_def put_sample_def advanceFilter_def updateFilter_def isReference_def split_beta)+

lemma select_keeps: "keeps s (snd (isSelectable_at r s))" "keeps s (select_at r s)"
  by (cases r; simp add: isSelectable_at_def select_at_def method_keeps split_beta;
      simp add: keeps_same isSelectable_def select_def isReference_def)+

lemma selectedSource_keeps [simp]: "keeps s (t\<lparr>selectedSource := x\<rparr>) = keeps s t"
  by (simp add: keeps_def)

lemma keeps_fold: "(\<And>r t. keeps t (f r t)) \<Longrightarrow> keeps s (fold f rs s)"
  by (induction rs arbitrary: s) (simp_all, blast intro: keeps_trans)

lemma select_best_keeps: "keeps s (select_best s)"
proof -
  have step: "keeps t (select_step r t)" for r and t :: "'a ntpst"
    by (auto simp: select_step_def Let_def split_beta select_keeps split: option.split)
  have "keeps (s\<lparr>selectedSource := None\<rparr>) (select_best s)" unfolding select_best_def by (rule keeps_fold [OF step])
  then show ?thesis by (simp add: keeps_def)
qed

lemma runSelect_keeps:
  assumes "runSelect s = Some t"
  shows "keeps (select_best (prune_sources s)) t"
proof (cases "selectedSource (select_best (prune_sources s))")
  case None
  with assms show ?thesis by (auto simp: runSelect_def keeps_same)
next
  case (Some r)
  have "keeps (select_best (prune_sources s)) (select_at r (select_best (prune_sources s)))" by (rule select_keeps)
  with assms Some show ?thesis by (auto simp: runSelect_def Let_def keeps_def split: if_splits option.splits)
qed

lemma runSelect_ok:
  assumes "sources_ok s" "runSelect s = Some t"
  shows "sources_ok t"
  by (rule keeps_ok [OF runSelect_keeps [OF assms(2)] keeps_ok [OF select_best_keeps prune_ok [OF assms(1)]]])

lemma applyOffset_keeps: "keeps s (ntpApplyOffset d s)"
  unfolding ntpApplyOffset_def
proof (rule keeps_fold)
  fix r and t :: "'a ntpst"
  have "keeps t (t\<lparr>gpsSource := applyOffset d (gpsSource t)\<rparr>)" by (rule keeps_same) (simp_all add: applyOffset_def isReference_def)
  then show "keeps t (case r of SrcGps \<Rightarrow> t\<lparr>gpsSource := applyOffset d (gpsSource t)\<rparr>
    | SrcPeer i \<Rightarrow> upd_peer i (applyOffset d) t)" by (simp add: method_keeps split: src_ref.split)
qed

lemma runDnsFill_keeps:
  assumes "runDnsFill now s = Some t" "length (sources s) < 9"
  shows "keeps (fold (ntpDnsCallback NtpDns 0) (take (ntpLen s) (ntpAddr s)) s) t"
proof -
  let ?u = "fold (ntpDnsCallback NtpDns 0) (take (ntpLen s) (ntpAddr s)) s"
  obtain v where "DNS_lookup now NTP_POOL_FQDN NtpDns 0 ?u = Some (v, t)"
    using assms by (auto simp: runDnsFill_def Let_def)
  then have "sources t = sources ?u \<and> peers t = peers ?u \<and> gpsSource t = gpsSource ?u"
    by (auto simp: DNS_lookup_def DNS_updateMAC_def ARP_request_def sendRequest_def IPv4_init_def transmit_frame_def Let_def
        split: if_splits option.splits)
  then show ?thesis by (simp add: keeps_same)
qed

lemma runDnsFill_ok:
  assumes "sources_ok s" "runDnsFill now s = Some t" "0 \<notin> set (take (ntpLen s) (ntpAddr s))"
  shows "sources_ok t"
proof (cases "length (sources s) < 9")
  case True
  have "sources_ok (fold (ntpDnsCallback NtpDns 0) (take (ntpLen s) (ntpAddr s)) s)"
    using fold_ntpDnsCallback_abs [OF assms(1,3)] by blast
  then show ?thesis by (rule keeps_ok [OF runDnsFill_keeps [OF assms(2) True]])
qed (use assms in \<open>simp add: runDnsFill_def\<close>)

text \<open>
  The events that change the time server's state, in any order. The addresses that the network's DNS and DHCP servers
  report are those of the set \<open>A\<close>.
\<close>

inductive ntp_step :: "u32 set \<Rightarrow> 'cb ntpst \<Rightarrow> 'cb ntpst \<Rightarrow> bool" for A where
  Pulse: "ntp_step A s (gps_run m pps epoch tai_utc update s)"
| Task: "ntp_step A s (Peer_run m i s)"
| Resolved: "ntp_step A s (peer_arpCallback t PeerArp r a mac s)"
| Sent: "ntp_step A s (peer_txCallback tx i s)"
| Replied: "ntp_step A s (ntpTxCallback tx f s)"
| Request: "ntp_step A s (ntpRequest (c :: tai_clk) raw rx f n s)"
| Response: "ntp_step A s (ntpResponse rx f n s)"
| Select: "runSelect s = Some t \<Longrightarrow> ntp_step A s t"
| Fill: "runDnsFill now s = Some t \<Longrightarrow> set (take (ntpLen s) (ntpAddr s)) \<subseteq> A \<Longrightarrow> ntp_step A s t"
| Found: "a \<in> A \<Longrightarrow> ntp_step A s (ntpDnsCallback NtpDns r a s)"
| Adjust: "ntp_step A s (ntpApplyOffset d s)"

inductive ntp_reach :: "u32 set \<Rightarrow> 'cb ntpst \<Rightarrow> bool" for A where
  Start: "length (peers s) = 8 \<Longrightarrow> list_all (\<lambda>p. \<not> isAllocated p) (peers s) \<Longrightarrow> sources s = [] \<Longrightarrow> ntp_reach A (ntp_init a b c s)"
| Step: "ntp_reach A s \<Longrightarrow> ntp_step A s t \<Longrightarrow> ntp_reach A t"

inductive_cases ntp_stepE: "ntp_step A s t"

lemma UDP_register_rest: "sources (snd (UDP_register p c s)) = sources s" "peers (snd (UDP_register p c s)) = peers s"
  by (simp_all add: UDP_register_def split: option.split)

lemma init_ok:
  assumes "length (peers s) = 8" "list_all (\<lambda>p. \<not> isAllocated p) (peers s)" "sources s = []"
  shows "sources_ok (ntp_init a b c s)"
proof -
  let ?t = "ntp_init a b c s"
  have t: "sources ?t = [SrcGps]" "peers ?t = peers s" "gpsSource ?t = GPS_new"
    using assms(3) by (simp_all add: ntp_init_def Let_def UDP_register_rest)
  show ?thesis
    by (rule sources_okI [where js = "[]"])
       (use assms t in \<open>auto simp: list_all_length GPS_new_def Source_new_def source.defs isReference_def\<close>)
qed

lemma step_ok: "ntp_step A s t \<Longrightarrow> 0 \<notin> A \<Longrightarrow> sources_ok s \<Longrightarrow> sources_ok t"
proof (induction rule: ntp_step.induct)
  case (Sent s tx i)
  then show ?case using keeps_ok [OF upd_keeps(7)] by (simp add: peer_txCallback_def)
next
  case (Fill now s t)
  then have "0 \<notin> set (take (ntpLen s) (ntpAddr s))" by blast
  with Fill show ?case by (blast intro: runDnsFill_ok)
next
  case (Found a s r)
  then have "a \<noteq> 0" by blast
  with Found show ?case by (simp add: ntpDnsCallback_abs)
qed (auto intro: keeps_ok frame_keeps Peer_run_keeps peer_arpCallback_keeps ntpResponse_keeps applyOffset_keeps runSelect_ok)

lemma reach_ok: "ntp_reach A s \<Longrightarrow> 0 \<notin> A \<Longrightarrow> sources_ok s"
  by (induction rule: ntp_reach.induct) (auto intro: init_ok step_ok)

subsection \<open>Whatever is reported\<close>

text \<open>
  A slot counts as free when its address is 0, so a peer with the address 0.0.0.0 does not keep its slot: the next
  peer is built in it, and the list names the slot twice. What holds for every address is that the list does not
  overflow, names only slots of the array, and has every allocated slot.
\<close>

definition sources_safe :: "'cb ntpst \<Rightarrow> bool" where
  "sources_safe s \<longleftrightarrow> length (peers s) = MAX_NTP_PEERS \<and> sources s = SrcGps # map SrcPeer (slots_of (sources s))
     \<and> length (sources s) \<le> MAX_NTP_SRCS \<and> isReference (gpsSource s) \<and> poll (gpsSource s) = 0
     \<and> list_all (\<lambda>i. isAllocated (peers s ! i) \<longrightarrow> i \<in> set (slots_of (sources s))) [0 ..< MAX_NTP_PEERS]
     \<and> list_all (\<lambda>i. i < MAX_NTP_PEERS \<and> poll_ok (peers s ! i)) (slots_of (sources s))"

lemma sources_safeD:
  assumes "sources_safe s"
  shows "length (peers s) = 8" "sources s = SrcGps # map SrcPeer (slots_of (sources s))" "length (sources s) \<le> 9"
    "isReference (gpsSource s)" "poll (gpsSource s) = 0" "i < 8 \<Longrightarrow> isAllocated (peers s ! i) \<Longrightarrow> i \<in> set (slots_of (sources s))"
    "i \<in> set (slots_of (sources s)) \<Longrightarrow> i < 8 \<and> poll_ok (peers s ! i)"
  using assms by (auto simp: sources_safe_def list_all_iff)

lemma sources_safeI:
  assumes "length (peers s) = 8" "sources s = SrcGps # map SrcPeer js" "length js \<le> 8" "isReference (gpsSource s)"
    "poll (gpsSource s) = 0" "\<And>i. i < 8 \<Longrightarrow> isAllocated (peers s ! i) \<Longrightarrow> i \<in> set js"
    "\<And>i. i \<in> set js \<Longrightarrow> i < 8 \<and> poll_ok (peers s ! i)"
  shows "sources_safe s"
  using assms by (auto simp: sources_safe_def list_all_iff)

lemma sources_ok_safe: "sources_ok s \<Longrightarrow> sources_safe s"
  using sources_okD sources_ok_bound(1) unfolding sources_safe_def by (fastforce simp: list_all_iff)

lemma sources_safe_length: "sources_safe s \<Longrightarrow> length (slots_of (sources s)) = length (sources s) - 1"
  by (subst (2) sources_safeD(2)) simp_all

lemma keeps_safe:
  assumes "keeps s t" "sources_safe s"
  shows "sources_safe t"
proof -
  note d = sources_safeD [OF assms(2)]
  have p: "same (peers s ! i) (peers t ! i)" if "i < 8" for i
    using assms(1) d(1) that by (auto simp: keeps_def list_all2_conv_all_nth)
  show ?thesis
  proof (rule sources_safeI [where js = "slots_of (sources s)"])
    show "length (peers t) = 8" using assms(1) d(1) by (auto simp: keeps_def dest: list_all2_lengthD)
    show "sources t = SrcGps # map SrcPeer (slots_of (sources s))" using assms(1) d(2) by (simp add: keeps_def)
    show "length (slots_of (sources s)) \<le> 8" using d(3) sources_safe_length [OF assms(2)] by simp
    show "i \<in> set (slots_of (sources s))" if "i < 8" "isAllocated (peers t ! i)" for i
      using d(6) [OF that(1)] p [OF that(1)] that(2) by (simp add: isAllocated_def same_def)
    show "i < 8 \<and> poll_ok (peers t ! i)" if "i \<in> set (slots_of (sources s))" for i
      using d(7) [OF that] p [of i] by (simp add: same_def)
  qed (use assms(1) d(4,5) in \<open>simp_all add: keeps_def\<close>)
qed

lemma newPeer_safe:
  assumes "sources_safe s" "length (sources s) < 9"
  shows "sources_safe (newPeer a s)"
proof (cases "first_slot (\<lambda>p. \<not> isAllocated p) (peers s)")
  case None
  then show ?thesis using assms(1) by (simp add: newPeer_def)
next
  case (Some i)
  note d = sources_safeD [OF assms(1)]
  from first_slot_Some [OF Some] d(1) have i: "i < 8" by simp
  let ?js = "slots_of (sources s)"
  define t where "t = newPeer a s"
  have t: "peers t = (peers s)[i := Peer_new a s]" "sources t = sources s @ [SrcPeer i]" "gpsSource t = gpsSource s"
    using Some by (simp_all add: t_def newPeer_def)
  have n: "peers t ! j = (if j = i then Peer_new a s else peers s ! j)" for j
    using i d(1) by (simp add: t(1) nth_list_update)
  have "sources_safe t"
  proof (rule sources_safeI [where js = "?js @ [i]"])
    show "sources t = SrcGps # map SrcPeer (?js @ [i])" unfolding t(2) by (subst d(2)) simp
    show "length (?js @ [i]) \<le> 8" using assms(2) sources_safe_length [OF assms(1)] by simp
    show "j \<in> set (?js @ [i])" if "j < 8" "isAllocated (peers t ! j)" for j
      using d(6) [OF that(1)] that(2) by (auto simp: n split: if_splits)
    show "j < 8 \<and> poll_ok (peers t ! j)" if "j \<in> set (?js @ [i])" for j
      using d(7) [of j] i that by (auto simp: n Peer_new_sel)
  qed (use d t in simp_all)
  then show ?thesis by (simp add: t_def)
qed

lemma ntpDnsCallback_safe: "sources_safe s \<Longrightarrow> sources_safe (ntpDnsCallback e r a s)"
  by (simp add: ntpDnsCallback_def newPeer_safe)

lemma fold_ntpDnsCallback_safe: "sources_safe s \<Longrightarrow> sources_safe (fold (ntpDnsCallback e r) as s)"
  by (induction as arbitrary: s) (simp_all add: ntpDnsCallback_safe)

lemma runDnsFill_safe:
  assumes "sources_safe s" "runDnsFill now s = Some t"
  shows "sources_safe t"
proof (cases "length (sources s) < 9")
  case True
  from runDnsFill_keeps [OF assms(2) True] fold_ntpDnsCallback_safe [OF assms(1)] show ?thesis by (rule keeps_safe)
qed (use assms in \<open>simp add: runDnsFill_def\<close>)

lemma last_slot_Some: "last_slot x xs = Some k \<Longrightarrow> k < length xs \<and> xs ! k = x"
proof -
  have "fold (\<lambda>i slot. if xs ! i = x then Some i else slot) [0 ..< n] None = Some k \<Longrightarrow> k < n \<and> xs ! k = x" for n
    by (induction n) (auto split: if_splits)
  then show "last_slot x xs = Some k \<Longrightarrow> k < length xs \<and> xs ! k = x" by (simp add: last_slot_def)
qed

lemma deletePeer_safe:
  assumes "sources_safe s"
  shows "sources_safe (deletePeer (SrcPeer i) s)"
proof (cases "last_slot (SrcPeer i) (sources s)")
  case None
  have "keeps s (deletePeer (SrcPeer i) s)" by (rule keeps_same) (simp_all add: deletePeer_def None)
  then show ?thesis using assms by (rule keeps_safe)
next
  case (Some k)
  note d = sources_safeD [OF assms] and l = last_slot_Some [OF Some]
  let ?js = "slots_of (sources s)"
  from l d(2) obtain j where j: "k = Suc j" "j < length ?js" "?js ! j = i"
    by (cases k) (metis nth_Cons_0 src_ref.distinct(1), metis length_Cons length_map not_less_eq nth_Cons_Suc nth_map src_ref.inject)
  let ?ks = "take j ?js @ drop (Suc j) ?js"
  define t where "t = deletePeer (SrcPeer i) s"
  have "sources t = take k (sources s) @ drop (Suc k) (sources s)" "peers t = (peers s)[i := Source_delete (peers s ! i)]"
    "gpsSource t = gpsSource s"
    by (auto simp: t_def deletePeer_def Let_def Some destroy_def upd_peer_def)
  moreover have "take (Suc j) (sources s) @ drop (Suc (Suc j)) (sources s) = SrcGps # map SrcPeer ?ks"
    by (subst (1 2) d(2)) (simp add: take_map drop_map)
  ultimately have t: "sources t = SrcGps # map SrcPeer ?ks" "peers t = (peers s)[i := Source_delete (peers s ! i)]"
    "gpsSource t = gpsSource s" unfolding j(1) by simp_all
  have i: "i < 8" using d(7) [of i] j(2,3) nth_mem by metis
  have n: "peers t ! m = (if m = i then Source_delete (peers s ! i) else peers s ! m)" for m
    using i d(1) by (simp add: t(2) nth_list_update)
  have js: "set ?js = insert i (set ?ks)"
    by (subst id_take_nth_drop [OF j(2)]) (simp add: j(3))
  have "sources_safe t"
  proof (rule sources_safeI [OF _ t(1)])
    show "m \<in> set ?ks" if "m < 8" "isAllocated (peers t ! m)" for m
      using d(6) [OF that(1)] that(2) js by (auto simp: n Source_delete_sel split: if_splits)
    show "m < 8 \<and> poll_ok (peers t ! m)" if "m \<in> set ?ks" for m
      using d(7) [of m] d(7) [of i] that js by (auto simp: n Source_delete_def poll_ok_def)
    show "length ?ks \<le> 8" using d(3) sources_safe_length [OF assms] by simp
  qed (use d t in simp_all)
  then show ?thesis by (simp add: t_def)
qed

lemma prune_safe:
  assumes "sources_safe s"
  shows "sources_safe (prune_sources s)"
proof (cases "first_slot (\<lambda>r. isPruneable (source_of r s)) (sources s)")
  case None
  then show ?thesis using assms by (simp add: prune_sources_def)
next
  case (Some k)
  note d = sources_safeD [OF assms]
  from first_slot_Some [OF Some] have k: "k < length (sources s)" "isPruneable (source_of (sources s ! k) s)" by auto
  then have "sources s ! k \<in> set (SrcGps # map SrcPeer (slots_of (sources s)))" using d(2) nth_mem by metis
  moreover have "sources s ! k \<noteq> SrcGps" using k(2) d(4) by (auto simp: isPruneable_def isReference_def source_of_def source.defs)
  ultimately obtain i where "sources s ! k = SrcPeer i" by auto
  with Some deletePeer_safe [OF assms] show ?thesis by (simp add: prune_sources_def)
qed

lemma runSelect_safe:
  assumes "sources_safe s" "runSelect s = Some t"
  shows "sources_safe t"
  by (rule keeps_safe [OF runSelect_keeps [OF assms(2)] keeps_safe [OF select_best_keeps prune_safe [OF assms(1)]]])

lemma step_safe: "ntp_step A s t \<Longrightarrow> sources_safe s \<Longrightarrow> sources_safe t"
proof (induction rule: ntp_step.induct)
  case (Sent s tx i)
  then show ?case using keeps_safe [OF upd_keeps(7)] by (simp add: peer_txCallback_def)
next
  case (Found a s r)
  then show ?case by (simp add: ntpDnsCallback_safe)
qed (auto intro: keeps_safe frame_keeps Peer_run_keeps peer_arpCallback_keeps ntpResponse_keeps applyOffset_keeps
    runSelect_safe runDnsFill_safe)

lemma reach_safe: "ntp_reach A s \<Longrightarrow> sources_safe s"
  by (induction rule: ntp_reach.induct) (auto intro: sources_ok_safe init_ok step_safe)

end
