(* ===== verification/NtpExchange.thy ===== *)
theory NtpExchange
  imports Ntp
begin

unbundle bit_operations_syntax

text \<open>
  Exchanges of the time protocol: the request that a peer sends, the reply of a server, what the peer takes
  from it, and the whole exchange between two hosts running this program. The network between them inserts
  source addresses and takes time; what a host reads of its clocks is given by the hypotheses.
\<close>

section \<open>The request of a peer\<close>

definition is_request :: "u32 \<Rightarrow> u32 \<Rightarrow> u64 \<Rightarrow> bytes \<Rightarrow> bool" where
  "is_request src dst tx f \<longleftrightarrow> length f = FrameNtp_size \<and> get32 f ip4_src = src \<and> get32 f ip4_dst = dst
     \<and> get16 f udp_portDst = htons NTP_PORT_SRV \<and> get16 f udp_portSrc = htons NTP_PORT_CLI
     \<and> get_mode f = NTP_MODE_CLI \<and> get_version f = 4 \<and> get64 f ntp_origTime = 0 \<and> get64 f ntp_rxTime = 0 \<and> get64 f ntp_txTime = tx"

lemma get_sealed [buf_simps]:
  "42 \<le> j \<Longrightarrow> get64 (sealed f) j = get64 f j" "26 \<le> j \<and> j + 4 \<le> 38 \<or> 42 \<le> j \<Longrightarrow> get32 (sealed f) j = get32 f j"
  "26 \<le> j \<and> j + 2 \<le> 38 \<or> 42 \<le> j \<Longrightarrow> get16 (sealed f) j = get16 f j"
  "42 \<le> j \<Longrightarrow> get8 (sealed f) j = get8 f j"
  "get_mode (sealed f) = get_mode f" "get_version (sealed f) = get_version f" "get_status (sealed f) = get_status f"
  by (simp_all add: get_defs sealed_rd get_mode_def get_version_def get_status_def)

lemma pollSend_request:
  assumes "i < length (peers s)" "p = peers s ! i" "\<not> pollXleave p" "length (macAddr p) = 6"
  shows "\<exists>q. pollSend now i s = transmit_frame q FrameNtp_size
      ((upd_peer i (\<lambda>p. p\<lparr>filterRx := 0, filterTx := htonll now, txCount := txCount p + 1\<rparr>) s)\<lparr>ipID := ipID s + 1\<rparr>)
    \<and> is_request (ipAddress s) (src_id p) (htonll now) q \<and> rd q eth_macDst 6 = macAddr p"
proof -
  define p' where "p' = (poll_stamps now p)\<lparr>txCount := txCount p + 1\<rparr>"
  have p': "filterRx p' = 0" "filterTx p' = htonll now" "\<not> pollXleave p'" "src_id p' = src_id p" "macAddr p' = macAddr p"
    using assms by (simp_all add: p'_def poll_stamps_def)
  define f0 where "f0 = copyMAC (replicate 90 0) eth_macDst (macAddr p)"
  define f1 where "f1 = fst (IPv4_init f0 s)"
  define f2 where "f2 = put16 (put16 (put8 (put32 (put32 f1 ip4_dst (src_id p)) ip4_src (ipAddress s)) ip4_proto IP_PROTO_UDP)
      udp_portSrc (htons NTP_PORT_CLI)) udp_portDst (htons NTP_PORT_SRV)"
  define f where "f = poll_frame p' f2"
  have l: "length f0 = 90" "length f1 = 90" "length f2 = 90" "length f = 90"
    by (simp_all add: f_def f2_def f1_def f0_def IPv4_init_def copyMAC_def poll_frame_def Let_def)
  have "is_request (ipAddress s) (src_id p) (htonll now) (sealed f)"
    using p' l by (simp add: is_request_def f_def poll_frame_def Let_def buf_simps f2_def sealed_ok)
  moreover have "rd (sealed f) eth_macDst 6 = macAddr p"
    using assms(4) by (simp add: sealed_rd f_def poll_frame_def Let_def buf_simps f2_def f1_def IPv4_init_def f0_def copyMAC_def rd_whole)
  moreover have "pollSend now i s = transmit_frame (sealed f) FrameNtp_size
      ((upd_peer i (\<lambda>p. p\<lparr>filterRx := 0, filterTx := htonll now, txCount := txCount p + 1\<rparr>) s)\<lparr>ipID := ipID s + 1\<rparr>)"
  proof -
    have "sealed f = IPv4_finalize (UDP_finalize f 90) 90" by (simp add: sealed_def l)
    moreover have "(poll_stamps now p)\<lparr>txCount := txCount p + 1\<rparr> = p\<lparr>filterRx := 0, filterTx := htonll now, txCount := txCount p + 1\<rparr>"
      using assms(3) by (simp add: poll_stamps_def)
    ultimately show ?thesis using assms(1) p'(4,5) unfolding assms(2) [symmetric]
      by (simp add: pollSend_def Let_def IPv4_init_def f_def f2_def f1_def f0_def upd_peer_def p'_def assms(2) [symmetric])
  qed
  ultimately show ?thesis by blast
qed

section \<open>The server's reply\<close>

lemma returnToSender_get [buf_simps]:
  assumes "42 \<le> length f"
  shows "42 \<le> j \<Longrightarrow> get64 (returnToSender f) j = get64 f j" "get_mode (returnToSender f) = get_mode f"
    "get_version (returnToSender f) = get_version f" "get32 (returnToSender f) ip4_dst = get32 f ip4_src"
    "get32 (returnToSender f) ip4_src = get32 f ip4_dst" "get16 (returnToSender f) udp_portDst = get16 f udp_portSrc"
    "get16 (returnToSender f) udp_portSrc = get16 f udp_portDst" "rd (returnToSender f) eth_macDst 6 = rd f eth_macSrc 6"
    "length (returnToSender f) = length f"
  using assms by (simp_all add: returnToSender_def Let_def buf_simps get_mode_def get_version_def copyMAC_def)

text \<open>What a reply to the request \<open>f\<close> says; \<open>org\<close> and \<open>tx\<close> are its origin and transmit times.\<close>

definition is_reply :: "bytes \<Rightarrow> 'cb ntpst \<Rightarrow> u64 \<Rightarrow> u64 \<Rightarrow> u64 \<Rightarrow> bytes \<Rightarrow> bool" where
  "is_reply f s org rx tx r \<longleftrightarrow> rd r eth_macDst 6 = rd f eth_macSrc 6 \<and> get32 r ip4_dst = get32 f ip4_src
     \<and> get32 r ip4_src = get32 f ip4_dst \<and> get16 r udp_portDst = get16 f udp_portSrc \<and> get16 r udp_portSrc = get16 f udp_portDst
     \<and> get_mode r = NTP_MODE_SRV \<and> get_version r = get_version f \<and> get_status r = take_bit 2 (ucast (leapIndicator s))
     \<and> get8 r ntp_stratum = ucast (clockStratum s) \<and> get32 r ntp_rootDelay = htonl (ntpRootDelay s)
     \<and> get32 r ntp_rootDispersion = htonl (ntpRootDispersion s) \<and> get32 r ntp_refID = ntpRefId s
     \<and> get64 r ntp_origTime = org \<and> get64 r ntp_rxTime = rx \<and> get64 r ntp_txTime = tx"

definition intact :: "bytes \<Rightarrow> nat \<Rightarrow> bool" where
  "intact r n \<longleftrightarrow> length r = n \<and> udp_verifies r n \<and> RFC1071_checksum (rd r ip4_head 20) = 0"

lemma server_fields_get [buf_simps]:
  assumes "90 \<le> length f"
  shows "get_mode (server_fields t s f) = NTP_MODE_SRV" "get_version (server_fields t s f) = get_version f"
    "get_status (server_fields t s f) = take_bit 2 (ucast (leapIndicator s))" "get8 (server_fields t s f) ntp_stratum = ucast (clockStratum s)"
    "get32 (server_fields t s f) ntp_rootDelay = htonl (ntpRootDelay s)"
    "get32 (server_fields t s f) ntp_rootDispersion = htonl (ntpRootDispersion s)" "get32 (server_fields t s f) ntp_refID = ntpRefId s"
    "j + n \<le> 42 \<Longrightarrow> rd (server_fields t s f) j n = rd f j n" "length (server_fields t s f) = length f"
    "get64 (server_fields t s f) ntp_refTime = ntp_stamp t s"
  using assms by (simp_all add: server_fields_def Let_def buf_simps)

lemma get_server_fields [buf_simps]:
  "90 \<le> length f \<Longrightarrow> j + 4 \<le> 42 \<Longrightarrow> get32 (server_fields t s f) j = get32 f j"
  "90 \<le> length f \<Longrightarrow> j + 2 \<le> 42 \<Longrightarrow> get16 (server_fields t s f) j = get16 f j"
  by (simp_all add: get_defs server_fields_get)

lemma take_get [buf_simps]: "j + 8 \<le> n \<Longrightarrow> get64 (take n f) j = get64 f j" "j + 4 \<le> n \<Longrightarrow> get32 (take n f) j = get32 f j"
  "j + 2 \<le> n \<Longrightarrow> get16 (take n f) j = get16 f j" "43 \<le> n \<Longrightarrow> get_version (take n f) = get_version f"
  by (simp_all add: get_defs rd_take get_version_def)

lemma request_replied:
  assumes f: "90 \<le> n" "n \<le> length f" "n \<le> 65535" "get32 f ip4_dst = ipAddress s" "get32 f ip4_src \<noteq> ipAddress s"
    "get_mode f = NTP_MODE_CLI"
  defines "c' \<equiv> xleave_cell f s"
  shows "\<exists>r. ntpRequest c raw rx f n s = transmit_frame r n s \<and> intact r n
    \<and> is_reply f s (case c' of None \<Rightarrow> get64 f ntp_txTime | Some _ \<Rightarrow> get64 f ntp_rxTime) (ntp_stamp (snd (snd rx)) s)
        (case c' of None \<Rightarrow> ntp_stamp (tai_now c raw) s | Some k \<Rightarrow> snd (tsXleave s k)) r"
proof -
  define g0 where "g0 = server_fields (tai_fromMono c (ntpUpdate s)) s (returnToSender (take n f))"
  define g where "g = put64 (case c' of
      None \<Rightarrow> put64 (put64 g0 ntp_origTime (get64 f ntp_txTime)) ntp_txTime (ntp_stamp (tai_now c raw) s)
    | Some k \<Rightarrow> put64 (put64 g0 ntp_origTime (get64 f ntp_rxTime)) ntp_txTime (snd (tsXleave s k))) ntp_rxTime (ntp_stamp (snd (snd rx)) s)"
  have l: "length g0 = n" "length g = n"
    using f(1,2) by (simp_all add: g0_def g_def server_fields_get returnToSender_get split: option.split)
  have "is_reply f s (case c' of None \<Rightarrow> get64 f ntp_txTime | Some _ \<Rightarrow> get64 f ntp_rxTime) (ntp_stamp (snd (snd rx)) s)
      (case c' of None \<Rightarrow> ntp_stamp (tai_now c raw) s | Some k \<Rightarrow> snd (tsXleave s k)) (sealed g)"
    using f l by (cases c') (simp_all add: is_reply_def g_def buf_simps sealed_rd g0_def rd_take)
  moreover have "ntpRequest c raw rx f n s = transmit_frame (sealed g) n s"
  proof -
    have "sealed g = IPv4_finalize (UDP_finalize g n) n" by (simp add: sealed_def l)
    then show ?thesis unfolding g_def g0_def c'_def using f(1,4-6) by (simp add: ntpRequest_def Let_def)
  qed
  moreover have "intact (sealed g) n" using sealed_ok [of g] f(1,3) l(2) by (simp add: intact_def)
  ultimately show ?thesis by blast
qed


section \<open>What a peer measures\<close>

lemma avg64_nat: "n < 2 ^ 63 \<Longrightarrow> avg64 a (a + of_nat n) = a + of_nat (n div 2)"
proof -
  assume "n < 2 ^ 63"
  then have "sint (word_of_int (int n) :: i64) = int n" by (intro sint_of_int_64) auto
  moreover have "int n div 2 = int (n div 2)" by (simp add: zdiv_int)
  ultimately show ?thesis by (simp add: avg64_def del: of_nat_div)
qed

text \<open>
  With equal delays \<open>d\<close> both ways, and a time \<open>w\<close> between the server's two timestamps, the sample's offset is
  exactly that of the server's clock, whatever the rounding of the two halved sums.
\<close>

lemma poll_sample_offset:
  assumes "2 * d + w < 2 ^ 63" "snd (snd (local_tx_hw p)) = t" "snd (snd (local_rx_hw p)) = t + of_nat (2 * d + w)"
    "remote_rx p = htonll (t + \<theta> + of_nat d - utc + NTP_UTC_OFFSET)"
    "remote_tx p = htonll (t + \<theta> + of_nat (d + w) - utc + NTP_UTC_OFFSET)"
  shows "getOffset (poll_sample utc p) = \<theta>"
proof -
  have r: "htonll (remote_rx p) + utc - NTP_UTC_OFFSET = t + \<theta> + of_nat d"
    "htonll (remote_tx p) + utc - NTP_UTC_OFFSET = (t + \<theta> + of_nat d) + of_nat w"
    using assms(4,5) by simp_all
  have "avg64 t (t + of_nat (2 * d + w)) = t + of_nat (d + w div 2)"
    using avg64_nat [OF assms(1)] by simp
  moreover have "avg64 (t + \<theta> + of_nat d) ((t + \<theta> + of_nat d) + of_nat w) = t + \<theta> + of_nat d + of_nat (w div 2)"
    using assms(1) by (intro avg64_nat) simp
  ultimately show ?thesis unfolding getOffset_def poll_sample_def Let_def r assms(2,3) by simp
qed

lemma poll_sample_delay:
  assumes "d < 2 ^ 31" "fst (snd (local_rx_hw p)) = fst (snd (local_tx_hw p)) + of_nat (2 * d + w)"
    "remote_rx p = htonll x" "remote_tx p = htonll (x + of_nat w)"
  shows "delay (poll_sample utc p) = fmul (1 / 2 ^ 31) (f32 (of_nat (d div 2)))"
proof -
  have e: "fst (snd (local_rx_hw p)) - fst (snd (local_tx_hw p)) - ((htonll (remote_tx p) + utc - NTP_UTC_OFFSET) - (htonll (remote_rx p) + utc - NTP_UTC_OFFSET))
    = (word_of_int (int (2 * d)) :: u64)"
    using assms(2-4) by simp
  have s: "sint (word_of_int (int (2 * d)) :: i64) = int (2 * d)" using assms(1) by (intro sint_of_int_64) auto
  have "int (2 * d) div 4 = int (d div 2)" by (simp add: zdiv_int)
  moreover have "sint (word_of_int (int (d div 2)) :: i32) = int (d div 2)" using assms(1) by (intro sint_of_int_32) auto
  ultimately show ?thesis unfolding poll_sample_def Let_def sample.select_convs e s by simp
qed

lemma start_of_poll:
  assumes i: "i < length (peers a)" and p: "p = peers a ! i" "\<not> pollActive p" "pollWait p = 0" "\<not> isNullMAC (macAddr p)"
    "length (macAddr p) = 6" and m: "m_ethRaw m \<noteq> 0" "peerArp p \<noteq> 0" "m_seconds m - peerArp p \<le> ARP_MAX_AGE"
  shows "\<exists>q. is_request (ipAddress a) (src_id p) (htonll (m_now m)) q \<and> rd q eth_macDst 6 = macAddr p
    \<and> Peer_run m i a = upd_peer i (\<lambda>p. (start_poll (m_now m) p)\<lparr>filterTx := htonll (m_now m), txCount := txCount p + 1,
        pktSent := True, peerIntv := ACTV_INTV\<rparr>) (a\<lparr>ipID := ipID a + 1, outbox := outbox a @ [(q, FrameNtp_size)]\<rparr>)"
proof -
  let ?b = "upd_peer i (start_poll (m_now m)) a"
  have b: "peers ?b ! i = start_poll (m_now m) p" "i < length (peers ?b)" using i p(1) by simp_all
  have "\<not> pollXleave (start_poll (m_now m) p)" "length (macAddr (start_poll (m_now m) p)) = 6" using p(5) by (simp_all add: start_poll_def)
  from pollSend_request [OF b(2) b(1) [symmetric] this, of "m_now m"] obtain q where q: "pollSend (m_now m) i ?b = transmit_frame q 90
      ((upd_peer i (\<lambda>p. p\<lparr>filterRx := 0, filterTx := htonll (m_now m), txCount := txCount p + 1\<rparr>) ?b)\<lparr>ipID := ipID ?b + 1\<rparr>)"
    "is_request (ipAddress ?b) (src_id (start_poll (m_now m) p)) (htonll (m_now m)) q" "rd q eth_macDst 6 = macAddr (start_poll (m_now m) p)"
    by blast
  have "\<not> m_seconds m - peerArp p > ARP_MAX_AGE" using m(3) by (simp add: not_less)
  then have "isMacInvalid (m_seconds m) i a = (False, a)" using p(1,4) m(2) by (simp add: isMacInvalid_def)
  then have "Peer_run m i a = upd_peer i (\<lambda>p. p\<lparr>pktSent := True, peerIntv := ACTV_INTV\<rparr>) (pollSend (m_now m) i ?b)"
    using p(1-3) m(1) by (simp add: Peer_run_def)
  also have "\<dots> = upd_peer i (\<lambda>p. (start_poll (m_now m) p)\<lparr>filterTx := htonll (m_now m), txCount := txCount p + 1,
        pktSent := True, peerIntv := ACTV_INTV\<rparr>) (a\<lparr>ipID := ipID a + 1, outbox := outbox a @ [(q, FrameNtp_size)]\<rparr>)"
    using i unfolding q(1) by (simp add: upd_peer_def transmit_frame_def start_poll_def) (cases "peers a ! i", simp)
  finally show ?thesis using q(2,3) by (intro exI [of _ q]) (simp add: b(1) start_poll_def, simp add: upd_peer_def)
qed

lemma response_received:
  assumes "sources_ok s" "i \<in> set (slots_of (sources s))" "90 \<le> n" "rd f eth_macDst 6 = myMac s" "get32 f ip4_dst = ipAddress s"
    "get32 f ip4_src = src_id (peers s ! i)" "src_id (peers s ! i) \<noteq> ipAddress s" "get_mode f = NTP_MODE_SRV" "get64 f ntp_origTime \<noteq> 0"
  shows "ntpResponse rx f n s = upd_peer i (receive rx f) s"
proof -
  note d = sources_okD [OF assms(1)]
  let ?P = "\<lambda>r. isRecipient (src_id (peers s ! i)) (source_of r s)"
  have g: "\<not> isRecipient x (gpsSource s)" for x using d(4) by (simp add: isRecipient_def isRemote_def isReference_def)
  have i: "SrcPeer i \<in> set (sources s)" by (subst d(2)) (use assms(2) in simp)
  have "\<exists>k. first_slot ?P (sources s) = Some k \<and> sources s ! k = SrcPeer i"
  proof (cases "first_slot ?P (sources s)")
    case None
    moreover have "?P (SrcPeer i)" using d(6) [OF assms(2)] by (simp only: source_of_sel) (simp add: isRecipient_def)
    ultimately show ?thesis using i by (auto simp: first_slot_None)
  next
    case (Some k)
    from first_slot_Some [OF this] have k: "k < length (sources s)" "?P (sources s ! k)" by auto
    have "sources s ! k \<in> set (SrcGps # map SrcPeer (slots_of (sources s)))" using nth_mem [OF k(1)] by (subst (asm) (2) d(2))
    then consider "sources s ! k = SrcGps" | j where "sources s ! k = SrcPeer j" "j \<in> set (slots_of (sources s))" by auto
    then show ?thesis
    proof cases
      case 1
      then show ?thesis using k(2) g by simp
    next
      case 2
      then have "src_id (peers s ! j) = src_id (peers s ! i)" using k(2) by (simp only: source_of_sel) (simp add: isRecipient_def)
      then have "j = i" using d(7) 2(2) assms(2) by (auto simp: peer_ids_def distinct_map dest: inj_onD)
      then show ?thesis using 2 Some by simp
    qed
  qed
  then show ?thesis using assms by (auto simp: ntpResponse_def isMyMAC_def cmpMac_refl)
qed


lemma pollEnd_sample:
  fixes m :: moment and u :: u64
  assumes "stratum p \<le> 15" "length (ringSamples p) = 16"
  defines "q \<equiv> pollEnd m u p"
  shows "filteredOffset q = getOffset (poll_sample u p)" "ring_sample 0 q = poll_sample u p" "\<not> pollActive q" "reach q = reach p OR 1"
proof -
  have m: "x AND 15 AND 15 = x AND 15" for x :: u8 by (simp add: and.assoc)
  have "x AND 15 = take_bit 4 x" for x :: u8 by (simp add: take_bit_eq_mask mask_eq_exp_minus_1)
  then have b: "unat (x AND 15) < 16" for x :: u8 by (simp add: unsigned_take_bit_eq take_bit_nat_less_exp [of 4, simplified])
  have s: "poll_sample u (advanceFilter (p\<lparr>reach := z\<rparr>)) = poll_sample u p" for z
    by (simp add: poll_sample_def advanceFilter_def)
  have "\<not> 15 < stratum p" using assms(1) by (simp add: not_less)
  then have q: "q = (updateFilter (m_fit m) (m_now m) (put_sample (poll_sample u p) (advanceFilter (p\<lparr>reach := reach p OR 1\<rparr>))))\<lparr>pollActive := False\<rparr>"
    by (simp add: q_def pollEnd_def Let_def s)
  show "ring_sample 0 q = poll_sample u p" "filteredOffset q = getOffset (poll_sample u p)"
    using b assms(2) by (simp_all add: q updateFilter_def ring_sample_def put_sample_def advanceFilter_def m)
  show "\<not> pollActive q" "reach q = reach p OR 1" by (simp_all add: q updateFilter_def put_sample_def advanceFilter_def)
qed

lemma status_keeps: "filteredOffset (updateStatus p) = filteredOffset p" "ring_sample k (updateStatus p) = ring_sample k p"
  "reach (updateStatus p) = reach p" "filteredOffset (schedule_poll r p) = filteredOffset p" for p :: peer
  by (simp_all add: updateStatus_def adjust_poll_def schedule_poll_def Let_def ring_sample_def)

lemma schedule_keeps: "filteredOffset (schedule_poll r p) = filteredOffset p" "ring_sample k (schedule_poll r p) = ring_sample k p"
  "reach (schedule_poll r p) = reach p" "pollActive (schedule_poll r p) = pollActive p"
  by (simp_all add: schedule_poll_def Let_def ring_sample_def)

lemma reply_completes:
  fixes m :: moment
  assumes i: "i < length (peers s)" and p: "p = peers s ! i" "pollActive p" "pktSent p" "pktRecv p" "pollXleave p \<or> routed s (src_id p)"
    "stratum p \<le> 15" "length (ringSamples p) = 16"
  defines "q \<equiv> peers (Peer_run m i s) ! i"
  shows "filteredOffset q = getOffset (poll_sample (utcOffset s) p)" "ring_sample 0 q = poll_sample (utcOffset s) p" "\<not> pollActive q"
    "reach q = reach p OR 1"
proof -
  let ?p = "p\<lparr>pktRecv := False\<rparr>"
  have "stratum ?p \<le> 15" "length (ringSamples ?p) = 16" "poll_sample u ?p = poll_sample u p" for u using p by (simp_all add: poll_sample_def)
  note e = pollEnd_sample [OF this(1,2), of m "utcOffset s", unfolded this(3)]
  have "peers (Peer_run m i s) ! i = schedule_poll (m_random m) (updateStatus (pollEnd m (utcOffset s) ?p))"
    using i p e(3) by (auto simp: Peer_run_def pollRun_def Let_def upd_peer_def)
  then show "filteredOffset q = getOffset (poll_sample (utcOffset s) p)" "ring_sample 0 q = poll_sample (utcOffset s) p" "\<not> pollActive q"
    "reach q = reach p OR 1"
    using e by (simp_all add: q_def status_keeps schedule_keeps)
qed


section \<open>An exchange between two hosts\<close>


lemma sent_by_get:
  "12 \<le> j \<Longrightarrow> get64 (sent_by mac f) j = get64 f j" "12 \<le> j \<Longrightarrow> get32 (sent_by mac f) j = get32 f j"
  "12 \<le> j \<Longrightarrow> get8 (sent_by mac f) j = get8 f j" "length (sent_by mac f) = length f" "get_mode (sent_by mac f) = get_mode f"
  "length mac = 6 \<Longrightarrow> 12 \<le> length f \<Longrightarrow> rd (sent_by mac f) eth_macSrc 6 = mac"
  "length mac = 6 \<Longrightarrow> rd (sent_by mac f) eth_macDst 6 = rd f eth_macDst 6"
  by (simp_all add: sent_by_def copyMAC_simps get64_def get_mode_def)

text \<open>A peer whose task starts a poll.\<close>

definition poll_ready :: "moment \<Rightarrow> nat \<Rightarrow> 'cb ntpst \<Rightarrow> bool" where
  "poll_ready m i s \<longleftrightarrow> (let p = peers s ! i
     in sources_ok s \<and> i \<in> set (slots_of (sources s)) \<and> \<not> pollActive p \<and> pollWait p = 0 \<and> \<not> isNullMAC (macAddr p)
        \<and> length (macAddr p) = 6 \<and> length (ringSamples p) = 16 \<and> peerArp p \<noteq> 0 \<and> m_seconds m - peerArp p \<le> ARP_MAX_AGE
        \<and> m_ethRaw m \<noteq> 0 \<and> m_now m \<noteq> 0)"

lemma htonll_0: "htonll x = 0 \<longleftrightarrow> x = 0"
proof -
  have "htonll 0 = 0" by code_simp
  then show ?thesis by (metis hton_involutive(3))
qed

lemma stratum_small: "x \<le> 15 \<Longrightarrow> (ucast (ucast x :: u8) :: u16) \<le> 15" for x :: i32
  by (simp add: word_le_nat_alt unsigned_ucast_eq take_bit_eq_mod unat_mod_distrib)

lemma exchange:
  fixes c :: "'z tai_clk_scheme"
  assumes a: "poll_ready m i a" "src_id (peers a ! i) = ipAddress b" "ipAddress a \<noteq> ipAddress b" "length (myMac a) = 6"
      "routed a (ipAddress b)" and b: "clockStratum b \<le> 15" "length (myMac b) = 6"
    and t: "2 * d + w < 2 ^ 63" "d < 2 ^ 31" "utcOffset a = utcOffset b" "txa = (x1, y1, t)" "rxa = (x4, y1 + of_nat (2 * d + w), t + of_nat (2 * d + w))"
      "snd (snd rxb) = t + \<theta> + of_nat d" "tai_now c raw = t + \<theta> + of_nat (d + w)"
  shows "\<exists>q r. outbox (Peer_run m i a) = outbox a @ [(q, 90)] \<and> ntpRequest c raw rxb (sent_by (myMac a) q) 90 b = transmit_frame r 90 b
    \<and> (let s = ntpResponse rxa (sent_by (myMac b) r) 90 (peer_txCallback txa i (Peer_run m i a));
           p = peers (Peer_run m' i s) ! i
       in filteredOffset p = \<theta> \<and> delay (ring_sample 0 p) = fmul (1 / 2 ^ 31) (f32 (of_nat (d div 2)))
          \<and> reach p = push_bit 1 (reach (peers a ! i)) OR 1 \<and> \<not> pollActive p)"
proof -
  define p where "p = peers a ! i"
  note a' = a(1) [unfolded poll_ready_def Let_def, folded p_def]
  note d = sources_okD [OF conjunct1 [OF a']]
  have i: "i < length (peers a)" "i \<in> set (slots_of (sources a))" using a' d(1,6) by auto
  let ?g = "\<lambda>p. (start_poll (m_now m) p)\<lparr>filterTx := htonll (m_now m), txCount := txCount p + 1, pktSent := True, peerIntv := ACTV_INTV\<rparr>"
  obtain q where q: "is_request (ipAddress a) (ipAddress b) (htonll (m_now m)) q"
    "Peer_run m i a = upd_peer i ?g (a\<lparr>ipID := ipID a + 1, outbox := outbox a @ [(q, 90)]\<rparr>)"
    using start_of_poll [OF i(1) p_def, of m] a' a(2) unfolding p_def [symmetric] by auto
  let ?f = "sent_by (myMac a) q"
  have f: "90 \<le> length ?f" "get32 ?f ip4_dst = ipAddress b" "get32 ?f ip4_src = ipAddress a" "get_mode ?f = NTP_MODE_CLI"
    "get64 ?f ntp_origTime = 0" "get64 ?f ntp_txTime = htonll (m_now m)" "rd ?f eth_macSrc 6 = myMac a"
    using q(1) a(4) by (simp_all add: is_request_def sent_by_get)
  have x: "xleave_cell ?f b = None" using f(5) by (simp add: xleave_cell_def Let_def)
  obtain r where r: "ntpRequest c raw rxb ?f 90 b = transmit_frame r 90 b" "length r = 90"
    "is_reply ?f b (htonll (m_now m)) (ntp_stamp (t + \<theta> + of_nat d) b) (ntp_stamp (t + \<theta> + of_nat (d + w)) b) r"
    using request_replied [of 90 ?f b c raw rxb] f a(3) t(6,7) by (auto simp: x intact_def)
  let ?r = "sent_by (myMac b) r"
  have rf: "rd ?r eth_macDst 6 = myMac a" "get32 ?r ip4_dst = ipAddress a" "get32 ?r ip4_src = ipAddress b" "get_mode ?r = NTP_MODE_SRV"
    "get64 ?r ntp_origTime = htonll (m_now m)" "get64 ?r ntp_rxTime = ntp_stamp (t + \<theta> + of_nat d) b"
    "get64 ?r ntp_txTime = ntp_stamp (t + \<theta> + of_nat (d + w)) b" "get8 ?r ntp_stratum = ucast (clockStratum b)"
    using r(3) f b(2) by (simp_all add: is_reply_def sent_by_get)
  define s1 where "s1 = peer_txCallback txa i (Peer_run m i a)"
  have k: "keeps a s1" unfolding s1_def peer_txCallback_def by (rule keeps_trans [OF Peer_run_keeps upd_keeps(7)])
  have s1: "peers s1 ! i = (?g p)\<lparr>local_tx_hw := txa\<rparr>" "myMac s1 = myMac a" "ipAddress s1 = ipAddress a" "sources s1 = sources a"
    "length (peers s1) = length (peers a)" "utcOffset s1 = utcOffset b" "ipSubnet s1 = ipSubnet a"
    using i(1) t(3) by (simp_all add: s1_def peer_txCallback_def q(2) p_def, simp_all add: upd_peer_def)
  have idp: "src_id p = ipAddress b" using a(2) by (simp add: p_def)
  have s2: "ntpResponse rxa ?r 90 s1 = upd_peer i (receive rxa ?r) s1"
    using keeps_ok [OF k conjunct1 [OF a']] i(2) rf(1-5) a' a(3) idp
    by (intro response_received) (simp_all add: s1 start_poll_def htonll_0)
  define p2 where "p2 = receive rxa ?r (peers s1 ! i)"
  define u where "u = upd_peer i (receive rxa ?r) s1"
  have u: "peers u ! i = p2" "i < length (peers u)" "utcOffset u = utcOffset b" "routed u (ipAddress b)"
    using i(1) s1 a(5) by (simp_all add: u_def p2_def, simp_all add: upd_peer_def routed_def)
  have p2: "pollActive p2" "pktSent p2" "pktRecv p2" "src_id p2 = ipAddress b" "stratum p2 = ucast (ucast (clockStratum b) :: u8)"
    "length (ringSamples p2) = 16" "local_tx_hw p2 = txa" "local_rx_hw p2 = rxa" "remote_rx p2 = ntp_stamp (t + \<theta> + of_nat d) b"
    "remote_tx p2 = ntp_stamp (t + \<theta> + of_nat (d + w)) b" "reach p2 = push_bit 1 (reach p)"
    using rf a' idp by (simp_all add: p2_def s1(1) receive_def receive_first_def start_poll_def)
  have st: "stratum p2 \<le> 15" using stratum_small [OF b(1)] by (simp add: p2(5))
  note e = reply_completes [OF u(2) u(1) [symmetric] p2(1-3) disjI2 st p2(6), unfolded p2(4), OF u(4), of m']
  have "getOffset (poll_sample (utcOffset u) p2) = \<theta>"
    using p2(7-10) t by (intro poll_sample_offset [OF t(1), of p2 t]) (simp_all add: ntp_stamp_def u(3))
  moreover have "delay (poll_sample (utcOffset u) p2) = fmul (1 / 2 ^ 31) (f32 (of_nat (d div 2)))"
    using p2(7-10) t by (intro poll_sample_delay [OF t(2), of p2 w "t + \<theta> + of_nat d - utcOffset b + NTP_UTC_OFFSET"]) (simp_all add: ntp_stamp_def algebra_simps)
  ultimately have "filteredOffset (peers (Peer_run m' i u) ! i) = \<theta> \<and> delay (ring_sample 0 (peers (Peer_run m' i u) ! i)) = fmul (1 / 2 ^ 31) (f32 (of_nat (d div 2)))
      \<and> reach (peers (Peer_run m' i u) ! i) = push_bit 1 (reach p) OR 1 \<and> \<not> pollActive (peers (Peer_run m' i u) ! i)"
    using e p2(11) by simp
  moreover have "outbox (Peer_run m i a) = outbox a @ [(q, 90)]" by (simp add: q(2) upd_peer_def)
  ultimately show ?thesis
    using r(1) by (intro exI [of _ q] exI [of _ r]) (simp add: s1_def [symmetric] s2 u_def [symmetric] p_def)
qed


section \<open>Interleaved timestamps\<close>

text \<open>The table after a number of transmissions; each has its timestamps and its frame.\<close>

definition transmissions :: "(stamps \<times> bytes) list \<Rightarrow> 'cb ntpst \<Rightarrow> 'cb ntpst" where
  "transmissions xs s = fold (\<lambda>(tx, g). ntpTxCallback tx g) xs s"

lemma transmissions_keep:
  assumes "list_all (\<lambda>(tx, g). hashXleave (get32 g ip4_dst) \<noteq> k) xs"
  shows "tsXleave (transmissions xs s) k = tsXleave s k"
  using assms by (induction xs arbitrary: s) (auto simp: transmissions_def ntpTxCallback_def)

lemma transmissions_rest: "ipAddress (transmissions xs s) = ipAddress s" "utcOffset (transmissions xs s) = utcOffset s"
  by (induction xs arbitrary: s) (auto simp: transmissions_def ntpTxCallback_def)

lemma interleaved:
  fixes tx :: stamps and r :: bytes
  assumes f: "90 \<le> n" "n \<le> length f" "n \<le> 65535" "get32 f ip4_dst = ipAddress s" "get32 f ip4_src \<noteq> ipAddress s"
      "get_mode f = NTP_MODE_CLI"
    and r: "get32 r ip4_dst = get32 f ip4_src" "get64 f ntp_origTime = get64 r ntp_rxTime" "get64 r ntp_rxTime \<noteq> 0"
      "get64 f ntp_rxTime \<noteq> get64 f ntp_txTime"
    and others: "list_all (\<lambda>(tx', g). hashXleave (get32 g ip4_dst) \<noteq> hashXleave (get32 f ip4_src)) xs"
  defines "s' \<equiv> transmissions xs (ntpTxCallback tx r s)"
  shows "\<exists>g. ntpRequest c raw rx f n s' = transmit_frame g n s' \<and> intact g n
    \<and> is_reply f s' (get64 f ntp_rxTime) (ntp_stamp (snd (snd rx)) s) (ntp_stamp (snd (snd tx)) s) g"
proof -
  let ?k = "hashXleave (get32 f ip4_src)"
  have k: "tsXleave s' ?k = (get64 r ntp_rxTime, ntp_stamp (snd (snd tx)) s)"
    unfolding s'_def transmissions_keep [OF others] using r(1) by (simp add: ntpTxCallback_def)
  have s: "ipAddress s' = ipAddress s" "utcOffset s' = utcOffset s"
    by (simp_all add: s'_def transmissions_rest ntpTxCallback_def)
  have x: "xleave_cell f s' = Some ?k" using r(2-4) k by (simp add: xleave_cell_def Let_def)
  show ?thesis using request_replied [OF f(1-3), of s' c raw rx] f(4-6) k by (simp add: x s ntp_stamp_def)
qed

section \<open>Servers found by DNS\<close>

lemma pool_response:
  assumes s: "sources_ok s" and f: "dns_response s rid ls rrs f" "0 \<notin> set (concat (map rr_addr rrs))" and i: "i < length (dnsRequests s)"
    "dnsRequests s ! i = \<lparr>dns_expire = e, requestId = ucast rid, dns_callback = Some NtpDns, dns_ref = r\<rparr>"
    and other: "list_all (\<lambda>q. dns_callback q = None \<or> requestId q \<noteq> ucast rid) (take i (dnsRequests s))"
  shows "\<exists>t. dns_processFrame ntpDnsCallback f (length f) s = Some t \<and> sources_ok t
    \<and> peer_ids t = fold (add_peer (ipAddress s)) (concat (map rr_addr rrs)) (peer_ids s)
    \<and> dns_callback (dnsRequests t ! i) = None"
proof -
  let ?as = "concat (map rr_addr rrs)"
  let ?t = "fold (ntpDnsCallback NtpDns r) ?as s"
  let ?u = "?t\<lparr>dnsRequests := (dnsRequests s)[i := (dnsRequests s ! i)\<lparr>dns_callback := None\<rparr>]\<rparr>"
  have "\<forall>j < i. dns_callback (dnsRequests s ! j) = None \<or> requestId (dnsRequests s ! j) \<noteq> ucast rid"
    using other i(1) by (auto simp: list_all_length)
  from ntp_dns.response_reported [OF f(1) i this] have "dns_processFrame ntpDnsCallback f (length f) s = Some ?u"
    by (simp add: Let_def)
  moreover have t: "sources_ok ?t" "peer_ids ?t = fold (add_peer (ipAddress s)) ?as (peer_ids s)"
    using fold_ntpDnsCallback_abs [OF s f(2), of NtpDns r] by simp_all
  moreover have "sources_ok ?u" by (rule keeps_ok [OF _ t(1)]) (simp add: keeps_same)
  moreover have "peer_ids ?u = peer_ids ?t" by (simp add: peer_ids_def)
  ultimately show ?thesis using i(1) by (intro exI [of _ ?u]) simp
qed


section \<open>A host at power up\<close>

text \<open>A host at power up, for the witnesses: no peer is allocated, and the list of sources is empty.\<close>

definition blank_peer :: peer where
  "blank_peer = source.extend (Source_new 0 0) (peer.fields 0 0 (0, 0, 0) 0 0 (0, 0, 0) 0 0 0 0 0 False False False False (replicate 6 0))"

definition ntp_boot :: "mac \<Rightarrow> u32 \<Rightarrow> nat ntpst" where
  "ntp_boot mac ip = \<lparr>myMac = mac, ipBroadcast = 0, ipAddress = ip, ipSubnet = - 1, ipRouter = 0, ipDNS = 0,
     ipID = 0, udpRegistry = replicate 16 (0, None), outbox = [],
     arpRequests = replicate 16 \<lparr>expire = 0, remoteAddress = 0, callback = ArpRouter, ref = 0\<rparr>,
     macRouter = replicate 6 0, nextAnnounce = 0, lastRouterPoll = 0,
     dnsRequests = replicate 16 \<lparr>dns_expire = 0, requestId = 0, dns_callback = None, dns_ref = 0\<rparr>,
     lastArp = 0, nextRequest = 0, dnsMAC = replicate 6 0,
     dhcpUUID = 7, dhcpXID = 0, dhcpLeaseExpire = 0, hostname = [], ntpAddr = replicate 8 0, ntpLen = 0,
     peers = replicate 8 blank_peer, utcOffset = 0,
     gpsSource = GPS_new, sources = [], selectedSource = None, ntpUpdate = 0, leapIndicator = 0, clockStratum = 16, ntpRefId = 0,
     ntpRootDelay = 0, ntpRootDispersion = 0, tsXleave = (\<lambda>_. (0, 0)), pllCalls = []\<rparr>"

lemma boot_reach: "ntp_reach A (ntp_init a b c (ntp_boot mac ip))"
  by (rule ntp_reach.Start) (simp_all add: ntp_boot_def blank_peer_def isAllocated_def Source_new_def source.defs list_all_length)

end
