(* ===== verification/NtpService.thy ===== *)
theory NtpService
  imports NtpExchange
begin

unbundle bit_operations_syntax

text \<open>
  What the time server guarantees: its list of sources in every reachable state, its replies to clients, the
  measurement of one host by another, the end of every poll, and the servers found by DNS and ARP.
\<close>

section \<open>Properties\<close>

text \<open>
  C3: The sources stay consistent. In every state that the server reaches by pulses, tasks, frames, transmissions,
  selections, DNS answers and clock steps, in any order and whatever addresses DNS and DHCP report (the set \<open>A\<close>), the
  list of sources starts with the GPS, holds at most nine entries, names only slots of the array of peers and every
  allocated one, and their polling intervals are within their limits. If moreover 0.0.0.0 is never reported, it
  holds every allocated slot exactly once, all of remote peers with different addresses. (0.0.0.0 is excluded for
  good reason: see \<open>zero_address_shares_slot\<close>.)
\<close>
theorem ntp_sources_consistent:
  assumes "ntp_reach A s"
  shows "sources_safe s \<and> length (sources s) \<le> MAX_NTP_SRCS
    \<and> (0 \<notin> A \<longrightarrow> sources_ok s \<and> distinct (sources s))"
  using reach_safe [OF assms] sources_safeD(3) reach_ok [OF assms] sources_ok_bound(2) by blast

theorem ntp_sources_consistent_witness:
  "let s = ntpDnsCallback NtpDns 0 9 (ntp_init 1 2 3 (ntp_boot [2, 0, 0, 0, 0, 1] 5))
   in sources_safe s \<and> length (sources s) \<le> MAX_NTP_SRCS \<and> sources_ok s \<and> distinct (sources s)"
  unfolding Let_def
  using ntp_sources_consistent [OF ntp_reach.Step [OF boot_reach ntp_step.Found], of 9 "{9}"] by simp

text \<open>
  The address 0.0.0.0 in an answer makes a peer whose slot counts as free: the next peer is built in the same slot, and
  the list names it twice.
\<close>
theorem zero_address_shares_slot:
  "let s = ntpDnsCallback NtpDns 0 9 (ntpDnsCallback NtpDns 0 0 (ntp_init 1 2 3 (ntp_boot [2, 0, 0, 0, 0, 1] 5)))
   in ntp_reach {0, 9} s \<and> sources s = [SrcGps, SrcPeer 0, SrcPeer 0] \<and> \<not> distinct (sources s)"
proof -
  have "sources (ntpDnsCallback NtpDns 0 9 (ntpDnsCallback NtpDns 0 0 (ntp_init 1 2 3 (ntp_boot [2, 0, 0, 0, 0, 1] 5))))
    = [SrcGps, SrcPeer 0, SrcPeer 0]" by code_simp
  moreover have "ntp_reach {0, 9} (ntpDnsCallback NtpDns 0 9 (ntpDnsCallback NtpDns 0 0 (ntp_init 1 2 3 (ntp_boot [2, 0, 0, 0, 0, 1] 5))))"
    by (rule ntp_reach.Step [OF ntp_reach.Step [OF boot_reach ntp_step.Found] ntp_step.Found]) simp_all
  ultimately show ?thesis unfolding Let_def by simp
qed

text \<open>
  C27: A client's request that is not malformed and is addressed to this host is answered by one intact
  datagram back to its sender, in server mode, with the server's status, with its receive time, and
  with the client's transmit time and the current time; or, when the request names a reply of which
  the hardware transmit time is known, with the client's receive time and that transmit time.
\<close>
theorem ntp_request_replied:
  fixes s :: "'cb ntpst" and c :: "'z tai_clk_scheme"
  assumes "90 \<le> n" "n \<le> length f" "n \<le> 65535" "get32 f ip4_dst = ipAddress s" "get32 f ip4_src \<noteq> ipAddress s"
    "get_mode f = NTP_MODE_CLI"
  shows "\<exists>r. ntpRequest c raw rx f n s = transmit_frame r n s \<and> intact r n
    \<and> is_reply f s (case xleave_cell f s of None \<Rightarrow> get64 f ntp_txTime | Some _ \<Rightarrow> get64 f ntp_rxTime) (ntp_stamp (snd (snd rx)) s)
        (case xleave_cell f s of None \<Rightarrow> ntp_stamp (tai_now c raw) s | Some k \<Rightarrow> snd (tsXleave s k)) r"
  using assms by (rule request_replied)

definition client_frame :: "u64 \<Rightarrow> u64 \<Rightarrow> u64 \<Rightarrow> bytes" where
  "client_frame org rx tx = replicate 26 0 @ enc32 7 @ enc32 5 @ replicate 8 0 @ [0x23] @ replicate 23 0 @ enc64 org @ enc64 rx @ enc64 tx"

theorem ntp_request_replied_witness:
  "let s = ntp_boot [2, 0, 0, 0, 0, 1] 5; f = client_frame 0 0 77; rx = (1, 2, 3) :: stamps
   in \<exists>r. ntpRequest tai_reset 1000 rx f 90 s = transmit_frame r 90 s \<and> intact r 90
     \<and> is_reply f s (case xleave_cell f s of None \<Rightarrow> get64 f ntp_txTime | Some _ \<Rightarrow> get64 f ntp_rxTime) (ntp_stamp (snd (snd rx)) s)
         (case xleave_cell f s of None \<Rightarrow> ntp_stamp (tai_now tai_reset 1000) s | Some k \<Rightarrow> snd (tsXleave s k)) r"
proof -
  have "length (client_frame 0 0 77) = 90" "get32 (client_frame 0 0 77) ip4_src = 7" "get32 (client_frame 0 0 77) ip4_dst = 5"
    "get_mode (client_frame 0 0 77) = NTP_MODE_CLI" by code_simp+
  then show ?thesis unfolding Let_def by (intro ntp_request_replied) (simp_all, simp_all add: ntp_boot_def)
qed

text \<open>
  C10: Interleaved mode. After the reply \<open>r\<close> has left at the hardware time \<open>tx\<close>, and any number of replies to
  clients whose addresses hash to other cells, a request of the same client that names \<open>r\<close> by its receive time is
  answered with that transmit time instead of the time of its own reply.
\<close>
theorem ntp_interleaved:
  fixes tx :: stamps and r :: bytes and s :: "'cb ntpst" and c :: "'z tai_clk_scheme"
  assumes "90 \<le> n" "n \<le> length f" "n \<le> 65535" "get32 f ip4_dst = ipAddress s" "get32 f ip4_src \<noteq> ipAddress s"
      "get_mode f = NTP_MODE_CLI"
    and "get32 r ip4_dst = get32 f ip4_src" "get64 f ntp_origTime = get64 r ntp_rxTime" "get64 r ntp_rxTime \<noteq> 0"
      "get64 f ntp_rxTime \<noteq> get64 f ntp_txTime"
    and "list_all (\<lambda>(tx', g). hashXleave (get32 g ip4_dst) \<noteq> hashXleave (get32 f ip4_src)) xs"
  defines "s' \<equiv> transmissions xs (ntpTxCallback tx r s)"
  shows "\<exists>g. ntpRequest c raw rx f n s' = transmit_frame g n s' \<and> intact g n
    \<and> is_reply f s' (get64 f ntp_rxTime) (ntp_stamp (snd (snd rx)) s) (ntp_stamp (snd (snd tx)) s) g"
  unfolding s'_def using assms(1-11) by (rule interleaved)

definition reply_frame :: "u32 \<Rightarrow> u64 \<Rightarrow> bytes" where
  "reply_frame dst rx = replicate 30 0 @ enc32 dst @ replicate 40 0 @ enc64 rx"

theorem ntp_interleaved_witness:
  "let b = ntp_boot [2, 0, 0, 0, 0, 1] 5; f = client_frame 33 12 77; rx = (1, 2, 3) :: stamps; tx = (4, 5, 6) :: stamps;
      s' = transmissions [((7, 8, 9), reply_frame 2 44)] (ntpTxCallback tx (reply_frame 7 33) b)
   in \<exists>g. ntpRequest tai_reset 1000 rx f 90 s' = transmit_frame g 90 s' \<and> intact g 90
    \<and> is_reply f s' (get64 f ntp_rxTime) (ntp_stamp (snd (snd rx)) b) (ntp_stamp (snd (snd tx)) b) g"
proof -
  have f: "length (client_frame 33 12 77) = 90" "get32 (client_frame 33 12 77) ip4_src = 7" "get32 (client_frame 33 12 77) ip4_dst = 5"
    "get_mode (client_frame 33 12 77) = NTP_MODE_CLI" "get64 (client_frame 33 12 77) ntp_origTime = 33"
    "get64 (client_frame 33 12 77) ntp_rxTime = 12" "get64 (client_frame 33 12 77) ntp_txTime = 77" by code_simp+
  have r: "get32 (reply_frame 7 33) ip4_dst = 7" "get64 (reply_frame 7 33) ntp_rxTime = 33" "get32 (reply_frame 2 44) ip4_dst = 2" by code_simp+
  have h: "hashXleave 2 \<noteq> hashXleave 7" by code_simp
  show ?thesis unfolding Let_def
    by (rule ntp_interleaved) (simp_all add: f r h, simp_all add: ntp_boot_def)
qed

text \<open>
  C1: Two hosts running this program. A peer sends its request, the server answers, and the client
  records the exchange: if the network delays both ways are equal (\<open>d\<close>, and \<open>w\<close> passes in the server between its
  timestamps), then the offset that goes to the clock control is exactly the difference \<open>\<theta>\<close> of the two clocks, the
  delay is the rounded half of \<open>d\<close> in the code's units, the poll is over and its reach bit is set.
\<close>
theorem ntp_exchange_offset:
  fixes a b :: "'cb ntpst" and c :: "'z tai_clk_scheme" and txa rxa rxb :: stamps
  assumes "poll_ready m i a" "src_id (peers a ! i) = ipAddress b" "ipAddress a \<noteq> ipAddress b" "length (myMac a) = 6"
      "routed a (ipAddress b)" "clockStratum b \<le> 15" "length (myMac b) = 6"
    and "2 * d + w < 2 ^ 63" "d < 2 ^ 31" "utcOffset a = utcOffset b" "txa = (x1, y1, t)" "rxa = (x4, y1 + of_nat (2 * d + w), t + of_nat (2 * d + w))"
      "snd (snd rxb) = t + \<theta> + of_nat d" "tai_now c raw = t + \<theta> + of_nat (d + w)"
  shows "\<exists>q r. outbox (Peer_run m i a) = outbox a @ [(q, 90)] \<and> ntpRequest c raw rxb (sent_by (myMac a) q) 90 b = transmit_frame r 90 b
    \<and> (let s = ntpResponse rxa (sent_by (myMac b) r) 90 (peer_txCallback txa i (Peer_run m i a));
           p = peers (Peer_run m' i s) ! i
       in filteredOffset p = \<theta> \<and> delay (ring_sample 0 p) = fmul (1 / 2 ^ 31) (f32 (of_nat (d div 2)))
          \<and> reach p = push_bit 1 (reach (peers a ! i)) OR 1 \<and> \<not> pollActive p)"
  using assms by (rule exchange)

definition polling_host :: "nat ntpst" where
  "polling_host = upd_peer 0 (\<lambda>p. p\<lparr>macAddr := [2, 0, 0, 0, 0, 9], peerArp := 1\<rparr>)
     (ntpDnsCallback NtpDns 0 9 (ntp_init 1 2 3 (ntp_boot [2, 0, 0, 0, 0, 1] 5)))"

definition serving_host :: "nat ntpst" where
  "serving_host = (ntp_boot [2, 0, 0, 0, 0, 2] 9)\<lparr>clockStratum := 1\<rparr>"

definition a_moment :: moment where
  "a_moment = \<lparr>m_now = 5, m_seconds = 10, m_ethRaw = 3, m_random = 77, m_fit = no_fit\<rparr>"

theorem ntp_exchange_offset_witness:
  "let t = 1000; d = 700; w = 300; \<theta> = tai_now tai_reset 5000 - t - of_nat (d + w); txa = (1, 2, t) :: stamps;
      rxa = (3, 2 + of_nat (2 * d + w), t + of_nat (2 * d + w)); rxb = (0, 0, t + \<theta> + of_nat d); a = polling_host; b = serving_host
   in \<exists>q r. outbox (Peer_run a_moment 0 a) = outbox a @ [(q, 90)] \<and> ntpRequest tai_reset 5000 rxb (sent_by (myMac a) q) 90 b = transmit_frame r 90 b
    \<and> (let s = ntpResponse rxa (sent_by (myMac b) r) 90 (peer_txCallback txa 0 (Peer_run a_moment 0 a));
           p = peers (Peer_run a_moment 0 s) ! 0
       in filteredOffset p = \<theta> \<and> delay (ring_sample 0 p) = fmul (1 / 2 ^ 31) (f32 (of_nat (d div 2)))
          \<and> reach p = push_bit 1 (reach (peers a ! 0)) OR 1 \<and> \<not> pollActive p)"
  unfolding Let_def [of 1000] Let_def [of 700] Let_def [of 300] Let_def [of polling_host] Let_def [of serving_host]
    Let_def [of "tai_now _ _ - _ - _"] Let_def [of "(_, _, _)"]
proof (rule ntp_exchange_offset [OF _ _ _ _ _ _ _ _ _ _ refl refl])
  show "poll_ready a_moment 0 polling_host" "src_id (peers polling_host ! 0) = ipAddress serving_host"
    "ipAddress polling_host \<noteq> ipAddress serving_host" "length (myMac polling_host) = 6"
    "routed polling_host (ipAddress serving_host)" "clockStratum serving_host \<le> 15" "length (myMac serving_host) = 6"
    "utcOffset polling_host = utcOffset serving_host"
    by code_simp+
qed simp_all

text \<open>
  C22: A poll does not stay open. Take an open poll whose request was sent, with a polling interval within its limits,
  after its response timeout. Whatever was received so far, and whatever arrives between the next two runs of the
  peer's task, those two runs close it, and the next poll is scheduled within a sixteenth of the polling interval
  after it; if the server last said that it is not synchronised (a stratum above 15), then provided that no response
  arrives between the two runs, for such a response only ends in the early return of \<open>pollEnd\<close>.
\<close>
theorem peer_poll_closed:
  assumes "i < length (peers s)" "p = peers s ! i" "pktSent p" "pollActive p" "poll_ok p"
    "m_now m - pollStart p > PEER_RESPONSE_TIMEOUT" "m_now m' - pollStart p > PEER_RESPONSE_TIMEOUT"
    "rs = [] \<or> stratum p \<le> 15"
  shows "let q = peers (run_active m' i (receives rs i (run_active m i s))) ! i in \<not> pollActive q \<and> scheduled q"
  using assms by (rule two_runs)

theorem peer_poll_closed_witness:
  "let m = a_moment\<lparr>m_now := 3000000000\<rparr>; m' = a_moment\<lparr>m_now := 3268435456\<rparr>; s = Peer_run a_moment 0 polling_host;
      q = peers (run_active m' 0 (receives [((1, 2, 3), client_frame 7 8 9)] 0 (run_active m 0 s))) ! 0
   in \<not> pollActive q \<and> scheduled q"
  unfolding Let_def [of "_ :: moment"] Let_def [of "_ :: nat ntpst"]
proof (rule peer_poll_closed [OF _ refl])
  show "0 < length (peers (Peer_run a_moment 0 polling_host))" "pktSent (peers (Peer_run a_moment 0 polling_host) ! 0)"
    "pollActive (peers (Peer_run a_moment 0 polling_host) ! 0)" "poll_ok (peers (Peer_run a_moment 0 polling_host) ! 0)"
    "PEER_RESPONSE_TIMEOUT < m_now (a_moment\<lparr>m_now := 3000000000\<rparr>) - pollStart (peers (Peer_run a_moment 0 polling_host) ! 0)"
    "PEER_RESPONSE_TIMEOUT < m_now (a_moment\<lparr>m_now := 3268435456\<rparr>) - pollStart (peers (Peer_run a_moment 0 polling_host) ! 0)"
    "[((1, 2, 3), client_frame 7 8 9)] = [] \<or> stratum (peers (Peer_run a_moment 0 polling_host) ! 0) \<le> 15"
    by code_simp+
qed

text \<open>
  C23: A DNS response to the pending lookup of time servers adds its addresses to the peers in the order of the
  answer: an address that is a peer already, this host's own, or that comes when all eight slots are taken is
  passed over. The source list stays consistent and the request is finished. Neither this answer nor an earlier report
  may have the address 0.0.0.0, which the code would accept (see \<open>zero_address_shares_slot\<close>).
\<close>
theorem pool_servers_added:
  assumes "ntp_reach A s" "0 \<notin> A" "dns_response s rid ls rrs f" "0 \<notin> set (concat (map rr_addr rrs))" "i < length (dnsRequests s)"
    "dnsRequests s ! i = \<lparr>dns_expire = e, requestId = ucast rid, dns_callback = Some NtpDns, dns_ref = r\<rparr>"
    "list_all (\<lambda>q. dns_callback q = None \<or> requestId q \<noteq> ucast rid) (take i (dnsRequests s))"
  shows "\<exists>t. dns_processFrame ntpDnsCallback f (length f) s = Some t \<and> sources_ok t
    \<and> peer_ids t = fold (add_peer (ipAddress s)) (concat (map rr_addr rrs)) (peer_ids s)
    \<and> dns_callback (dnsRequests t ! i) = None"
  using pool_response [OF reach_ok [OF assms(1,2)] assms(3-7)] .

definition lookup_host :: "nat ntpst" where
  "lookup_host = ntp_init 1 2 3 ((ntp_boot [2, 0, 0, 0, 0, 1] 5)\<lparr>dnsRequests :=
     [\<lparr>dns_expire = 9, requestId = 0x1234, dns_callback = Some NtpDns, dns_ref = 0\<rparr>]\<rparr>)"

definition pool_answer :: bytes where
  "pool_answer = [2, 0, 0, 0, 0, 1] @ replicate 24 0 @ [5, 0, 0, 0] @ replicate 8 0 @ [0x34, 0x12, 0x80, 0, 0, 1, 0, 3] @ replicate 4 0
     @ question [[0x70, 0x6F], [0x6E, 0x74, 0x70]] @ concat (map enc_rr [RrA 60 7, RrA 60 5, RrA 60 8])"

theorem pool_servers_added_witness:
  "\<exists>t. dns_processFrame ntpDnsCallback pool_answer (length pool_answer) lookup_host = Some t \<and> sources_ok t
    \<and> peer_ids t = fold (add_peer (ipAddress lookup_host)) (concat (map rr_addr [RrA 60 7, RrA 60 5, RrA 60 8])) (peer_ids lookup_host)
    \<and> dns_callback (dnsRequests t ! 0) = None"
proof (rule pool_servers_added)
  show "ntp_reach {} lookup_host" unfolding lookup_host_def
    by (rule ntp_reach.Start) (simp_all add: ntp_boot_def blank_peer_def isAllocated_def Source_new_def source.defs list_all_length)
  show "dns_response lookup_host 0x1234 [[0x70, 0x6F], [0x6E, 0x74, 0x70]] [RrA 60 7, RrA 60 5, RrA 60 8] pool_answer"
    by code_simp
  show "0 \<notin> {}" by simp
  show "0 \<notin> set (concat (map rr_addr [RrA 60 7, RrA 60 5, RrA 60 8]))" by simp
  show "0 < length (dnsRequests lookup_host)" "list_all (\<lambda>q. dns_callback q = None \<or> requestId q \<noteq> ucast (0x1234 :: u16)) (take 0 (dnsRequests lookup_host))"
    "dnsRequests lookup_host ! 0 = \<lparr>dns_expire = 9, requestId = ucast (0x1234 :: u16), dns_callback = Some NtpDns, dns_ref = 0\<rparr>"
    by code_simp+
qed

text \<open>
  Two hosts on one network. A host that looks up its DNS server's hardware address broadcasts one request; the
  server's host answers it, and the answer gives the client that hardware address and frees the slot of the
  request, with the peers as the other clients of address resolution.
\<close>
theorem dns_server_resolved:
  fixes a :: "('cb, 'z) peerst_scheme" and b :: "('cb2, 'e2, 'z2) arpst_scheme"
  assumes "IPv4_testSubnet (ipSubnet a) (ipAddress a) (ipDNS a) = 0" "ipDNS a = ipAddress b" "ipAddress b \<noteq> 0"
    "length (myMac a) = 6" "length (myMac b) = 6" "\<not> isNullMAC (myMac b)" "length (dnsMAC a) = 6"
    "first_slot (\<lambda>q. remoteAddress q = 0) (arpRequests a) = Some i" "list_all (\<lambda>q. remoteAddress q \<noteq> ipDNS a) (arpRequests a)"
  shows "\<exists>q r. outbox (DNS_updateMAC now a) = outbox a @ [(q, 60)]
    \<and> ARP_process callb nowb (sent_by (myMac a) q) 60 b = transmit_frame r 60 b
    \<and> (let a' = ARP_process (dns_call now (peer_arpCallback now)) now (sent_by (myMac b) r) 60 (DNS_updateMAC now a)
       in dnsMAC a' = myMac b \<and> list_all (\<lambda>q. remoteAddress q \<noteq> ipDNS a) (arpRequests a'))"
  using assms by (rule peer_arp.server_resolved)

theorem dns_server_resolved_witness:
  "let a = (ntp_boot [2, 0, 0, 0, 0, 1] 5)\<lparr>ipDNS := 9, ipSubnet := 0xF0\<rparr>; b = ntp_boot [2, 0, 0, 0, 0, 2] 9
   in \<exists>q r. outbox (DNS_updateMAC 7 a) = outbox a @ [(q, 60)]
    \<and> ARP_process (dns_call 8 (peer_arpCallback 8)) 8 (sent_by (myMac a) q) 60 b = transmit_frame r 60 b
    \<and> (let a' = ARP_process (dns_call 7 (peer_arpCallback 7)) 7 (sent_by (myMac b) r) 60 (DNS_updateMAC 7 a)
       in dnsMAC a' = myMac b \<and> list_all (\<lambda>q. remoteAddress q \<noteq> ipDNS a) (arpRequests a'))"
  unfolding Let_def [of "ipSubnet_update _ _"] Let_def [of "ntp_boot _ _"]
  by (rule dns_server_resolved [where i = 0])
     (simp_all add: ntp_boot_def isNullMAC_def IPv4_testSubnet_def list_all_length, code_simp)

end
