(* ===== verification/Ptp.thy ===== *)
theory Ptp
  imports NtpExchange
begin

unbundle bit_operations_syntax

text \<open>
  The PTP server (lib/ptp/common.cpp, ptp.cpp): timestamps and accuracy codes, the periodic announce and
  sync messages with their follow-up, and the replies to delay requests. The callback of a transmission
  is an event of its own, with the hardware stamps of the frame that it is called for; the RMS error of the
  phase-locked loop is an argument.
\<close>

section \<open>Headers\<close>

abbreviation (input) ptp_type :: nat where "ptp_type \<equiv> 14"
abbreviation (input) ptp_version :: nat where "ptp_version \<equiv> 15"
abbreviation (input) ptp_length :: nat where "ptp_length \<equiv> 16"
abbreviation (input) ptp_domain :: nat where "ptp_domain \<equiv> 18"
abbreviation (input) ptp_identity :: nat where "ptp_identity \<equiv> 34"
abbreviation (input) ptp_port :: nat where "ptp_port \<equiv> 42"
abbreviation (input) ptp_sequence :: nat where "ptp_sequence \<equiv> 44"
abbreviation (input) ptp_interval :: nat where "ptp_interval \<equiv> 47"
abbreviation (input) ptp_data :: nat where "ptp_data \<equiv> 48"
abbreviation (input) ptp_requesting :: nat where "ptp_requesting \<equiv> 58"
abbreviation (input) annc_utcOffset :: nat where "annc_utcOffset \<equiv> 58"
abbreviation (input) annc_priority :: nat where "annc_priority \<equiv> 61"
abbreviation (input) annc_quality :: nat where "annc_quality \<equiv> 62"
abbreviation (input) annc_priority2 :: nat where "annc_priority2 \<equiv> 66"
abbreviation (input) annc_identity :: nat where "annc_identity \<equiv> 67"
abbreviation (input) annc_steps :: nat where "annc_steps \<equiv> 75"
abbreviation (input) annc_source :: nat where "annc_source \<equiv> 77"

abbreviation (input) PTP2_VERSION :: u8 where "PTP2_VERSION \<equiv> 2"
abbreviation (input) PTP2_DOMAIN :: u8 where "PTP2_DOMAIN \<equiv> 1"
abbreviation (input) PTP2_MT_SYNC :: u8 where "PTP2_MT_SYNC \<equiv> 0"
abbreviation (input) PTP2_MT_DELAY_REQ :: u8 where "PTP2_MT_DELAY_REQ \<equiv> 1"
abbreviation (input) PTP2_MT_PDELAY_REQ :: u8 where "PTP2_MT_PDELAY_REQ \<equiv> 2"
abbreviation (input) PTP2_MT_PDELAY_RESP :: u8 where "PTP2_MT_PDELAY_RESP \<equiv> 3"
abbreviation (input) PTP2_MT_FOLLOW_UP :: u8 where "PTP2_MT_FOLLOW_UP \<equiv> 8"
abbreviation (input) PTP2_MT_DELAY_RESP :: u8 where "PTP2_MT_DELAY_RESP \<equiv> 9"
abbreviation (input) PTP2_MT_PDELAY_FOLLOW_UP :: u8 where "PTP2_MT_PDELAY_FOLLOW_UP \<equiv> 10"
abbreviation (input) PTP2_MT_ANNOUNCE :: u8 where "PTP2_MT_ANNOUNCE \<equiv> 11"
abbreviation (input) PTP2_TSRC_GPS :: u8 where "PTP2_TSRC_GPS \<equiv> 0x20"
abbreviation (input) PTP2_TSRC_NTP :: u8 where "PTP2_TSRC_NTP \<equiv> 0x50"
abbreviation (input) PTP2_ANNC_LOG_INTV :: u8 where "PTP2_ANNC_LOG_INTV \<equiv> 0"
abbreviation (input) PTP2_SYNC_LOG_INTV :: u8 where "PTP2_SYNC_LOG_INTV \<equiv> - 4"

abbreviation (input) HEADER_PTP_size :: nat where "HEADER_PTP_size \<equiv> 34"
abbreviation (input) PTP2_MIN_SIZE :: nat where "PTP2_MIN_SIZE \<equiv> 48"
abbreviation (input) PTP2_TIMESTAMP_size :: nat where "PTP2_TIMESTAMP_size \<equiv> 10"
abbreviation (input) PTP2_DELAY_RESP_size :: nat where "PTP2_DELAY_RESP_size \<equiv> 20"
abbreviation (input) PTP2_ANNOUNCE_size :: nat where "PTP2_ANNOUNCE_size \<equiv> 30"

definition gPtpMac :: mac where
  "gPtpMac = [0x01, 0x80, 0xC2, 0x00, 0x00, 0x0E]"

lemma length_gPtpMac [simp]: "length gPtpMac = 6" by (simp add: gPtpMac_def)

definition get_nibble :: "bytes \<Rightarrow> nat \<Rightarrow> u8" where
  "get_nibble f j = take_bit 4 (get8 f j)"

definition put_nibble :: "bytes \<Rightarrow> nat \<Rightarrow> u8 \<Rightarrow> bytes" where
  "put_nibble f j v = put8 f j (set_field 0 4 v (get8 f j))"

section \<open>Timestamps and accuracy\<close>

definition ptp_nanos :: "u64 \<Rightarrow> u32" where
  "ptp_nanos ts = fx_ipart (fx_full 0 (fx_fpart ts) * 1000000000)"

definition toPtpTimestamp :: "u64 \<Rightarrow> nat \<Rightarrow> bytes \<Rightarrow> bytes" where
  "toPtpTimestamp ts i f =
     (let f = put16 f i 0;
          f = put32 f (i + 2) (htonl (fx_ipart ts))
      in put32 f (i + 6) (htonl (ptp_nanos ts)))"

definition fromPtpTimestamp :: "bytes \<Rightarrow> nat \<Rightarrow> u64" where
  "fromPtpTimestamp f i = fx_full (htonl (get32 f (i + 2))) (nanosToFrac (htonl (get32 f (i + 6))))"

text \<open>The thresholds are the decimal constants of the source, rounded to single precision.\<close>

definition lutClkAccuracy :: "flt list" where
  "lutClkAccuracy = map (\<lambda>x. Fin (f32 x))
     [25 / 10 ^ 9, 100 / 10 ^ 9, 250 / 10 ^ 9, 1 / 10 ^ 6,
      25 / 10 ^ 7, 10 / 10 ^ 6, 25 / 10 ^ 6, 100 / 10 ^ 6,
      250 / 10 ^ 6, 1 / 10 ^ 3, 25 / 10 ^ 4, 10 / 10 ^ 3,
      25 / 10 ^ 6, 100 / 10 ^ 3, 250 / 10 ^ 3, 1,
      10]"

definition toPtpClkAccuracy :: "flt \<Rightarrow> u32" where
  "toPtpClkAccuracy rmsError =
     (case first_slot (flt_le rmsError) lutClkAccuracy of
        Some i \<Rightarrow> 0x20 + of_nat i
      | None \<Rightarrow> 0x31)"

section \<open>State\<close>

record 'cb ptpst = "'cb ntpst" +
  ptpClockId :: bytes
  seqId :: u32

definition ptp_init :: "('cb, 'z) ptpst_scheme \<Rightarrow> ('cb, 'z) ptpst_scheme" where
  "ptp_init s = s\<lparr>ptpClockId := wr (ptpClockId s) 2 (rd (myMac s) 0 6)\<rparr>"

text \<open>The header of every message that this clock sends.\<close>

definition ptp_header :: "u8 \<Rightarrow> nat \<Rightarrow> u8 \<Rightarrow> ('cb, 'z) ptpst_scheme \<Rightarrow> bytes \<Rightarrow> bytes" where
  "ptp_header mtype msize interval s f =
     (let f = put_nibble f ptp_version PTP2_VERSION;
          f = put_nibble f ptp_type mtype;
          f = put16 f ptp_length (htons (of_nat (HEADER_PTP_size + msize)));
          f = wr f ptp_identity (ptpClockId s);
          f = put16 f ptp_port 0;
          f = put8 f ptp_domain PTP2_DOMAIN
      in put8 f ptp_interval interval)"

section \<open>Requests\<close>

text \<open>Both kinds of delay request are answered by a frame of the same layout.\<close>

definition resize :: "nat \<Rightarrow> bytes \<Rightarrow> nat \<Rightarrow> bytes" where
  "resize n frame size' = wr (replicate n 0) 0 (take (min size' n) frame)"

definition delay_response :: "u8 \<Rightarrow> stamps \<Rightarrow> bytes \<Rightarrow> nat \<Rightarrow> ('cb, 'z) ptpst_scheme \<Rightarrow> ('cb, 'z) ptpst_scheme" where
  "delay_response mtype rx frame size' s =
     (let f = resize (PTP2_MIN_SIZE + PTP2_DELAY_RESP_size) frame size';
          f = wr f ptp_requesting (rd f ptp_identity 10);
          f = toPtpTimestamp (snd (snd rx)) ptp_data f;
          f = ptp_header mtype PTP2_DELAY_RESP_size 0 s f
      in transmit_frame f (PTP2_MIN_SIZE + PTP2_DELAY_RESP_size) s)"

definition processDelayRequest :: "stamps \<Rightarrow> bytes \<Rightarrow> nat \<Rightarrow> ('cb, 'z) ptpst_scheme \<Rightarrow> ('cb, 'z) ptpst_scheme" where
  "processDelayRequest rx frame size' s =
     (if size' < PTP2_MIN_SIZE + PTP2_TIMESTAMP_size then s
      else delay_response PTP2_MT_DELAY_RESP rx frame size' s)"

definition processPDelayRequest :: "stamps \<Rightarrow> bytes \<Rightarrow> nat \<Rightarrow> ('cb, 'z) ptpst_scheme \<Rightarrow> ('cb, 'z) ptpst_scheme" where
  "processPDelayRequest rx frame size' s =
     (if size' < PTP2_MIN_SIZE + PTP2_DELAY_RESP_size then s
      else delay_response PTP2_MT_PDELAY_RESP rx frame size' s)"

definition peerDelayRespFollowup :: "stamps \<Rightarrow> bytes \<Rightarrow> nat \<Rightarrow> ('cb, 'z) ptpst_scheme \<Rightarrow> ('cb, 'z) ptpst_scheme" where
  "peerDelayRespFollowup tx frame size' s =
     (let f = resize (PTP2_MIN_SIZE + PTP2_DELAY_RESP_size) frame size';
          f = put_nibble f ptp_type PTP2_MT_PDELAY_FOLLOW_UP;
          f = put16 f ptp_length (htons (of_nat (HEADER_PTP_size + PTP2_DELAY_RESP_size)));
          f = toPtpTimestamp (snd (snd tx)) ptp_data f
      in transmit_frame f (PTP2_MIN_SIZE + PTP2_DELAY_RESP_size) s)"

definition PTP_process :: "stamps \<Rightarrow> bytes \<Rightarrow> nat \<Rightarrow> ('cb, 'z) ptpst_scheme \<Rightarrow> ('cb, 'z) ptpst_scheme" where
  "PTP_process rx frame size' s =
     (if isMyMAC s (rd frame eth_macSrc 6) = 0 then s
      else if get_nibble frame ptp_version \<noteq> 2 then s
      else let frame = copyMAC frame eth_macDst (rd frame eth_macSrc 6)
           in if get_nibble frame ptp_type = PTP2_MT_DELAY_REQ then processDelayRequest rx frame size' s
              else if get_nibble frame ptp_type = PTP2_MT_PDELAY_REQ then processPDelayRequest rx frame size' s
              else s)"

section \<open>Periodic messages\<close>

definition next_sequence :: "bytes \<Rightarrow> ('cb, 'z) ptpst_scheme \<Rightarrow> bytes \<times> ('cb, 'z) ptpst_scheme" where
  "next_sequence f s = (put16 f ptp_sequence (htons (ucast (seqId s))), s\<lparr>seqId := seqId s + 1\<rparr>)"

definition announce_data :: "flt \<Rightarrow> u64 \<Rightarrow> ('cb, 'z) ptpst_scheme \<Rightarrow> bytes \<Rightarrow> bytes" where
  "announce_data rms tai s f =
     (let f = put8 f annc_source (if ntpRefId s = GPS_REF_ID then PTP2_TSRC_GPS else PTP2_TSRC_NTP);
          f = put16 f annc_utcOffset (ucast (drop_bit 32 (utcOffset s)));
          f = wr f annc_identity (ptpClockId s);
          f = put8 f annc_priority 0;
          f = put8 f annc_priority2 0;
          f = put16 f annc_steps 0;
          f = put32 f annc_quality (if ntpRefId s \<noteq> 0 then toPtpClkAccuracy rms else 0x31)
      in toPtpTimestamp tai ptp_data f)"

definition sendAnnounce :: "flt \<Rightarrow> u64 \<Rightarrow> ('cb, 'z) ptpst_scheme \<Rightarrow> ('cb, 'z) ptpst_scheme" where
  "sendAnnounce rms tai s =
     (let size' = PTP2_MIN_SIZE + PTP2_ANNOUNCE_size;
          f = replicate size' 0;
          f = put16 f eth_ethType ETHTYPE_PTP;
          f = copyMAC f eth_macDst gPtpMac;
          f = ptp_header PTP2_MT_ANNOUNCE PTP2_ANNOUNCE_size PTP2_ANNC_LOG_INTV s f;
          (f, s) = next_sequence f s;
          f = announce_data rms tai s f
      in transmit_frame f size' s)"

text \<open>
  The transmission of a sync message names \<open>syncFollowup\<close> as its callback, which is an event of its own.
\<close>

definition sendSync :: "u64 \<Rightarrow> ('cb, 'z) ptpst_scheme \<Rightarrow> ('cb, 'z) ptpst_scheme" where
  "sendSync tai s =
     (let size' = PTP2_MIN_SIZE + PTP2_TIMESTAMP_size;
          f = replicate size' 0;
          f = put16 f eth_ethType ETHTYPE_PTP;
          f = copyMAC f eth_macDst gPtpMac;
          f = ptp_header PTP2_MT_SYNC PTP2_TIMESTAMP_size PTP2_SYNC_LOG_INTV s f;
          (f, s) = next_sequence f s;
          f = toPtpTimestamp tai ptp_data f
      in transmit_frame f size' s)"

definition syncFollowup :: "stamps \<Rightarrow> bytes \<Rightarrow> nat \<Rightarrow> ('cb, 'z) ptpst_scheme \<Rightarrow> ('cb, 'z) ptpst_scheme" where
  "syncFollowup tx frame size' s =
     (let f = take size' frame;
          f = put_nibble f ptp_type PTP2_MT_FOLLOW_UP;
          f = toPtpTimestamp (snd (snd tx)) ptp_data f
      in transmit_frame f size' s)"

section \<open>Fields\<close>

lemma length_ptp [simp]: "length (toPtpTimestamp ts i f) = length f" "length (put_nibble f j v) = length f"
  "length (ptp_header t n iv s f) = length f" "length (resize k f n) = k"
  by (simp_all add: toPtpTimestamp_def put_nibble_def ptp_header_def Let_def resize_def)

lemma nibble_put [buf_simps]:
  "j < length f \<Longrightarrow> get_nibble (put_nibble f j v) j = take_bit 4 v"
  "k + n \<le> j \<or> j + 1 \<le> k \<Longrightarrow> rd (put_nibble f j v) k n = rd f k n"
  "k + 1 \<le> j \<or> j + 1 \<le> k \<Longrightarrow> get8 (put_nibble f j v) k = get8 f k"
  "k + 2 \<le> j \<or> j + 1 \<le> k \<Longrightarrow> get16 (put_nibble f j v) k = get16 f k"
  "k + 4 \<le> j \<or> j + 1 \<le> k \<Longrightarrow> get32 (put_nibble f j v) k = get32 f k"
  subgoal using bits_set_field(1) [of 0 4 v "get8 f j"] by (simp add: get_nibble_def put_nibble_def buf_simps)
  subgoal by (auto simp: put_nibble_def buf_simps)
  subgoal by (auto simp: put_nibble_def buf_simps)
  subgoal by (auto simp: put_nibble_def buf_simps)
  subgoal by (auto simp: put_nibble_def buf_simps)
  done

lemma time_other [buf_simps]:
  "k + n \<le> i \<or> i + 10 \<le> k \<Longrightarrow> rd (toPtpTimestamp ts i f) k n = rd f k n"
  "k + 1 \<le> i \<or> i + 10 \<le> k \<Longrightarrow> get8 (toPtpTimestamp ts i f) k = get8 f k"
  "k + 2 \<le> i \<or> i + 10 \<le> k \<Longrightarrow> get16 (toPtpTimestamp ts i f) k = get16 f k"
  "k + 4 \<le> i \<or> i + 10 \<le> k \<Longrightarrow> get32 (toPtpTimestamp ts i f) k = get32 f k"
  by (auto simp: toPtpTimestamp_def Let_def buf_simps)

text \<open>The timestamp \<open>ts\<close> is at offset \<open>i\<close>; and the header of a message of this clock.\<close>

definition is_time :: "u64 \<Rightarrow> nat \<Rightarrow> bytes \<Rightarrow> bool" where
  "is_time ts i f \<longleftrightarrow> get16 f i = 0 \<and> get32 f (i + 2) = htonl (fx_ipart ts) \<and> get32 f (i + 6) = htonl (ptp_nanos ts)"

lemma toPtpTimestamp_time: "i + 10 \<le> length f \<Longrightarrow> is_time ts i (toPtpTimestamp ts i f)"
  by (simp add: is_time_def toPtpTimestamp_def Let_def buf_simps)

definition is_message :: "u8 \<Rightarrow> nat \<Rightarrow> u8 \<Rightarrow> bytes \<Rightarrow> bytes \<Rightarrow> bool" where
  "is_message mtype msize interval cid f \<longleftrightarrow> length f = PTP2_MIN_SIZE + msize \<and> get_nibble f ptp_type = mtype
     \<and> get_nibble f ptp_version = PTP2_VERSION \<and> get16 f ptp_length = htons (of_nat (HEADER_PTP_size + msize))
     \<and> get8 f ptp_domain = PTP2_DOMAIN \<and> rd f ptp_identity 8 = cid \<and> get16 f ptp_port = 0 \<and> get8 f ptp_interval = interval"

lemma get_nibble_other [buf_simps]:
  "j + 1 \<le> i \<or> i + length bs \<le> j \<Longrightarrow> get_nibble (wr f i bs) j = get_nibble f j"
  "j + 1 \<le> i \<or> i + 1 \<le> j \<Longrightarrow> get_nibble (put8 f i a) j = get_nibble f j"
  "j + 1 \<le> i \<or> i + 2 \<le> j \<Longrightarrow> get_nibble (put16 f i b) j = get_nibble f j"
  "j + 1 \<le> i \<or> i + 4 \<le> j \<Longrightarrow> get_nibble (put32 f i c) j = get_nibble f j"
  "j + 1 \<le> i \<or> i + 10 \<le> j \<Longrightarrow> get_nibble (toPtpTimestamp ts i f) j = get_nibble f j"
  "j \<noteq> i \<Longrightarrow> get_nibble (put_nibble f i v) j = get_nibble f j"
  by (auto simp: get_nibble_def buf_simps Suc_le_eq linorder_neq_iff)

lemma ptp_header_message:
  assumes "PTP2_MIN_SIZE + msize = length f" "length (ptpClockId s) = 8" "take_bit 4 mtype = mtype"
  shows "is_message mtype msize interval (ptpClockId s) (ptp_header mtype msize interval s f)"
  using assms by (simp add: is_message_def ptp_header_def Let_def buf_simps rd_wr_same)

lemma ptp_header_other [buf_simps]:
  assumes "length (ptpClockId s) = 8"
  shows "k + n \<le> 14 \<or> 48 \<le> k \<Longrightarrow> rd (ptp_header t m iv s f) k n = rd f k n"
    "k + 2 \<le> 14 \<or> 48 \<le> k \<or> k = ptp_sequence \<Longrightarrow> get16 (ptp_header t m iv s f) k = get16 f k"
  using assms by (auto simp: ptp_header_def Let_def buf_simps)

lemma is_time_cong: "(\<And>k n. i \<le> k \<Longrightarrow> k + n \<le> i + 10 \<Longrightarrow> rd f k n = rd g k n) \<Longrightarrow> is_time ts i f = is_time ts i g"
  by (simp add: is_time_def get_defs)

section \<open>Messages\<close>

lemma header_sequence [buf_simps]:
  "length (ptpClockId s) = 8 \<Longrightarrow> get16 (put16 (ptp_header t m iv s f) ptp_sequence v) ptp_port = get16 (ptp_header t m iv s f) ptp_port"
  by (simp add: buf_simps)

lemma is_message_keep:
  assumes "is_message mtype msize iv cid f" "k = ptp_sequence \<and> length bs = 2 \<or> 48 \<le> k"
  shows "is_message mtype msize iv cid (wr f k bs)"
  using assms by (auto simp: is_message_def get_defs buf_simps)

lemma is_message_keeps:
  assumes "is_message mtype msize iv cid f"
  shows "is_message mtype msize iv cid (put16 f ptp_sequence v)" "48 \<le> k \<Longrightarrow> is_message mtype msize iv cid (put8 f k a)"
    "48 \<le> k \<Longrightarrow> is_message mtype msize iv cid (put16 f k b)" "48 \<le> k \<Longrightarrow> is_message mtype msize iv cid (put32 f k c)"
    "48 \<le> k \<Longrightarrow> is_message mtype msize iv cid (toPtpTimestamp ts k f)"
  using assms by (auto simp: is_message_def buf_simps)

lemma rd_resize:
  assumes "k + j \<le> min n m" "n \<le> length f"
  shows "rd (resize m f n) k j = rd f k j"
proof -
  have "rd (wr (replicate m 0) 0 (take (min n m) f)) 0 (min n m) = take (min n m) f"
    using assms(2) by (intro rd_wr_same) auto
  then have "rd (resize m f n) k j = rd (take (min n m) f) k j"
    using assms(1) rd_rd [of k j "min n m" "resize m f n" 0] by (simp add: resize_def)
  then show ?thesis using assms(1) by (simp add: rd_take)
qed

lemma sync_message:
  assumes "length (ptpClockId s) = 8"
  shows "\<exists>f. sendSync tai s = transmit_frame f 58 (s\<lparr>seqId := seqId s + 1\<rparr>)
    \<and> is_message PTP2_MT_SYNC 10 PTP2_SYNC_LOG_INTV (ptpClockId s) f \<and> is_time tai ptp_data f
    \<and> get16 f ptp_sequence = htons (ucast (seqId s)) \<and> rd f eth_macDst 6 = gPtpMac \<and> get16 f eth_ethType = ETHTYPE_PTP"
proof -
  define e where "e = copyMAC (put16 (replicate 58 0) eth_ethType ETHTYPE_PTP) eth_macDst gPtpMac"
  define h where "h = ptp_header PTP2_MT_SYNC 10 PTP2_SYNC_LOG_INTV s e"
  have l: "length e = 58" "length h = 58" by (simp_all add: e_def h_def copyMAC_def)
  have m: "is_message PTP2_MT_SYNC 10 PTP2_SYNC_LOG_INTV (ptpClockId s) h"
    unfolding h_def by (rule ptp_header_message) (use assms l in simp_all)
  have e: "rd h eth_macDst 6 = gPtpMac" "get16 h eth_ethType = ETHTYPE_PTP"
    using assms unfolding h_def by (simp_all add: buf_simps) (simp_all add: e_def copyMAC_def buf_simps rd_whole)
  have "sendSync tai s = transmit_frame (toPtpTimestamp tai ptp_data (put16 h ptp_sequence (htons (ucast (seqId s))))) 58 (s\<lparr>seqId := seqId s + 1\<rparr>)"
    by (simp add: sendSync_def Let_def next_sequence_def h_def e_def)
  then show ?thesis using m e l
    by (intro exI [of _ "toPtpTimestamp tai ptp_data (put16 h ptp_sequence (htons (ucast (seqId s))))"])
       (simp add: is_message_keeps toPtpTimestamp_time buf_simps)
qed

lemma follow_up_message:
  assumes "is_message PTP2_MT_SYNC 10 iv cid f"
  shows "\<exists>g. syncFollowup tx f 58 s = transmit_frame g 58 s \<and> is_message PTP2_MT_FOLLOW_UP 10 iv cid g
    \<and> is_time (snd (snd tx)) ptp_data g \<and> get16 g ptp_sequence = get16 f ptp_sequence \<and> rd g 0 14 = rd f 0 14"
  using assms
  by (intro exI [of _ "toPtpTimestamp (snd (snd tx)) ptp_data (put_nibble f ptp_type PTP2_MT_FOLLOW_UP)"])
     (auto simp: is_message_def syncFollowup_def Let_def toPtpTimestamp_time buf_simps)

lemma announce_message:
  assumes "length (ptpClockId s) = 8"
  shows "\<exists>f. sendAnnounce rms tai s = transmit_frame f 78 (s\<lparr>seqId := seqId s + 1\<rparr>)
    \<and> is_message PTP2_MT_ANNOUNCE 30 PTP2_ANNC_LOG_INTV (ptpClockId s) f \<and> is_time tai ptp_data f
    \<and> get16 f ptp_sequence = htons (ucast (seqId s)) \<and> rd f annc_identity 8 = ptpClockId s
    \<and> get8 f annc_source = (if ntpRefId s = GPS_REF_ID then PTP2_TSRC_GPS else PTP2_TSRC_NTP)
    \<and> get16 f annc_utcOffset = ucast (drop_bit 32 (utcOffset s)) \<and> get16 f annc_steps = 0
    \<and> get32 f annc_quality = (if ntpRefId s \<noteq> 0 then toPtpClkAccuracy rms else 0x31)
    \<and> rd f eth_macDst 6 = gPtpMac \<and> get16 f eth_ethType = ETHTYPE_PTP"
proof -
  define e where "e = copyMAC (put16 (replicate 78 0) eth_ethType ETHTYPE_PTP) eth_macDst gPtpMac"
  define h where "h = ptp_header PTP2_MT_ANNOUNCE 30 PTP2_ANNC_LOG_INTV s e"
  define k where "k = put16 h ptp_sequence (htons (ucast (seqId s)))"
  have l: "length e = 78" "length h = 78" "length k = 78" by (simp_all add: e_def h_def k_def copyMAC_def)
  have m: "is_message PTP2_MT_ANNOUNCE 30 PTP2_ANNC_LOG_INTV (ptpClockId s) k"
    unfolding k_def h_def by (intro is_message_keeps ptp_header_message) (use assms l in simp_all)
  have e: "rd k eth_macDst 6 = gPtpMac" "get16 k eth_ethType = ETHTYPE_PTP" "get16 k ptp_sequence = htons (ucast (seqId s))"
    using assms l unfolding k_def h_def by (simp_all add: buf_simps) (simp_all add: e_def copyMAC_def buf_simps rd_whole)
  have "sendAnnounce rms tai s = transmit_frame (announce_data rms tai s k) 78 (s\<lparr>seqId := seqId s + 1\<rparr>)"
    by (simp add: sendAnnounce_def Let_def next_sequence_def k_def h_def e_def announce_data_def)
  then show ?thesis using m e l assms
    by (intro exI [of _ "announce_data rms tai s k"])
       (simp add: announce_data_def Let_def is_message_keeps is_message_keep toPtpTimestamp_time buf_simps)
qed

lemma delay_response_message:
  assumes "length (ptpClockId s) = 8" "take_bit 4 mtype = mtype" "58 \<le> n" "n \<le> length f"
  shows "\<exists>g. delay_response mtype rx f n s = transmit_frame g 68 s \<and> is_message mtype 20 0 (ptpClockId s) g
    \<and> is_time (snd (snd rx)) ptp_data g \<and> rd g ptp_requesting 10 = rd f ptp_identity 10
    \<and> get16 g ptp_sequence = get16 f ptp_sequence \<and> rd g 0 14 = rd f 0 14"
proof -
  define a where "a = resize 68 f n"
  have a: "length a = 68" "k + j \<le> 58 \<Longrightarrow> rd a k j = rd f k j" for k j
    using rd_resize [of k j n 68 f] assms(3,4) by (simp_all add: a_def)
  define b where "b = toPtpTimestamp (snd (snd rx)) ptp_data (wr a ptp_requesting (rd a ptp_identity 10))"
  have b: "length b = 68" "is_time (snd (snd rx)) ptp_data b" "rd b ptp_requesting 10 = rd f ptp_identity 10"
    "rd b 0 14 = rd f 0 14" "get16 b ptp_sequence = get16 f ptp_sequence"
    using a assms(3,4) by (simp_all add: b_def toPtpTimestamp_time buf_simps length_rd get16_def)
  define g where "g = ptp_header mtype 20 0 s b"
  have "is_message mtype 20 0 (ptpClockId s) g" unfolding g_def by (rule ptp_header_message) (use assms b in simp_all)
  moreover have "is_time (snd (snd rx)) ptp_data g"
    using b(2) assms(1) unfolding g_def by (subst is_time_cong [of _ _ b]) (simp_all add: buf_simps)
  moreover have "delay_response mtype rx f n s = transmit_frame g 68 s"
    by (simp add: delay_response_def Let_def g_def b_def a_def)
  ultimately show ?thesis using b assms(1) by (intro exI [of _ g]) (simp add: g_def buf_simps)
qed

lemma get_nibble_copy: "get_nibble (copyMAC f 0 m) j = get_nibble f j" if "length m = 6" "6 \<le> j"
  using that by (simp add: copyMAC_def buf_simps rd_whole)

lemma delay_answer:
  assumes "length (ptpClockId s) = 8" "n \<le> length f" "take_bit 4 mtype = mtype" "58 \<le> n"
  shows "\<exists>g. delay_response mtype rx (copyMAC f eth_macDst (rd f eth_macSrc 6)) n s = transmit_frame g 68 s
    \<and> is_message mtype 20 0 (ptpClockId s) g \<and> is_time (snd (snd rx)) ptp_data g
    \<and> rd g ptp_requesting 10 = rd f ptp_identity 10 \<and> get16 g ptp_sequence = get16 f ptp_sequence
    \<and> rd g eth_macDst 6 = rd f eth_macSrc 6"
proof -
  let ?f = "copyMAC f eth_macDst (rd f eth_macSrc 6)"
  have l: "length (rd f eth_macSrc 6) = 6" "length ?f = length f" using assms(2,4) by (simp_all add: length_rd copyMAC_def)
  then have c: "rd ?f ptp_identity 10 = rd f ptp_identity 10" "get16 ?f ptp_sequence = get16 f ptp_sequence"
    "rd ?f eth_macDst 6 = rd f eth_macSrc 6"
    using assms(2,4) by (simp_all add: copyMAC_def rd_whole buf_simps)
  from delay_response_message [OF assms(1,3,4), of ?f rx] assms(2) l(2) obtain g where
    g: "delay_response mtype rx ?f n s = transmit_frame g 68 s" "is_message mtype 20 0 (ptpClockId s) g"
    "is_time (snd (snd rx)) ptp_data g" "rd g ptp_requesting 10 = rd ?f ptp_identity 10"
    "get16 g ptp_sequence = get16 ?f ptp_sequence" "rd g 0 14 = rd ?f 0 14" by auto
  have "rd g eth_macDst 6 = rd (rd g 0 14) eth_macDst 6" by (simp add: rd_rd)
  also have "\<dots> = rd f eth_macSrc 6" unfolding g(6) using c(3) by (simp add: rd_rd)
  finally show ?thesis using g c by auto
qed

section \<open>Accuracy of the timestamps\<close>

lemma uint_fx_parts: "uint (fx_ipart x) = uint x div 4294967296" "uint (fx_fpart x) = uint x mod 4294967296"
proof -
  have "0 \<le> uint x" "uint x < 4294967296 * 4294967296" using uint_range_size [of x] by (simp_all add: word_size)
  then have "0 \<le> uint x div 4294967296 \<and> uint x div 4294967296 < 4294967296" by (intro div_range) simp_all
  then show "uint (fx_ipart x) = uint x div 4294967296"
    by (simp add: fx_ipart_def unsigned_ucast_eq unsigned_drop_bit_eq drop_bit_eq_div take_bit_eq_mod uint_div)
  show "uint (fx_fpart x) = uint x mod 4294967296"
    by (simp add: fx_fpart_def unsigned_ucast_eq take_bit_eq_mod)
qed

lemma ptp_nanos_int: "uint (ptp_nanos ts) = (uint ts mod 4294967296) * 1000000000 div 4294967296"
proof -
  let ?u = "uint ts mod 4294967296"
  have "uint (fx_full 0 (fx_fpart ts)) = ?u" by (simp add: uint_fx_full uint_fx_parts)
  then have "fx_full 0 (fx_fpart ts) = word_of_int ?u" by (metis word_of_int_uint)
  then have "fx_full 0 (fx_fpart ts) * 1000000000 = word_of_int (?u * 1000000000)" by simp
  moreover have "uint (word_of_int (?u * 1000000000) :: u64) = ?u * 1000000000"
    using pos_mod_bound [of 4294967296 "uint ts"] by (intro uint_word_of_int_eq [THEN trans] take_bit_int_eq_self) simp_all
  ultimately show ?thesis unfolding ptp_nanos_def uint_fx_parts by simp
qed

lemma ptp_nanos_bound: "uint (ptp_nanos ts) < 1000000000"
proof -
  have "0 \<le> uint ts mod 4294967296 * 1000000000" "uint ts mod 4294967296 * 1000000000 < 1000000000 * 4294967296"
    using pos_mod_bound [of 4294967296 "uint ts"] by simp_all
  then show ?thesis unfolding ptp_nanos_int using div_range [of 4294967296 0 "uint ts mod 4294967296 * 1000000000" 1000000000] by simp
qed

lemma fromPtp_toPtp:
  assumes "i + 10 \<le> length f"
  shows "uint (fromPtpTimestamp (toPtpTimestamp ts i f) i) \<in> {uint ts - 5 .. uint ts}"
proof -
  define u n F where "u = uint ts mod 4294967296" and "n = uint (ptp_nanos ts)" and "F = uint (nanosToFrac (ptp_nanos ts))"
  have "fromPtpTimestamp (toPtpTimestamp ts i f) i = fx_full (fx_ipart ts) (nanosToFrac (ptp_nanos ts))"
    using toPtpTimestamp_time [OF assms, of ts] by (simp add: fromPtpTimestamp_def is_time_def)
  then have r: "uint (fromPtpTimestamp (toPtpTimestamp ts i f) i) = uint ts div 4294967296 * 4294967296 + F"
    by (simp add: uint_fx_full uint_fx_parts F_def)
  have n: "n = u * 1000000000 div 4294967296" by (simp add: n_def u_def ptp_nanos_int)
  have "0 \<le> u" by (simp add: u_def)
  have "n * 4294967296 \<le> u * 1000000000" "u * 1000000000 < n * 4294967296 + 4294967296"
    using div_mult_mod_eq [of "u * 1000000000" 4294967296] pos_mod_sign [of 4294967296 "u * 1000000000"]
      pos_mod_bound [of 4294967296 "u * 1000000000"] unfolding n by linarith+
  moreover have "1000000000 * F - n * 4294967296 \<in> {- 900000000 .. 500000000}"
    unfolding n_def F_def by (rule nanosToFrac_error) (rule ptp_nanos_bound)
  ultimately have "u - 5 \<le> F" "F \<le> u" by auto
  then have "uint ts - 5 \<le> uint ts div 4294967296 * 4294967296 + F" "uint ts div 4294967296 * 4294967296 + F \<le> uint ts"
    using div_mult_mod_eq [of "uint ts" 4294967296] unfolding u_def by linarith+
  then show ?thesis unfolding r by simp
qed

section \<open>Accuracy codes\<close>

lemma toPtpClkAccuracy_cases:
  "(toPtpClkAccuracy x = 0x31 \<and> list_all (\<lambda>y. \<not> flt_le x y) lutClkAccuracy)
   \<or> (\<exists>i. i < 17 \<and> i \<noteq> 12 \<and> toPtpClkAccuracy x = 0x20 + of_nat i \<and> flt_le x (lutClkAccuracy ! i)
        \<and> list_all (\<lambda>y. \<not> flt_le x y) (take i lutClkAccuracy))"
proof (cases "first_slot (flt_le x) lutClkAccuracy")
  case None
  then have "list_all (\<lambda>y. \<not> flt_le x y) lutClkAccuracy" by (simp add: first_slot_None list_all_iff)
  then show ?thesis using None by (simp add: toPtpClkAccuracy_def)
next
  case (Some i)
  from first_slot_Some [OF Some] have i: "i < 17" "flt_le x (lutClkAccuracy ! i)" and b: "\<forall>j < i. \<not> flt_le x (lutClkAccuracy ! j)"
    by (auto simp: lutClkAccuracy_def)
  have "lutClkAccuracy ! 12 = lutClkAccuracy ! 6" by (simp add: lutClkAccuracy_def)
  then have "i \<noteq> 12" using i(2) b by auto
  moreover have "list_all (\<lambda>y. \<not> flt_le x y) (take i lutClkAccuracy)"
    using b i(1) by (auto simp: list_all_length)
  ultimately show ?thesis using i Some by (intro disjI2 exI [of _ i]) (simp add: toPtpClkAccuracy_def)
qed

section \<open>Properties\<close>

text \<open>A clock with an identity, for the witnesses.\<close>

definition ptp_boot :: "nat ptpst" where
  "ptp_boot = ptp_init (ntpst.extend (ntp_boot [2, 0, 0, 0, 0, 1] 5) (ptpst.fields (replicate 8 0) 65535))"

lemma length_ptp_init: "length (ptpClockId (ptp_init s)) = length (ptpClockId s)"
  by (simp add: ptp_init_def)

lemma ptp_boot_id: "length (ptpClockId ptp_boot) = 8"
  by (simp add: ptp_boot_def length_ptp_init ntpst.extend_def ptpst.fields_def)

text \<open>A delay request from the host 2:0:0:0:0:9.\<close>

definition delay_request :: "u8 \<Rightarrow> bytes" where
  "delay_request mtype = put16 (put8 (put8 (wr (wr (replicate 68 0) 6 [2, 0, 0, 0, 0, 9]) 34 [1, 2, 3, 4, 5, 6, 7, 8, 0, 1]) ptp_type mtype)
     ptp_version 2) ptp_sequence 513"

text \<open>
  C11: Two-step synchronisation. A sync message carries the current time and the next sequence number to the
  group address; when it has left at the hardware time \<open>snd (snd tx)\<close>, the callback sends a follow-up with
  the same addresses, sequence number and clock identity, which carries that time. The sequence number
  then advances by one.
\<close>
theorem ptp_two_step:
  assumes "length (ptpClockId s) = 8"
  shows "\<exists>f g. sendSync tai s = transmit_frame f 58 (s\<lparr>seqId := seqId s + 1\<rparr>) \<and> syncFollowup tx f 58 s' = transmit_frame g 58 s'
    \<and> is_message PTP2_MT_SYNC 10 PTP2_SYNC_LOG_INTV (ptpClockId s) f \<and> is_message PTP2_MT_FOLLOW_UP 10 PTP2_SYNC_LOG_INTV (ptpClockId s) g
    \<and> get16 f ptp_sequence = htons (ucast (seqId s)) \<and> get16 g ptp_sequence = get16 f ptp_sequence
    \<and> is_time tai ptp_data f \<and> is_time (snd (snd tx)) ptp_data g
    \<and> rd f eth_macDst 6 = gPtpMac \<and> get16 f eth_ethType = ETHTYPE_PTP \<and> rd g 0 14 = rd f 0 14"
  using sync_message [OF assms, of tai] follow_up_message by metis

theorem ptp_two_step_witness:
  "\<exists>f g. sendSync 1000 ptp_boot = transmit_frame f 58 (ptp_boot\<lparr>seqId := seqId ptp_boot + 1\<rparr>) \<and> syncFollowup (1, 2, 3) f 58 ptp_boot = transmit_frame g 58 ptp_boot
    \<and> is_message PTP2_MT_SYNC 10 PTP2_SYNC_LOG_INTV (ptpClockId ptp_boot) f \<and> is_message PTP2_MT_FOLLOW_UP 10 PTP2_SYNC_LOG_INTV (ptpClockId ptp_boot) g
    \<and> get16 f ptp_sequence = htons (ucast (seqId ptp_boot)) \<and> get16 g ptp_sequence = get16 f ptp_sequence
    \<and> is_time 1000 ptp_data f \<and> is_time 3 ptp_data g
    \<and> rd f eth_macDst 6 = gPtpMac \<and> get16 f eth_ethType = ETHTYPE_PTP \<and> rd g 0 14 = rd f 0 14"
  using ptp_two_step [OF ptp_boot_id, of 1000 "(1, 2, 3)"] by simp

text \<open>
  Delay requests. A request of either kind by another host is answered by one message of the matching
  kind, to its sender, with its identity and port copied to the requesting identity, its sequence number,
  and the hardware time at which it was received.
\<close>
theorem ptp_delay_answered:
  assumes "length (ptpClockId s) = 8" "isMyMAC s (rd f eth_macSrc 6) \<noteq> 0" "get_nibble f ptp_version = 2" "n \<le> length f"
    "get_nibble f ptp_type = PTP2_MT_DELAY_REQ \<and> 58 \<le> n \<and> mtype = PTP2_MT_DELAY_RESP
     \<or> get_nibble f ptp_type = PTP2_MT_PDELAY_REQ \<and> 68 \<le> n \<and> mtype = PTP2_MT_PDELAY_RESP"
  shows "\<exists>g. PTP_process rx f n s = transmit_frame g 68 s \<and> is_message mtype 20 0 (ptpClockId s) g
    \<and> is_time (snd (snd rx)) ptp_data g \<and> rd g ptp_requesting 10 = rd f ptp_identity 10
    \<and> get16 g ptp_sequence = get16 f ptp_sequence \<and> rd g eth_macDst 6 = rd f eth_macSrc 6"
  using assms(5)
proof
  define f' where "f' = copyMAC f eth_macDst (rd f eth_macSrc 6)"
  note a = delay_answer [OF assms(1,4), folded f'_def]
  have k: "get_nibble f' j = get_nibble f j" if "6 \<le> j" for j
    unfolding f'_def using assms(4,5) that by (intro get_nibble_copy length_rd) auto
  show ?thesis if "get_nibble f ptp_type = PTP2_MT_DELAY_REQ \<and> 58 \<le> n \<and> mtype = PTP2_MT_DELAY_RESP"
    using a [of mtype rx] that assms(2,3) by (simp add: PTP_process_def processDelayRequest_def k flip: f'_def)
  show ?thesis if "get_nibble f ptp_type = PTP2_MT_PDELAY_REQ \<and> 68 \<le> n \<and> mtype = PTP2_MT_PDELAY_RESP"
    using a [of mtype rx] that assms(2,3) by (simp add: PTP_process_def processPDelayRequest_def k flip: f'_def)
qed

theorem ptp_delay_answered_witness:
  "\<exists>g. PTP_process (1, 2, 3) (delay_request 2) 68 ptp_boot = transmit_frame g 68 ptp_boot \<and> is_message PTP2_MT_PDELAY_RESP 20 0 (ptpClockId ptp_boot) g
    \<and> is_time 3 ptp_data g \<and> rd g ptp_requesting 10 = rd (delay_request 2) ptp_identity 10
    \<and> get16 g ptp_sequence = get16 (delay_request 2) ptp_sequence \<and> rd g eth_macDst 6 = rd (delay_request 2) eth_macSrc 6"
proof -
  have "length (delay_request 2) = 68" "get_nibble (delay_request 2) ptp_version = 2" "get_nibble (delay_request 2) ptp_type = PTP2_MT_PDELAY_REQ"
    "isMyMAC ptp_boot (rd (delay_request 2) eth_macSrc 6) \<noteq> 0" by code_simp+
  then show ?thesis using ptp_delay_answered [OF ptp_boot_id, of "delay_request 2" 68 PTP2_MT_PDELAY_RESP "(1, 2, 3)"] by simp
qed

text \<open>
  Timestamps survive the conversion to seconds and nanoseconds and back, up to five units of the last
  of the 32 fraction bits (1.2 ns), and never come back later than they were.
\<close>
theorem ptp_time_roundtrip:
  assumes "i + 10 \<le> length f"
  shows "uint (fromPtpTimestamp (toPtpTimestamp ts i f) i) \<in> {uint ts - 5 .. uint ts}"
  using assms by (rule fromPtp_toPtp)

theorem ptp_time_roundtrip_witness:
  "uint (fromPtpTimestamp (toPtpTimestamp 0x6543210FFFFFFFFF 48 (replicate 58 0)) 48) \<in> {0x6543210FFFFFFFFF - 5 .. 0x6543210FFFFFFFFF}"
  using ptp_time_roundtrip [of 48 "replicate 58 0" "0x6543210FFFFFFFFF"] by simp

text \<open>
  The accuracy code. An RMS error above every threshold (and NaN) has the code \<open>0x31\<close>; any other has the code of the
  first threshold that it does not exceed. But \<open>0x2C\<close>, the code of 25 ms, is never sent: its threshold is the same
  as that of \<open>0x26\<close>, and an error between 10 ms and 25 ms has the code of 100 ms.
\<close>
theorem ptp_accuracy_code:
  "(toPtpClkAccuracy x = 0x31 \<and> list_all (\<lambda>y. \<not> flt_le x y) lutClkAccuracy)
   \<or> (\<exists>i. i < 17 \<and> i \<noteq> 12 \<and> toPtpClkAccuracy x = 0x20 + of_nat i \<and> flt_le x (lutClkAccuracy ! i)
        \<and> list_all (\<lambda>y. \<not> flt_le x y) (take i lutClkAccuracy))"
  by (rule toPtpClkAccuracy_cases)

end
