(* ===== verification/FloatLaws.thy ===== *)
theory FloatLaws
  imports Ieee
begin

text \<open>
  The laws of single-precision rounding that the bounds of the filters rest on: rounding is odd and
  monotone, so an operation on bounded finite numbers has a bounded finite result, and a scaling by a
  power of two is exact.
\<close>

section \<open>Rounding is odd and monotone\<close>

lemma rne_minus: "rne (- x) = - rne x"
proof (cases "x = of_int \<lfloor>x\<rfloor>")
  case True
  then show ?thesis by (metis of_int_minus rne_of_int)
next
  case False
  then have "of_int \<lfloor>x\<rfloor> < x" by linarith
  then have "\<lfloor>- x\<rfloor> = - \<lfloor>x\<rfloor> - 1" by (intro floor_unique) (simp_all, linarith)
  then show ?thesis by (auto simp: rne_def Let_def)
qed

lemma rne_mono: "x \<le> y \<Longrightarrow> rne x \<le> rne y"
proof (rule ccontr)
  assume a: "x \<le> y" "\<not> rne x \<le> rne y"
  then have "of_int (rne y + 1) \<le> (of_int (rne x) :: rat)" unfolding of_int_le_iff by simp
  moreover have "of_int (rne x) \<le> x + 1 / 2" "y - 1 / 2 \<le> of_int (rne y)"
    using rne_error [of x] rne_error [of y] unfolding abs_le_iff by (simp_all add: algebra_simps)
  ultimately have "y \<le> x" by simp
  with a have "y = x" by (rule_tac antisym)
  with a show False by simp
qed

lemma f32_minus [simp]: "f32 (- x) = - f32 x"
  by (simp add: f32_def ulp_def rne_minus)

lemma flog2_mono: "0 < x \<Longrightarrow> x \<le> y \<Longrightarrow> flog2 x \<le> flog2 y"
proof -
  assume a: "0 < x" "x \<le> y"
  then have "(2 :: rat) powi flog2 x < 2 powi (flog2 y + 1)"
    using flog2_bounds [of x] flog2_bounds [of y] by (simp add: power_int_add)
  from two_powi_less [OF this] show ?thesis by simp
qed

lemma f32_mono_pos:
  assumes "0 < x" "x \<le> y"
  shows "f32 x \<le> f32 y"
proof -
  define k where "k z = max (flog2 z - 23) (- 149)" for z
  have y: "0 < y" using assms by simp
  have u: "ulp x = 2 powi k x" "ulp y = 2 powi k y" using assms y by (simp_all add: ulp_def k_def)
  have f: "f32 x = of_int (rne (x / ulp x)) * ulp x" "f32 y = of_int (rne (y / ulp y)) * ulp y"
    using assms y by (simp_all add: f32_def)
  note m = flog2_mono [OF assms]
  show ?thesis
  proof (cases "k x = k y")
    case True
    then have "rne (x / ulp x) \<le> rne (y / ulp y)" using assms u by (intro rne_mono) (simp add: divide_right_mono)
    then show ?thesis using True by (simp add: f u)
  next
    case False
    then have l: "flog2 x + 1 \<le> flog2 y" "k y = flog2 y - 23" "k x \<le> flog2 y" using m by (auto simp: k_def)
    define p where "p = (2 :: rat) powi flog2 y"
    have "x \<le> 2 powi (flog2 x + 1)" using flog2_bounds [OF assms(1)] by (simp add: power_int_add)
    also have "\<dots> \<le> p" unfolding p_def using l by (intro power_int_increasing) simp_all
    finally have "x / ulp x \<le> p / ulp x" by (intro divide_right_mono) (simp_all add: u)
    also have "p / ulp x = of_int (2 ^ nat (flog2 y - k x))"
      unfolding p_def u power_int_diff [symmetric, of "2 :: rat", simplified] using l by (simp add: power_int_def)
    finally have "rne (x / ulp x) \<le> 2 ^ nat (flog2 y - k x)" using rne_mono rne_of_int by metis
    then have "of_int (rne (x / ulp x)) \<le> (of_int (2 ^ nat (flog2 y - k x)) :: rat)" by (simp only: of_int_le_iff)
    then have "of_int (rne (x / ulp x)) \<le> p / ulp x"
      unfolding p_def u power_int_diff [symmetric, of "2 :: rat", simplified] using l by (simp add: power_int_def)
    then have a: "f32 x \<le> p" unfolding f using u by (simp add: field_simps)
    have q: "p / ulp y = of_int (2 ^ 23)" unfolding p_def u l by (simp add: power_int_diff)
    have "p / ulp y \<le> y / ulp y" using flog2_bounds [OF y] by (intro divide_right_mono) (simp_all add: u p_def)
    then have "2 ^ 23 \<le> rne (y / ulp y)" unfolding q using rne_mono rne_of_int by metis
    then have "of_int (2 ^ 23) \<le> (of_int (rne (y / ulp y)) :: rat)" by (simp only: of_int_le_iff)
    then have "p \<le> f32 y" unfolding f q [symmetric] using u by (simp add: field_simps)
    with a show ?thesis by simp
  qed
qed

lemma f32_nonneg: "0 \<le> x \<Longrightarrow> 0 \<le> f32 x"
proof (cases "x = 0")
  case False
  assume "0 \<le> x"
  then have "0 \<le> rne (x / ulp x)" using rne_mono [of 0 "x / ulp x"] ulp_pos [of x] rne_of_int [of 0] by simp
  then show ?thesis using ulp_pos [of x] by (simp add: f32_def)
qed simp

lemma f32_mono: "x \<le> y \<Longrightarrow> f32 x \<le> f32 y"
proof (cases "0 < x")
  case False
  assume a: "x \<le> y"
  show ?thesis
  proof (cases "0 \<le> y")
    case True
    then show ?thesis using False f32_nonneg [of "- x"] f32_nonneg [of y] by simp
  next
    case y: False
    then show ?thesis using f32_mono_pos [of "- y" "- x"] a by simp
  qed
qed (rule f32_mono_pos)

text \<open>A bound that is a number of the format is kept by rounding.\<close>

definition is_f32 :: "rat \<Rightarrow> bool" where "is_f32 x \<longleftrightarrow> f32 x = x"

lemma is_f32_f32 [simp]: "is_f32 (f32 x)" by (simp add: is_f32_def)

lemma is_f32_minus [simp]: "is_f32 (- x) = is_f32 x" by (simp add: is_f32_def)

lemma f32_le: "is_f32 b \<Longrightarrow> x \<le> b \<Longrightarrow> f32 x \<le> b"
  using f32_mono [of x b] by (simp add: is_f32_def)

lemma f32_ge: "is_f32 b \<Longrightarrow> b \<le> x \<Longrightarrow> b \<le> f32 x"
  using f32_mono [of b x] by (simp add: is_f32_def)

lemma f32_abs_le: "is_f32 b \<Longrightarrow> \<bar>x\<bar> \<le> b \<Longrightarrow> \<bar>f32 x\<bar> \<le> b"
  using f32_le [of b x] f32_ge [of "- b" x] by (auto simp: abs_le_iff)

lemma is_f32_scaled: "\<bar>M\<bar> \<le> 2 ^ 24 \<Longrightarrow> - 149 \<le> k \<Longrightarrow> is_f32 (of_int M * 2 powi k)"
  unfolding is_f32_def by (rule f32_exact)

lemma is_f32_powi: "- 149 \<le> k \<Longrightarrow> is_f32 (2 powi k)"
  using is_f32_scaled [of 1 k] by simp

lemma is_f32_pow [simp]: "is_f32 (2 ^ n)" "n \<le> 149 \<Longrightarrow> is_f32 (1 / 2 ^ n)"
  using is_f32_powi [of "int n"] is_f32_powi [of "- int n"] by (simp_all add: power_int_minus_divide)

lemma is_f32_0 [simp]: "is_f32 0" "is_f32 1" using is_f32_pow(1) [of 0] by (simp_all add: is_f32_def)

section \<open>Operations on bounded numbers\<close>

text \<open>\<open>flt_within b v\<close>: \<open>v\<close> is a finite number of the format of magnitude at most \<open>b\<close>.\<close>

definition flt_within :: "rat \<Rightarrow> flt \<Rightarrow> bool" where
  "flt_within b v \<longleftrightarrow> (case v of Fin x \<Rightarrow> is_f32 x \<and> \<bar>x\<bar> \<le> b | _ \<Rightarrow> False)"

lemma flt_withinE:
  assumes "flt_within b v"
  obtains x where "v = Fin x" "is_f32 x" "\<bar>x\<bar> \<le> b"
  using assms by (auto simp: flt_within_def split: flt.splits)

lemma flt_within_Fin [simp]: "flt_within b (Fin x) \<longleftrightarrow> is_f32 x \<and> \<bar>x\<bar> \<le> b" by (simp add: flt_within_def)

lemma flt_within_weaken: "flt_within a v \<Longrightarrow> a \<le> b \<Longrightarrow> flt_within b v"
  by (auto simp: flt_within_def split: flt.splits)

lemma flt_of_within:
  assumes "is_f32 b" "b < 2 ^ 128" "\<bar>x\<bar> \<le> b"
  shows "flt_of x = Fin (f32 x)" "flt_within b (flt_of x)"
proof -
  have "\<bar>f32 x\<bar> \<le> b" using assms by (intro f32_abs_le)
  then show "flt_of x = Fin (f32 x)" "flt_within b (flt_of x)"
    using assms(2) by (auto simp: flt_of_def Let_def abs_le_iff)
qed


lemma within_mul:
  assumes "flt_within a v" "flt_within b w" "is_f32 (a * b)" "a * b < 2 ^ 128"
  shows "flt_within (a * b) (v * w)"
proof -
  from assms(1) obtain x where x: "v = Fin x" "\<bar>x\<bar> \<le> a" by (rule flt_withinE)
  from assms(2) obtain y where y: "w = Fin y" "\<bar>y\<bar> \<le> b" by (rule flt_withinE)
  have "\<bar>x * y\<bar> \<le> a * b" unfolding abs_mult using x y by (intro mult_mono) auto
  with flt_of_within [OF assms(3,4)] show ?thesis by (simp add: x y flt_ops)
qed

lemma within_add:
  assumes "flt_within a v" "flt_within b w" "a + b \<le> c" "is_f32 c" "c < 2 ^ 128"
  shows "flt_within c (v + w)"
proof -
  from assms(1) obtain x where x: "v = Fin x" "\<bar>x\<bar> \<le> a" by (rule flt_withinE)
  from assms(2) obtain y where y: "w = Fin y" "\<bar>y\<bar> \<le> b" by (rule flt_withinE)
  have "\<bar>x + y\<bar> \<le> c" using x y assms(3) by linarith
  with flt_of_within [OF assms(4,5)] show ?thesis by (simp add: x y flt_ops)
qed

text \<open>The statistics of the loop follow a value by a sixteenth of the difference.\<close>

definition slew :: "flt \<Rightarrow> flt \<Rightarrow> flt" where
  "slew acc v = acc + (v - acc) * Fin (1 / 16)"

lemma slew_within:
  assumes "flt_within (2 * b) acc" "flt_within b v" "is_f32 b" "is_f32 (2 * b)" "is_f32 (4 * b)" "4 * b < 2 ^ 128"
  shows "flt_within (2 * b) (slew acc v)"
proof -
  from assms(1) obtain m where m: "acc = Fin m" "is_f32 m" "\<bar>m\<bar> \<le> 2 * b" by (rule flt_withinE)
  from assms(2) obtain x where x: "v = Fin x" "is_f32 x" "\<bar>x\<bar> \<le> b" by (rule flt_withinE)
  define d where "d = f32 (x - m)"
  define e where "e = f32 (d * (1 / 16))"
  have b: "0 \<le> b" using x by linarith
  have "\<bar>x - m\<bar> \<le> 4 * b" using m x b by linarith
  note D = flt_of_within [OF assms(5,6) this]
  have d: "\<bar>d\<bar> \<le> 4 * b" using D unfolding d_def by simp
  have "\<bar>d * (1 / 16)\<bar> \<le> 4 * b" using d b by (simp add: abs_mult)
  note E = flt_of_within [OF assms(5,6) this]
  have s: "slew acc v = flt_of (m + e)"
    using D(1) E(1) by (simp add: slew_def flt_ops m x flt_sub_def d_def e_def)
  have e: "\<bar>e\<bar> \<le> b"
    unfolding e_def by (rule f32_abs_le [OF assms(3)]) (use d in \<open>simp add: abs_mult\<close>)
  have neg: "e \<le> 0" if "x \<le> m" using that unfolding e_def d_def
    by (intro f32_le) (simp_all add: f32_le mult_nonpos_nonneg)
  have pos: "0 \<le> e" if "m \<le> x" using that unfolding e_def d_def
    by (intro f32_ge) (simp_all add: f32_ge)
  have "\<bar>m + e\<bar> \<le> 2 * b" using m x e neg pos by (cases "x \<le> m") (auto simp: abs_le_iff)
  moreover have "2 * b < 2 ^ 128" using assms(6) b by linarith
  ultimately show ?thesis unfolding s by (intro flt_of_within assms(4))
qed

lemma slew_nonneg:
  assumes "flt_within (2 * b) acc" "flt_within b v" "is_f32 b" "is_f32 (2 * b)" "is_f32 (4 * b)" "4 * b < 2 ^ 128"
    "Fin 0 \<le> acc" "Fin 0 \<le> v"
  shows "Fin 0 \<le> slew acc v"
proof -
  from assms(1) obtain m where m: "acc = Fin m" "is_f32 m" "\<bar>m\<bar> \<le> 2 * b" by (rule flt_withinE)
  from assms(2) obtain x where x: "v = Fin x" "is_f32 x" "\<bar>x\<bar> \<le> b" by (rule flt_withinE)
  have mx: "0 \<le> m" "0 \<le> x" using assms(7,8) by (simp_all add: m x flt_ops)
  define d where "d = f32 (x - m)"
  define e where "e = f32 (d * (1 / 16))"
  have "- m \<le> d" unfolding d_def using m mx by (intro f32_ge) simp_all
  then have "- m \<le> e" unfolding e_def using m mx by (intro f32_ge) simp_all
  have b: "0 \<le> b" using x by linarith
  have "\<bar>x - m\<bar> \<le> 4 * b" using m x b by linarith
  note D = flt_of_within [OF assms(5,6) this]
  have d: "\<bar>d\<bar> \<le> 4 * b" using D unfolding d_def by simp
  have "\<bar>d * (1 / 16)\<bar> \<le> 4 * b" using d b by (simp add: abs_mult)
  note E = flt_of_within [OF assms(5,6) this]
  have s: "slew acc v = flt_of (m + e)"
    using D(1) E(1) by (simp add: slew_def flt_ops m x flt_sub_def d_def e_def)
  from slew_within [OF assms(1-6)] obtain y where y: "slew acc v = Fin y" by (rule flt_withinE)
  have "0 \<le> f32 (m + e)" using \<open>- m \<le> e\<close> by (intro f32_nonneg) simp
  then show ?thesis using y unfolding s flt_of_def Let_def by (auto simp: flt_ops split: if_splits)
qed


lemma within_sub:
  assumes "flt_within a v" "flt_within b w" "a + b \<le> c" "is_f32 c" "c < 2 ^ 128"
  shows "flt_within c (v - w)"
proof -
  have "flt_within b (flt_neg w)" using assms(2) by (auto simp: flt_within_def split: flt.splits)
  from within_add [OF assms(1) this assms(3-5)] show ?thesis by (simp add: flt_ops flt_sub_def)
qed

lemma square_nonneg: "flt_within b v \<Longrightarrow> flt_within c (v * v) \<Longrightarrow> Fin 0 \<le> v * v"
proof -
  assume a: "flt_within b v" "flt_within c (v * v)"
  from a(1) obtain x where x: "v = Fin x" by (rule flt_withinE)
  from a(2) obtain y where y: "v * v = Fin y" by (rule flt_withinE)
  have "flt_of (x * x) = Fin y" using x y by (simp add: flt_ops)
  then have "y = f32 (x * x)" by (auto simp: flt_of_def Let_def split: if_splits)
  then show ?thesis using y f32_nonneg [of "x * x"] by (simp add: flt_ops)
qed

section \<open>Square roots\<close>

lemma isqrt_nonneg: "0 \<le> isqrt n"
  by (induction n rule: isqrt.induct) (subst isqrt.simps, auto simp: Let_def)

lemma f32_sqrt_nonneg: "0 \<le> f32_sqrt x"
  using isqrt_nonneg by (simp add: f32_sqrt_def Let_def)

lemma flt_sqrt_nonneg: "flt_within b v \<Longrightarrow> Fin 0 \<le> v \<Longrightarrow> \<exists>r. flt_sqrt v = Fin r \<and> 0 \<le> r"
  by (elim flt_withinE) (auto simp: flt_ops f32_sqrt_nonneg)

text \<open>The square root of a small variance is small.\<close>

lemma isqrt_le: "0 \<le> n \<Longrightarrow> (isqrt n) ^ 2 \<le> n"
proof (induction n rule: isqrt.induct)
  case (1 n)
  show ?case
  proof (cases "n \<le> 0")
    case True
    then show ?thesis using 1 by (subst isqrt.simps) simp
  next
    case False
    have "(isqrt (n div 4)) ^ 2 \<le> n div 4" using 1 False by simp
    then have "(2 * isqrt (n div 4)) ^ 2 \<le> n" by (simp add: power_mult_distrib)
    then show ?thesis using False by (subst isqrt.simps) (simp add: Let_def)
  qed
qed

lemma f32_least: "is_f32 x \<Longrightarrow> 0 < x \<Longrightarrow> - 149 \<le> flog2 x"
proof -
  assume a: "is_f32 x" "0 < x"
  from f32_value [of x] a(1) obtain M k where M: "x = of_int M * 2 powi k" "- 149 \<le> k" by (auto simp: is_f32_def)
  have "(0 :: rat) < 2 powi k" by simp
  then have "0 < M" using a(2) unfolding M(1) by (metis of_int_0_less_iff zero_less_mult_pos2)
  then have "1 * 2 powi (- 149) \<le> of_int M * (2 :: rat) powi k" using M(2) by (intro mult_mono power_int_increasing) simp_all
  then have "(2 :: rat) powi (- 149) < 2 powi (flog2 x + 1)"
    using flog2_bounds(2) [OF a(2)] M(1) by (simp add: power_int_add)
  from two_powi_less [OF this] show ?thesis by simp
qed

lemma f32_sqrt_form:
  assumes "is_f32 x" "0 < x"
  shows "\<exists>k. f32_sqrt x = of_int k * 2 powi (flog2 x div 2 - 23) \<and> 0 \<le> k \<and> k \<le> 2 ^ 24 \<and> is_f32 (f32_sqrt x)"
proof -
  define e where "e = flog2 x"
  define u where "u = (2 :: rat) powi (e div 2 - 23)"
  define q where "q = x / u ^ 2"
  define n where "n = isqrt \<lfloor>q\<rfloor>"
  define k where "k = (if q < (of_int n + 1 / 2) ^ 2 then n else n + 1)"
  have pos: "0 < u" by (simp add: u_def)
  have e: "- 149 \<le> e" using f32_least assms by (simp add: e_def)
  have q0: "0 \<le> q" using pos assms(2) by (simp add: q_def)
  have "u ^ 2 = 2 powi (2 * (e div 2) - 46)" by (simp add: u_def power2_eq_square flip: power_int_add)
  moreover have "x < 2 powi (e + 1)" using flog2_bounds(2) [OF assms(2)] by (simp add: e_def power_int_add)
  moreover have "(2 :: rat) powi (e + 1) \<le> 2 powi (2 * (e div 2) - 46 + 48)" by (intro power_int_increasing) simp_all
  moreover have "(2 :: rat) powi (2 * (e div 2) - 46 + 48) = 2 powi (2 * (e div 2) - 46) * 2 powi 48" by (rule power_int_add) simp
  ultimately have "x < u ^ 2 * 2 ^ 48" by simp
  then have "q < 2 ^ 48" using pos by (simp add: q_def field_simps)
  then have l: "\<lfloor>q\<rfloor> < 2 ^ 48" by (simp add: floor_less_iff)
  have "n ^ 2 \<le> \<lfloor>q\<rfloor>" unfolding n_def using q0 by (intro isqrt_le) simp
  from le_less_trans [OF this l] have "n ^ 2 < (2 ^ 24) ^ 2" by simp
  then have "n < 2 ^ 24" by (rule power_less_imp_less_base) simp
  moreover have "0 \<le> n" unfolding n_def by (rule isqrt_nonneg)
  ultimately have k: "0 \<le> k" "k \<le> 2 ^ 24" by (simp_all add: k_def)
  have r: "f32_sqrt x = of_int k * 2 powi (e div 2 - 23)"
    unfolding f32_sqrt_def Let_def e_def [symmetric] u_def [symmetric] q_def [symmetric] n_def [symmetric] k_def by simp
  have "is_f32 (f32_sqrt x)" unfolding r using k e by (intro is_f32_scaled) simp_all
  with r k show ?thesis by (auto simp: e_def)
qed

lemma flt_sqrt_within:
  assumes "flt_within (1 / 2 ^ 17) v" "Fin 0 \<le> v"
  shows "flt_within 1 (flt_sqrt v) \<and> Fin 0 \<le> flt_sqrt v"
proof -
  from assms(1) obtain x where x: "v = Fin x" "is_f32 x" "\<bar>x\<bar> \<le> 1 / 2 ^ 17" by (rule flt_withinE)
  have x0: "0 \<le> x" using assms(2) x by (simp add: flt_ops)
  show ?thesis
  proof (cases "x = 0")
    case True
    then show ?thesis by (simp add: x flt_ops)
  next
    case False
    then have pos: "0 < x" using x0 by simp
    from f32_sqrt_form [OF x(2) pos] obtain k where
      k: "f32_sqrt x = of_int k * 2 powi (flog2 x div 2 - 23)" "0 \<le> k" "k \<le> 2 ^ 24" "is_f32 (f32_sqrt x)" by blast
    have "(2 :: rat) powi flog2 x < 2 powi (- 16)"
      using flog2_bounds(1) [OF pos] x(3) x0 by (simp add: power_int_minus_divide)
    then have e: "flog2 x < - 16" by (rule two_powi_less)
    have "(of_int k :: rat) \<le> of_int (2 ^ 24)" using k by (simp only: of_int_le_iff)
    moreover have "(2 :: rat) powi (flog2 x div 2 - 23) \<le> 2 powi (- 24)" using e by (intro power_int_increasing) simp_all
    ultimately have "of_int k * (2 :: rat) powi (flog2 x div 2 - 23) \<le> of_int (2 ^ 24) * 2 powi (- 24)" using k by (intro mult_mono) simp_all
    then have "f32_sqrt x \<le> 1" unfolding k(1) by simp
    then show ?thesis using f32_sqrt_nonneg [of x] pos k(4) by (simp add: x flt_ops)
  qed
qed

section \<open>Conversions\<close>

text \<open>\<open>static_cast<float>\<close> of a signed integer, and \<open>static_cast<int32_t>\<close>, which is undefined out of range.\<close>

definition flt_int :: "int \<Rightarrow> flt" where "flt_int n = Fin (f32 (of_int n))"

definition flt_to_i32 :: "flt \<Rightarrow> i32 option" where
  "flt_to_i32 v = (case v of
     Fin x \<Rightarrow> (if - (2 ^ 31) \<le> trunc_int x \<and> trunc_int x < 2 ^ 31 then Some (word_of_int (trunc_int x)) else None)
   | _ \<Rightarrow> None)"

lemma trunc_int_bound: "\<bar>x\<bar> \<le> b \<Longrightarrow> \<bar>trunc_int x\<bar> \<le> \<lfloor>b\<rfloor>"
proof -
  assume "\<bar>x\<bar> \<le> b"
  then have "\<lfloor>\<bar>x\<bar>\<rfloor> \<le> \<lfloor>b\<rfloor>" by (rule floor_mono)
  moreover have "\<bar>trunc_int x\<bar> = \<lfloor>\<bar>x\<bar>\<rfloor>" by (simp add: trunc_int_def)
  ultimately show ?thesis by simp
qed

lemma flt_to_i32_within:
  assumes "flt_within b v" "b < 2 ^ 31"
  shows "\<exists>w. flt_to_i32 v = Some w \<and> \<bar>sint w\<bar> \<le> \<lfloor>b\<rfloor>"
proof -
  from assms(1) obtain x where x: "v = Fin x" "\<bar>x\<bar> \<le> b" by (rule flt_withinE)
  from trunc_int_bound [OF x(2)] have t: "\<bar>trunc_int x\<bar> \<le> \<lfloor>b\<rfloor>" .
  moreover have "\<lfloor>b\<rfloor> < 2147483648" using assms(2) by (simp add: floor_less_iff)
  ultimately have "- 2147483648 \<le> trunc_int x" "trunc_int x < 2147483648" unfolding abs_le_iff by linarith+
  then show ?thesis using t by (simp add: flt_to_i32_def x sint_of_int_32)
qed

section \<open>Numbers of the format\<close>

definition float_valid :: "flt \<Rightarrow> bool" where
  "float_valid v \<longleftrightarrow> (case v of Fin x \<Rightarrow> is_f32 x \<and> \<bar>x\<bar> < 2 ^ 128 | _ \<Rightarrow> True)"

lemma flt_of_valid [simp]: "float_valid (flt_of x)"
  by (auto simp: float_valid_def flt_of_def Let_def abs_less_iff)

lemma valid_simps [simp]: "float_valid NaN" "float_valid PInf" "float_valid NInf" "float_valid (Fin 0)" "float_valid (flt_inf x)"
  by (simp_all add: float_valid_def flt_inf_def)

text \<open>An operation yields a number of the format whatever its operands are.\<close>

lemma valid_add [simp]: "float_valid (flt_add x y)"
  by (cases "(x, y)" rule: flt_add.cases) simp_all

lemma valid_mul [simp]: "float_valid (flt_mul x y)"
  by (cases "(x, y)" rule: flt_mul.cases) simp_all

lemma valid_div [simp]: "float_valid (flt_div x y)"
  by (cases "(x, y)" rule: flt_div.cases) simp_all

lemma valid_arith [simp]: "float_valid (x + y)" "float_valid (x - y)" "float_valid (x * y)" "float_valid (x / y)"
  by (simp_all add: flt_ops flt_sub_def)

lemma valid_sqrt [simp]: "float_valid v \<Longrightarrow> float_valid (flt_sqrt v)"
proof (induction v rule: flt_sqrt.induct)
  case (1 x)
  show ?case
  proof (cases "0 < x")
    case True
    have v: "is_f32 x" "x < 2 ^ 128" using 1 True by (auto simp: float_valid_def)
    from f32_sqrt_form [OF v(1) True] obtain k where
      k: "f32_sqrt x = of_int k * 2 powi (flog2 x div 2 - 23)" "0 \<le> k" "k \<le> 2 ^ 24" "is_f32 (f32_sqrt x)" by blast
    have "(2 :: rat) powi flog2 x < 2 powi 128" using flog2_bounds(1) [OF True] v(2) by simp
    then have e: "flog2 x < 128" by (rule two_powi_less)
    have "(of_int k :: rat) \<le> of_int (2 ^ 24)" using k by (simp only: of_int_le_iff)
    moreover have "(2 :: rat) powi (flog2 x div 2 - 23) \<le> 2 powi 100" using e by (intro power_int_increasing) simp_all
    ultimately have "of_int k * (2 :: rat) powi (flog2 x div 2 - 23) \<le> of_int (2 ^ 24) * 2 powi 100" using k by (intro mult_mono) simp_all
    then have "f32_sqrt x \<le> 2 ^ 124" unfolding k(1) by simp
    then have "f32_sqrt x < 2 ^ 128" by (rule le_less_trans) simp
    then show ?thesis using True k(4) f32_sqrt_nonneg [of x] by (simp add: float_valid_def)
  qed (use 1 in \<open>auto simp: not_less\<close>)
qed simp_all

end
