(* ===== verification/Regression.thy ===== *)
theory Regression
  imports NtpPeer FloatLaws
begin

text \<open>
  The statistics of a source (lib/ntp/Source.cpp, updateDelay, updateFilter and fitLinear), in single precision:
  the spread of the delays, a weighted linear fit of the offsets over time, its refinement by the errors
  of the fit, and the score. \<open>None\<close> is the conversion of a value that is not finite to an integer.
\<close>

unbundle bit_operations_syntax

record measures =
  offsetMean :: flt
  offsetStdDev :: flt
  freqDrift :: flt

definition flt_sum :: "flt list \<Rightarrow> flt" where "flt_sum = foldl (+) (Fin 0)"

definition CLK_NANOS_s :: flt where "CLK_NANOS_s = Fin 8 * Fin (f32 (1 / 10 ^ 9))"

section \<open>Delay\<close>

definition history :: "'z source_scheme \<Rightarrow> sample list" where
  "history p = map (\<lambda>i. ring_sample i p) [0..<unat (sampleCount p)]"

definition flt_count :: "int \<Rightarrow> flt" where "flt_count n = Fin (of_int n)"

definition updateDelay :: "'z source_scheme \<Rightarrow> flt \<times> flt" where
  "updateDelay p =
     (let ds = map (\<lambda>x. Fin (delay x)) (history p);
          mean = flt_sum ds / flt_count (uint (sampleCount p));
          var = flt_sum (map (\<lambda>d. let diff = d - mean in diff * diff) ds) / flt_count (uint (sampleCount p) - 1)
      in (mean, flt_sqrt var))"

section \<open>Linear fit\<close>

definition fitLinear :: "flt list \<Rightarrow> flt list \<Rightarrow> flt list \<Rightarrow> flt \<times> flt \<times> flt \<times> flt" where
  "fitLinear x y w =
     (let s0 = flt_sum w;
          s1 = flt_sum (map2 (*) w x) / s0;
          s2 = flt_sum (map2 (*) (map2 (*) w x) x) / s0;
          s3 = flt_sum (map2 (*) w y) / s0;
          s4 = flt_sum (map2 (*) (map2 (*) w y) x) / s0;
          slope = (s4 - s1 * s3) / (s2 - s1 * s1);
          offset = s3 - s1 * slope;
          err = map2 (\<lambda>x y. y - offset - x * slope) x y;
          mse = flt_sum (map2 (*) (map2 (*) w err) err) / s0;
          slopeVariance = mse / (s2 - s1 * s1)
      in (offset, slope, slopeVariance * s2, slopeVariance))"

text \<open>The weights are replaced one by one, with a fit after each.\<close>

definition reweight :: "flt list \<Rightarrow> flt list \<Rightarrow> nat \<Rightarrow> flt list \<times> flt \<times> flt \<times> flt \<times> flt \<Rightarrow> flt list \<times> flt \<times> flt \<times> flt \<times> flt" where
  "reweight x y i = (\<lambda>(w, offset, slope, offsetVar, freqVar).
     let err = y ! i - offset - x ! i * slope;
         w = w[i := offsetVar / (offsetVar + err * err)]
     in (w, fitLinear x y w))"

section \<open>Filter\<close>

definition sample_weights :: "flt \<Rightarrow> flt \<Rightarrow> sample list \<Rightarrow> flt list" where
  "sample_weights mean dev xs =
     (let v = dev + CLK_NANOS_s;
          v = v * v
      in map (\<lambda>s. let jitter = Fin (delay s) - mean in v / (v + jitter * jitter)) xs)"

definition fit_samples :: "flt \<Rightarrow> flt \<Rightarrow> 'z source_scheme \<Rightarrow> flt list \<times> flt \<times> flt \<times> flt \<times> flt" where
  "fit_samples mean dev p =
     (let xs = history p;
          x = map (\<lambda>s. Fin (toFloatU (taiLocal (ring_sample 0 p) - taiLocal s))) xs;
          y = map (\<lambda>s. Fin (toFloat (getOffset s - getOffset (ring_sample 0 p)))) xs;
          w = sample_weights mean dev xs;
          r = (w, fitLinear x y w)
      in if sampleCount p > 4 then
           let (w, offset, slope, offsetVar, freqVar) = r;
               offsetVar = offsetVar + CLK_NANOS_s * Fin 8 * Fin (f32 (1 / 10 ^ 9))
           in foldl (\<lambda>r i. reweight x y i r) (w, offset, slope, offsetVar, freqVar) [0..<length xs]
         else r)"

definition overall_score :: "flt \<Rightarrow> flt \<Rightarrow> flt \<Rightarrow> 'z source_scheme \<Rightarrow> flt" where
  "overall_score mean dev offsetDev p =
     flt_abs (Fin (1 / 2 ^ 16) * Fin (f32 (of_int (uint (rootDelay p)))))
     + Fin (1 / 2 ^ 16) * Fin (f32 (of_int (uint (rootDispersion p))))
     + mean + dev + offsetDev"

definition regression :: "'z source_scheme \<Rightarrow> (fit \<times> measures) option" where
  "regression p =
     (let (mean, dev) = updateDelay p;
          (w, offset, slope, offsetVar, freqVar) = fit_samples mean dev p;
          offsetDev = flt_sqrt offsetVar
      in case flt_sum w of
           Fin weight \<Rightarrow>
             Some (\<lparr>usedOffset = word_of_int \<lceil>weight\<rceil>, usedDrift = word_of_int \<lceil>weight\<rceil>, delayMean = mean, delayStdDev = dev,
                     freqSkew = flt_sqrt freqVar, score = overall_score mean dev offsetDev p\<rparr>,
                   \<lparr>offsetMean = offset + Fin (toFloat (getOffset (ring_sample 0 p))), offsetStdDev = offsetDev, freqDrift = slope\<rparr>)
         | _ \<Rightarrow> None)"

section \<open>The first sample\<close>

text \<open>
  The spread of one delay is a quotient by zero, so it is NaN or infinite; the weight of the sample is NaN, and
  the code converts NaN to the integer \<open>usedOffset\<close>.
\<close>

lemma flt_of_nonneg: "0 \<le> x \<Longrightarrow> flt_of x = PInf \<or> (\<exists>y. flt_of x = Fin y \<and> 0 \<le> y)"
  using f32_nonneg [of x] by (auto simp: flt_of_def Let_def)

lemma square_cases:
  obtains "flt_mul x x = NaN" | "flt_mul x x = PInf" | y where "flt_mul x x = Fin y" "0 \<le> y"
  using flt_of_nonneg [OF zero_le_square] by (cases x) (auto simp: flt_inf_def)

lemma spread_of_one: "flt_sqrt (flt_div (flt_add (Fin 0) (flt_mul x x)) (Fin 0)) \<in> {NaN, PInf}"
proof (cases rule: square_cases [of x])
  case (3 y)
  from flt_of_nonneg [OF 3(2)] show ?thesis
    by (elim disjE exE conjE) (simp_all add: 3(1) flt_inf_def)
qed (simp_all add: flt_inf_def)

lemma weight_of_one:
  assumes "d \<in> {NaN, PInf}"
  shows "sample_weights m d [s] = [NaN]"
proof -
  have "CLK_NANOS_s \<noteq> NaN \<and> CLK_NANOS_s \<noteq> PInf \<and> CLK_NANOS_s \<noteq> NInf" unfolding CLK_NANOS_s_def by code_simp
  then obtain c where c: "CLK_NANOS_s = Fin c" by (cases CLK_NANOS_s) auto
  have v: "(d + CLK_NANOS_s) * (d + CLK_NANOS_s) \<in> {NaN, PInf}"
    using assms unfolding c by (auto simp: flt_inf_def flt_ops)
  let ?j = "Fin (delay s) - m"
  have "v / (v + ?j * ?j) = NaN" if "v \<in> {NaN, PInf}" for v
    using that by (cases rule: square_cases [of ?j]) (auto simp: flt_ops)
  then show ?thesis using v by (simp add: sample_weights_def Let_def)
qed

lemma first_sample_undefined:
  assumes "sampleCount p = 1"
  shows "regression p = None"
proof -
  have h: "history p = [ring_sample 0 p]" using assms by (simp add: history_def)
  obtain m x where d: "updateDelay p = (m, flt_sqrt (flt_div (flt_add (Fin 0) (flt_mul x x)) (Fin 0)))"
    using assms by (simp add: updateDelay_def h flt_sum_def Let_def flt_count_def flt_ops)
  have "fst (fit_samples m (flt_sqrt (flt_div (flt_add (Fin 0) (flt_mul x x)) (Fin 0))) p) = [NaN]"
    using assms weight_of_one [OF spread_of_one] by (simp add: fit_samples_def h Let_def)
  then show ?thesis unfolding regression_def d
    by (auto simp: flt_sum_def flt_ops split: prod.split)
qed

section \<open>Properties\<close>

text \<open>
  The first sample of a source takes the filter outside the language: the variance of one delay is divided by
  zero, the sample's weight is NaN, and its sum is converted to an integer, which C++ leaves undefined.
\<close>
theorem regression_first_sample:
  assumes "sampleCount p = 1"
  shows "regression p = None"
  using assms by (rule first_sample_undefined)

theorem regression_first_sample_witness:
  "regression (put_sample \<lparr>taiLocal = 1, taiRemote = 2, delay = 0\<rparr> (advanceFilter (Source_new 7 0))) = None"
  by (rule regression_first_sample) (simp add: put_sample_def advanceFilter_def Source_new_def)

end
