(* ===== verification/Candm.thy ===== *)
theory Candm
  imports Ieee ClockMath
begin

text \<open>
  The conversions of lib/chrony/util.cpp: single precision to the floating-point format of chronyc's messages,
  and timestamps to seconds and nanoseconds. \<open>candm_value\<close> is the meaning that lib/chrony/candm.h gives to a
  word of that format.
\<close>

unbundle bit_operations_syntax

section \<open>Conversions\<close>

definition timespec_nsec :: "u32 \<Rightarrow> u32" where
  "timespec_nsec f = drop_bit 2 (f - drop_bit 4 f - drop_bit 7 f)"

definition toTimespec :: "u64 \<Rightarrow> nat \<Rightarrow> bytes \<Rightarrow> bytes" where
  "toTimespec timestamp i f =
     (let f = put32 f (i + 8) (htonl (timespec_nsec (fx_fpart timestamp)));
          f = put32 f (i + 4) (htonl (fx_ipart timestamp))
      in put32 f i 0)"

definition htonf :: "u32 \<Rightarrow> u32" where
  "htonf raw =
     (let coef = raw AND (push_bit 23 1 - 1);
          exp = (drop_bit 23 raw AND 0xFF) - 127
      in if exp <s - 65 \<or> exp = 128 \<and> coef \<noteq> 0 then 0
         else if 61 <s exp then htonl (if raw <s 0 then 0xFF000000 else 0xFEFFFFFF)
         else let coef = coef OR push_bit 23 1;
                  coef = (if raw <s 0 then - coef else coef);
                  coef = coef AND (push_bit 25 1 - 1)
              in htonl (coef OR push_bit 25 (exp + 2)))"

section \<open>Floating-point values\<close>

text \<open>The value that the format of candm.h gives to a word: a signed 25-bit coefficient and a signed 7-bit exponent.\<close>

definition candm_value :: "u32 \<Rightarrow> rat" where
  "candm_value w = of_int (sint (ucast w :: 25 word)) * 2 powi (sint (ucast (drop_bit 25 w) :: 7 word) - 25)"

text \<open>The bits of a number: sign, biased exponent and coefficient.\<close>

definition sign_bit :: u32 where "sign_bit = 0x80000000"

definition pack :: "bool \<Rightarrow> int \<Rightarrow> u32 \<Rightarrow> u32" where
  "pack neg E c = (if neg then sign_bit else 0) OR (push_bit 23 (word_of_int E) OR take_bit 23 c)"

lemma exp_bits: "bit (word_of_int E :: u32) n \<longleftrightarrow> n < 8 \<and> bit E n" if "0 \<le> E" "E < 256"
proof -
  have "take_bit 8 E = E" using that by (simp add: take_bit_int_eq_self)
  then have "bit E n \<longleftrightarrow> n < 8 \<and> bit E n" by (metis bit_take_bit_iff)
  then show ?thesis by (auto simp: bit_simps)
qed

lemma top_bit: "bit sign_bit n \<longleftrightarrow> n = 31"
proof -
  have e: "sign_bit = push_bit 31 1" by (simp add: sign_bit_def)
  show ?thesis unfolding e bit_push_bit_iff bit_1_iff by auto
qed

lemma low_masks: "(x :: u32) AND 8388607 = take_bit 23 x" "x AND 33554431 = take_bit 25 x" "x AND 255 = take_bit 8 x"
  by (simp_all add: take_bit_eq_mask mask_eq_exp_minus_1)

lemma pack_fields:
  assumes "0 \<le> E" "E < 256"
  shows "take_bit 23 (pack neg E c) = take_bit 23 c" "take_bit 8 (drop_bit 23 (pack neg E c)) = word_of_int E"
    "pack neg E c <s 0 \<longleftrightarrow> neg"
proof -
  note b = bit_or_iff bit_and_iff bit_push_bit_iff bit_drop_bit_eq bit_take_bit_iff top_bit exp_bits [OF assms]
  show "take_bit 23 (pack neg E c) = take_bit 23 c"
    by (rule bit_word_eqI) (auto simp: pack_def b)
  show "take_bit 8 (drop_bit 23 (pack neg E c)) = word_of_int E"
    by (rule bit_word_eqI) (auto simp: pack_def b)
  have "pack neg E c <s 0 \<longleftrightarrow> bit (pack neg E c) 31"
    using bit_last_iff [of "pack neg E c"] by (simp add: word_sless_alt)
  then show "pack neg E c <s 0 \<longleftrightarrow> neg" by (auto simp: pack_def b)
qed

text \<open>\<open>htonf\<close> on the fields of its argument.\<close>

lemma htonf_pack:
  assumes "0 \<le> E" "E < 256"
  shows "htonf (pack neg E c) =
    (if E < 62 \<or> E = 255 \<and> take_bit 23 c \<noteq> 0 then 0
     else if 188 < E then htonl (if neg then 0xFF000000 else 0xFEFFFFFF)
     else let k = take_bit 23 c OR push_bit 23 1
       in htonl (take_bit 25 (if neg then - k else k) OR push_bit 25 (word_of_int (E - 125))))"
proof -
  note f = pack_fields [OF assms, of neg c]
  have s: "sint (word_of_int (E - 127) :: u32) = E - 127" using assms by (intro sint_of_int_32) auto
  have x: "word_of_int (E - 127) <s (- 65 :: u32) \<longleftrightarrow> E < 62" "(61 :: u32) <s word_of_int (E - 127) \<longleftrightarrow> 188 < E"
    using s by (auto simp: word_sless_alt)
  have y: "(word_of_int (E - 127) :: u32) = 128 \<longleftrightarrow> E = 255"
  proof
    assume "(word_of_int (E - 127) :: u32) = 128"
    then have "sint (word_of_int (E - 127) :: u32) = sint (128 :: u32)" by (rule arg_cong)
    then show "E = 255" unfolding s by simp
  qed simp
  have m: "(push_bit 23 1 - 1 :: u32) = 8388607" "(push_bit 25 1 - 1 :: u32) = 33554431" by simp_all
  have e: "(drop_bit 23 (pack neg E c) AND 0xFF) - 127 = word_of_int (E - 127)" by (simp only: low_masks f) simp
  have e': "word_of_int (E - 127) + 2 = (word_of_int (E - 125) :: u32)" by simp
  show ?thesis unfolding htonf_def Let_def m low_masks [of "pack _ _ _"] e f x y e' low_masks(2) ..
qed

lemma sint_small: "- (2 ^ 24) \<le> M \<Longrightarrow> M < 2 ^ 24 \<Longrightarrow> sint (word_of_int M :: 25 word) = M"
  "- 64 \<le> e \<Longrightarrow> e < 64 \<Longrightarrow> sint (word_of_int e :: 7 word) = e"
  "- 1000 \<le> e \<Longrightarrow> e < 1000 \<Longrightarrow> sint (word_of_int e :: u32) = e"
  by (simp_all add: signed_of_int signed_take_bit_int_eq_self)

lemma candm_parts:
  assumes "- (2 ^ 24) \<le> M" "M < 2 ^ 24" "- 64 \<le> k" "k < 64"
  shows "candm_value (take_bit 25 (word_of_int M) OR push_bit 25 (word_of_int k)) = of_int M * 2 powi (k - 25)"
proof -
  let ?w = "take_bit 25 (word_of_int M) OR push_bit 25 (word_of_int k) :: u32"
  have "(ucast ?w :: 25 word) = word_of_int M"
    by (rule bit_word_eqI) (auto simp: bit_ucast_iff bit_or_iff bit_push_bit_iff bit_take_bit_iff bit_word_of_int_iff)
  moreover have "(ucast (drop_bit 25 ?w) :: 7 word) = word_of_int k"
    by (rule bit_word_eqI) (auto simp: bit_ucast_iff bit_or_iff bit_push_bit_iff bit_take_bit_iff bit_drop_bit_eq bit_word_of_int_iff)
  ultimately show ?thesis using assms by (simp add: candm_value_def sint_small)
qed

lemma htonf_normal:
  assumes "- 65 \<le> e" "e \<le> 61" "2 ^ 23 \<le> M" "M < 2 ^ 24"
  shows "candm_value (htonl (htonf (pack neg (e + 127) (word_of_int M)))) = (if neg then - 1 else 1) * of_int M * 2 powi (e - 23)"
proof -
  have M: "bit M 23" "take_bit 24 M = M"
  proof -
    show "take_bit 24 M = M" using assms by (simp add: take_bit_int_eq_self)
    have "M = 2 ^ 23 + (M - 2 ^ 23)" "0 \<le> M - 2 ^ 23" "M - 2 ^ 23 < 2 ^ 23" using assms by auto
    then have "M div 2 ^ 23 = 1" using div_add_self1 [of "2 ^ 23" "M - 2 ^ 23"] by (simp add: div_pos_pos_trivial)
    then show "bit M 23" by (simp add: bit_iff_odd)
  qed
  have c: "take_bit 23 (word_of_int M) OR push_bit 23 1 = (word_of_int M :: u32)"
  proof (rule bit_word_eqI)
    fix n
    have "bit M n \<longleftrightarrow> n < 24 \<and> bit M n" by (metis M(2) bit_take_bit_iff)
    then show "bit (take_bit 23 (word_of_int M) OR push_bit 23 1 :: u32) n = bit (word_of_int M :: u32) n" if "n < LENGTH(32)"
      using M(1) by (auto simp: bit_or_iff bit_push_bit_iff bit_take_bit_iff bit_word_of_int_iff bit_1_iff less_Suc_eq numeral_eq_Suc)
  qed
  have E: "0 \<le> e + 127" "e + 127 < 256" and k: "(e + 127 < 62 \<or> e + 127 = 255 \<and> take_bit 23 (word_of_int M :: u32) \<noteq> 0) = False"
    "(188 < e + 127) = False" "e + 127 - 125 = e + 2" using assms by auto
  have "htonl (htonf (pack neg (e + 127) (word_of_int M)))
    = take_bit 25 (word_of_int (if neg then - M else M)) OR push_bit 25 (word_of_int (e + 2))"
    unfolding htonf_pack [OF E] Let_def c k if_False by simp
  moreover have "(2 :: rat) powi (e + 2 - 25) = 2 powi (e - 23)" by simp
  ultimately show ?thesis
    using assms candm_parts [of "if neg then - M else M" "e + 2"] by simp
qed

lemma float_bits_pack:
  assumes "f32 x = x" "x \<noteq> 0" "- 126 \<le> flog2 \<bar>x\<bar>" "flog2 \<bar>x\<bar> \<le> 127"
  shows "\<exists>M. \<bar>x\<bar> = of_int M * 2 powi (flog2 \<bar>x\<bar> - 23) \<and> 2 ^ 23 \<le> M \<and> M < 2 ^ 24
    \<and> float_bits (Fin x) = pack (x < 0) (flog2 \<bar>x\<bar> + 127) (word_of_int M)"
proof -
  obtain M where M: "\<bar>x\<bar> = of_int M * 2 powi (flog2 \<bar>x\<bar> - 23)" "2 ^ 23 \<le> M" "M < 2 ^ 24"
    using f32_form [OF assms(1-3)] by auto
  have "2 powi (- 126) \<le> (2 :: rat) powi flog2 \<bar>x\<bar>" using assms(3) by (rule power_int_increasing) simp
  also have "\<dots> \<le> \<bar>x\<bar>" using flog2_bounds(1) assms(2) by simp
  finally have n: "\<not> \<bar>x\<bar> < 2 powi (- 126)" by simp
  have "\<bar>x\<bar> / 2 powi (flog2 \<bar>x\<bar> - 23) = of_int M" by (subst M(1)) simp
  then have "finite_bits \<bar>x\<bar> = push_bit 23 (word_of_int (flog2 \<bar>x\<bar> + 127)) OR take_bit 23 (word_of_int M)"
    using n by (simp add: finite_bits_def)
  moreover have "float_bits (Fin x) = (if x < 0 then sign_bit else 0) OR finite_bits \<bar>x\<bar>"
    by (simp add: sign_bit_def)
  ultimately show ?thesis using M by (auto simp: pack_def)
qed

lemma float_exact:
  assumes "f32 x = x" "2 powi (- 65) \<le> \<bar>x\<bar>" "\<bar>x\<bar> < 2 powi 62"
  shows "candm_value (htonl (htonf (float_bits (Fin x)))) = x"
proof -
  have x: "x \<noteq> 0" using assms(2) by auto
  then have b: "2 powi flog2 \<bar>x\<bar> \<le> \<bar>x\<bar>" "\<bar>x\<bar> < 2 powi (flog2 \<bar>x\<bar> + 1)" using flog2_bounds [of "\<bar>x\<bar>"] by (simp_all add: power_int_add)
  have "(2 :: rat) powi (- 65) < 2 powi (flog2 \<bar>x\<bar> + 1)" "(2 :: rat) powi flog2 \<bar>x\<bar> < 2 powi 62"
    using b assms(2,3) by linarith+
  then have e: "- 65 \<le> flog2 \<bar>x\<bar>" "flog2 \<bar>x\<bar> \<le> 61"
    using two_powi_less [of "- 65" "flog2 \<bar>x\<bar> + 1"] two_powi_less [of "flog2 \<bar>x\<bar>" 62] by linarith+
  then obtain M where M: "\<bar>x\<bar> = of_int M * 2 powi (flog2 \<bar>x\<bar> - 23)" "2 ^ 23 \<le> M" "M < 2 ^ 24"
    "float_bits (Fin x) = pack (x < 0) (flog2 \<bar>x\<bar> + 127) (word_of_int M)"
    using float_bits_pack [OF assms(1) x] by auto
  have "candm_value (htonl (htonf (float_bits (Fin x)))) = (if x < 0 then - 1 else 1) * \<bar>x\<bar>"
    unfolding M(4) htonf_normal [OF e M(2,3)] mult.assoc M(1) [symmetric] ..
  then show ?thesis by simp
qed


lemma candm_limits: "candm_value 0 = 0" "candm_value 0xFF000000 = - 1 / 4" "candm_value 0xFEFFFFFF = (2 ^ 24 - 1) / 2 ^ 26"
  by code_simp+

lemma float_large:
  assumes "f32 x = x" "2 powi 62 \<le> \<bar>x\<bar>" "\<bar>x\<bar> < 2 powi 128"
  shows "candm_value (htonl (htonf (float_bits (Fin x)))) = (if x < 0 then - 1 / 4 else (2 ^ 24 - 1) / 2 ^ 26)"
proof -
  have x: "x \<noteq> 0" using assms(2) by auto
  then have b: "2 powi flog2 \<bar>x\<bar> \<le> \<bar>x\<bar>" "\<bar>x\<bar> < 2 powi (flog2 \<bar>x\<bar> + 1)" using flog2_bounds [of "\<bar>x\<bar>"] by (simp_all add: power_int_add)
  have "(2 :: rat) powi 62 < 2 powi (flog2 \<bar>x\<bar> + 1)" "(2 :: rat) powi flog2 \<bar>x\<bar> < 2 powi 128"
    using b assms(2,3) by linarith+
  then have e: "62 \<le> flog2 \<bar>x\<bar>" "flog2 \<bar>x\<bar> \<le> 127"
    using two_powi_less [of 62 "flog2 \<bar>x\<bar> + 1"] two_powi_less [of "flog2 \<bar>x\<bar>" 128] by linarith+
  then obtain M where M: "float_bits (Fin x) = pack (x < 0) (flog2 \<bar>x\<bar> + 127) (word_of_int M)"
    using float_bits_pack [OF assms(1) x] by auto
  have E: "0 \<le> flog2 \<bar>x\<bar> + 127" "flog2 \<bar>x\<bar> + 127 < 256" and k: "(flog2 \<bar>x\<bar> + 127 < 62 \<or> flog2 \<bar>x\<bar> + 127 = 255 \<and> take_bit 23 (word_of_int M :: u32) \<noteq> 0) = False"
    "(188 < flog2 \<bar>x\<bar> + 127) = True" using e by auto
  show ?thesis unfolding M htonf_pack [OF E] k if_False if_True by (simp add: candm_limits)
qed

lemma float_small:
  assumes "f32 x = x" "\<bar>x\<bar> < 2 powi (- 65)"
  shows "htonf (float_bits (Fin x)) = 0"
proof (cases "\<bar>x\<bar> < 2 powi (- 126)")
  case True
  define c :: u32 where "c = word_of_int \<lfloor>\<bar>x\<bar> / 2 powi (- 149)\<rfloor>"
  have "\<bar>x\<bar> / 2 powi (- 149) < 2 powi (- 126) / 2 powi (- 149)" using True by (intro divide_strict_right_mono) simp_all
  also have "\<dots> = (2 :: rat) ^ 23" using power_int_diff [of "2 :: rat" "- 126" "- 149"] by simp
  finally have "0 \<le> \<lfloor>\<bar>x\<bar> / 2 powi (- 149)\<rfloor>" "\<lfloor>\<bar>x\<bar> / 2 powi (- 149)\<rfloor> < 2 ^ 23" by (simp_all add: floor_less_iff)
  then have "take_bit 23 c = c" unfolding c_def by (simp add: take_bit_word_eq_self take_bit_of_int take_bit_int_eq_self)
  moreover have "finite_bits \<bar>x\<bar> = c" using True by (simp add: finite_bits_def c_def)
  moreover have "float_bits (Fin x) = (if x < 0 then sign_bit else 0) OR finite_bits \<bar>x\<bar>"
    by (simp add: sign_bit_def)
  ultimately have "float_bits (Fin x) = pack (x < 0) 0 c" by (simp add: pack_def)
  then show ?thesis by (simp add: htonf_pack)
next
  case False
  then have x: "x \<noteq> 0" by auto
  then have b: "2 powi flog2 \<bar>x\<bar> \<le> \<bar>x\<bar>" "\<bar>x\<bar> < 2 powi (flog2 \<bar>x\<bar> + 1)" using flog2_bounds [of "\<bar>x\<bar>"] by (simp_all add: power_int_add)
  have "(2 :: rat) powi (- 126) < 2 powi (flog2 \<bar>x\<bar> + 1)" "(2 :: rat) powi flog2 \<bar>x\<bar> < 2 powi (- 65)"
    using b assms(2) False by linarith+
  then have e: "- 126 \<le> flog2 \<bar>x\<bar>" "flog2 \<bar>x\<bar> < - 65"
    using two_powi_less [of "- 126" "flog2 \<bar>x\<bar> + 1"] two_powi_less [of "flog2 \<bar>x\<bar>" "- 65"] by linarith+
  then obtain M where "float_bits (Fin x) = pack (x < 0) (flog2 \<bar>x\<bar> + 127) (word_of_int M)"
    using float_bits_pack [OF assms(1) x] by auto
  then show ?thesis using e by (simp add: htonf_pack)
qed

section \<open>Nanoseconds\<close>

lemma timespec_nsec_int: "uint (timespec_nsec f) = (uint f - uint f div 16 - uint f div 128) div 4"
proof -
  have d: "uint (drop_bit 4 f) = uint f div 16" "uint (drop_bit 7 f) = uint f div 128"
    by (simp_all add: drop_bit_eq_div uint_div)
  have "0 \<le> uint f" by simp
  moreover have "uint f div 16 + uint f div 128 \<le> uint f" "uint f div 16 \<le> uint f" using \<open>0 \<le> uint f\<close> by linarith+
  ultimately have "uint (f - drop_bit 4 f - drop_bit 7 f) = uint f - uint f div 16 - uint f div 128"
    using d by (simp add: uint_sub_if')
  then show ?thesis by (simp add: timespec_nsec_def drop_bit_eq_div uint_div)
qed

lemma timespec_nsec_range:
  "uint (timespec_nsec f) < 1000000000" "uint (timespec_nsec f) - uint f * 1000000000 div 4294967296 \<in> {- 1755649 .. 1}"
proof -
  have f: "0 \<le> uint f" "uint f < 4294967296" using uint_u32_range [of f] by auto
  show "uint (timespec_nsec f) < 1000000000" unfolding timespec_nsec_int using f by linarith
  define a b c d where "a = uint f div 16" and "b = uint f div 128" and "c = (uint f - a - b) div 4" and "d = uint f * 1000000000 div 4294967296"
  have "16 * a \<le> uint f" "uint f < 16 * a + 16" "128 * b \<le> uint f" "uint f < 128 * b + 128"
    "4 * c \<le> uint f - a - b" "uint f - a - b < 4 * c + 4" "4294967296 * d \<le> uint f * 1000000000" "uint f * 1000000000 < 4294967296 * d + 4294967296"
    unfolding a_def b_def c_def d_def by linarith+
  then have "- 1755649 \<le> c - d" "c - d \<le> 1" using f by linarith+
  then show "uint (timespec_nsec f) - uint f * 1000000000 div 4294967296 \<in> {- 1755649 .. 1}"
    unfolding timespec_nsec_int a_def b_def c_def d_def by simp
qed

end
