(* ===== verification/Chrony.thy ===== *)
theory Chrony
  imports NtpExchange Regression Candm
begin

text \<open>
  Status queries of chronyc (lib/chrony/util.cpp, the messages of candm.h, the handlers of lib/ntp/ntp.cpp and the
  reports of lib/ntp/Source.cpp). A reply is built in a buffer of the size of the largest reply; the bytes
  that follow it on the stack are the argument \<open>memory\<close>. The record \<open>chrony_env\<close> has what a report reads
  besides the state of the time server: the clocks, and the statistics that are floating point.
\<close>

unbundle bit_operations_syntax

section \<open>Messages\<close>

abbreviation (input) cmd_base :: nat where "cmd_base \<equiv> 42"
abbreviation (input) cmd_version :: nat where "cmd_version \<equiv> 42"
abbreviation (input) cmd_pkt_type :: nat where "cmd_pkt_type \<equiv> 43"
abbreviation (input) cmd_command :: nat where "cmd_command \<equiv> 46"
abbreviation (input) req_sequence :: nat where "req_sequence \<equiv> 50"
abbreviation (input) req_pad1 :: nat where "req_pad1 \<equiv> 54"
abbreviation (input) req_pad2 :: nat where "req_pad2 \<equiv> 58"
abbreviation (input) req_data :: nat where "req_data \<equiv> 62"
abbreviation (input) rpy_reply :: nat where "rpy_reply \<equiv> 48"
abbreviation (input) rpy_status :: nat where "rpy_status \<equiv> 50"
abbreviation (input) rpy_sequence :: nat where "rpy_sequence \<equiv> 58"
abbreviation (input) rpy_data :: nat where "rpy_data \<equiv> 70"
abbreviation (input) ip_family :: nat where "ip_family \<equiv> 16"

abbreviation (input) REQ_MIN_LEN :: nat where "REQ_MIN_LEN \<equiv> 20"
abbreviation (input) REQ_MAX_LEN :: nat where "REQ_MAX_LEN \<equiv> 860"
abbreviation (input) CMD_Reply_size :: nat where "CMD_Reply_size \<equiv> 524"
abbreviation (input) REP_LEN_NSOURCES :: nat where "REP_LEN_NSOURCES \<equiv> 32"
abbreviation (input) REP_LEN_SOURCEDATA :: nat where "REP_LEN_SOURCEDATA \<equiv> 76"
abbreviation (input) REP_LEN_SOURCESTATS :: nat where "REP_LEN_SOURCESTATS \<equiv> 84"
abbreviation (input) REP_LEN_TRACKING :: nat where "REP_LEN_TRACKING \<equiv> 104"
abbreviation (input) REP_LEN_NTP_DATA :: nat where "REP_LEN_NTP_DATA \<equiv> 152"

abbreviation (input) PKT_TYPE_CMD_REQUEST :: u8 where "PKT_TYPE_CMD_REQUEST \<equiv> 1"
abbreviation (input) PKT_TYPE_CMD_REPLY :: u8 where "PKT_TYPE_CMD_REPLY \<equiv> 2"
abbreviation (input) PROTO_VERSION_NUMBER :: u8 where "PROTO_VERSION_NUMBER \<equiv> 6"
abbreviation (input) PROTO_VERSION_MISMATCH_COMPAT_SERVER :: u8 where "PROTO_VERSION_MISMATCH_COMPAT_SERVER \<equiv> 5"
abbreviation (input) REQ_N_SOURCES :: u16 where "REQ_N_SOURCES \<equiv> 14"
abbreviation (input) REQ_SOURCE_DATA :: u16 where "REQ_SOURCE_DATA \<equiv> 15"
abbreviation (input) REQ_TRACKING :: u16 where "REQ_TRACKING \<equiv> 33"
abbreviation (input) REQ_SOURCESTATS :: u16 where "REQ_SOURCESTATS \<equiv> 34"
abbreviation (input) REQ_NTP_DATA :: u16 where "REQ_NTP_DATA \<equiv> 57"
abbreviation (input) RPY_NULL :: u16 where "RPY_NULL \<equiv> 1"
abbreviation (input) RPY_N_SOURCES :: u16 where "RPY_N_SOURCES \<equiv> 2"
abbreviation (input) RPY_SOURCE_DATA :: u16 where "RPY_SOURCE_DATA \<equiv> 3"
abbreviation (input) RPY_TRACKING :: u16 where "RPY_TRACKING \<equiv> 5"
abbreviation (input) RPY_SOURCESTATS :: u16 where "RPY_SOURCESTATS \<equiv> 6"
abbreviation (input) RPY_NTP_DATA :: u16 where "RPY_NTP_DATA \<equiv> 16"
abbreviation (input) STT_SUCCESS :: u16 where "STT_SUCCESS \<equiv> 0"
abbreviation (input) STT_INVALID :: u16 where "STT_INVALID \<equiv> 3"
abbreviation (input) STT_NOSUCHSOURCE :: u16 where "STT_NOSUCHSOURCE \<equiv> 4"
abbreviation (input) STT_BADPKTVERSION :: u16 where "STT_BADPKTVERSION \<equiv> 18"
abbreviation (input) STT_BADPKTLENGTH :: u16 where "STT_BADPKTLENGTH \<equiv> 19"
abbreviation (input) IPADDR_UNSPEC :: u16 where "IPADDR_UNSPEC \<equiv> 0"
abbreviation (input) IPADDR_INET4 :: u16 where "IPADDR_INET4 \<equiv> 1"
abbreviation (input) RPY_NTP_FLAG_INTERLEAVED :: u16 where "RPY_NTP_FLAG_INTERLEAVED \<equiv> 0x4000"

section \<open>Conversions\<close>

definition put_float :: "bytes \<Rightarrow> nat \<Rightarrow> flt \<Rightarrow> bytes" where
  "put_float f i x = put32 f i (htonf (float_bits x))"

definition put_ip :: "bytes \<Rightarrow> nat \<Rightarrow> u16 \<Rightarrow> u32 \<Rightarrow> bytes" where
  "put_ip f i family ip = put32 (put16 f (i + ip_family) (htons family)) i ip"

definition short_float :: "u32 \<Rightarrow> flt" where
  "short_float x = Fin (1 / 2 ^ 16) * Fin (f32 (of_int (uint x)))"

section \<open>Reports of a source\<close>

text \<open>
  The argument \<open>m\<close> has the statistics, \<open>resp\<close> the response time; \<open>i\<close> is the offset of the report. The code keeps the latest
  offset twice more as a float, \<open>lastOffset\<close> and \<open>lastOffsetOrig\<close>: \<open>updateFilter\<close> sets them together with
  \<open>filteredOffset\<close> from the same sample, all three start at zero and nothing else writes them. The model reads them as the
  float of \<open>filteredOffset\<close>.
\<close>

definition getNtpData :: "u32 \<Rightarrow> measures \<Rightarrow> flt \<Rightarrow> 'z source_scheme \<Rightarrow> nat \<Rightarrow> bytes \<Rightarrow> bytes" where
  "getNtpData ip m resp p i f =
     (let f = put_ip f (i + 20) IPADDR_INET4 ip;
          f = put_ip f i IPADDR_INET4 (src_id p);
          f = put16 f (i + 40) (htons NTP_PORT_SRV);
          f = put8 f (i + 44) (ntpMode p);
          f = put8 f (i + 43) (version p);
          f = put8 f (i + 45) (ucast (stratum p));
          f = put8 f (i + 42) (leap p);
          f = put8 f (i + 47) (precision p);
          f = put8 f (i + 46) (ucast (poll p));
          f = put32 f (i + 56) (refId p);
          f = toTimespec (htonll (refTime p) - NTP_UTC_OFFSET) (i + 60) f;
          f = put_float f (i + 72) (Fin (toFloat (filteredOffset p)));
          f = put_float f (i + 48) (short_float (rootDelay p));
          f = put_float f (i + 52) (short_float (rootDispersion p));
          f = put_float f (i + 76) (delayMean (stats p));
          f = put_float f (i + 80) (offsetStdDev m);
          f = put32 f (i + 88) 0;
          f = put_float f (i + 84) resp;
          f = put8 f (i + 95) 0x48;
          f = put8 f (i + 94) 0x48;
          f = put32 f (i + 100) (htonl (rxCount p));
          f = put32 f (i + 96) (htonl (txCount p));
          f = put32 f (i + 104) (htonl (rxValid p))
      in if xleave p then put16 f (i + 92) (get16 f (i + 92) OR htons RPY_NTP_FLAG_INTERLEAVED) else f)"

definition getSourceStats :: "measures \<Rightarrow> 'z source_scheme \<Rightarrow> nat \<Rightarrow> bytes \<Rightarrow> bytes" where
  "getSourceStats m p i f =
     (let f = (if isReference p then put_ip (put32 f i (src_id p)) (i + 4) IPADDR_UNSPEC (src_id p)
               else put_ip (put32 f i (refId p)) (i + 4) IPADDR_INET4 (src_id p));
          f = put32 f (i + 24) (htonl (ucast (sampleCount p)));
          f = put32 f (i + 28) (htonl (ucast (usedOffset (stats p))));
          f = put32 f (i + 32) (htonl (span p));
          f = put_float f (i + 48) (offsetMean m);
          f = put_float f (i + 36) (offsetStdDev m);
          f = put_float f (i + 40) (freqDrift m * Fin 1000000)
      in put_float f (i + 44) (freqSkew (stats p) * Fin 1000000))"

definition getSourceData :: "u64 \<Rightarrow> 'z source_scheme \<Rightarrow> nat \<Rightarrow> bytes \<Rightarrow> bytes" where
  "getSourceData now p i f =
     (let f = put16 f (i + 26) (htons (src_mode p));
          f = put_ip f i IPADDR_INET4 (src_id p);
          f = put16 f (i + 22) (htons (stratum p));
          f = put16 f (i + 30) (htons (reach p AND 0xFF));
          f = put_float f (i + 36) (Fin (toFloat (filteredOffset p)));
          f = put_float f (i + 40) (Fin (toFloat (filteredOffset p)));
          f = put_float f (i + 44) (delayMean (stats p) + delayStdDev (stats p));
          f = put32 f (i + 32) (htonl (fx_ipart (now - lastUpdate p)));
          f = put16 f (i + 20) (htons (poll p))
      in put16 f (i + 24) (htons (src_state p)))"

section \<open>Handlers\<close>

record chrony_env =
  env_now :: u64
  env_tai :: tai_clk
  env_measures :: "src_ref \<Rightarrow> measures"
  env_response :: "src_ref \<Rightarrow> flt"
  PLL_offsetMean :: flt
  PLL_offsetLast :: flt
  PLL_offsetRms :: flt
  PLL_driftStdDev :: flt

definition trim_ppm :: "i32 \<Rightarrow> flt" where
  "trim_ppm trim = Fin (- 1000000) * (Fin (1 / 2 ^ 32) * Fin (f32 (of_int (sint trim))))"

definition chronycReply :: "bytes \<Rightarrow> bytes \<Rightarrow> bytes" where
  "chronycReply frame f =
     (let f = put8 f cmd_version PROTO_VERSION_NUMBER;
          f = put8 f cmd_pkt_type PKT_TYPE_CMD_REPLY;
          f = put16 f cmd_command (get16 frame cmd_command);
          f = put16 f rpy_reply (htons RPY_NULL);
          f = put16 f rpy_status (htons STT_SUCCESS)
      in put32 f rpy_sequence (get32 frame req_sequence))"

type_synonym 'cb chrony_handler = "chrony_env \<Rightarrow> 'cb ntpst \<Rightarrow> bytes \<Rightarrow> bytes \<Rightarrow> u16 \<times> bytes"

definition chronycNSources :: "'cb chrony_handler" where
  "chronycNSources env s frame f =
     (let f = put16 f rpy_reply (htons RPY_N_SOURCES);
          f = put32 f rpy_data (htonl (of_nat (length (sources s))))
      in (htons STT_SUCCESS, f))"

definition chronycSourceData :: "'cb chrony_handler" where
  "chronycSourceData env s frame f =
     (let f = put16 f rpy_reply (htons RPY_SOURCE_DATA);
          i = htonl (get32 frame req_data)
      in if i \<ge> of_nat (length (sources s)) then (htons STT_NOSUCHSOURCE, f)
         else (htons STT_SUCCESS, getSourceData (env_now env) (source_of (sources s ! unat i) s) rpy_data f))"

definition chronycSourceStats :: "'cb chrony_handler" where
  "chronycSourceStats env s frame f =
     (let f = put16 f rpy_reply (htons RPY_SOURCESTATS);
          i = htonl (get32 frame req_data)
      in if i \<ge> of_nat (length (sources s)) then (htons STT_NOSUCHSOURCE, f)
         else let r = sources s ! unat i
              in (htons STT_SUCCESS, getSourceStats (env_measures env r) (source_of r s) rpy_data f))"

definition update_interval :: "'cb ntpst \<Rightarrow> flt" where
  "update_interval s = (case selectedSource s of
     None \<Rightarrow> Fin 0
   | Some r \<Rightarrow> short_float (push_bit (nat (16 + sint (poll (source_of r s)))) 1))"

definition chronycTracking :: "'cb chrony_handler" where
  "chronycTracking env s frame f =
     (let f = put16 f rpy_reply (htons RPY_TRACKING);
          f = put32 f rpy_data (ntpRefId s);
          f = put16 f (rpy_data + 24) (htons (ucast (clockStratum s)));
          f = put16 f (rpy_data + 26) (htons (ucast (leapIndicator s)));
          f = put_ip f (rpy_data + 4) (if ntpRefId s = GPS_REF_ID then IPADDR_UNSPEC else IPADDR_INET4) (ntpRefId s);
          f = toTimespec (tai_fromMono (env_tai env) (ntpUpdate s) - utcOffset s) (rpy_data + 28) f;
          f = put_float f (rpy_data + 40) (PLL_offsetMean env);
          f = put_float f (rpy_data + 44) (PLL_offsetLast env);
          f = put_float f (rpy_data + 48) (PLL_offsetRms env);
          f = put_float f (rpy_data + 52) (trim_ppm (comp_getTrim (env_tai env)));
          f = put_float f (rpy_data + 56) (trim_ppm (tai_getTrim (env_tai env)));
          f = put_float f (rpy_data + 60) (Fin 1000000 * PLL_driftStdDev env);
          f = put_float f (rpy_data + 64) (short_float (ntpRootDelay s));
          f = put_float f (rpy_data + 68) (short_float (ntpRootDispersion s));
          f = put_float f (rpy_data + 72) (update_interval s)
      in (htons STT_SUCCESS, f))"

definition chronycNtpData :: "'cb chrony_handler" where
  "chronycNtpData env s frame f =
     (let f = put16 f rpy_reply (htons RPY_NTP_DATA)
      in if get16 frame (req_data + ip_family) \<noteq> htons IPADDR_INET4 then (htons STT_NOSUCHSOURCE, f)
         else case first_slot (\<lambda>r. isRecipient (get32 frame req_data) (source_of r s)) (sources s) of
                None \<Rightarrow> (htons STT_NOSUCHSOURCE, f)
              | Some k \<Rightarrow> let r = sources s ! k
                  in (htons STT_SUCCESS, getNtpData (ipAddress s) (env_measures env r) (env_response env r) (source_of r s) rpy_data f))"

definition handlers :: "('cb chrony_handler \<times> nat \<times> u16) list" where
  "handlers =
     [(chronycNSources, REP_LEN_NSOURCES, REQ_N_SOURCES),
      (chronycSourceData, REP_LEN_SOURCEDATA, REQ_SOURCE_DATA),
      (chronycSourceStats, REP_LEN_SOURCESTATS, REQ_SOURCESTATS),
      (chronycTracking, REP_LEN_TRACKING, REQ_TRACKING),
      (chronycNtpData, REP_LEN_NTP_DATA, REQ_NTP_DATA)]"

fun run_handler :: "('cb chrony_handler \<times> nat \<times> u16) list \<Rightarrow> u16 \<Rightarrow> nat \<Rightarrow> chrony_env \<Rightarrow> 'cb ntpst \<Rightarrow> bytes \<Rightarrow> bytes \<Rightarrow> bytes" where
  "run_handler [] cmd len env s frame f = f"
| "run_handler ((h, l, c) # hs) cmd len env s frame f =
     (if c = cmd then
        if l = len then let (status, f) = h env s frame f in put16 f rpy_status status
        else put16 f rpy_status (htons STT_BADPKTLENGTH)
      else run_handler hs cmd len env s frame f)"

definition chrony_answer :: "chrony_env \<Rightarrow> bytes \<Rightarrow> nat \<Rightarrow> 'cb ntpst \<Rightarrow> bytes" where
  "chrony_answer env frame flen s =
     (let f = wr (replicate (42 + CMD_Reply_size) 0) 0 (rd frame 0 42);
          f = returnToSender f;
          f = chronycReply frame f
      in if get8 f cmd_version \<noteq> PROTO_VERSION_NUMBER then put16 f rpy_status (htons STT_BADPKTVERSION)
         else let f = put16 f rpy_status (htons STT_INVALID)
              in run_handler handlers (htons (get16 f cmd_command)) (flen - 42) env s frame f)"

definition chronycRequest :: "chrony_env \<Rightarrow> bytes \<Rightarrow> bytes \<Rightarrow> nat \<Rightarrow> 'cb ntpst \<Rightarrow> 'cb ntpst" where
  "chronycRequest env memory frame flen s =
     (if flen < 42 + REQ_MIN_LEN then s
      else if flen > 42 + REQ_MAX_LEN then s
      else if get8 frame cmd_pkt_type \<noteq> PKT_TYPE_CMD_REQUEST then s
      else if get32 frame req_pad1 \<noteq> 0 then s
      else if get32 frame req_pad2 \<noteq> 0 then s
      else if get8 frame cmd_version \<noteq> PROTO_VERSION_NUMBER \<and> get8 frame cmd_version < PROTO_VERSION_MISMATCH_COMPAT_SERVER then s
      else let f = take flen (chrony_answer env frame flen s @ memory)
           in transmit_frame (IPv4_finalize (UDP_finalize f flen) flen) flen s)"

section \<open>The frame of a reply\<close>

text \<open>A handler changes the format, the status and the data of a reply only.\<close>

definition keeps_head :: "bytes \<Rightarrow> bytes \<Rightarrow> bool" where
  "keeps_head f g \<longleftrightarrow> length g = length f \<and> rd g 0 48 = rd f 0 48 \<and> rd g 52 18 = rd f 52 18"

named_theorems head_simps "what keeps the head of a reply"

lemma keeps_head_put [head_simps]:
  assumes "70 \<le> i \<or> i = rpy_reply \<or> i = rpy_status"
  shows "keeps_head f (put16 g i a) = keeps_head f g"
  using assms by (auto simp: keeps_head_def buf_simps)

lemma keeps_head_data [head_simps]:
  assumes "70 \<le> i"
  shows "keeps_head f (put8 g i a) = keeps_head f g" "keeps_head f (put32 g i b) = keeps_head f g"
    "keeps_head f (put_float g i x) = keeps_head f g" "keeps_head f (toTimespec t i g) = keeps_head f g"
    "keeps_head f (put_ip g i k n) = keeps_head f g"
  using assms by (auto simp: keeps_head_def put_float_def toTimespec_def put_ip_def Let_def buf_simps)

lemma keeps_head_refl [head_simps]: "keeps_head f f"
  by (simp add: keeps_head_def)

lemma keeps_head_reports [head_simps]:
  assumes "70 \<le> i"
  shows "keeps_head f (getNtpData ip m r p i g) = keeps_head f g" "keeps_head f (getSourceStats m p i g) = keeps_head f g"
    "keeps_head f (getSourceData now p i g) = keeps_head f g"
  using assms by (simp_all add: getNtpData_def getSourceStats_def getSourceData_def Let_def head_simps)

lemma handlers_keep:
  "list_all (\<lambda>(h, _, _). keeps_head f (snd (h env s frame f))) handlers"
  by (simp add: handlers_def chronycNSources_def chronycSourceData_def chronycSourceStats_def chronycTracking_def
      chronycNtpData_def Let_def head_simps split: option.split)

lemma run_handler_keep:
  "list_all (\<lambda>(h, _, _). keeps_head f (snd (h env s frame f))) hs \<Longrightarrow> keeps_head f (run_handler hs cmd len env s frame f)"
  by (induction hs) (auto simp: head_simps split: prod.split)

lemma keeps_head_rd:
  assumes "keeps_head f g" "k + n \<le> 48 \<or> 52 \<le> k \<and> k + n \<le> 70"
  shows "rd g k n = rd f k n"
  using assms(2)
proof
  assume "k + n \<le> 48"
  then show ?thesis using assms(1) rd_rd [of k n 48 g 0] rd_rd [of k n 48 f 0] by (simp add: keeps_head_def)
next
  assume "52 \<le> k \<and> k + n \<le> 70"
  then have k: "k - 52 + n \<le> 18" "52 + (k - 52) = k" by auto
  have "rd (rd g 52 18) (k - 52) n = rd (rd f 52 18) (k - 52) n" using assms(1) by (simp add: keeps_head_def)
  then show ?thesis unfolding rd_rd [OF k(1)] k(2) .
qed

text \<open>The reply \<open>r\<close> goes back to the sender of the request \<open>f\<close> and names its command and sequence number.\<close>

definition is_chrony_reply :: "bytes \<Rightarrow> bytes \<Rightarrow> bool" where
  "is_chrony_reply f r \<longleftrightarrow> rd r eth_macDst 6 = rd f eth_macSrc 6 \<and> get32 r ip4_dst = get32 f ip4_src
     \<and> get32 r ip4_src = get32 f ip4_dst \<and> get16 r udp_portDst = get16 f udp_portSrc \<and> get16 r udp_portSrc = get16 f udp_portDst
     \<and> get8 r cmd_version = PROTO_VERSION_NUMBER \<and> get8 r cmd_pkt_type = PKT_TYPE_CMD_REPLY
     \<and> get16 r cmd_command = get16 f cmd_command \<and> get32 r rpy_sequence = get32 f req_sequence"

definition reply_base :: "bytes \<Rightarrow> bytes" where
  "reply_base frame = chronycReply frame (returnToSender (wr (replicate 566 0) 0 (rd frame 0 42)))"

lemma reply_base_reply:
  assumes "62 \<le> length f"
  shows "is_chrony_reply f (reply_base f)" "length (reply_base f) = 566"
proof -
  define a where "a = wr (replicate 566 0) 0 (rd f 0 42)"
  have "rd a 0 42 = rd f 0 42" using assms by (simp add: a_def buf_simps)
  then have a: "length a = 566" "k + n \<le> 42 \<Longrightarrow> rd a k n = rd f k n" for k n
    using rd_rd [of k n 42 a 0] rd_rd [of k n 42 f 0] by (simp_all add: a_def)
  show "length (reply_base f) = 566"
    using a(1) by (simp add: reply_base_def chronycReply_def Let_def returnToSender_get flip: a_def)
  show "is_chrony_reply f (reply_base f)"
    using a(1) unfolding reply_base_def a_def [symmetric]
    by (simp add: is_chrony_reply_def chronycReply_def Let_def buf_simps) (simp add: get_defs a(2))
qed

lemma keeps_reply:
  assumes "keeps_head g r"
  shows "is_chrony_reply f r = is_chrony_reply f g"
  by (simp add: is_chrony_reply_def get_defs keeps_head_rd [OF assms])

lemma chrony_answer_eq:
  assumes "62 \<le> length f"
  shows "chrony_answer env f n s
    = run_handler handlers (htons (get16 f cmd_command)) (n - 42) env s f (put16 (reply_base f) rpy_status (htons STT_INVALID))"
  using reply_base_reply [OF assms]
  by (simp add: chrony_answer_def reply_base_def [symmetric] Let_def is_chrony_reply_def buf_simps)

lemma chrony_answer_reply:
  assumes "62 \<le> length f"
  shows "is_chrony_reply f (chrony_answer env f n s)" "length (chrony_answer env f n s) = 566"
proof -
  let ?b = "put16 (reply_base f) rpy_status (htons STT_INVALID)"
  have k: "keeps_head ?b (chrony_answer env f n s)"
    unfolding chrony_answer_eq [OF assms] by (rule run_handler_keep) (rule handlers_keep)
  have b: "keeps_head (reply_base f) ?b" by (simp add: head_simps)
  show "is_chrony_reply f (chrony_answer env f n s)"
    using reply_base_reply(1) [OF assms] keeps_reply [OF k] keeps_reply [OF b] by simp
  show "length (chrony_answer env f n s) = 566" using k reply_base_reply(2) [OF assms] by (simp add: keeps_head_def)
qed

section \<open>Status\<close>

text \<open>The source that a request asks for, by its index or by its address.\<close>

definition asked_index :: "bytes \<Rightarrow> 'cb ntpst \<Rightarrow> nat option" where
  "asked_index f s = (let i = unat (htonl (get32 f req_data)) in if i < length (sources s) then Some i else None)"

definition asked_address :: "bytes \<Rightarrow> 'cb ntpst \<Rightarrow> nat option" where
  "asked_address f s =
     (if get16 f (req_data + ip_family) = htons IPADDR_INET4
      then first_slot (\<lambda>r. isRecipient (get32 f req_data) (source_of r s)) (sources s) else None)"

definition chrony_status :: "bytes \<Rightarrow> nat \<Rightarrow> 'cb ntpst \<Rightarrow> u16" where
  "chrony_status f n s =
     (let cmd = htons (get16 f cmd_command);
          found = (\<lambda>len src. if n - 42 \<noteq> len then STT_BADPKTLENGTH else if src = None then STT_NOSUCHSOURCE else STT_SUCCESS)
      in if cmd = REQ_N_SOURCES then found REP_LEN_NSOURCES (Some 0)
         else if cmd = REQ_SOURCE_DATA then found REP_LEN_SOURCEDATA (asked_index f s)
         else if cmd = REQ_SOURCESTATS then found REP_LEN_SOURCESTATS (asked_index f s)
         else if cmd = REQ_TRACKING then found REP_LEN_TRACKING (Some 0)
         else if cmd = REQ_NTP_DATA then found REP_LEN_NTP_DATA (asked_address f s)
         else STT_INVALID)"

lemma index_limit: "length xs \<le> 9 \<Longrightarrow> (of_nat (length xs) \<le> (i :: u32)) = (\<not> unat i < length xs)"
  by (simp add: word_le_nat_alt unat_of_nat not_less)

lemma handler_status:
  assumes "length (sources s) \<le> 9"
  shows "fst (chronycNSources env s f g) = htons STT_SUCCESS" "fst (chronycTracking env s f g) = htons STT_SUCCESS"
    "fst (chronycSourceData env s f g) = htons (if asked_index f s = None then STT_NOSUCHSOURCE else STT_SUCCESS)"
    "fst (chronycSourceStats env s f g) = htons (if asked_index f s = None then STT_NOSUCHSOURCE else STT_SUCCESS)"
    "fst (chronycNtpData env s f g) = htons (if asked_address f s = None then STT_NOSUCHSOURCE else STT_SUCCESS)"
  using assms by (simp_all add: chronycNSources_def chronycTracking_def chronycSourceData_def chronycSourceStats_def
      chronycNtpData_def Let_def asked_index_def asked_address_def index_limit split: option.split)

lemma run_handler_status:
  assumes "list_all (\<lambda>(h, _, _). keeps_head f (snd (h env s frame f))) hs" "52 \<le> length f"
  shows "get16 (run_handler hs cmd len env s frame f) rpy_status = (case find (\<lambda>(h, l, c). c = cmd) hs of
      None \<Rightarrow> get16 f rpy_status
    | Some (h, l, c) \<Rightarrow> if l = len then fst (h env s frame f) else htons STT_BADPKTLENGTH)"
  using assms by (induction hs) (auto simp: buf_simps keeps_head_def split: prod.split)

lemma chrony_answer_status:
  assumes "62 \<le> length f" "length (sources s) \<le> 9"
  shows "get16 (chrony_answer env f n s) rpy_status = htons (chrony_status f n s)"
proof -
  let ?b = "put16 (reply_base f) rpy_status (htons STT_INVALID)"
  have "52 \<le> length ?b" "get16 ?b rpy_status = htons STT_INVALID"
    using reply_base_reply(2) [OF assms(1)] by (simp_all add: buf_simps)
  note b = run_handler_status [OF handlers_keep this(1)] this(2)
  show ?thesis
    unfolding chrony_answer_eq [OF assms(1)] b
    by (simp add: handlers_def chrony_status_def handler_status [OF assms(2)] b)
qed

section \<open>Replies\<close>

definition valid_request :: "bytes \<Rightarrow> nat \<Rightarrow> bool" where
  "valid_request f n \<longleftrightarrow> 62 \<le> n \<and> n \<le> 902 \<and> n \<le> length f \<and> get8 f cmd_pkt_type = PKT_TYPE_CMD_REQUEST
     \<and> get32 f req_pad1 = 0 \<and> get32 f req_pad2 = 0 \<and> get8 f cmd_version \<ge> PROTO_VERSION_MISMATCH_COMPAT_SERVER"

lemma chronycRequest_reply:
  assumes "valid_request f n" "n \<le> 566 + length memory" "length (sources s) \<le> 9"
  shows "\<exists>r. chronycRequest env memory f n s = transmit_frame r n s \<and> intact r n \<and> is_chrony_reply f r
    \<and> get16 r rpy_status = htons (chrony_status f n s)
    \<and> rd r 42 (n - 42) = rd (chrony_answer env f n s @ memory) 42 (n - 42)"
proof -
  let ?a = "chrony_answer env f n s"
  define g where "g = take n (?a @ memory)"
  have n: "62 \<le> n" "n \<le> 902" "62 \<le> length f" using assms(1) by (auto simp: valid_request_def)
  note a = chrony_answer_reply [OF n(3), of env n s] chrony_answer_status [OF n(3) assms(3), of env n]
  have g: "length g = n" using a(2) assms(2) by (simp add: g_def)
  have r: "rd (sealed g) k j = rd ?a k j" if "k + j \<le> 6 \<or> 26 \<le> k \<and> k + j \<le> 38 \<or> 42 \<le> k \<and> k + j \<le> 62" for k j
    using that n(1) a(2) by (subst sealed_rd) (auto simp: g_def rd_take rd_append_left)
  have "is_chrony_reply f (sealed g) \<longleftrightarrow> is_chrony_reply f ?a" "get16 (sealed g) rpy_status = get16 ?a rpy_status"
    by (simp_all add: is_chrony_reply_def get_defs r)
  moreover have "rd (sealed g) 42 (n - 42) = rd (?a @ memory) 42 (n - 42)"
  proof -
    have "rd (sealed g) 42 (n - 42) = rd g 42 (n - 42)" by (rule sealed_rd) simp
    also have "\<dots> = rd (?a @ memory) 42 (n - 42)" unfolding g_def by (rule rd_take) (use n(1) in simp)
    finally show ?thesis .
  qed
  moreover have "intact (sealed g) n" using sealed_ok [of g] g n by (simp add: intact_def)
  moreover have "chronycRequest env memory f n s = transmit_frame (sealed g) n s"
  proof -
    have "sealed g = IPv4_finalize (UDP_finalize g n) n" by (simp add: sealed_def g)
    then show ?thesis using assms(1) by (auto simp: chronycRequest_def valid_request_def Let_def g_def not_less)
  qed
  ultimately show ?thesis using a by auto
qed

lemma htonl_0: "htonl 0 = 0" by code_simp

lemma candm_toFloat: "candm_value (htonl (htonf (float_bits (Fin (toFloat v))))) = toFloat v"
proof -
  have p: "(2 :: rat) powi (- 65) \<le> 2 powi (- 36)" "(2 :: rat) powi 36 < 2 powi 62"
    by (intro power_int_increasing power_int_strict_increasing; simp)+
  show ?thesis
  proof (cases "toFloat v = 0")
    case True
    then show ?thesis using float_small [of 0] by (simp only: htonl_0 candm_limits) (simp add: htonl_0 candm_limits)
  next
    case False
    then have "2 powi (- 65) \<le> \<bar>toFloat v\<bar>" "\<bar>toFloat v\<bar> < 2 powi 62" using toFloat_range(2) [of v] p by auto
    then show ?thesis by (intro float_exact toFloat_range)
  qed
qed

text \<open>What the report of a source at offset 70 of the reply \<open>r\<close> says.\<close>

definition is_source_data :: "u64 \<Rightarrow> 'z source_scheme \<Rightarrow> bytes \<Rightarrow> bool" where
  "is_source_data now p r \<longleftrightarrow> get32 r 70 = src_id p \<and> get16 r 86 = htons IPADDR_INET4 \<and> get16 r 90 = htons (poll p)
     \<and> get16 r 92 = htons (stratum p) \<and> get16 r 94 = htons (src_state p) \<and> get16 r 96 = htons (src_mode p)
     \<and> get16 r 100 = htons (reach p AND 0xFF) \<and> get32 r 102 = htonl (fx_ipart (now - lastUpdate p))
     \<and> candm_value (htonl (get32 r 106)) = toFloat (filteredOffset p)
     \<and> candm_value (htonl (get32 r 110)) = toFloat (filteredOffset p)"

lemma getSourceData_report:
  assumes "114 < length g"
  shows "is_source_data now p (put16 (getSourceData now p 70 g) rpy_status st)"
  using assms by (simp add: is_source_data_def getSourceData_def Let_def put_ip_def put_float_def buf_simps candm_toFloat del: float_bits.simps)

lemma source_data_answer:
  assumes "62 \<le> length f" "htons (get16 f cmd_command) = REQ_SOURCE_DATA" "n = 118" "asked_index f s = Some i" "length (sources s) \<le> 9"
  shows "is_source_data (env_now env) (source_of (sources s ! i) s) (chrony_answer env f n s)"
proof -
  let ?b = "put16 (reply_base f) rpy_status (htons STT_INVALID)"
  have i: "\<not> of_nat (length (sources s)) \<le> htonl (get32 f req_data)" "i = unat (htonl (get32 f req_data))"
    using assms(4,5) by (auto simp: asked_index_def Let_def index_limit split: if_splits)
  have "chrony_answer env f n s = put16 (getSourceData (env_now env) (source_of (sources s ! i) s) 70 (put16 ?b rpy_reply (htons RPY_SOURCE_DATA)))
      rpy_status (htons STT_SUCCESS)"
    unfolding chrony_answer_eq [OF assms(1)] using assms(2,3) i by (simp add: handlers_def chronycSourceData_def Let_def)
  then show ?thesis using reply_base_reply(2) [OF assms(1)] by (simp add: getSourceData_report)
qed

section \<open>Versions\<close>

lemma handlers_ignore_version:
  "chronycNSources env s (put8 f cmd_version v) = chronycNSources env s f" "chronycSourceData env s (put8 f cmd_version v) = chronycSourceData env s f"
  "chronycSourceStats env s (put8 f cmd_version v) = chronycSourceStats env s f" "chronycTracking env s (put8 f cmd_version v) = chronycTracking env s f"
  "chronycNtpData env s (put8 f cmd_version v) = chronycNtpData env s f"
proof -
  have g: "get32 (put8 f cmd_version v) req_data = get32 f req_data" "get16 (put8 f cmd_version v) (req_data + ip_family) = get16 f (req_data + ip_family)"
    by (simp_all add: buf_simps)
  show "chronycNSources env s (put8 f cmd_version v) = chronycNSources env s f" "chronycSourceData env s (put8 f cmd_version v) = chronycSourceData env s f"
    "chronycSourceStats env s (put8 f cmd_version v) = chronycSourceStats env s f" "chronycTracking env s (put8 f cmd_version v) = chronycTracking env s f"
    "chronycNtpData env s (put8 f cmd_version v) = chronycNtpData env s f"
    by (rule ext; simp only: chronycNSources_def chronycTracking_def chronycSourceData_def chronycSourceStats_def chronycNtpData_def g)+
qed

lemma chrony_answer_version: "chrony_answer env (put8 f cmd_version v) n s = chrony_answer env f n s"
  by (simp add: chrony_answer_def chronycReply_def Let_def handlers_def handlers_ignore_version buf_simps)

section \<open>Properties\<close>

text \<open>A host with the GPS source only, an environment, and a query of \<open>n\<close> bytes in all, for the witnesses.\<close>

definition chrony_host :: "nat ntpst" where
  "chrony_host = (ntp_boot [2, 0, 0, 0, 0, 1] 5)\<lparr>sources := [SrcGps]\<rparr>"

definition chrony_quiet :: chrony_env where
  "chrony_quiet = \<lparr>env_now = 0, env_tai = tai_reset, env_measures = (\<lambda>_. \<lparr>offsetMean = Fin 0, offsetStdDev = Fin 0, freqDrift = Fin 0\<rparr>),
     env_response = (\<lambda>_. Fin 0), PLL_offsetMean = Fin 0, PLL_offsetLast = Fin 0, PLL_offsetRms = Fin 0, PLL_driftStdDev = Fin 0\<rparr>"

definition chrony_query :: "u16 \<Rightarrow> nat \<Rightarrow> bytes" where
  "chrony_query cmd n = put16 (put8 (put8 (replicate n 0) cmd_version 6) cmd_pkt_type 1) cmd_command (htons cmd)"

lemma chrony_query_fields:
  assumes "62 \<le> n"
  shows "length (chrony_query cmd n) = n" "get8 (chrony_query cmd n) cmd_version = 6" "get8 (chrony_query cmd n) cmd_pkt_type = 1"
    "get16 (chrony_query cmd n) cmd_command = htons cmd" "62 \<le> k \<Longrightarrow> get32 (chrony_query cmd n) k = get32 (replicate n 0) k"
    "get32 (chrony_query cmd n) req_pad1 = get32 (replicate n 0) req_pad1" "get32 (chrony_query cmd n) req_pad2 = get32 (replicate n 0) req_pad2"
  using assms by (simp_all add: chrony_query_def buf_simps)

lemma get32_zeros: "k + 4 \<le> n \<Longrightarrow> get32 (replicate n 0) k = 0"
proof -
  assume "k + 4 \<le> n"
  then have "rd (replicate n 0) k 4 = replicate 4 (0 :: u8)" by (simp add: rd_def min_def)
  moreover have "dec32 (replicate 4 0) = 0" by code_simp
  ultimately show ?thesis by (simp add: get32_def)
qed

lemma chrony_query_valid: "62 \<le> n \<Longrightarrow> n \<le> 902 \<Longrightarrow> valid_request (chrony_query cmd n) n"
  by (simp add: valid_request_def chrony_query_fields get32_zeros)

text \<open>
  C29: Every well-formed status query, of whatever length the code accepts (up to 902 bytes), gets one reply of the
  query's length: intact, back to its sender, with the command and sequence number of the query, and the status that
  its command, length and source call for: unknown commands, wrong lengths and unknown sources are reported as such.
  Its data are those of the handler's answer; a query that is longer than the reply buffer of 566 bytes gets the
  stack behind the buffer as well (\<open>memory\<close>, as far as the query reaches). A well-formed query has a version from 5
  on: the code refuses no such version, whatever its comment says, so these queries too have the status of version 6.
\<close>
theorem chrony_replies:
  assumes "valid_request f n" "n \<le> 566 + length memory" "length (sources s) \<le> MAX_NTP_SRCS"
  shows "\<exists>r. chronycRequest env memory f n s = transmit_frame r n s \<and> intact r n \<and> is_chrony_reply f r
    \<and> get16 r rpy_status = htons (chrony_status f n s)
    \<and> rd r 42 (n - 42) = rd (chrony_answer env f n s @ memory) 42 (n - 42)"
  using assms by (rule chronycRequest_reply)

theorem chrony_replies_witness:
  "let f = chrony_query REQ_SOURCE_DATA 570; m = [1, 2, 3, 4]
   in \<exists>r. chronycRequest chrony_quiet m f 570 chrony_host = transmit_frame r 570 chrony_host \<and> intact r 570 \<and> is_chrony_reply f r
    \<and> get16 r rpy_status = htons (chrony_status f 570 chrony_host)
    \<and> rd r 42 (570 - 42) = rd (chrony_answer chrony_quiet f 570 chrony_host @ m) 42 (570 - 42)"
  unfolding Let_def by (rule chrony_replies) (simp_all add: chrony_query_valid, simp add: chrony_host_def)

text \<open>
  C12: The report of a source is exact. A query for the data of a known source is answered with its address,
  state, stratum, reach and interval, and the offset that chronyc decodes from the reply is exactly the
  one that the program computed for the latest sample, with no loss in the conversion of formats.
\<close>
theorem chrony_source_report:
  assumes "valid_request f 118" "htons (get16 f cmd_command) = REQ_SOURCE_DATA" "asked_index f s = Some i"
    "length (sources s) \<le> MAX_NTP_SRCS"
  shows "\<exists>r. chronycRequest env memory f 118 s = transmit_frame r 118 s \<and> is_chrony_reply f r
    \<and> get16 r rpy_status = htons STT_SUCCESS \<and> is_source_data (env_now env) (source_of (sources s ! i) s) r"
proof -
  let ?a = "chrony_answer env f 118 s"
  have f: "62 \<le> length f" using assms(1) by (simp add: valid_request_def)
  from chronycRequest_reply [OF assms(1) _ assms(4), of memory env] obtain r where
    r: "chronycRequest env memory f 118 s = transmit_frame r 118 s" "is_chrony_reply f r"
    "get16 r rpy_status = htons (chrony_status f 118 s)" "rd r 42 76 = rd (?a @ memory) 42 76" by auto
  have "rd r k j = rd ?a k j" if "42 \<le> k" "k + j \<le> 118" for k j
  proof -
    have k: "k - 42 + j \<le> 76" "42 + (k - 42) = k" using that by auto
    have "rd r k j = rd (rd r 42 76) (k - 42) j" unfolding rd_rd [OF k(1)] k(2) ..
    also have "\<dots> = rd (?a @ memory) k j" unfolding r(4) rd_rd [OF k(1)] k(2) ..
    also have "\<dots> = rd ?a k j" using that chrony_answer_reply(2) [OF f, of env 118 s] by (simp add: rd_append_left)
    finally show ?thesis .
  qed
  then have "is_source_data (env_now env) (source_of (sources s ! i) s) r
    = is_source_data (env_now env) (source_of (sources s ! i) s) ?a" by (simp add: is_source_data_def get_defs)
  moreover have "chrony_status f 118 s = STT_SUCCESS" using assms(2,3) by (simp add: chrony_status_def)
  ultimately show ?thesis using r source_data_answer [OF f assms(2) refl assms(3,4)] by auto
qed

theorem chrony_source_report_witness:
  "let f = chrony_query REQ_SOURCE_DATA 118
   in \<exists>r. chronycRequest chrony_quiet [] f 118 chrony_host = transmit_frame r 118 chrony_host \<and> is_chrony_reply f r
    \<and> get16 r rpy_status = htons STT_SUCCESS \<and> is_source_data (env_now chrony_quiet) (source_of (sources chrony_host ! 0) chrony_host) r"
  unfolding Let_def
  by (rule chrony_source_report)
     (simp_all add: chrony_query_valid chrony_query_fields get32_zeros asked_index_def htonl_0 chrony_host_def)

text \<open>
  C30: Numbers on the wire. A single-precision number is sent so that the documented format reads back exactly that
  number, from \<open>2 powi (- 65)\<close> up to \<open>2 powi 62\<close> in magnitude; smaller ones read as zero. But those beyond the range, which
  the code means to limit to the largest value, read as a quarter.
\<close>
theorem chrony_float:
  assumes "f32 x = x" "\<bar>x\<bar> < 2 powi 128"
  shows "candm_value (htonl (htonf (float_bits (Fin x)))) =
    (if \<bar>x\<bar> < 2 powi (- 65) then 0 else if \<bar>x\<bar> < 2 powi 62 then x else if x < 0 then - 1 / 4 else (2 ^ 24 - 1) / 2 ^ 26)"
proof (cases "\<bar>x\<bar> < 2 powi (- 65)")
  case True
  show ?thesis unfolding float_small [OF assms(1) True] by (simp only: True htonl_0 candm_limits if_True)
next
  case small: False
  show ?thesis
  proof (cases "\<bar>x\<bar> < 2 powi 62")
    case True
    then show ?thesis using float_exact [OF assms(1) _ True] by (simp only: small if_False if_True not_less [symmetric] not_False_eq_True simp_thms)
  next
    case False
    then show ?thesis using float_large [OF assms(1) _ assms(2)] by (simp only: small if_False not_less [symmetric] not_False_eq_True simp_thms)
  qed
qed

theorem chrony_float_witness:
  "candm_value (htonl (htonf (float_bits (Fin (- 3 / 8))))) = - 3 / 8 \<and> candm_value (htonl (htonf (float_bits (Fin (2 ^ 70))))) = (2 ^ 24 - 1) / 2 ^ 26"
proof -
  have "f32 (- 3 / 8) = - 3 / 8" "f32 (2 ^ 70) = 2 ^ 70" by code_simp+
  moreover have "\<bar>- 3 / 8 :: rat\<bar> < 2 powi 128" "\<not> \<bar>- 3 / 8 :: rat\<bar> < 2 powi (- 65)" "\<bar>- 3 / 8 :: rat\<bar> < 2 powi 62"
    "\<bar>2 ^ 70 :: rat\<bar> < 2 powi 128" "\<not> \<bar>2 ^ 70 :: rat\<bar> < 2 powi (- 65)" "\<not> \<bar>2 ^ 70 :: rat\<bar> < 2 powi 62"
    by code_simp+
  ultimately show ?thesis using chrony_float [of "- 3 / 8"] chrony_float [of "2 ^ 70"] by (simp del: float_bits.simps)
qed

text \<open>
  No version is refused. A query of any version from 5 on is answered exactly as one of version 6: the code that reports
  a bad version tests the version of its own reply, and the status for it is never sent.
\<close>
theorem chrony_any_version:
  assumes "get8 f cmd_version = PROTO_VERSION_NUMBER" "PROTO_VERSION_MISMATCH_COMPAT_SERVER \<le> v" "62 \<le> length f"
  shows "chronycRequest env memory (put8 f cmd_version v) n s = chronycRequest env memory f n s"
  using assms by (simp add: chronycRequest_def chrony_answer_version buf_simps not_less [symmetric])

theorem chrony_any_version_witness:
  "chronycRequest chrony_quiet [] (put8 (chrony_query REQ_TRACKING 146) cmd_version 255) 146 chrony_host
    = chronycRequest chrony_quiet [] (chrony_query REQ_TRACKING 146) 146 chrony_host"
  by (rule chrony_any_version) (simp_all add: chrony_query_fields)

text \<open>
  A long query leaks memory. A query may be longer than the reply buffer, and the reply has the query's length:
  from byte 566 on, a well-formed query of up to 902 bytes is answered with the bytes that follow the buffer
  on the stack.
\<close>
theorem chrony_stack_leak:
  assumes "valid_request f n" "566 \<le> n" "n \<le> 566 + length memory" "length (sources s) \<le> MAX_NTP_SRCS"
  shows "\<exists>r. chronycRequest env memory f n s = transmit_frame r n s \<and> rd r 566 (n - 566) = take (n - 566) memory"
proof -
  let ?a = "chrony_answer env f n s"
  have f: "62 \<le> length f" using assms(1) by (simp add: valid_request_def)
  from chronycRequest_reply [OF assms(1,3,4), of env] obtain r where
    r: "chronycRequest env memory f n s = transmit_frame r n s" "rd r 42 (n - 42) = rd (?a @ memory) 42 (n - 42)" by auto
  have k: "524 + (n - 566) \<le> n - 42" using assms(2) by simp
  have "rd r 566 (n - 566) = rd (?a @ memory) 566 (n - 566)"
    using arg_cong [OF r(2), of "\<lambda>x. rd x 524 (n - 566)"] unfolding rd_rd [OF k] by simp
  also have "\<dots> = take (n - 566) memory"
    using chrony_answer_reply(2) [OF f, of env n s] by (simp add: rd_def)
  finally show ?thesis using r(1) by blast
qed

theorem chrony_stack_leak_witness:
  "\<exists>r. chronycRequest chrony_quiet [1, 2, 3, 4] (chrony_query REQ_N_SOURCES 570) 570 chrony_host = transmit_frame r 570 chrony_host
    \<and> rd r 566 4 = [1, 2, 3, 4]"
  using chrony_stack_leak [OF chrony_query_valid, of 570 "[1, 2, 3, 4]" chrony_host chrony_quiet REQ_N_SOURCES]
  by (simp add: chrony_host_def)

end
