(* ===== verification/Tcmp.thy ===== *)
theory Tcmp
  imports FloatLaws Clocks
begin

text \<open>
  Temperature compensation (lib/ntp/tcmp.cpp, and the thermometer of lib/clock/capture.cpp): the ring of
  temperatures and its fit, the self-organising map of correction against temperature, which is kept in
  EEPROM, and the regression over the map, which runs in steps as a task of the scheduler. A task that
  waits is counted in \<open>regressionTasks\<close>. \<open>std::exp\<close>, which the library does not round correctly, is the
  argument \<open>expf\<close>; \<open>None\<close> is a conversion of a float out of the range of the integer. The payload of a
  NaN and the sign of zero are not kept in the words of the EEPROM.
\<close>

unbundle bit_operations_syntax

section \<open>State\<close>

type_synonym triple = "flt \<times> flt \<times> flt"

record tcmp =
  tempPos :: nat
  tempRing :: "flt list"
  tempValue :: flt
  tempNoise :: flt
  initCounter :: nat
  tcmpSaved :: u32
  tcmpValue :: flt
  tcmpMean :: triple
  tcmpCoeff :: triple
  tcmpRmse :: flt
  somNode :: "triple list"
  somResidual :: "triple list"
  somNW :: "flt list"
  regressionStep :: nat
  regressionTasks :: nat
  reg_mse :: flt
  reg_mean :: triple
  reg_coef :: triple
  scratch :: "triple list"
  eepromSom :: "u32 list"

abbreviation (input) RING_SIZE :: nat where "RING_SIZE \<equiv> 256"
abbreviation (input) SOM_NODE_CNT :: nat where "SOM_NODE_CNT \<equiv> 16"
abbreviation (input) STEP_CNT :: nat where "STEP_CNT \<equiv> 9"
abbreviation (input) TCMP_SAVE_INTV :: u32 where "TCMP_SAVE_INTV \<equiv> 3600"

definition SOM_FILL_OFF :: flt where "SOM_FILL_OFF = Fin (f32 (2 / 10))"
definition SOM_FILL_REG :: flt where "SOM_FILL_REG = Fin 4"
definition SOM_RATE :: flt where "SOM_RATE = Fin (1 / 2 ^ 12)"
definition REG_MIN_RMSE :: flt where "REG_MIN_RMSE = Fin (f32 (250 / 10 ^ 9))"

text \<open>Static storage before \<open>init\<close>.\<close>

definition tcmp_reset :: "u32 list \<Rightarrow> tcmp" where
  "tcmp_reset ee = (let z = (Fin 0, Fin 0, Fin 0) in
     \<lparr>tempPos = 0, tempRing = replicate RING_SIZE (Fin 0), tempValue = Fin 0, tempNoise = Fin 0, initCounter = 0,
      tcmpSaved = 0, tcmpValue = Fin 0, tcmpMean = z, tcmpCoeff = z, tcmpRmse = Fin 0,
      somNode = replicate SOM_NODE_CNT z, somResidual = replicate SOM_NODE_CNT z, somNW = replicate SOM_NODE_CNT (Fin 0),
      regressionStep = 0, regressionTasks = 0, reg_mse = Fin 0, reg_mean = z, reg_coef = z,
      scratch = replicate SOM_NODE_CNT z, eepromSom = ee\<rparr>)"

section \<open>Measurement\<close>

text \<open>The slope over the last 255 edges of the sensor; its frequency is proportional to the temperature.\<close>

definition timeScale :: flt where "timeScale = Fin 1 / flt_int CLK_FREQ"

definition temperature :: "'a cap_clk_scheme \<Rightarrow> flt" where
  "temperature s =
     (let mid = RING_MASK div 2;
          cc = flt_int (mid + 1);
          xc = Fin (1 / 2) * cc * (cc - Fin 1);
          xx = Fin 2 * (cc - Fin (1 / 2)) * xc / Fin 3;
          scale = Fin (1 / 2) * xx / timeScale;
          pivot = int (ringPos s) - mid;
          zero = ringBuffer s ! nat (pivot AND RING_MASK);
          yx = foldl (\<lambda>yx i. let x = flt_int i;
                                y = flt_int (sint (zero - ringBuffer s ! nat ((pivot - i) AND RING_MASK)))
                            in yx + y * x) (Fin 0) [- mid..mid]
      in scale / yx - Fin (f32 (27315 / 100)))"

definition runTemperature :: "'a cap_clk_scheme \<Rightarrow> tcmp \<Rightarrow> tcmp" where
  "runTemperature c s =
     (let temp = temperature c; head = (tempPos s + 1) AND RING_MASK
      in s\<lparr>tempRing := (tempRing s)[head := temp], tempPos := head\<rparr>)"

definition tcmpEstimate :: "tcmp \<Rightarrow> flt \<Rightarrow> flt" where
  "tcmpEstimate s temp =
     (let (m0, m1, m2) = tcmpMean s; (c0, c1, c2) = tcmpCoeff s;
          x = temp - m0;
          y = c0 + x * c1;
          y = y + x * x * c2
      in y + m1)"

definition ring_temp :: "tcmp \<Rightarrow> nat \<Rightarrow> flt" where
  "ring_temp s i = tempRing s ! nat ((int (tempPos s) - int i) AND RING_MASK)"

text \<open>The line through the ring: its value now, its slope per sample, and the standard deviation of the value.\<close>

definition temp_fit :: "tcmp \<Rightarrow> flt \<times> flt" where
  "temp_fit s =
     (let cc = flt_int (int RING_SIZE);
          xcs = Fin (1 / 2) * cc * (cc - Fin 1);
          xxs = Fin 2 * (cc - Fin (1 / 2)) * xcs / Fin 3;
          xc = xcs / cc;
          xx = xxs / cc;
          (yc, yx) = foldl (\<lambda>(yc, yx) i. let x = flt_int (int i); y = ring_temp s i in (yc + y, yx + y * x))
                       (Fin 0, Fin 0) [0..<RING_SIZE];
          yc = yc / cc;
          yx = yx / cc;
          slope = (yx - yc * xc) / (xx - xc * xc);
          offset = yc - xc * slope;
          mse = foldl (\<lambda>mse i. let x = flt_int (int i); y = ring_temp s i; error = y - offset - x * slope
                              in mse + error * error) (Fin 0) [0..<RING_SIZE];
          mse = mse / cc;
          slopeVariance = mse / (xx - xc * xc);
          offsetVariance = slopeVariance * xx
      in (offset, flt_sqrt offsetVariance))"

definition runCompensation :: "u32 \<Rightarrow> tcmp \<times> 'a comp_clk_scheme \<Rightarrow> (tcmp \<times> 'a comp_clk_scheme) option" where
  "runCompensation raw = (\<lambda>(s, c).
     if initCounter s < 68 then Some (s\<lparr>initCounter := initCounter s + 1\<rparr>, c)
     else let (offset, noise) = temp_fit s
          in case flt_to_i32 (Fin (2 ^ 32) * tcmpEstimate s offset) of
               None \<Rightarrow> None
             | Some trim \<Rightarrow>
                 Some (s\<lparr>tcmpValue := Fin (1 / 2 ^ 32) * flt_int (sint trim), tempValue := offset, tempNoise := noise\<rparr>,
                       comp_setTrim trim raw c))"

section \<open>The map\<close>

text \<open>The value of the bits of a float.\<close>

definition bits_float :: "u32 \<Rightarrow> flt" where
  "bits_float w =
     (let e = uint (take_bit 8 (drop_bit 23 w)); m = uint (take_bit 23 w); neg = bit w 31
      in if e = 255 then (if m = 0 then if neg then NInf else PInf else NaN)
         else let v = (if e = 0 then of_int m * 2 powi (- 149) else of_int (2 ^ 23 + m) * 2 powi (e - 150))
              in Fin (if neg then - v else v))"

fun flt_isfinite :: "flt \<Rightarrow> bool" where
  "flt_isfinite (Fin _) = True"
| "flt_isfinite _ = False"

fun nodes_of :: "u32 list \<Rightarrow> triple list" where
  "nodes_of (a # b # c # ws) = (bits_float a, bits_float b, bits_float c) # nodes_of ws"
| "nodes_of _ = []"

definition loadSom :: "(flt \<Rightarrow> flt) \<Rightarrow> tcmp \<Rightarrow> tcmp" where
  "loadSom expf s =
     s\<lparr>somNW := map (\<lambda>i. expf (Fin (- 2) * flt_int (int (i * i)))) [0..<SOM_NODE_CNT],
       somNode := nodes_of (eepromSom s)\<rparr>"

text \<open>
  \<open>eepromSom\<close> is the part of the EEPROM that both routines address, the 48 words from \<open>SOM_EEPROM_BASE\<close> on; the seek
  to its base and the sequence of word accesses are not modelled.
\<close>

definition saveSom :: "tcmp \<Rightarrow> tcmp" where
  "saveSom s = s\<lparr>eepromSom := concat (map (\<lambda>(a, b, c). [float_bits a, float_bits b, float_bits c]) (somNode s))\<rparr>"

definition seedSom :: "flt \<Rightarrow> flt \<Rightarrow> tcmp \<Rightarrow> tcmp" where
  "seedSom temp target s =
     (let mid = int SOM_NODE_CNT div 2
      in s\<lparr>somNode := map (\<lambda>i. (temp + Fin (f32 (1 / 10)) * flt_int (int i - mid), target, Fin 0)) [0..<SOM_NODE_CNT]\<rparr>)"

definition accumulate :: "flt \<Rightarrow> flt \<Rightarrow> flt \<Rightarrow> flt \<times> flt" where
  "accumulate accumulator residual delta =
     (let initial = accumulator;
          accumulator = accumulator + (residual + delta);
          residual = residual + (delta - (accumulator - initial))
      in (accumulator, residual))"

text \<open>The index of the node nearest in temperature; the first of several.\<close>

definition nearest :: "flt \<Rightarrow> triple list \<Rightarrow> nat" where
  "nearest temp nodes =
     fst (foldl (\<lambda>(best, dist) i. let diff = flt_abs (temp - fst (nodes ! i)) in if diff < dist then (i, diff) else (best, dist))
            (0, flt_abs (temp - fst (nodes ! 0))) [1..<length nodes])"

definition update_node :: "flt \<Rightarrow> flt \<Rightarrow> flt \<Rightarrow> triple \<times> triple \<Rightarrow> triple \<times> triple" where
  "update_node temp target w = (\<lambda>((n0, n1, n2), (r0, r1, r2)).
     let (n0, r0) = accumulate n0 r0 ((temp - n0) * w);
         (n1, r1) = accumulate n1 r1 ((target - n1) * w);
         (n2, r2) = accumulate n2 r2 ((Fin 1 - n2) * w)
     in ((n0, n1, n2), (r0, r1, r2)))"

definition updateSom :: "flt \<Rightarrow> flt \<Rightarrow> flt \<Rightarrow> tcmp \<Rightarrow> tcmp" where
  "updateSom temp target alpha s =
     (if \<not> flt_isfinite (fst (somNode s ! 0)) then (if Fin (1 / 2) \<le> alpha then seedSom temp target s else s)
      else let best = nearest temp (somNode s);
               alpha = alpha * SOM_RATE;
               new = map (\<lambda>i. update_node temp target (alpha * somNW s ! nat \<bar>int i - int best\<bar>) (somNode s ! i, somResidual s ! i))
                       [0..<SOM_NODE_CNT]
           in s\<lparr>somNode := map fst new, somResidual := map snd new\<rparr>)"

section \<open>Regression\<close>

definition computeMean :: "triple list \<Rightarrow> tcmp \<Rightarrow> tcmp" where
  "computeMean data s =
     (let (m0, m1, m2) = foldl (\<lambda>(m0, m1, m2) (d0, d1, d2). (m0 + d0 * d2, m1 + d1 * d2, m2 + d2)) (Fin 0, Fin 0, Fin 0) data
      in s\<lparr>reg_mean := (m0 / m2, m1 / m2, m2)\<rparr>)"

text \<open>The sums of the normal equations, and their solution by elimination.\<close>

definition quad_sums :: "triple \<Rightarrow> triple list \<Rightarrow> (flt \<times> flt \<times> flt \<times> flt) \<times> (flt \<times> flt) \<times> (flt \<times> flt)" where
  "quad_sums mean data =
     foldl (\<lambda>((x00, x01, x02, x03), (x12, x13), (x22, x23)) (d0, d1, d2).
       let x = d0 - fst mean;
           y = d1 - fst (snd mean);
           z = d2;
           x22 = x22 + z; x23 = x23 + z * y;
           z = z * x;
           x12 = x12 + z; x13 = x13 + z * y;
           z = z * x;
           x02 = x02 + z; x03 = x03 + z * y;
           z = z * x;
           x01 = x01 + z;
           z = z * x;
           x00 = x00 + z
       in ((x00, x01, x02, x03), (x12, x13), (x22, x23)))
     ((Fin 0, Fin 0, Fin 0, Fin 0), (Fin 0, Fin 0), (Fin 0, Fin 0)) data"

definition fitQuadratic :: "triple list \<Rightarrow> tcmp \<Rightarrow> tcmp" where
  "fitQuadratic data s =
     (let ((x00, x01, x02, x03), (x12, x13), (x22, x23)) = quad_sums (reg_mean s) data;
          x10 = x01; x11 = x02; x20 = x02; x21 = x12;
          f = x10 / x00;
          x11 = x11 - f * x01; x12 = x12 - f * x02; x13 = x13 - f * x03;
          f = x20 / x00;
          x21 = x21 - f * x01; x22 = x22 - f * x02; x23 = x23 - f * x03;
          f = x21 / x11;
          x22 = x22 - f * x12; x23 = x23 - f * x13;
          c0 = x23 / x22;
          c1 = (x13 - x12 * c0) / x11;
          c2 = (x03 - x02 * c0 - x01 * c1) / x00
      in s\<lparr>reg_coef := (c0, c1, c2)\<rparr>)"

definition fit_error :: "tcmp \<Rightarrow> triple \<Rightarrow> flt" where
  "fit_error s = (\<lambda>(d0, d1, d2).
     let (m0, m1, m2) = reg_mean s; (c0, c1, c2) = reg_coef s;
         x = d0 - m0;
         y = d1 - m1;
         y = y - c0;
         y = y - x * c1
     in y - x * x * c2)"

definition computeMSE :: "triple list \<Rightarrow> tcmp \<Rightarrow> tcmp" where
  "computeMSE data s =
     (let acc = foldl (\<lambda>acc d. let y = fit_error s d in acc + y * y * snd (snd d)) (Fin 0) data
      in s\<lparr>reg_mse := acc / snd (snd (reg_mean s))\<rparr>)"

definition step0 :: "tcmp \<Rightarrow> int \<times> tcmp" where "step0 s = (0, computeMean (somNode s) s)"

definition step1 :: "tcmp \<Rightarrow> int \<times> tcmp" where
  "step1 s =
     (if snd (snd (reg_mean s)) < SOM_FILL_OFF then (1, s)
      else if snd (snd (reg_mean s)) < SOM_FILL_REG then (2, s\<lparr>tcmpMean := reg_mean s\<rparr>)
      else (0, s))"

definition step2 :: "tcmp \<Rightarrow> int \<times> tcmp" where "step2 s = (0, fitQuadratic (somNode s) s)"
definition step3 :: "tcmp \<Rightarrow> int \<times> tcmp" where "step3 s = (0, computeMSE (somNode s) s)"

definition step4 :: "(flt \<Rightarrow> flt) \<Rightarrow> tcmp \<Rightarrow> int \<times> tcmp" where
  "step4 expf s =
     (0, s\<lparr>scratch := map (\<lambda>(d0, d1, d2). let y = fit_error s (d0, d1, d2)
                           in (d0, d1, d2 * expf (Fin (- 1 / 4) * y * y / reg_mse s))) (somNode s)\<rparr>)"

definition step5 :: "tcmp \<Rightarrow> int \<times> tcmp" where "step5 s = (0, computeMean (scratch s) s)"
definition step6 :: "tcmp \<Rightarrow> int \<times> tcmp" where "step6 s = (0, fitQuadratic (scratch s) s)"
definition step7 :: "tcmp \<Rightarrow> int \<times> tcmp" where "step7 s = (0, computeMSE (scratch s) s)"

definition step8 :: "tcmp \<Rightarrow> int \<times> tcmp" where
  "step8 s =
     (let s = s\<lparr>tcmpRmse := flt_sqrt (reg_mse s)\<rparr>
      in (0, if tcmpRmse s \<le> REG_MIN_RMSE then s\<lparr>tcmpMean := reg_mean s, tcmpCoeff := reg_coef s\<rparr> else s))"

definition steps :: "(flt \<Rightarrow> flt) \<Rightarrow> (tcmp \<Rightarrow> int \<times> tcmp) list" where
  "steps expf = [step0, step1, step2, step3, step4 expf, step5, step6, step7, step8]"

text \<open>A run of the task; cancelling removes every task with this callback.\<close>

definition runRegression :: "(flt \<Rightarrow> flt) \<Rightarrow> tcmp \<Rightarrow> tcmp" where
  "runRegression expf s =
     (let (stop, s) = (if STEP_CNT \<le> regressionStep s then (1, s) else (steps expf ! regressionStep s) s)
      in if stop \<noteq> 0 then s\<lparr>regressionTasks := 0, regressionStep := 0\<rparr>
         else s\<lparr>regressionStep := regressionStep s + 1\<rparr>)"

section \<open>Interface\<close>

definition tcmp_init :: "(flt \<Rightarrow> flt) \<Rightarrow> tcmp \<Rightarrow> tcmp" where
  "tcmp_init expf s =
     (let s = loadSom expf s
      in if flt_isfinite (fst (somNode s ! 0)) then s\<lparr>regressionTasks := regressionTasks s + 1\<rparr> else s)"

definition tcmp_update :: "u32 \<Rightarrow> flt \<Rightarrow> flt \<Rightarrow> tcmp \<Rightarrow> tcmp" where
  "tcmp_update now target weight s =
     (let s = updateSom (tempValue s) target weight s;
          s = (if now - tcmpSaved s > TCMP_SAVE_INTV then saveSom (s\<lparr>tcmpSaved := now\<rparr>) else s)
      in if regressionStep s = 0 then s\<lparr>regressionTasks := regressionTasks s + 1\<rparr>
         else s\<lparr>regressionStep := 0\<rparr>)"

section \<open>The bits of a float\<close>

lemma sign_bit: "bit (0x80000000 :: u32) n \<longleftrightarrow> n = 31"
proof -
  have "(0x80000000 :: u32) = push_bit 31 1" by simp
  then show ?thesis by (simp only: bit_simps) auto
qed

lemma bits_split:
  fixes a m :: u32
  defines "w \<equiv> push_bit 23 (take_bit 8 a) OR take_bit 23 m"
  shows "take_bit 8 (drop_bit 23 w) = take_bit 8 a" "take_bit 23 w = take_bit 23 m" "\<not> bit w 31"
    "take_bit 8 (drop_bit 23 (0x80000000 OR w)) = take_bit 8 a" "take_bit 23 (0x80000000 OR w) = take_bit 23 m" "bit (0x80000000 OR w) 31"
  unfolding w_def by (auto intro!: bit_word_eqI simp: bit_simps sign_bit)

lemma bits_float_parts:
  fixes m a :: u32
  assumes "w = push_bit 23 (take_bit 8 a) OR take_bit 23 m" "uint (take_bit 8 a) = e" "uint (take_bit 23 m) = k" "e \<noteq> 255"
    "v = (if e = 0 then of_int k * 2 powi (- 149) else of_int (2 ^ 23 + k) * 2 powi (e - 150))"
  shows "bits_float w = Fin v" "bits_float (0x80000000 OR w) = Fin (- v)"
proof -
  have b: "bit (push_bit 23 (take_bit 8 a) OR take_bit 23 m) 31 = False"
    "bit (0x80000000 OR (push_bit 23 (take_bit 8 a) OR take_bit 23 m)) 31 = True" by (simp_all only: bits_split simp_thms)
  show "bits_float w = Fin v" "bits_float (0x80000000 OR w) = Fin (- v)"
    using assms(4) unfolding bits_float_def Let_def assms(1) bits_split(1,2,4,5) b assms(2,3,5) by simp_all
qed

lemma finite_bits_value:
  assumes "is_f32 y" "0 \<le> y" "y < 2 ^ 128"
  shows "bits_float (finite_bits y) = Fin y" "bits_float (0x80000000 OR finite_bits y) = Fin (- y)"
proof -
  have "\<exists>(a :: u32) (m :: u32) e k. finite_bits y = push_bit 23 (take_bit 8 a) OR take_bit 23 m \<and> uint (take_bit 8 a) = e
    \<and> uint (take_bit 23 m) = k \<and> e \<noteq> 255 \<and> y = (if e = 0 then of_int k * 2 powi (- 149) else of_int (2 ^ 23 + k) * 2 powi (e - 150))"
  proof (cases "y < 2 powi (- 126)")
    case True
    obtain M where M: "y = of_int M * 2 powi (- 149)" "0 \<le> M" "M < 2 ^ 23"
    proof (cases "y = 0")
      case F: False
      have "flog2 y < - 126" using True flog2_bounds(1) [of y] F assms(2) by (intro two_powi_less) simp
      then have "max (flog2 y - 23) (- 149) = - 149" by simp
      then have u: "ulp y = 2 powi (- 149)" using assms(2) by (simp only: ulp_def abs_of_nonneg)
      define M where "M = rne (y / ulp y)"
      have y: "y = of_int M * 2 powi (- 149)" using assms(1) F unfolding is_f32_def f32_def M_def u by simp
      have p: "(0 :: rat) < 2 powi (- 149)" by simp
      have "0 \<le> of_int M * (2 :: rat) powi (- 149)" using assms(2) y by simp
      then have "0 \<le> M" using p by (simp add: zero_le_mult_iff)
      moreover have "of_int M * (2 :: rat) powi (- 149) < of_int (2 ^ 23) * 2 powi (- 149)" using True y by (simp flip: power_int_add)
      then have "M < 2 ^ 23" unfolding mult_less_cancel_right_pos [OF p] of_int_less_iff .
      ultimately show ?thesis using that y by blast
    qed (use that [of 0] in simp)
    have f: "finite_bits y = word_of_int M" using True M(1) by (simp add: finite_bits_def)
    have "uint (take_bit 23 (word_of_int M :: u32)) = take_bit 23 (M mod 4294967296)" by (simp only: unsigned_take_bit_eq uint_of_int_32)
    then have t: "uint (take_bit 23 (word_of_int M :: u32)) = M" using M by (simp add: take_bit_eq_mod)
    moreover have "uint (word_of_int M :: u32) = M" using M by (simp add: uint_of_int_32)
    ultimately have w: "take_bit 23 (word_of_int M :: u32) = word_of_int M" by (simp only: word_uint_eq_iff)
    show ?thesis
      by (rule exI [of _ "0 :: u32"], rule exI [of _ "word_of_int M :: u32"], rule exI [of _ "0 :: int"], rule exI [of _ M],
          intro conjI, simp add: f w, simp, simp only: t, simp, use M(1) in simp)
  next
    case False
    define e where "e = flog2 y"
    have y: "0 < y" using False by (auto intro: less_le_trans [of _ "2 powi (- 126)"])
    have "(2 :: rat) powi (- 126) < 2 powi (e + 1)" "(2 :: rat) powi e < 2 powi 128"
      using flog2_bounds [OF y] False assms(3) by (simp_all add: e_def power_int_add)
    then have e: "- 126 \<le> e" "e \<le> 127" using two_powi_less [of "- 126" "e + 1"] two_powi_less [of e 128] by simp_all
    obtain M where M: "y = of_int M * 2 powi (e - 23)" "2 ^ 23 \<le> M" "M < 2 ^ 24"
      using f32_form [of y] assms y e by (auto simp: is_f32_def e_def)
    have "y / 2 powi (e - 23) = of_int M" using M(1) by simp
    then have "finite_bits y = push_bit 23 (word_of_int (e + 127)) OR take_bit 23 (word_of_int M)"
      using False unfolding finite_bits_def e_def [symmetric] by (simp only: if_False floor_of_int)
    moreover have "take_bit 8 (word_of_int (e + 127) :: u32) = word_of_int (e + 127)" "uint (word_of_int (e + 127) :: u32) = e + 127"
    proof -
      show u: "uint (word_of_int (e + 127) :: u32) = e + 127" using e unfolding uint_of_int_32 by simp
      have "uint (take_bit 8 (word_of_int (e + 127) :: u32)) = e + 127"
        unfolding unsigned_take_bit_eq u using e by (simp add: take_bit_eq_mod)
      then show "take_bit 8 (word_of_int (e + 127) :: u32) = word_of_int (e + 127)" unfolding word_uint_eq_iff u .
    qed
    moreover have "uint (take_bit 23 (word_of_int M :: u32)) = M - 2 ^ 23"
    proof -
      have "M mod 8388608 = M - 8388608" using M(2,3) mod_pos_pos_trivial [of "M - 8388608" 8388608] by simp
      then show ?thesis using M by (simp only: unsigned_take_bit_eq uint_of_int_32) (simp add: take_bit_eq_mod)
    qed
    ultimately show ?thesis using M e
      by - (rule exI [of _ "word_of_int (e + 127) :: u32"], rule exI [of _ "word_of_int M :: u32"],
          rule exI [of _ "e + 127"], rule exI [of _ "M - 2 ^ 23"], simp)
  qed
  then show "bits_float (finite_bits y) = Fin y" "bits_float (0x80000000 OR finite_bits y) = Fin (- y)"
    using bits_float_parts by metis+
qed

section \<open>The nearest node\<close>

lemma flt_le_total: "x \<noteq> NaN \<Longrightarrow> y \<noteq> NaN \<Longrightarrow> \<not> flt_less x y \<Longrightarrow> flt_le y x"
  by (cases x; cases y) (auto simp: flt_le_def)

lemma flt_less_le_trans: "flt_less x y \<Longrightarrow> flt_le y z \<Longrightarrow> flt_le x z"
  by (cases x; cases y; cases z) (auto simp: flt_le_def)

text \<open>The loop keeps the index of a smallest distance.\<close>

lemma nearest_loop:
  assumes "\<And>i. i < n \<Longrightarrow> f i \<noteq> NaN" "0 < n"
  shows "\<exists>b < n. foldl (\<lambda>(best, dist) i. if flt_less (f i) dist then (i, f i) else (best, dist)) (0, f 0) [1..<n] = (b, f b)
     \<and> (\<forall>i < n. flt_le (f b) (f i))"
  using assms
proof (induction n)
  case (Suc n)
  show ?case
  proof (cases "n = 0")
    case True
    then show ?thesis using Suc.prems by (auto simp: flt_le_def)
  next
    case False
    with Suc obtain b where b: "b < n" "foldl (\<lambda>(best, dist) i. if flt_less (f i) dist then (i, f i) else (best, dist)) (0, f 0) [1..<n] = (b, f b)"
      "\<forall>i < n. flt_le (f b) (f i)" by auto
    show ?thesis
    proof (cases "flt_less (f n) (f b)")
      case True
      have "flt_le (f n) (f i)" if "i < Suc n" for i
        using that True b(3) Suc.prems(1) flt_less_le_trans [of "f n" "f b" "f i"] by (cases "i = n") (auto simp: flt_le_def)
      then show ?thesis using b True False by (intro exI [of _ n]) auto
    next
      case F: False
      have "flt_le (f b) (f n)" using F Suc.prems b(1) by (intro flt_le_total) auto
      then show ?thesis using b F False by (intro exI [of _ b]) (auto simp: less_Suc_eq)
    qed
  qed
qed simp

section \<open>The regression as a whole\<close>

definition accept_fit :: "tcmp \<Rightarrow> tcmp" where
  "accept_fit s =
     (let s = s\<lparr>tcmpRmse := flt_sqrt (reg_mse s)\<rparr>
      in if tcmpRmse s \<le> REG_MIN_RMSE then s\<lparr>tcmpMean := reg_mean s, tcmpCoeff := reg_coef s\<rparr> else s)"

definition fit_map :: "triple list \<Rightarrow> tcmp \<Rightarrow> tcmp" where
  "fit_map data s = computeMSE data (fitQuadratic data (computeMean data s))"

definition regress :: "(flt \<Rightarrow> flt) \<Rightarrow> tcmp \<Rightarrow> tcmp" where
  "regress expf s =
     (let m = computeMean (somNode s) s; fill = snd (snd (reg_mean m))
      in if fill < SOM_FILL_OFF then m
         else if fill < SOM_FILL_REG then m\<lparr>tcmpMean := reg_mean m\<rparr>
         else let r = snd (step4 expf (fit_map (somNode s) s))
              in accept_fit (fit_map (scratch r) r))"

lemma compute_frame:
  "regressionStep (computeMean d s) = regressionStep s" "regressionStep (fitQuadratic d s) = regressionStep s"
  "regressionStep (computeMSE d s) = regressionStep s" "somNode (computeMean d s) = somNode s"
  "somNode (fitQuadratic d s) = somNode s" "somNode (computeMSE d s) = somNode s"
  "scratch (computeMean d s) = scratch s" "scratch (fitQuadratic d s) = scratch s" "scratch (computeMSE d s) = scratch s"
  by (simp_all add: computeMean_def fitQuadratic_def computeMSE_def Let_def case_prod_unfold)



lemma compute_step [simp]:
  "computeMean d (s\<lparr>regressionStep := k\<rparr>) = (computeMean d s)\<lparr>regressionStep := k\<rparr>"
  "fitQuadratic d (s\<lparr>regressionStep := k\<rparr>) = (fitQuadratic d s)\<lparr>regressionStep := k\<rparr>"
  "computeMSE d (s\<lparr>regressionStep := k\<rparr>) = (computeMSE d s)\<lparr>regressionStep := k\<rparr>"
  "fit_error (s\<lparr>regressionStep := k\<rparr>) = fit_error s"
  by (simp_all add: computeMean_def fitQuadratic_def computeMSE_def fit_error_def Let_def case_prod_unfold fun_eq_iff)

lemma run_all:
  assumes "regressionStep s = 0"
  shows "\<exists>n \<le> 10. (runRegression expf ^^ n) s = (regress expf s)\<lparr>regressionTasks := 0, regressionStep := 0\<rparr>"
proof -
  let ?m = "computeMean (somNode s) s"
  let ?R = "runRegression expf"
  have r1: "?R s = ?m\<lparr>regressionStep := 1\<rparr>"
    by (simp add: runRegression_def steps_def step0_def compute_frame assms)
  consider "snd (snd (reg_mean ?m)) < SOM_FILL_OFF" | "\<not> snd (snd (reg_mean ?m)) < SOM_FILL_OFF" "snd (snd (reg_mean ?m)) < SOM_FILL_REG"
    | "\<not> snd (snd (reg_mean ?m)) < SOM_FILL_OFF" "\<not> snd (snd (reg_mean ?m)) < SOM_FILL_REG" by blast
  then show ?thesis
  proof cases
    case 1
    then have "?R (?R s) = (regress expf s)\<lparr>regressionTasks := 0, regressionStep := 0\<rparr>"
      unfolding r1 by (simp add: runRegression_def steps_def step1_def regress_def Let_def)
    then show ?thesis by (intro exI [of _ 2]) (simp add: numeral_2_eq_2)
  next
    case 2
    then have "?R (?R s) = (regress expf s)\<lparr>regressionTasks := 0, regressionStep := 0\<rparr>"
      unfolding r1 by (simp add: runRegression_def steps_def step1_def regress_def Let_def)
    then show ?thesis by (intro exI [of _ 2]) (simp add: numeral_2_eq_2)
  next
    case 3
    define a where "a = fit_map (somNode s) s"
    define r where "r = snd (step4 expf a)"
    have n: "somNode a = somNode s" by (simp add: a_def fit_map_def compute_frame)
    have r2: "?R (?m\<lparr>regressionStep := 1\<rparr>) = ?m\<lparr>regressionStep := 2\<rparr>"
      using 3 by (simp add: runRegression_def steps_def step1_def)
    have r4: "?R (?R (?m\<lparr>regressionStep := 2\<rparr>)) = a\<lparr>regressionStep := 4\<rparr>"
      by (simp add: runRegression_def steps_def step2_def step3_def a_def fit_map_def compute_frame)
    have r5: "?R (a\<lparr>regressionStep := 4\<rparr>) = r\<lparr>regressionStep := 5\<rparr>"
      by (simp add: runRegression_def steps_def step4_def r_def)
    have r8: "?R (?R (?R (r\<lparr>regressionStep := 5\<rparr>))) = (fit_map (scratch r) r)\<lparr>regressionStep := 8\<rparr>"
      by (simp add: runRegression_def steps_def step5_def step6_def step7_def fit_map_def compute_frame)
    have r9: "?R (t\<lparr>regressionStep := 8\<rparr>) = (accept_fit t)\<lparr>regressionStep := 9\<rparr>" for t
      by (simp add: runRegression_def steps_def step8_def accept_fit_def Let_def)
    have r10: "?R (t\<lparr>regressionStep := 9\<rparr>) = t\<lparr>regressionTasks := 0, regressionStep := 0\<rparr>" for t
      by (simp add: runRegression_def)
    have "regress expf s = accept_fit (fit_map (scratch r) r)"
      using 3 by (simp add: regress_def Let_def r_def a_def)
    moreover have "(?R ^^ 10) s = ?R (?R (?R (?R (?R (?R (?R (?R (?R (?R s)))))))))" by (simp add: eval_nat_numeral)
    ultimately have "(?R ^^ 10) s = (regress expf s)\<lparr>regressionTasks := 0, regressionStep := 0\<rparr>"
      by (simp only: r1 r2 r4 r5 r8 r9 r10)
    then show ?thesis by blast
  qed
qed
section \<open>Reachable states\<close>

definition node_valid :: "triple \<Rightarrow> bool" where
  "node_valid n \<longleftrightarrow> float_valid (fst n) \<and> float_valid (fst (snd n)) \<and> float_valid (snd (snd n))"

lemma bits_float_valid: "float_valid (bits_float w)"
proof -
  define e m where "e = uint (take_bit 8 (drop_bit 23 w))" and "m = uint (take_bit 23 w)"
  have "e = take_bit 8 (uint (drop_bit 23 w))" "m = take_bit 23 (uint w)" by (simp_all only: e_def m_def unsigned_take_bit_eq)
  then have e: "0 \<le> e" "e < 256" and m: "0 \<le> m" "m < 2 ^ 23" by (simp_all add: take_bit_eq_mod)
  have k: "is_f32 (of_int k * 2 powi j) \<and> \<bar>of_int k * 2 powi j :: rat\<bar> < 2 ^ 128" if "0 \<le> k" "k < 2 ^ 24" "- 149 \<le> j" "j \<le> 104" for k j
  proof
    show "is_f32 (of_int k * 2 powi j)" using that by (intro is_f32_scaled) simp_all
    have "(of_int k :: rat) < of_int (2 ^ 24)" using that by (simp only: of_int_less_iff)
    then have "\<bar>of_int k * 2 powi j :: rat\<bar> < of_int (2 ^ 24) * 2 powi j" using that by (simp add: abs_mult)
    also have "\<dots> \<le> of_int (2 ^ 24) * 2 powi 104" using that by (intro mult_left_mono power_int_increasing) simp_all
    finally show "\<bar>of_int k * 2 powi j :: rat\<bar> < 2 ^ 128" by simp
  qed
  have r: "float_valid (Fin (if b then - (of_int k * 2 powi j) else of_int k * 2 powi j))"
    if "0 \<le> k" "k < 2 ^ 24" "- 149 \<le> j" "j \<le> 104" for b k j
    using k [OF that] by (auto simp: float_valid_def)
  have d: "bits_float w = (if e = 255 then (if m = 0 then if bit w 31 then NInf else PInf else NaN)
      else if e = 0 then Fin (if bit w 31 then - (of_int m * 2 powi (- 149)) else of_int m * 2 powi (- 149))
      else Fin (if bit w 31 then - (of_int (2 ^ 23 + m) * 2 powi (e - 150)) else of_int (2 ^ 23 + m) * 2 powi (e - 150)))"
    unfolding bits_float_def e_def [symmetric] m_def [symmetric] Let_def by (simp only: if_False if_True split: if_split) blast
  consider "e = 255" | "e = 0" | "0 < e" "e \<le> 254" using e by linarith
  then show ?thesis
  proof cases
    case 2
    then have "bits_float w = Fin (if bit w 31 then - (of_int m * 2 powi (- 149)) else of_int m * 2 powi (- 149))"
      unfolding d by simp
    then show ?thesis using r [of m "- 149" "bit w 31"] m by (simp only:) simp
  next
    case 3
    then have "bits_float w = Fin (if bit w 31 then - (of_int (2 ^ 23 + m) * 2 powi (e - 150)) else of_int (2 ^ 23 + m) * 2 powi (e - 150))"
      unfolding d by simp
    moreover have "float_valid (Fin (if bit w 31 then - (of_int (2 ^ 23 + m) * 2 powi (e - 150)) else of_int (2 ^ 23 + m) * 2 powi (e - 150)))"
      by (rule r) (use 3 m in simp_all)
    ultimately show ?thesis by (simp only:)
  qed (simp add: d)
qed

lemma bits_float_bits [simp]: "float_valid v \<Longrightarrow> bits_float (float_bits v) = v"
proof (cases v)
  case (Fin x)
  assume "float_valid v"
  then show ?thesis using finite_bits_value [of x] finite_bits_value [of "- x"]
    by (cases "x < 0") (simp_all add: Fin float_valid_def abs_less_iff)
qed (simp_all add: bits_float_def Let_def)

inductive tcmp_step :: "(flt \<Rightarrow> flt) \<Rightarrow> tcmp \<Rightarrow> tcmp \<Rightarrow> bool" for expf where
  Temperature: "tcmp_step expf s (runTemperature (c :: cap_clk) s)"
| Compensation: "runCompensation raw (s, c :: tai_clk) = Some (t, d) \<Longrightarrow> tcmp_step expf s t"
| Regression: "0 < regressionTasks s \<Longrightarrow> tcmp_step expf s (runRegression expf s)"
| Update: "float_valid target \<Longrightarrow> tcmp_step expf s (tcmp_update now target weight s)"

inductive tcmp_reach :: "(flt \<Rightarrow> flt) \<Rightarrow> tcmp \<Rightarrow> bool" for expf where
  Start: "length ee = 48 \<Longrightarrow> tcmp_reach expf (tcmp_init expf (tcmp_reset ee))"
| Step: "tcmp_reach expf s \<Longrightarrow> tcmp_step expf s t \<Longrightarrow> tcmp_reach expf t"


definition som_ok :: "tcmp \<Rightarrow> bool" where
  "som_ok s \<longleftrightarrow> length (somNode s) = SOM_NODE_CNT \<and> list_all node_valid (somNode s)"

lemma update_node_valid: "node_valid (fst (update_node t c w nr))"
  by (cases nr) (auto simp: update_node_def accumulate_def node_valid_def Let_def)

definition reg_ok :: "tcmp \<Rightarrow> bool" where
  "reg_ok s \<longleftrightarrow> regressionStep s \<le> 9 \<and> (regressionStep s \<noteq> 0 \<longrightarrow> 0 < regressionTasks s)"

lemma nodes_of_valid: "list_all node_valid (nodes_of ws)" "length (nodes_of ws) = length ws div 3"
  by (induction ws rule: nodes_of.induct) (simp_all add: node_valid_def bits_float_valid)

lemma updateSom_ok: "float_valid target \<Longrightarrow> som_ok s \<Longrightarrow> som_ok (updateSom temp target alpha s)"
  by (simp add: updateSom_def seedSom_def som_ok_def Let_def list_all_iff node_valid_def update_node_valid [unfolded node_valid_def])

lemma update_frame: "regressionStep (updateSom temp target alpha s) = regressionStep s"
  "regressionTasks (updateSom temp target alpha s) = regressionTasks s" "tcmpCoeff (updateSom temp target alpha s) = tcmpCoeff s"
  "regressionStep (saveSom s) = regressionStep s" "regressionTasks (saveSom s) = regressionTasks s"
  "tcmpCoeff (saveSom s) = tcmpCoeff s" "som_ok (saveSom s) = som_ok s"
  "som_ok (s\<lparr>tcmpSaved := now\<rparr>) = som_ok s" "som_ok (s\<lparr>regressionTasks := k\<rparr>) = som_ok s" "som_ok (s\<lparr>regressionStep := k\<rparr>) = som_ok s"
  by (simp_all add: updateSom_def seedSom_def saveSom_def som_ok_def Let_def)

lemma compute_rest:
  "regressionTasks (computeMean d s) = regressionTasks s" "regressionTasks (fitQuadratic d s) = regressionTasks s"
  "regressionTasks (computeMSE d s) = regressionTasks s" "tcmpCoeff (computeMean d s) = tcmpCoeff s"
  "tcmpCoeff (fitQuadratic d s) = tcmpCoeff s" "tcmpCoeff (computeMSE d s) = tcmpCoeff s"
  by (simp_all add: computeMean_def fitQuadratic_def computeMSE_def Let_def case_prod_unfold)

lemma step_frame:
  assumes "k < 9" "(steps expf ! k) s = (r, t)"
  shows "regressionStep t = regressionStep s" "regressionTasks t = regressionTasks s" "somNode t = somNode s"
    "tcmpCoeff t \<noteq> tcmpCoeff s \<Longrightarrow> tcmpRmse t \<le> REG_MIN_RMSE \<and> tcmpCoeff t = reg_coef t \<and> tcmpMean t = reg_mean t"
proof -
  have "k \<in> {0,1,2,3,4,5,6,7,8}" using assms(1) by auto
  then show "regressionStep t = regressionStep s" "regressionTasks t = regressionTasks s" "somNode t = somNode s"
    "tcmpCoeff t \<noteq> tcmpCoeff s \<Longrightarrow> tcmpRmse t \<le> REG_MIN_RMSE \<and> tcmpCoeff t = reg_coef t \<and> tcmpMean t = reg_mean t"
    using assms(2) by (auto simp: steps_def step0_def step1_def step2_def step3_def step4_def step5_def step6_def step7_def step8_def
        compute_frame compute_rest Let_def split: if_splits)
qed


lemma runRegression_ok:
  assumes "0 < regressionTasks s" "som_ok s"
  shows "som_ok (runRegression expf s) \<and> reg_ok (runRegression expf s)"
proof (cases "9 \<le> regressionStep s")
  case True
  then show ?thesis using assms by (simp add: runRegression_def reg_ok_def som_ok_def)
next
  case False
  obtain r t where t: "(steps expf ! regressionStep s) s = (r, t)" by fastforce
  from step_frame [OF _ t] False assms show ?thesis by (simp add: runRegression_def t reg_ok_def som_ok_def)
qed

lemma tcmp_step_ok: "tcmp_step expf s t \<Longrightarrow> som_ok s \<and> reg_ok s \<Longrightarrow> som_ok t \<and> reg_ok t"
proof (induction rule: tcmp_step.induct)
  case (Temperature s c)
  then show ?case by (simp add: runTemperature_def som_ok_def reg_ok_def Let_def)
next
  case (Compensation raw s c t d)
  then show ?case
    by (auto simp: runCompensation_def som_ok_def reg_ok_def Let_def split: if_splits prod.splits option.splits)
next
  case (Regression s)
  then show ?case using runRegression_ok by blast
next
  case (Update target s now weight)
  then show ?case using updateSom_ok [of target s]
    by (auto simp: tcmp_update_def reg_ok_def Let_def update_frame)
qed

lemma tcmp_reach_ok: "tcmp_reach expf s \<Longrightarrow> som_ok s \<and> reg_ok s"
proof (induction rule: tcmp_reach.induct)
  case (Start ee)
  then show ?case using nodes_of_valid [of ee]
    by (simp add: tcmp_init_def loadSom_def tcmp_reset_def som_ok_def reg_ok_def Let_def)
qed (use tcmp_step_ok in blast)

lemma nodes_of_bits: "list_all node_valid ns \<Longrightarrow> nodes_of (concat (map (\<lambda>(a, b, c). [float_bits a, float_bits b, float_bits c]) ns)) = ns"
  by (induction ns) (auto simp: node_valid_def)

section \<open>A missing sensor\<close>

lemma nan_arith [simp]: "NaN + x = NaN" "x + NaN = NaN" "NaN - x = NaN" "x - NaN = NaN" "NaN * x = NaN" "x * NaN = NaN"
  "NaN / x = NaN" "x / NaN = NaN" for x :: flt
  by (cases x; simp add: flt_ops flt_sub_def)+

lemma mask_range: "nat (i AND 255) < 256"
proof -
  have "i AND 255 = i mod 256" using take_bit_eq_mask [of 8 i] by (simp add: mask_eq_exp_minus_1 take_bit_eq_mod)
  then show ?thesis by simp
qed

lemma temp_fit_inf:
  assumes "\<And>i. ring_temp s i = PInf"
  shows "fst (temp_fit s) = NaN"
proof -
  have f: "foldl (\<lambda>(yc, yx) i. let x = flt_int (int i); y = ring_temp s i in (yc + y, yx + y * x)) (a, NaN) xs = (b, c) \<Longrightarrow> c = NaN" for a b c xs
    by (induction xs arbitrary: a) (auto simp: Let_def)
  have u: "[0..<256] = 0 # [1..<256]" by (simp add: upt_conv_Cons)
  have z: "PInf * flt_int (int 0) = NaN" by (simp add: flt_int_def flt_ops flt_inf_def)
  obtain b c where bc: "foldl (\<lambda>(yc, yx) i. let x = flt_int (int i); y = ring_temp s i in (yc + y, yx + y * x)) (Fin 0, Fin 0) [0..<256] = (b, c)"
    by fastforce
  then have "foldl (\<lambda>(yc, yx) i. let x = flt_int (int i); y = ring_temp s i in (yc + y, yx + y * x)) (Fin 0 + PInf, NaN) [1..<256] = (b, c)"
    unfolding u foldl.simps by (simp only: prod.case Let_def assms z nan_arith)
  then have "c = NaN" by (rule f)
  then show ?thesis unfolding temp_fit_def Let_def bc [unfolded Let_def] by simp
qed

lemma temperature_no_edges:
  assumes "ringBuffer c = replicate 256 e"
  shows "temperature c = PInf"
proof -
  have r: "ringBuffer c ! nat (i AND 255) = e" for i using mask_range [of i] by (simp add: assms)
  have z: "flt_int (sint (e - e)) = Fin 0" by (simp add: flt_int_def)
  have f: "foldl (\<lambda>yx i. yx + Fin 0 * flt_int i) (Fin 0) xs = Fin 0" for xs
    by (induction xs) (simp_all add: flt_ops flt_int_def flt_of_def)
  have s: "Fin (1 / 2) * (Fin 2 * (flt_int (127 + 1) - Fin (1 / 2)) * (Fin (1 / 2) * flt_int (127 + 1) * (flt_int (127 + 1) - Fin 1)) / Fin 3) / (Fin 1 / flt_int CLK_FREQ)
     = Fin 43180003164160"
    by code_simp
  have d: "(255 :: int) div 2 = 127" by simp
  have p: "Fin 43180003164160 / Fin 0 - Fin (f32 (27315 / 100)) = PInf" by (simp add: flt_ops flt_sub_def flt_inf_def)
  show ?thesis unfolding temperature_def timeScale_def Let_def d r z f s p ..
qed

lemma ring_filled:
  assumes "temperature c = v" "length (tempRing s) = 256" "tempPos s < 256"
  shows "length (tempRing ((runTemperature c ^^ n) s)) = 256 \<and> tempPos ((runTemperature c ^^ n) s) = (tempPos s + n) mod 256
    \<and> initCounter ((runTemperature c ^^ n) s) = initCounter s
    \<and> (\<forall>k. 1 \<le> k \<and> k \<le> n \<longrightarrow> tempRing ((runTemperature c ^^ n) s) ! ((tempPos s + k) mod 256) = v)"
proof (induction n)
  case (Suc n)
  have m: "(p + 1) AND 255 = (p + 1) mod 256" for p :: nat
    using take_bit_eq_mask [of 8 "p + 1"] by (simp add: mask_eq_exp_minus_1 take_bit_eq_mod)
  let ?s = "(runTemperature c ^^ n) s"
  have e: "(runTemperature c ^^ Suc n) s = ?s\<lparr>tempRing := (tempRing ?s)[(tempPos s + Suc n) mod 256 := v], tempPos := (tempPos s + Suc n) mod 256\<rparr>"
  proof -
    have "runTemperature c t = t\<lparr>tempRing := (tempRing t)[(tempPos t + 1) mod 256 := v], tempPos := (tempPos t + 1) mod 256\<rparr>" for t
      unfolding runTemperature_def Let_def assms(1) m ..
    then have "(runTemperature c ^^ Suc n) s = ?s\<lparr>tempRing := (tempRing ?s)[(tempPos ?s + 1) mod 256 := v], tempPos := (tempPos ?s + 1) mod 256\<rparr>"
      by (simp only: funpow.simps o_apply)
    moreover have "(tempPos ?s + 1) mod 256 = (tempPos s + Suc n) mod 256" using Suc by (simp add: mod_Suc_eq)
    ultimately show ?thesis by (simp only:)
  qed
  show ?case using Suc unfolding e by (auto simp: nth_list_update le_Suc_eq)
qed (use assms in simp)

section \<open>Properties\<close>

text \<open>
  C25: the map survives a restart: from every state that the module reaches, whatever the EEPROM held at
  first, the nodes that are read back after a save and a restart are the saved ones.
\<close>

theorem som_survives_restart:
  assumes "tcmp_reach expf s"
  shows "somNode (tcmp_init expf (tcmp_reset (eepromSom (saveSom s)))) = somNode s"
  using tcmp_reach_ok [OF assms] nodes_of_bits [of "somNode s"]
  by (simp add: tcmp_init_def loadSom_def tcmp_reset_def saveSom_def som_ok_def Let_def)

text \<open>
  C14: an update always leads to a finished regression: its task is waiting and starts from the first step, and
  at most ten of its runs do what the regression does as one function, end the task and reset the step counter.
\<close>

theorem regression_completes:
  assumes "tcmp_reach expf s"
  shows "let u = tcmp_update now target weight s
         in 0 < regressionTasks u
            \<and> (\<exists>n. n \<le> 10 \<and> (runRegression expf ^^ n) u = (regress expf u)\<lparr>regressionTasks := 0, regressionStep := 0\<rparr>)"
proof -
  have "regressionStep (tcmp_update now target weight s) = 0" "0 < regressionTasks (tcmp_update now target weight s)"
    using tcmp_reach_ok [OF assms] by (auto simp: tcmp_update_def Let_def reg_ok_def update_frame)
  then show ?thesis unfolding Let_def using run_all by blast
qed

text \<open>
  C26: the compensation in use is only ever replaced by a fit of good quality: a step that changes the coefficients
  leaves an error of the fit within the limit, and takes the means and the coefficients of that same fit.
\<close>

theorem tcmp_quality:
  assumes "tcmp_step expf s t" "tcmpCoeff t \<noteq> tcmpCoeff s"
  shows "tcmpRmse t \<le> REG_MIN_RMSE \<and> tcmpCoeff t = reg_coef t \<and> tcmpMean t = reg_mean t"
  using assms
proof (induction rule: tcmp_step.induct)
  case (Regression s)
  then have k: "regressionStep s < 9" by (auto simp: runRegression_def split: if_splits)
  obtain r t where t: "(steps expf ! regressionStep s) s = (r, t)" by fastforce
  have e: "tcmpCoeff (runRegression expf s) = tcmpCoeff t" "tcmpRmse (runRegression expf s) = tcmpRmse t"
    "reg_coef (runRegression expf s) = reg_coef t" "reg_mean (runRegression expf s) = reg_mean t" "tcmpMean (runRegression expf s) = tcmpMean t"
    using k by (simp_all add: runRegression_def t)
  show ?case unfolding e by (rule step_frame(4) [OF k t]) (use Regression e in simp)
qed (auto simp: runTemperature_def runCompensation_def tcmp_update_def Let_def update_frame split: if_splits prod.splits option.splits)

text \<open>
  a new sample trains the node whose temperature is nearest, the first of equals.
\<close>

theorem som_winner:
  assumes "flt_isfinite temp" "\<And>n. n \<in> set nodes \<Longrightarrow> flt_isfinite (fst n)" "nodes \<noteq> []"
  shows "nearest temp nodes < length nodes
    \<and> (\<forall>i < length nodes. flt_abs (temp - fst (nodes ! nearest temp nodes)) \<le> flt_abs (temp - fst (nodes ! i)))"
proof -
  have "flt_abs (temp - fst (nodes ! i)) \<noteq> NaN" if "i < length nodes" for i
  proof -
    have "flt_isfinite (fst (nodes ! i))" using assms(2) that by simp
    then show ?thesis using assms(1)
      by (cases temp; cases "fst (nodes ! i)") (simp_all add: flt_ops flt_sub_def flt_of_def Let_def)
  qed
  then obtain b where b: "b < length nodes"
      "foldl (\<lambda>(best, dist) i. if flt_less (flt_abs (temp - fst (nodes ! i))) dist then (i, flt_abs (temp - fst (nodes ! i))) else (best, dist))
         (0, flt_abs (temp - fst (nodes ! 0))) [1..<length nodes] = (b, flt_abs (temp - fst (nodes ! b)))"
      "\<forall>i < length nodes. flt_le (flt_abs (temp - fst (nodes ! b))) (flt_abs (temp - fst (nodes ! i)))"
    using nearest_loop [of "length nodes" "\<lambda>i. flt_abs (temp - fst (nodes ! i))"] assms(3) by blast
  then have "nearest temp nodes = b" unfolding nearest_def Let_def less_flt_def by simp
  then show ?thesis using b unfolding less_eq_flt_def by simp
qed

text \<open>
  C37: Without edges from the sensor (all entries of the capture ring are one and the same, as at power up) the
  thermometer reads infinity; once its ring is full, the estimate of the compensation is NaN, and the compensation
  converts it to an integer, which C++ leaves undefined: neither the reading nor the result is checked before.
\<close>

theorem compensation_without_sensor:
  assumes "ringBuffer c = replicate 256 e" "256 \<le> n" "68 \<le> initCounter s" "length (tempRing s) = 256" "tempPos s < 256"
  shows "temperature c = PInf
    \<and> (let t = (runTemperature c ^^ n) s
       in fst (temp_fit t) = NaN \<and> tcmpEstimate t (fst (temp_fit t)) = NaN \<and> runCompensation raw (t, d) = None)"
proof -
  let ?s = "(runTemperature c ^^ n) s"
  note f = ring_filled [OF temperature_no_edges [OF assms(1)] assms(4,5), of n]
  have "ring_temp ?s i = PInf" for i
  proof -
    define j where "j = nat ((int (tempPos ?s) - int i) AND 255)"
    have j: "j < 256" unfolding j_def by (rule mask_range)
    define k where "k = (if tempPos s < j then j - tempPos s else j + 256 - tempPos s)"
    have "(tempPos s + k) mod 256 = j" using j assms(5) by (auto simp: k_def)
    moreover have "1 \<le> k" "k \<le> n" using assms(2,5) j by (auto simp: k_def)
    ultimately have "tempRing ?s ! j = PInf" using f by blast
    then show ?thesis by (simp add: ring_temp_def j_def)
  qed
  then have n: "fst (temp_fit ?s) = NaN" by (rule temp_fit_inf)
  then have e: "tcmpEstimate ?s (fst (temp_fit ?s)) = NaN" by (simp add: tcmpEstimate_def Let_def case_prod_unfold)
  then have "runCompensation raw (?s, d) = None"
    using f assms(3) by (simp add: runCompensation_def case_prod_unfold flt_to_i32_def)
  then show ?thesis using n e temperature_no_edges [OF assms(1)] by (simp add: Let_def)
qed


definition sample_tcmp :: tcmp where
  "sample_tcmp = tcmp_init (\<lambda>_. Fin 1) (tcmp_reset (replicate 48 0))"

lemma sample_reach: "tcmp_reach (\<lambda>_. Fin 1) (tcmp_update 4000 (Fin 1) (Fin 1) sample_tcmp)"
  unfolding sample_tcmp_def
  by (rule tcmp_reach.Step [OF tcmp_reach.Start [where ee = "replicate 48 0"] tcmp_step.Update]) (simp_all add: float_valid_def)

theorem som_survives_restart_witness:
  "somNode (tcmp_init (\<lambda>_. Fin 1) (tcmp_reset (eepromSom (saveSom (tcmp_update 4000 (Fin 1) (Fin 1) sample_tcmp)))))
   = somNode (tcmp_update 4000 (Fin 1) (Fin 1) sample_tcmp)"
  by (rule som_survives_restart [OF sample_reach])

theorem regression_completes_witness:
  "let u = tcmp_update 5000 (Fin 0) (Fin 1) (tcmp_update 4000 (Fin 1) (Fin 1) sample_tcmp)
   in 0 < regressionTasks u
      \<and> (\<exists>n. n \<le> 10 \<and> (runRegression (\<lambda>_. Fin 1) ^^ n) u = (regress (\<lambda>_. Fin 1) u)\<lparr>regressionTasks := 0, regressionStep := 0\<rparr>)"
  by (rule regression_completes [OF sample_reach])

definition sample_fit :: tcmp where
  "sample_fit = (tcmp_reset [])\<lparr>regressionStep := 8, regressionTasks := 1, reg_coef := (Fin 1, Fin 2, Fin 3)\<rparr>"

theorem tcmp_quality_witness:
  "tcmpCoeff (runRegression (\<lambda>_. Fin 1) sample_fit) = (Fin 1, Fin 2, Fin 3)
   \<and> tcmpRmse (runRegression (\<lambda>_. Fin 1) sample_fit) \<le> REG_MIN_RMSE"
proof -
  have s: "tcmp_step (\<lambda>_. Fin 1) sample_fit (runRegression (\<lambda>_. Fin 1) sample_fit)"
    by (rule tcmp_step.Regression) (simp add: sample_fit_def)
  have c: "tcmpCoeff (runRegression (\<lambda>_. Fin 1) sample_fit) = (Fin 1, Fin 2, Fin 3)" by code_simp
  then have "tcmpCoeff (runRegression (\<lambda>_. Fin 1) sample_fit) \<noteq> tcmpCoeff sample_fit" by (simp add: sample_fit_def tcmp_reset_def Let_def)
  from tcmp_quality [OF s this] c show ?thesis by simp
qed

theorem som_winner_witness: "nearest (Fin 21) [(Fin 20, Fin 0, Fin 1), (Fin 22, Fin 0, Fin 1), (Fin 30, Fin 0, Fin 1)] = 0
   \<and> flt_abs (Fin 21 - Fin 20) \<le> flt_abs (Fin 21 - Fin 22)"
proof -
  let ?ns = "[(Fin 20, Fin 0, Fin 1), (Fin 22, Fin 0, Fin 1), (Fin 30, Fin 0, Fin 1)]"
  have n: "nearest (Fin 21) ?ns = 0" by code_simp
  have "\<forall>i < length ?ns. flt_abs (Fin 21 - fst (?ns ! nearest (Fin 21) ?ns)) \<le> flt_abs (Fin 21 - fst (?ns ! i))"
    by (rule conjunct2 [OF som_winner]) auto
  then have "flt_abs (Fin 21 - fst (?ns ! 0)) \<le> flt_abs (Fin 21 - fst (?ns ! 1))" unfolding n by (elim allE [of _ 1] impE) simp_all
  with n show ?thesis by simp
qed

definition sensorless :: cap_clk where
  "sensorless = tai_clk.extend tai_reset (cap_clk.fields 0 (replicate 256 0) 0 0 (0, 0, 0))"

theorem compensation_without_sensor_witness:
  "temperature sensorless = PInf
    \<and> (let t = (runTemperature sensorless ^^ 256) ((tcmp_reset [])\<lparr>initCounter := 68\<rparr>)
       in fst (temp_fit t) = NaN \<and> tcmpEstimate t (fst (temp_fit t)) = NaN \<and> runCompensation 0 (t, comp_reset) = None)"
  by (rule compensation_without_sensor [where e = 0]) (simp_all add: sensorless_def cap_clk.defs tai_clk.defs tai_reset_def tcmp_reset_def Let_def)

end
