(* ===== verification/Pll.thy ===== *)
theory Pll
  imports NtpExchange Tcmp
begin

text \<open>
  The phase-locked loop (lib/ntp/pll.cpp), in single precision, and its composition with the time server,
  the TAI clock and the temperature compensation: the server hands it the offset of every new sample of the
  selected source. \<open>None\<close> is a conversion of a float out of the range of the integer, or a shift out of
  the width of the word.
\<close>

unbundle bit_operations_syntax

section \<open>State\<close>

record pll =
  offsetLast :: flt
  offsetMean :: flt
  offsetVar :: flt
  offsetMS :: flt
  offsetStdDev :: flt
  offsetRms :: flt
  driftLast :: flt
  driftMean :: flt
  driftVar :: flt
  driftMS :: flt
  driftStdDev :: flt
  driftRms :: flt
  driftFreq :: flt
  offsetProportion :: flt
  offsetIntegral :: flt

definition pll_reset :: pll where
  "pll_reset = \<lparr>offsetLast = Fin 0, offsetMean = Fin 0, offsetVar = Fin 0, offsetMS = Fin 0, offsetStdDev = Fin 0,
     offsetRms = Fin 0, driftLast = Fin 0, driftMean = Fin 0, driftVar = Fin 0, driftMS = Fin 0, driftStdDev = Fin 0,
     driftRms = Fin 0, driftFreq = Fin 0, offsetProportion = Fin 0, offsetIntegral = Fin 0\<rparr>"

text \<open>The loop, the compensation, the clocks and the time server.\<close>

record 'cb timing =
  t_pll :: pll
  t_tcmp :: tcmp
  t_clk :: tai_clk
  t_ntp :: "'cb ntpst"

definition PLL_STATS_ALPHA :: flt where "PLL_STATS_ALPHA = Fin (1 / 2 ^ 4)"
definition PLL_MAX_FREQ_TRIM :: flt where "PLL_MAX_FREQ_TRIM = Fin (f32 (250 / 10 ^ 6))"
abbreviation (input) PLL_OFFSET_HARD_ALIGN :: i64 where "PLL_OFFSET_HARD_ALIGN \<equiv> 0x01000000"
definition PLL_OFFSET_CORR_BASIS :: flt where "PLL_OFFSET_CORR_BASIS = Fin (f32 (1 / 10 ^ 6))"
definition PLL_OFFSET_CORR_MAX :: flt where "PLL_OFFSET_CORR_MAX = Fin (1 / 2 ^ 1)"
definition PLL_OFFSET_CORR_MIN :: flt where "PLL_OFFSET_CORR_MIN = Fin (1 / 2 ^ 3)"
definition PLL_OFFSET_INT_RATE :: flt where "PLL_OFFSET_INT_RATE = Fin (1 / 2 ^ 5)"

section \<open>Offset\<close>

definition ntpSetTaiClock :: "i64 \<Rightarrow> 'cb timing \<Rightarrow> 'cb timing" where
  "ntpSetTaiClock offset t = t\<lparr>t_clk := tai_adjust offset (t_clk t), t_ntp := ntpApplyOffset offset (t_ntp t)\<rparr>"

definition offset_stats :: "flt \<Rightarrow> pll \<Rightarrow> pll" where
  "offset_stats fltOffset p =
     (if offsetMS p = Fin 0 then
        p\<lparr>offsetMean := fltOffset, offsetVar := fltOffset * fltOffset, offsetMS := fltOffset * fltOffset,
          offsetRms := flt_abs fltOffset, offsetStdDev := flt_abs fltOffset\<rparr>
      else
        let diff = fltOffset - offsetMean p;
            var = offsetVar p + (diff * diff - offsetVar p) * PLL_STATS_ALPHA;
            ms = offsetMS p + (fltOffset * fltOffset - offsetMS p) * PLL_STATS_ALPHA
        in p\<lparr>offsetVar := var, offsetMS := ms, offsetMean := offsetMean p + diff * PLL_STATS_ALPHA,
             offsetStdDev := flt_sqrt var, offsetRms := flt_sqrt ms\<rparr>)"

text \<open>The proportional rate; \<open>n\<close> is the value of the shift that scales it to the polling interval.\<close>

definition offset_rate :: "int \<Rightarrow> pll \<Rightarrow> flt" where
  "offset_rate n p =
     (let rate = offsetRms p / PLL_OFFSET_CORR_BASIS;
          rate = (if PLL_OFFSET_CORR_MAX < rate then PLL_OFFSET_CORR_MAX else rate);
          rate = (if rate < PLL_OFFSET_CORR_MIN then PLL_OFFSET_CORR_MIN else rate)
      in rate * (Fin (1 / 2 ^ 16) * flt_int n))"

definition limit_trim :: "flt \<Rightarrow> flt" where
  "limit_trim v =
     (let v = (if PLL_MAX_FREQ_TRIM < v then PLL_MAX_FREQ_TRIM else v)
      in if v < flt_neg PLL_MAX_FREQ_TRIM then flt_neg PLL_MAX_FREQ_TRIM else v)"

definition offset_control :: "flt \<Rightarrow> int \<Rightarrow> pll \<Rightarrow> flt \<times> pll" where
  "offset_control fltOffset n p =
     (let p = p\<lparr>offsetProportion := fltOffset * offset_rate n p\<rparr>;
          p = p\<lparr>offsetIntegral := limit_trim (offsetIntegral p + offsetProportion p * PLL_OFFSET_INT_RATE)\<rparr>
      in (limit_trim (offsetProportion p + offsetIntegral p), p))"

definition PLL_updateOffset :: "i32 \<Rightarrow> i64 \<Rightarrow> u32 \<Rightarrow> 'cb timing \<Rightarrow> 'cb timing option" where
  "PLL_updateOffset interval offset raw t =
     (if PLL_OFFSET_HARD_ALIGN <s offset \<or> offset <s - PLL_OFFSET_HARD_ALIGN then
        let t = ntpSetTaiClock offset t in Some (t\<lparr>t_pll := (t_pll t)\<lparr>offsetMS := Fin 0\<rparr>\<rparr>)
      else
        let fltOffset = Fin (1 / 2 ^ 32) * flt_int (sint (ucast offset :: i32));
            p = offset_stats fltOffset ((t_pll t)\<lparr>offsetLast := fltOffset\<rparr>);
            k = 16 - sint interval
        in if k < 0 \<or> 32 \<le> k then None
           else let (trim, p) = offset_control fltOffset (uint (push_bit (nat k) 1 :: u32)) p
                in case flt_to_i32 (Fin (2 ^ 32) * trim) of
                     None \<Rightarrow> None
                   | Some w \<Rightarrow> Some (t\<lparr>t_pll := p, t_clk := tai_setTrim w raw (t_clk t)\<rparr>))"

section \<open>Drift\<close>

definition trim_ratio :: "i32 \<Rightarrow> flt" where "trim_ratio w = Fin (1 / 2 ^ 32) * flt_int (sint w)"

definition PLL_offsetCorr :: "'cb timing \<Rightarrow> flt" where "PLL_offsetCorr t = trim_ratio (tai_getTrim (t_clk t))"
definition PLL_driftCorr :: "'cb timing \<Rightarrow> flt" where "PLL_driftCorr t = trim_ratio (comp_getTrim (t_clk t))"

definition drift_stats :: "flt \<Rightarrow> pll \<Rightarrow> pll" where
  "drift_stats drift p =
     (let diff = drift - driftMean p;
          var = driftVar p + (diff * diff - driftVar p) * PLL_STATS_ALPHA;
          ms = driftMS p + (drift * drift - driftMS p) * PLL_STATS_ALPHA
      in p\<lparr>driftLast := drift, driftVar := var, driftMS := ms, driftMean := driftMean p + diff * PLL_STATS_ALPHA,
           driftStdDev := flt_sqrt var, driftRms := flt_sqrt ms\<rparr>)"

definition drift_weight :: "flt \<Rightarrow> flt \<Rightarrow> flt" where
  "drift_weight dev diff =
     Fin (f32 (100 / 10 ^ 9)) / (Fin (f32 (100 / 10 ^ 9)) + dev + flt_abs diff)"

definition PLL_updateDrift :: "i32 \<Rightarrow> flt \<Rightarrow> 'cb timing \<Rightarrow> 'cb timing" where
  "PLL_updateDrift interval drift t =
     (let diff = drift - driftMean (t_pll t);
          p = drift_stats drift (t_pll t);
          p = p\<lparr>driftFreq := drift + trim_ratio (comp_getTrim (t_clk t))\<rparr>
      in t\<lparr>t_pll := p,
           t_tcmp := tcmp_update (mono_seconds (t_clk t)) (driftFreq p) (drift_weight (driftStdDev p) diff) (t_tcmp t)\<rparr>)"

definition PLL_init :: "(flt \<Rightarrow> flt) \<Rightarrow> 'cb timing \<Rightarrow> 'cb timing" where
  "PLL_init expf t = t\<lparr>t_tcmp := tcmp_init expf (t_tcmp t)\<rparr>"

section \<open>The loop as the server calls it\<close>

definition loop_call :: "u32 \<Rightarrow> 16 word \<times> i64 \<Rightarrow> 'cb timing \<Rightarrow> 'cb timing option" where
  "loop_call raw = (\<lambda>(interval, offset) t.
     map_option (\<lambda>t. PLL_updateDrift (scast interval) (PLL_offsetCorr t) t) (PLL_updateOffset (scast interval) offset raw t))"

text \<open>\<open>runSelect\<close> ends with the calls of the loop, which are those that it adds to the record.\<close>

definition runSelect_loop :: "u32 \<Rightarrow> 'cb timing \<Rightarrow> 'cb timing option" where
  "runSelect_loop raw t =
     (case runSelect (t_ntp t) of
        None \<Rightarrow> None
      | Some s \<Rightarrow> (case drop (length (pllCalls (t_ntp t))) (pllCalls s) of
            [] \<Rightarrow> Some (t\<lparr>t_ntp := s\<rparr>)
          | c # _ \<Rightarrow> loop_call raw c (t\<lparr>t_ntp := s\<rparr>)))"

section \<open>Bounds\<close>

text \<open>The largest trim, and the limits of the statistics: every offset that reaches them is below \<open>2 ^ - 8\<close> seconds.\<close>

definition TRIM :: rat where "TRIM = f32 (250 / 10 ^ 6)"

lemma TRIM_facts: "is_f32 TRIM" "0 < TRIM" "TRIM \<le> 1 / 2 ^ 11" "is_f32 (2 ^ 32 * TRIM)" "\<lfloor>2 ^ 32 * TRIM\<rfloor> = 1073741" "2 ^ 32 * TRIM < 2 ^ 31"
proof -
  have t: "TRIM = 8589935 / 34359738368" unfolding TRIM_def by code_simp
  show "is_f32 TRIM" unfolding TRIM_def by simp
  show "is_f32 (2 ^ 32 * TRIM)" unfolding t is_f32_def by code_simp
  show "\<lfloor>2 ^ 32 * TRIM\<rfloor> = 1073741" unfolding t by code_simp
  show "0 < TRIM" "TRIM \<le> 1 / 2 ^ 11" "2 ^ 32 * TRIM < 2 ^ 31" unfolding t by simp_all
qed

lemma max_trim: "PLL_MAX_FREQ_TRIM = Fin TRIM" unfolding PLL_MAX_FREQ_TRIM_def TRIM_def ..

definition pll_ok :: "pll \<Rightarrow> bool" where
  "pll_ok p \<longleftrightarrow> flt_within (1 / 2 ^ 7) (offsetMean p) \<and> flt_within (1 / 2 ^ 11) (offsetVar p) \<and> Fin 0 \<le> offsetVar p
     \<and> flt_within (1 / 2 ^ 15) (offsetMS p) \<and> Fin 0 \<le> offsetMS p \<and> flt_within TRIM (offsetIntegral p)"

lemma offset_value:
  assumes "\<not> (0x01000000 <s offset \<or> offset <s - 0x01000000)"
  shows "flt_within (1 / 2 ^ 8) (Fin (1 / 2 ^ 32) * flt_int (sint (ucast (offset :: i64) :: i32)))"
proof -
  have b: "- 16777216 \<le> sint offset" "sint offset \<le> 16777216"
    using assms by (simp_all add: word_sless_alt not_less sint_of_int_64)
  have "ucast offset = (word_of_int (sint offset) :: u32)"
    using low_half_of_int [of "sint offset"] unfolding word_of_int_sint_self .
  then have s: "sint (ucast offset :: i32) = sint offset" using b by (simp only:) (rule sint_of_int_32; simp)
  have "\<bar>of_int (sint offset) :: rat\<bar> \<le> of_int (2 ^ 24)" using b unfolding of_int_abs [symmetric] of_int_le_iff by simp
  then have "flt_within (2 ^ 24) (flt_int (sint offset))" 
    unfolding flt_int_def using f32_abs_le [of "2 ^ 24"] is_f32_pow(1) [of 24] by (simp del: of_int_abs)
  then have "flt_within (1 / 2 ^ 32 * 2 ^ 24) (Fin (1 / 2 ^ 32) * flt_int (sint offset))"
    using is_f32_pow(2) [of 8] is_f32_pow(2) [of 32] by (intro within_mul) simp_all
  then show ?thesis unfolding s by simp
qed

lemma slew_is: "a + (v - a) * PLL_STATS_ALPHA = slew a v" by (simp add: slew_def PLL_STATS_ALPHA_def)

lemma offset_stats_ok:
  assumes "flt_within (1 / 2 ^ 8) x" "pll_ok p"
  shows "pll_ok (offset_stats x p)" "\<exists>r. offsetRms (offset_stats x p) = Fin r \<and> 0 \<le> r"
proof -
  have sq: "flt_within (1 / 2 ^ 16) (x * x)" using within_mul [OF assms(1,1)] is_f32_pow(2) [of 16] by simp
  have sq0: "Fin 0 \<le> x * x" using assms(1) sq by (rule square_nonneg)
  have d: "flt_within (1 / 2 ^ 6) (x - offsetMean p)"
    by (rule within_sub [of "1 / 2 ^ 8" _ "1 / 2 ^ 7"]) (use assms is_f32_pow(2) [of 6] in \<open>simp_all add: pll_ok_def\<close>)
  have dd: "flt_within (1 / 2 ^ 12) ((x - offsetMean p) * (x - offsetMean p))" using within_mul [OF d d] is_f32_pow(2) [of 12] by simp
  have dd0: "Fin 0 \<le> (x - offsetMean p) * (x - offsetMean p)" using d dd by (rule square_nonneg)
  note f = is_f32_pow(2) [of 8] is_f32_pow(2) [of 7] is_f32_pow(2) [of 6] is_f32_pow(2) [of 16] is_f32_pow(2) [of 15] is_f32_pow(2) [of 14]
    is_f32_pow(2) [of 12] is_f32_pow(2) [of 11] is_f32_pow(2) [of 10]
  have m: "flt_within (1 / 2 ^ 7) (slew (offsetMean p) x)"
    using slew_within [of "1 / 2 ^ 8" "offsetMean p" x] assms f by (simp add: pll_ok_def)
  have v: "flt_within (1 / 2 ^ 11) (slew (offsetVar p) ((x - offsetMean p) * (x - offsetMean p)))"
    "Fin 0 \<le> slew (offsetVar p) ((x - offsetMean p) * (x - offsetMean p))"
    using slew_within [of "1 / 2 ^ 12" "offsetVar p"] slew_nonneg [of "1 / 2 ^ 12" "offsetVar p"] assms f dd dd0 by (simp_all add: pll_ok_def)
  have s: "flt_within (1 / 2 ^ 15) (slew (offsetMS p) (x * x))" "Fin 0 \<le> slew (offsetMS p) (x * x)"
    using slew_within [of "1 / 2 ^ 16" "offsetMS p"] slew_nonneg [of "1 / 2 ^ 16" "offsetMS p"] assms f sq sq0 by (simp_all add: pll_ok_def)
  have w: "flt_within (1 / 2 ^ 7) x" "flt_within (1 / 2 ^ 11) (x * x)" "flt_within (1 / 2 ^ 15) (x * x)"
    using flt_within_weaken [OF assms(1)] flt_within_weaken [OF sq] by simp_all
  show "pll_ok (offset_stats x p)"
    using m v s w sq0 assms(2) by (simp add: offset_stats_def pll_ok_def Let_def slew_is)
  show "\<exists>r. offsetRms (offset_stats x p) = Fin r \<and> 0 \<le> r"
  proof (cases "offsetMS p = Fin 0")
    case True
    from assms(1) obtain y where "x = Fin y" by (rule flt_withinE)
    then show ?thesis using True by (simp add: offset_stats_def)
  next
    case False
    then show ?thesis using flt_sqrt_nonneg [OF s] by (simp add: offset_stats_def Let_def slew_is)
  qed
qed

lemma offset_rate_within:
  assumes "offsetRms p = Fin r" "0 \<le> r" "n = 2 ^ j" "j \<le> 16"
  shows "flt_within (1 / 2) (offset_rate n p)"
proof -
  define b where "b = f32 (1 / 10 ^ 6)"
  have b: "0 < b" unfolding b_def by code_simp
  note f = is_f32_pow(2) [of 1] is_f32_pow(2) [of 3] is_f32_pow(2) [of 16] is_f32_pow(1) [of 16] is_f32_pow(1) [of j]
  define q where "q = offsetRms p / PLL_OFFSET_CORR_BASIS"
  have B: "PLL_OFFSET_CORR_BASIS = Fin b" unfolding PLL_OFFSET_CORR_BASIS_def b_def ..
  have q: "q = PInf \<or> (\<exists>y. q = Fin y \<and> is_f32 y \<and> 0 \<le> y)"
    using f32_nonneg [of "r / b"] assms(2) b
    by (auto simp: q_def assms(1) B flt_ops flt_of_def Let_def)
  define q1 where "q1 = (if PLL_OFFSET_CORR_MAX < q then PLL_OFFSET_CORR_MAX else q)"
  define q2 where "q2 = (if q1 < PLL_OFFSET_CORR_MIN then PLL_OFFSET_CORR_MIN else q1)"
  have "flt_within (1 / 2) q2" using q f
    by (auto simp: q2_def q1_def PLL_OFFSET_CORR_MAX_def PLL_OFFSET_CORR_MIN_def flt_ops)
  moreover have "flt_within 1 (Fin (1 / 2 ^ 16) * flt_int n)"
  proof -
    have "(2 :: rat) ^ j \<le> 2 ^ 16" using assms(4) by (intro power_increasing) simp_all
    then have "flt_within (2 ^ 16) (flt_int n)" using f assms(3) by (simp add: flt_int_def is_f32_def)
    then show ?thesis using within_mul [of "1 / 2 ^ 16" "Fin (1 / 2 ^ 16)" "2 ^ 16"] f by simp
  qed
  ultimately have "flt_within (1 / 2 * 1) (q2 * (Fin (1 / 2 ^ 16) * flt_int n))" using f by (intro within_mul) simp_all
  then show ?thesis unfolding offset_rate_def Let_def q_def [symmetric] q1_def [symmetric] q2_def [symmetric] by simp
qed

lemma limit_trim_within: "flt_within b v \<Longrightarrow> flt_within TRIM (limit_trim v)"
  using TRIM_facts(1,2) by (elim flt_withinE) (auto simp: limit_trim_def Let_def max_trim flt_ops abs_le_iff)

lemma offset_control_ok:
  assumes "flt_within (1 / 2 ^ 8) x" "pll_ok p" "offsetRms p = Fin r" "0 \<le> r" "n = 2 ^ j" "j \<le> 16" "offset_control x n p = (trim, q)"
  shows "pll_ok q" "\<exists>w. flt_to_i32 (Fin (2 ^ 32) * trim) = Some w \<and> \<bar>sint w\<bar> \<le> 1073741"
proof -
  let ?P = "x * offset_rate n p" and ?I = "limit_trim (offsetIntegral p + x * offset_rate n p * PLL_OFFSET_INT_RATE)"
  note f = is_f32_pow(2) [of 8] is_f32_pow(2) [of 9] is_f32_pow(2) [of 10] is_f32_pow(2) [of 14] is_f32_pow(2) [of 5] TRIM_facts
  have P: "flt_within (1 / 2 ^ 9) ?P" using within_mul [OF assms(1) offset_rate_within [OF assms(3-6)]] f by simp
  have "flt_within (1 / 2 ^ 14) (?P * PLL_OFFSET_INT_RATE)"
    using within_mul [OF P, of "1 / 2 ^ 5" PLL_OFFSET_INT_RATE] f by (simp add: PLL_OFFSET_INT_RATE_def)
  then have "flt_within (1 / 2 ^ 10) (offsetIntegral p + ?P * PLL_OFFSET_INT_RATE)"
    by (rule within_add [of TRIM, rotated]) (use assms(2) f in \<open>simp_all add: pll_ok_def\<close>)
  then have I: "flt_within TRIM ?I" by (rule limit_trim_within)
  have t: "trim = limit_trim (?P + ?I)" and q: "q = p\<lparr>offsetProportion := ?P, offsetIntegral := ?I\<rparr>"
    using assms(7) by (simp_all add: offset_control_def Let_def)
  show "pll_ok q" using assms(2) I by (simp add: q pll_ok_def)
  have "flt_within (1 / 2 ^ 8) (?P + ?I)" by (rule within_add [OF P I]) (use f in simp_all)
  then have "flt_within TRIM trim" unfolding t by (rule limit_trim_within)
  then have "flt_within (2 ^ 32 * TRIM) (Fin (2 ^ 32) * trim)" using f is_f32_pow(1) [of 32] by (intro within_mul) simp_all
  from flt_to_i32_within [OF this TRIM_facts(6)] show "\<exists>w. flt_to_i32 (Fin (2 ^ 32) * trim) = Some w \<and> \<bar>sint w\<bar> \<le> 1073741"
    unfolding TRIM_facts(5) .
qed

lemma shift_value: "0 \<le> k \<Longrightarrow> k \<le> 16 \<Longrightarrow> uint (push_bit (nat k) 1 :: u32) = 2 ^ nat k"
proof -
  assume k: "0 \<le> k" "k \<le> 16"
  have "(2 :: int) ^ nat k \<le> 2 ^ 16" using k by (intro power_increasing) simp_all
  moreover have "(push_bit (nat k) 1 :: u32) = word_of_int (2 ^ nat k)" by (simp add: push_bit_eq_mult)
  ultimately show ?thesis by (simp only: uint_of_int_32) simp
qed

lemma updateOffset_ok:
  assumes "pll_ok (t_pll t)" "\<bar>sint (clkTaiRate (t_clk t))\<bar> \<le> 1073741" "0 \<le> sint interval" "sint interval \<le> 16"
  shows "\<exists>u. PLL_updateOffset interval offset raw t = Some u \<and> pll_ok (t_pll u) \<and> \<bar>sint (clkTaiRate (t_clk u))\<bar> \<le> 1073741"
proof (cases "0x01000000 <s offset \<or> offset <s - 0x01000000")
  case True
  then have "PLL_updateOffset interval offset raw t = Some ((ntpSetTaiClock offset t)\<lparr>t_pll := (t_pll t)\<lparr>offsetMS := Fin 0\<rparr>\<rparr>)"
    by (simp only: PLL_updateOffset_def if_True Let_def) (simp add: ntpSetTaiClock_def)
  then show ?thesis using assms by (simp add: ntpSetTaiClock_def tai_adjust_def pll_ok_def) (simp add: flt_ops)
next
  case False
  define x where "x = Fin (1 / 2 ^ 32) * flt_int (sint (ucast offset :: i32))"
  define p where "p = offset_stats x ((t_pll t)\<lparr>offsetLast := x\<rparr>)"
  define n where "n = uint (push_bit (nat (16 - sint interval)) 1 :: u32)"
  have x: "flt_within (1 / 2 ^ 8) x" unfolding x_def by (rule offset_value [OF False])
  have "pll_ok ((t_pll t)\<lparr>offsetLast := x\<rparr>)" using assms(1) by (simp add: pll_ok_def)
  from offset_stats_ok [OF x this] obtain r where p: "pll_ok p" "offsetRms p = Fin r" "0 \<le> r" unfolding p_def by blast
  have n: "n = 2 ^ nat (16 - sint interval)" "nat (16 - sint interval) \<le> 16" 
    unfolding n_def using shift_value [of "16 - sint interval"] assms(3,4) by (simp_all del: push_bit_of_1)
  obtain trim q where c: "offset_control x n p = (trim, q)" by fastforce
  from offset_control_ok [OF x p n c] obtain w where w: "pll_ok q" "flt_to_i32 (Fin (2 ^ 32) * trim) = Some w" "\<bar>sint w\<bar> \<le> 1073741" by blast
  have k: "\<not> (16 - sint interval < 0 \<or> 32 \<le> 16 - sint interval)" using assms(3,4) by simp
  have "PLL_updateOffset interval offset raw t = Some (t\<lparr>t_pll := q, t_clk := tai_setTrim w raw (t_clk t)\<rparr>)"
    using False k unfolding PLL_updateOffset_def Let_def x_def [symmetric] p_def [symmetric] n_def [symmetric]
    by (simp only: if_False c prod.case w(2) option.case)
  then show ?thesis using w by (simp add: tai_setTrim_def Let_def split_beta)
qed

section \<open>The calls of the server\<close>

lemma pllCalls_frame:
  "pllCalls (select_at r s) = pllCalls s" "pllCalls (snd (isSelectable_at r s)) = pllCalls s"
  "sources (select_at r s) = sources s" "sources (snd (isSelectable_at r s)) = sources s"
  "selectedSource (snd (isSelectable_at r s)) = selectedSource s"
  by (cases r; simp add: select_at_def isSelectable_at_def upd_peer_def split_beta)+

lemma select_step_frame: "pllCalls (select_step r s) = pllCalls s" "sources (select_step r s) = sources s"
  "selectedSource (select_step r s) \<in> {selectedSource s, Some r}"
  by (auto simp: select_step_def Let_def split_beta pllCalls_frame split: option.split)

lemma fold_select_frame: "pllCalls (fold select_step rs s) = pllCalls s \<and> sources (fold select_step rs s) = sources s
    \<and> (selectedSource (fold select_step rs s) = selectedSource s \<or> selectedSource (fold select_step rs s) \<in> Some ` set rs)"
proof (induction rs arbitrary: s)
  case (Cons r rs)
  show ?case using Cons.IH [of "select_step r s"] select_step_frame [of r s] by auto
qed simp

lemma select_best_frame: "pllCalls (select_best s) = pllCalls s" "sources (select_best s) = sources s"
  "selectedSource (select_best s) = Some r \<Longrightarrow> r \<in> set (sources s)"
  using fold_select_frame [of "sources s" "s\<lparr>selectedSource := None\<rparr>"] by (auto simp: select_best_def)

lemma prune_calls: "pllCalls (prune_sources s) = pllCalls s"
  by (auto simp: prune_sources_def deletePeer_def destroy_def upd_peer_def Let_def split: option.split src_ref.split)

lemma source_poll:
  assumes "sources_safe s" "r \<in> set (sources s)"
  shows "0 \<le> sint (poll (source_of r s))" "sint (poll (source_of r s)) \<le> 6"
proof -
  note d = sources_safeD [OF assms(1)]
  consider "r = SrcGps" | i where "r = SrcPeer i" "i \<in> set (slots_of (sources s))"
    using assms(2) by (subst (asm) d(2)) auto
  then have "0 \<le> sint (poll (source_of r s)) \<and> sint (poll (source_of r s)) \<le> 6"
  proof cases
    case 1
    then show ?thesis using d(5) by (simp add: source_of_def source.defs)
  next
    case 2
    then show ?thesis using d(7) [of i] by (auto simp: source_of_def poll_ok_def source.defs)
  qed
  then show "0 \<le> sint (poll (source_of r s))" "sint (poll (source_of r s)) \<le> 6" by simp_all
qed

lemma runSelect_calls:
  assumes "sources_safe s" "runSelect s = Some t"
  shows "pllCalls t = pllCalls s \<or> (\<exists>p x. pllCalls t = pllCalls s @ [(p, x)] \<and> 0 \<le> sint p \<and> sint p \<le> 6)"
proof -
  let ?u = "select_best (prune_sources s)"
  have u: "sources_safe ?u" by (rule keeps_safe [OF select_best_keeps prune_safe [OF assms(1)]])
  have c: "pllCalls ?u = pllCalls s" by (simp add: select_best_frame prune_calls)
  show ?thesis
  proof (cases "selectedSource ?u")
    case None
    with assms(2) c show ?thesis by (auto simp: runSelect_def)
  next
    case (Some r)
    have "r \<in> set (sources ?u)" using select_best_frame [of "prune_sources s"] Some by simp
    then have r: "r \<in> set (sources (select_at r ?u))" by (simp add: pllCalls_frame)
    have "sources_safe (select_at r ?u)" by (rule keeps_safe [OF select_keeps(2) u])
    from source_poll [OF this r] assms(2) Some c show ?thesis
      by (auto simp: runSelect_def Let_def pllCalls_frame split: if_splits option.splits)
  qed
qed

section \<open>Drift\<close>

definition drift_ok :: "pll \<Rightarrow> bool" where
  "drift_ok p \<longleftrightarrow> flt_within (1 / 2 ^ 10) (driftMean p) \<and> flt_within (1 / 2 ^ 17) (driftVar p) \<and> Fin 0 \<le> driftVar p"

lemma trim_ratio_within:
  assumes "\<bar>sint w\<bar> \<le> 1073741"
  shows "flt_within (1 / 2 ^ 11) (trim_ratio w)"
proof -
  have "\<bar>of_int (sint w) :: rat\<bar> \<le> of_int (2 ^ 21)" using assms unfolding of_int_abs [symmetric] of_int_le_iff by simp
  then have "flt_within (2 ^ 21) (flt_int (sint w))"
    unfolding flt_int_def using f32_abs_le [of "2 ^ 21"] is_f32_pow(1) [of 21] by (simp del: of_int_abs)
  then have "flt_within (1 / 2 ^ 32 * 2 ^ 21) (Fin (1 / 2 ^ 32) * flt_int (sint w))"
    using is_f32_pow(2) [of 11] is_f32_pow(2) [of 32] by (intro within_mul) simp_all
  then show ?thesis by (simp add: trim_ratio_def)
qed

lemma drift_stats_ok:
  assumes "flt_within (1 / 2 ^ 11) x" "drift_ok p"
  shows "drift_ok (drift_stats x p)" "flt_within (1 / 2 ^ 9) (x - driftMean p)"
proof -
  note f = is_f32_pow(2) [of 11] is_f32_pow(2) [of 10] is_f32_pow(2) [of 9] is_f32_pow(2) [of 18] is_f32_pow(2) [of 17] is_f32_pow(2) [of 16]
  show d: "flt_within (1 / 2 ^ 9) (x - driftMean p)"
    by (rule within_sub [of "1 / 2 ^ 11" _ "1 / 2 ^ 10"]) (use assms f in \<open>simp_all add: drift_ok_def\<close>)
  have dd: "flt_within (1 / 2 ^ 18) ((x - driftMean p) * (x - driftMean p))" using within_mul [OF d d] f by simp
  have dd0: "Fin 0 \<le> (x - driftMean p) * (x - driftMean p)" using d dd by (rule square_nonneg)
  have "flt_within (1 / 2 ^ 10) (slew (driftMean p) x)"
    using slew_within [of "1 / 2 ^ 11" "driftMean p" x] assms f by (simp add: drift_ok_def)
  moreover have "flt_within (1 / 2 ^ 17) (slew (driftVar p) ((x - driftMean p) * (x - driftMean p)))"
    "Fin 0 \<le> slew (driftVar p) ((x - driftMean p) * (x - driftMean p))"
    using slew_within [of "1 / 2 ^ 18" "driftVar p"] slew_nonneg [of "1 / 2 ^ 18" "driftVar p"] assms f dd dd0 by (simp_all add: drift_ok_def)
  ultimately show "drift_ok (drift_stats x p)" by (simp add: drift_stats_def drift_ok_def Let_def slew_is)
qed

lemma drift_weight_range:
  assumes "flt_within b dev" "Fin 0 \<le> dev" "flt_within b diff" "b \<le> 1"
  shows "Fin 0 \<le> drift_weight dev diff" "drift_weight dev diff \<le> Fin 1"
proof -
  define c where "c = f32 (100 / 10 ^ 9)"
  have c: "0 < c" "c \<le> 1" "is_f32 c" unfolding c_def by (code_simp, code_simp, simp)
  from assms(1) obtain y where y: "dev = Fin y" "\<bar>y\<bar> \<le> b" by (rule flt_withinE)
  from assms(3) obtain z where z: "diff = Fin z" "\<bar>z\<bar> \<le> b" by (rule flt_withinE)
  have y0: "0 \<le> y" using assms(2) y by (simp add: flt_ops)
  note f = is_f32_pow(1) [of 1] is_f32_pow(1) [of 2]
  have p: "flt_of (c + y) = Fin (f32 (c + y))" using f c y y0 assms(4) by (intro flt_of_within(1) [of "2 ^ 1"]) auto
  have p2: "c \<le> f32 (c + y)" "f32 (c + y) \<le> 2 ^ 1" using f c y y0 assms(4) by (auto intro!: f32_ge f32_le)
  have q: "flt_of (f32 (c + y) + \<bar>z\<bar>) = Fin (f32 (f32 (c + y) + \<bar>z\<bar>))" using f c z p2 assms(4) by (intro flt_of_within(1) [of "2 ^ 2"]) auto
  define d where "d = f32 (f32 (c + y) + \<bar>z\<bar>)"
  have d: "c \<le> d" using c p2 unfolding d_def by (intro f32_ge) auto
  have r: "0 \<le> c / d" "c / d \<le> 1" using c d by auto
  have "flt_of (c / d) = Fin (f32 (c / d))" using r by (intro flt_of_within(1) [of 1]) auto
  moreover have "drift_weight dev diff = flt_of (c / d)"
    using c d unfolding drift_weight_def c_def [symmetric] by (simp add: y z flt_ops p q d_def [symmetric])
  moreover have "0 \<le> f32 (c / d)" "f32 (c / d) \<le> 1" using r by (auto intro: f32_nonneg f32_le)
  ultimately show "Fin 0 \<le> drift_weight dev diff" "drift_weight dev diff \<le> Fin 1" by (simp_all add: flt_ops)
qed


lemma updateDrift_ok:
  assumes "drift_ok (t_pll t)" "flt_within (1 / 2 ^ 11) x"
  shows "drift_ok (t_pll (PLL_updateDrift i x t))"
    "Fin 0 \<le> drift_weight (driftStdDev (t_pll (PLL_updateDrift i x t))) (x - driftMean (t_pll t))"
    "drift_weight (driftStdDev (t_pll (PLL_updateDrift i x t))) (x - driftMean (t_pll t)) \<le> Fin 1"
proof -
  let ?p = "drift_stats x (t_pll t)"
  note d = drift_stats_ok [OF assms(2,1)]
  have s: "flt_within 1 (driftStdDev ?p) \<and> Fin 0 \<le> driftStdDev ?p"
    using flt_sqrt_within [of "driftVar ?p"] d(1) by (simp add: drift_ok_def drift_stats_def Let_def)
  have w: "flt_within 1 (x - driftMean (t_pll t))" by (rule flt_within_weaken [OF d(2)]) simp
  show "drift_ok (t_pll (PLL_updateDrift i x t))" using d(1) by (simp add: PLL_updateDrift_def Let_def drift_ok_def)
  show "Fin 0 \<le> drift_weight (driftStdDev (t_pll (PLL_updateDrift i x t))) (x - driftMean (t_pll t))"
    "drift_weight (driftStdDev (t_pll (PLL_updateDrift i x t))) (x - driftMean (t_pll t)) \<le> Fin 1"
    using drift_weight_range [OF conjunct1 [OF s] conjunct2 [OF s] w] by (simp_all add: PLL_updateDrift_def Let_def)
qed

section \<open>Hard alignment\<close>

lemma applyOffset_source: "source.truncate (applyOffset d g) = applyOffset d (source.truncate g)"
  by (simp add: applyOffset_def source.defs)

definition shift_source :: "i64 \<Rightarrow> src_ref \<Rightarrow> 'cb ntpst \<Rightarrow> 'cb ntpst" where
  "shift_source d r s = (case r of SrcGps \<Rightarrow> s\<lparr>gpsSource := applyOffset d (gpsSource s)\<rparr> | SrcPeer i \<Rightarrow> upd_peer i (applyOffset d) s)"

definition has_slot :: "nat \<Rightarrow> src_ref \<Rightarrow> bool" where
  "has_slot n r = (case r of SrcGps \<Rightarrow> True | SrcPeer i \<Rightarrow> i < n)"

lemma shift_source_sel:
  "length (peers (shift_source d a s)) = length (peers s)"
  "has_slot (length (peers s)) r \<Longrightarrow> source_of r (shift_source d a s) = (if r = a then applyOffset d (source_of r s) else source_of r s)"
  by (auto simp: shift_source_def has_slot_def source_of_def upd_peer_def applyOffset_source split: src_ref.splits)

lemma ntpApplyOffset_samples:
  assumes "distinct rs" "has_slot (length (peers s)) r"
  shows "source_of r (fold (shift_source d) rs s) = (if r \<in> set rs then applyOffset d (source_of r s) else source_of r s)"
  using assms
proof (induction rs arbitrary: s)
  case (Cons a rs)
  have "has_slot (length (peers (shift_source d a s))) r" using Cons.prems by (simp add: shift_source_sel)
  from Cons.IH [OF _ this] Cons.prems show ?case using shift_source_sel(2) [OF Cons.prems(2), of d a] by auto
qed simp

text \<open>
  C24: an offset beyond the threshold is stepped: the TAI clock moves by exactly the offset and keeps its rate,
  the offsets of all recorded samples of every source shrink by it, and the statistics start afresh. No peer with the
  address 0.0.0.0 may have been reported: its slot would be listed, and shifted, twice.
\<close>

theorem pll_hard_align:
  assumes "ntp_reach A (t_ntp t)" "0 \<notin> A" "0x01000000 < sint offset \<or> sint offset < - 0x01000000" "r \<in> set (sources (t_ntp t))"
  shows "\<exists>u. PLL_updateOffset interval offset raw t = Some u
    \<and> tai_now (t_clk u) now = tai_now (t_clk t) now + offset
    \<and> clkTaiRate (t_clk u) = clkTaiRate (t_clk t)
    \<and> map getOffset (ringSamples (source_of r (t_ntp u))) = map (\<lambda>x. getOffset x - offset) (ringSamples (source_of r (t_ntp t)))
    \<and> offset_stats x (t_pll u) = (t_pll t)\<lparr>offsetMS := x * x, offsetMean := x, offsetVar := x * x, offsetRms := flt_abs x, offsetStdDev := flt_abs x\<rparr>"
proof -
  let ?u = "(ntpSetTaiClock offset t)\<lparr>t_pll := (t_pll t)\<lparr>offsetMS := Fin 0\<rparr>\<rparr>"
  have "0x01000000 <s offset \<or> offset <s - 0x01000000" using assms(3) by (simp add: word_sless_alt sint_of_int_64)
  then have u: "PLL_updateOffset interval offset raw t = Some ?u"
    by (simp only: PLL_updateOffset_def if_True Let_def) (simp add: ntpSetTaiClock_def)
  note ok = reach_ok [OF assms(1,2)]
  note d = sources_okD [OF ok]
  have i: "i < length (peers (t_ntp t))" if "SrcPeer i \<in> set (sources (t_ntp t))" for i
  proof -
    have "i \<in> set (slots_of (sources (t_ntp t)))" using that by (subst (asm) d(2)) auto
    then show ?thesis using d(1,6) by simp
  qed
  have "has_slot (length (peers (t_ntp t))) r" using assms(4) i by (auto simp: has_slot_def split: src_ref.split)
  from ntpApplyOffset_samples [OF sources_ok_bound(2) [OF ok] this, of offset]
  have "source_of r (ntpApplyOffset offset (t_ntp t)) = applyOffset offset (source_of r (t_ntp t))"
    using assms(4) unfolding ntpApplyOffset_def shift_source_def [symmetric] by simp
  then have "map getOffset (ringSamples (source_of r (t_ntp ?u))) = map (\<lambda>x. getOffset x - offset) (ringSamples (source_of r (t_ntp t)))"
    by (simp add: ntpSetTaiClock_def applyOffset_def getOffset_def)
  moreover have "tai_now (t_clk ?u) now = tai_now (t_clk t) now + offset"
    by (simp add: ntpSetTaiClock_def tai_adjust_def tai_now_def Let_def split_beta mono_now_def mono_fromRaw_def)
  ultimately show ?thesis using u by (simp add: ntpSetTaiClock_def tai_adjust_def offset_stats_def)
qed

section \<open>Reachable states\<close>

inductive timing_step :: "(flt \<Rightarrow> flt) \<Rightarrow> 'cb timing \<Rightarrow> 'cb timing \<Rightarrow> bool" for expf where
  Server: "ntp_step UNIV (t_ntp t) s \<Longrightarrow> timing_step expf t (t\<lparr>t_ntp := s\<rparr>)"
| Select: "runSelect_loop raw t = Some u \<Longrightarrow> timing_step expf t u"
| Thermometer: "timing_step expf t (t\<lparr>t_tcmp := runTemperature (c :: cap_clk) (t_tcmp t)\<rparr>)"
| Compensate: "runCompensation raw (t_tcmp t, t_clk t) = Some (s, c) \<Longrightarrow> timing_step expf t (t\<lparr>t_tcmp := s, t_clk := c\<rparr>)"
| Regress: "0 < regressionTasks (t_tcmp t) \<Longrightarrow> timing_step expf t (t\<lparr>t_tcmp := runRegression expf (t_tcmp t)\<rparr>)"
| Clock: "clkTaiRate c = clkTaiRate (t_clk t) \<Longrightarrow> timing_step expf t (t\<lparr>t_clk := c\<rparr>)"

inductive timing_reach :: "(flt \<Rightarrow> flt) \<Rightarrow> 'cb timing \<Rightarrow> bool" for expf where
  Start: "ntp_reach UNIV s \<Longrightarrow> length ee = 48 \<Longrightarrow>
     timing_reach expf (PLL_init expf \<lparr>t_pll = pll_reset, t_tcmp = tcmp_reset ee, t_clk = tai_reset, t_ntp = s\<rparr>)"
| Step: "timing_reach expf t \<Longrightarrow> timing_step expf t u \<Longrightarrow> timing_reach expf u"

definition timing_ok :: "(flt \<Rightarrow> flt) \<Rightarrow> 'cb timing \<Rightarrow> bool" where
  "timing_ok expf t \<longleftrightarrow> pll_ok (t_pll t) \<and> drift_ok (t_pll t) \<and> \<bar>sint (clkTaiRate (t_clk t))\<bar> \<le> 1073741
     \<and> ntp_reach UNIV (t_ntp t) \<and> tcmp_reach expf (t_tcmp t)"

lemma scast_16_32: "sint (scast (w :: 16 word) :: i32) = sint w"
proof -
  have "- 32768 \<le> sint w" "sint w < 32768" using sint_greater_eq [of w] sint_less [of w] by simp_all
  moreover have "(scast w :: i32) = word_of_int (sint w)" by (rule bit_word_eqI) (auto simp: bit_simps min_def not_le)
  ultimately show ?thesis using sint_of_int_32 [of "sint w"] by simp
qed

lemma updateOffset_rest:
  assumes "PLL_updateOffset i x raw t = Some v"
  shows "t_tcmp v = t_tcmp t" "drift_ok (t_pll v) = drift_ok (t_pll t)" "t_ntp v = t_ntp t \<or> (\<exists>d. t_ntp v = ntpApplyOffset d (t_ntp t))"
  using assms by (auto simp: PLL_updateOffset_def Let_def ntpSetTaiClock_def drift_ok_def offset_control_def offset_stats_def
      split: if_splits option.splits prod.splits)

lemma loop_call_ok:
  assumes "timing_ok expf t" "0 \<le> sint p" "sint p \<le> 6"
  shows "\<exists>u. loop_call raw (p, x) t = Some u \<and> timing_ok expf u"
proof -
  obtain v where v: "PLL_updateOffset (scast p) x raw t = Some v" "pll_ok (t_pll v)" "\<bar>sint (clkTaiRate (t_clk v))\<bar> \<le> 1073741"
    using updateOffset_ok [of t "scast p" x raw] assms unfolding timing_ok_def scast_16_32 by force
  note r = updateOffset_rest [OF v(1)]
  have d: "drift_ok (t_pll v)" using assms(1) r by (simp add: timing_ok_def)
  have c: "flt_within (1 / 2 ^ 11) (PLL_offsetCorr v)" using trim_ratio_within [OF v(3)] by (simp add: PLL_offsetCorr_def tai_getTrim_def)
  let ?u = "PLL_updateDrift (scast p) (PLL_offsetCorr v) v"
  have n: "ntp_reach UNIV (t_ntp v)" using r(3) assms(1) ntp_reach.Step [OF _ ntp_step.Adjust] by (auto simp: timing_ok_def)
  have "tcmp_reach expf (t_tcmp ?u)"
    unfolding PLL_updateDrift_def Let_def using assms(1) r(1)
    by (auto simp: timing_ok_def intro: tcmp_reach.Step [OF _ tcmp_step.Update])
  moreover have "t_ntp ?u = t_ntp v" "t_clk ?u = t_clk v" "pll_ok (t_pll ?u) = pll_ok (t_pll v)"
    by (simp_all add: PLL_updateDrift_def Let_def pll_ok_def drift_stats_def)
  ultimately have "timing_ok expf ?u" using v n updateDrift_ok(1) [OF d c] by (simp add: timing_ok_def)
  then show ?thesis using v(1) by (simp add: loop_call_def)
qed

lemma select_loop_ok:
  assumes "timing_ok expf t" "runSelect (t_ntp t) = Some s"
  shows "\<exists>u. runSelect_loop raw t = Some u \<and> timing_ok expf u"
proof -
  have n: "ntp_reach UNIV (t_ntp t)" using assms(1) by (simp add: timing_ok_def)
  have ok: "timing_ok expf (t\<lparr>t_ntp := s\<rparr>)"
    using assms(1) ntp_reach.Step [OF n ntp_step.Select [OF assms(2)]] by (simp add: timing_ok_def)
  from runSelect_calls [OF reach_safe [OF n] assms(2)] show ?thesis
    using ok loop_call_ok [OF ok] by (auto simp: runSelect_loop_def assms(2))
qed

lemma timing_step_ok: "timing_step expf t u \<Longrightarrow> timing_ok expf t \<Longrightarrow> timing_ok expf u"
proof (induction rule: timing_step.induct)
  case (Server t s)
  then show ?case using ntp_reach.Step by (auto simp: timing_ok_def)
next
  case (Select raw t u)
  then obtain s where "runSelect (t_ntp t) = Some s" by (cases "runSelect (t_ntp t)") (auto simp: runSelect_loop_def)
  from select_loop_ok [OF Select(2) this, of raw] Select(1) show ?case by auto
next
  case (Thermometer t c)
  then show ?case using tcmp_reach.Step [OF _ tcmp_step.Temperature] by (simp add: timing_ok_def)
next
  case (Compensate raw t s c)
  then have "clkTaiRate c = clkTaiRate (t_clk t)"
    by (auto simp: runCompensation_def comp_setTrim_def Let_def split_beta split: if_splits option.splits prod.splits)
  moreover have "tcmp_reach expf s"
    using Compensate tcmp_reach.Step [OF _ tcmp_step.Compensation [OF Compensate(1)], of expf] by (simp add: timing_ok_def)
  ultimately show ?case using Compensate by (simp add: timing_ok_def)
next
  case (Regress t)
  then show ?case using tcmp_reach.Step [OF _ tcmp_step.Regression] by (simp add: timing_ok_def)
qed (simp add: timing_ok_def)

lemma timing_reach_ok: "timing_reach expf t \<Longrightarrow> timing_ok expf t"
proof (induction rule: timing_reach.induct)
  case (Start s ee)
  have "clkTaiRate tai_reset = 0" by (simp add: tai_reset_def comp_clk.defs tai_clk.defs comp_reset_def)
  moreover have "0 \<le> TRIM" using TRIM_facts(2) by simp
  ultimately show ?case using Start tcmp_reach.Start [of ee expf]
    by (simp add: timing_ok_def PLL_init_def pll_ok_def drift_ok_def pll_reset_def flt_ops)
qed (use timing_step_ok in blast)

section \<open>Properties\<close>

text \<open>
  C4: the loop stays within its limits. In every reachable state of the server, the clocks and the compensation, the trim
  of the TAI clock is at most 250 ppm, and when the selection of a source hands the loop a sample, no conversion
  and no shift of the loop is out of range, whatever the offset of the sample is.
\<close>

theorem pll_within_limits:
  assumes "timing_reach expf t" "runSelect (t_ntp t) = Some s"
  shows "\<bar>sint (tai_getTrim (t_clk t))\<bar> \<le> 1073741
    \<and> (\<exists>u. runSelect_loop raw t = Some u \<and> \<bar>sint (tai_getTrim (t_clk u))\<bar> \<le> 1073741)"
  using timing_reach_ok [OF assms(1)] select_loop_ok [OF timing_reach_ok [OF assms(1)] assms(2), of raw]
  by (auto simp: tai_getTrim_def timing_ok_def)

text \<open>
  the weight that the loop gives to a sample of the temperature compensation is a number between 0 and 1.
\<close>

theorem pll_sample_weight:
  assumes "timing_reach expf t"
  shows "let w = drift_weight (driftStdDev (t_pll (PLL_updateDrift interval (PLL_offsetCorr t) t))) (PLL_offsetCorr t - driftMean (t_pll t))
         in Fin 0 \<le> w \<and> w \<le> Fin 1"
proof -
  note ok = timing_reach_ok [OF assms]
  have "flt_within (1 / 2 ^ 11) (PLL_offsetCorr t)" 
    using ok trim_ratio_within [of "clkTaiRate (t_clk t)"] by (simp add: PLL_offsetCorr_def tai_getTrim_def timing_ok_def)
  from updateDrift_ok [OF _ this, of t interval] ok show ?thesis by (simp add: timing_ok_def Let_def)
qed


definition timing_boot :: "nat timing" where
  "timing_boot = PLL_init (\<lambda>_. Fin 1) \<lparr>t_pll = pll_reset, t_tcmp = tcmp_reset (replicate 48 0), t_clk = tai_reset,
     t_ntp = ntp_init 0 1 2 (ntp_boot (replicate 6 0) 0)\<rparr>"

lemma timing_boot_reach: "timing_reach (\<lambda>_. Fin 1) timing_boot"
  unfolding timing_boot_def by (rule timing_reach.Start [OF boot_reach]) simp

lemma timing_boot_sel: "t_ntp timing_boot = ntp_init 0 1 2 (ntp_boot (replicate 6 0) 0)" "t_clk timing_boot = tai_reset" "t_pll timing_boot = pll_reset"
  by (simp_all add: timing_boot_def PLL_init_def)

lemma boot_sources: "sources (t_ntp timing_boot) = [SrcGps]"
  by (simp add: timing_boot_sel ntp_init_def UDP_register_rest ntp_boot_def Let_def)

theorem pll_hard_align_witness:
  "\<exists>u. PLL_updateOffset 0 0x100000000 0 timing_boot = Some u \<and> tai_now (t_clk u) 0 = tai_now tai_reset 0 + 0x100000000"
proof -
  have "0x01000000 < sint (0x100000000 :: i64)" by simp
  moreover have "ntp_reach {} (t_ntp timing_boot)" unfolding timing_boot_sel by (rule boot_reach)
  ultimately have "\<exists>u. PLL_updateOffset 0 0x100000000 0 timing_boot = Some u \<and> tai_now (t_clk u) 0 = tai_now (t_clk timing_boot) 0 + 0x100000000"
    using pll_hard_align [of "{}" timing_boot "0x100000000" SrcGps 0 0 0] by (simp add: boot_sources) blast
  then show ?thesis by (simp add: timing_boot_sel)
qed

theorem pll_sample_weight_witness:
  "let w = drift_weight (driftStdDev (t_pll (PLL_updateDrift 0 (PLL_offsetCorr timing_boot) timing_boot)))
             (PLL_offsetCorr timing_boot - driftMean (t_pll timing_boot))
   in Fin 0 \<le> w \<and> w \<le> Fin 1"
  by (rule pll_sample_weight [OF timing_boot_reach])

text \<open>Sixteen pulses make the GPS source selectable.\<close>

definition pulse :: "nat \<Rightarrow> nat ntpst \<Rightarrow> nat ntpst" where
  "pulse i s =
     (let now = of_nat i * 0x100000000
      in gps_run \<lparr>m_now = now + 1000, m_seconds = of_nat i, m_ethRaw = 0, m_random = 0,
                  m_fit = \<lparr>usedOffset = 8, usedDrift = 8, delayMean = Fin 0, delayStdDev = Fin 0, freqSkew = Fin 0, score = Fin 0\<rparr>\<rparr>
           (now, now, now - 4096) (of_nat i - 1) 37 now s)"

definition timing_locked :: "nat timing" where
  "timing_locked = timing_boot\<lparr>t_ntp := fold pulse [2..<18] (t_ntp timing_boot)\<rparr>"

lemma pulses_reach: "ntp_reach A s \<Longrightarrow> ntp_reach A (fold pulse ks s)"
proof (induction ks arbitrary: s)
  case (Cons i ks)
  have "ntp_reach A (pulse i s)" unfolding pulse_def Let_def by (rule ntp_reach.Step [OF Cons.prems ntp_step.Pulse])
  then show ?case using Cons.IH by simp
qed simp

lemma timing_locked_reach: "timing_reach (\<lambda>_. Fin 1) timing_locked"
proof -
  have "ntp_reach UNIV (t_ntp timing_locked)"
    unfolding timing_locked_def using pulses_reach [OF boot_reach, where ks = "[2..<18]" and A = UNIV]
    by (simp add: timing_boot_sel del: upt_rec_numeral fold_simps)
  from timing_reach.Start [OF this, of "replicate 48 0" "\<lambda>_. Fin 1"] show ?thesis
    by (simp add: timing_locked_def timing_boot_def PLL_init_def)
qed

theorem pll_within_limits_witness:
  "map_option (\<lambda>s. pllCalls s) (runSelect (t_ntp timing_locked)) = Some [(0, 4096)]
   \<and> (\<exists>u. runSelect_loop 0 timing_locked = Some u \<and> \<bar>sint (tai_getTrim (t_clk u))\<bar> \<le> 1073741)"
proof -
  have c: "map_option (\<lambda>s. pllCalls s) (runSelect (t_ntp timing_locked)) = Some [(0, 4096)]" by code_simp
  then obtain s where "runSelect (t_ntp timing_locked) = Some s" by auto
  from pll_within_limits [OF timing_locked_reach this, of 0] c show ?thesis by simp
qed

end
