(* ===== verification/FloatText.thy ===== *)
theory FloatText
  imports Format FloatLaws
begin

text \<open>
  Printing of floats (lib/format.cpp, \<open>fmtFloat\<close> and \<open>toSci\<close>). The local array \<open>result\<close> has 32 bytes, which are
  those of the stack, \<open>stk\<close>, until they are written; \<open>None\<close> is an access outside an array or a conversion out of range.
  The sign of a zero and of a NaN, which the values of \<open>Ieee\<close> do not have, is the argument \<open>neg\<close>.
\<close>

unbundle bit_operations_syntax

section \<open>Powers of ten\<close>

definition lutPow10 :: "int \<Rightarrow> flt option" where
  "lutPow10 e =
     (if e < - 46 \<or> 39 < e then None
      else if e = - 46 then Some (Fin 0)
      else if e = 39 then Some PInf
      else Some (flt_of (10 powi e)))"

function exponent_up :: "flt \<Rightarrow> int \<Rightarrow> int option" where
  "exponent_up value e =
     (case lutPow10 (e + 1) of
        None \<Rightarrow> None
      | Some p \<Rightarrow> if p < value then exponent_up value (e + 1) else Some e)"
  by auto
termination by (relation "measure (\<lambda>(_, e). nat (39 - e))") (auto simp: lutPow10_def split: if_splits)

function exponent_down :: "flt \<Rightarrow> int \<Rightarrow> int option" where
  "exponent_down value e =
     (case lutPow10 (e - 1) of
        None \<Rightarrow> None
      | Some p \<Rightarrow> if value < p then exponent_down value (e - 1) else Some e)"
  by auto
termination by (relation "measure (\<lambda>(_, e). nat (e + 46))") (auto simp: lutPow10_def split: if_splits)

declare exponent_up.simps [simp del] exponent_down.simps [simp del]

text \<open>\<open>ilogbf\<close> is the exponent of the leading bit, also of a subnormal number; \<open>lroundf\<close> rounds half away from zero.\<close>

definition first_exponent :: "rat \<Rightarrow> int" where
  "first_exponent x =
     (case Fin (f32 (3010299957 / 10 ^ 10)) * flt_int (flog2 x) of Fin y \<Rightarrow> \<lfloor>y\<rfloor> | _ \<Rightarrow> 0)"

definition lroundf :: "flt \<Rightarrow> u32 option" where
  "lroundf v = (case v of
     Fin x \<Rightarrow> (let n = trunc_int (x + sgn x / 2) in if - (2 ^ 31) \<le> n \<and> n < 2 ^ 31 then Some (word_of_int n) else None)
   | _ \<Rightarrow> None)"

definition decimal_exponent :: "rat \<Rightarrow> int option" where
  "decimal_exponent x =
     map_option (\<lambda>e. if 38 < e then 38 else e)
       (Option.bind (exponent_up (Fin x) (first_exponent x)) (exponent_down (Fin x)))"

definition scaled_mantissa :: "rat \<Rightarrow> int \<Rightarrow> u32 option" where
  "scaled_mantissa x e =
     (if e < - 30 then Option.bind (lutPow10 30) (\<lambda>p. Option.bind (lutPow10 (- 22 - e)) (\<lambda>q. lroundf (Fin x * p * q)))
      else Option.bind (lutPow10 (8 - e)) (\<lambda>q. lroundf (Fin x * q)))"

text \<open>Nine digits and their exponent.\<close>

definition align_mantissa :: "u32 \<Rightarrow> int \<Rightarrow> u32 \<times> int" where
  "align_mantissa m e =
     (let (m, e) = (if m \<ge> 1000000000 then (m div 10, e + 1) else (m, e))
      in (if m < 100000000 then m * 10 else m, e))"

definition mantissa_digits :: "u32 \<Rightarrow> bytes" where
  "mantissa_digits m = rev (map (\<lambda>i. lutBase ! unat (m div 10 ^ i mod 10)) [0..<9])"

definition trailing_zeros :: "bytes \<Rightarrow> nat" where
  "trailing_zeros ds = min 8 (length (takeWhile (\<lambda>c. c = 0x30) (rev ds)))"

section \<open>Layout\<close>

text \<open>\<open>toSci\<close> gets the nine digits; what it writes is their place and the exponent.\<close>

definition toSci :: "bytes \<Rightarrow> int \<Rightarrow> nat \<Rightarrow> bytes option" where
  "toSci ds exponent trim =
     (let trim = min 7 trim;
          text = take (10 - trim) (ds ! 0 # 0x2E # tl ds) @ [0x65]
      in if exponent < 0 then map_option (\<lambda>b. text @ 0x2D # b) (toBase (word_of_int (- exponent)) 10)
         else map_option (\<lambda>b. text @ 0x2B # b) (toBase (word_of_int exponent) 10))"

definition store :: "nat \<Rightarrow> u8 \<Rightarrow> bytes \<Rightarrow> bytes option" where
  "store i c r = (if i < length r then Some (r[i := c]) else None)"

definition text_of :: "int \<Rightarrow> nat \<Rightarrow> bytes \<Rightarrow> bytes option" where
  "text_of width n r = (if n \<le> length r then Some (padCopy width 0x20 (take n r)) else None)"

text \<open>The loop that makes room for leading zeros drops what would fall off the array.\<close>

definition shift_digits :: "nat \<Rightarrow> nat \<Rightarrow> bytes \<Rightarrow> bytes" where
  "shift_digits len shift r =
     foldl (\<lambda>r i. let j = len + i + shift in if j < length r then r[j := r ! (len + i)] else r) r (rev [0..<9])"

definition open_point :: "nat \<Rightarrow> nat \<Rightarrow> bytes \<Rightarrow> bytes" where
  "open_point len exponent r = foldl (\<lambda>r i. r[len + i + 1 := r ! (len + i)]) r (rev [Suc exponent..<9])"

definition fill_zeros :: "nat \<Rightarrow> nat \<Rightarrow> bytes \<Rightarrow> bytes option" where
  "fill_zeros a b r = foldl (\<lambda>r i. Option.bind r (store i 0x30)) (Some r) [a..<b]"

text \<open>\<open>places < 0\<close>: the shortest notation.\<close>

definition auto_notation :: "int \<Rightarrow> nat \<Rightarrow> int \<Rightarrow> nat \<Rightarrow> bytes \<Rightarrow> bytes \<Rightarrow> bytes option" where
  "auto_notation width len exponent rtrim ds r =
     (if exponent < 0 \<and> 8 - exponent - int rtrim < 12 then
        let shift = nat (1 - exponent);
            r = shift_digits len shift r;
            r = r[len := 0x30, len + 1 := 0x2E]
        in Option.bind (fill_zeros (len + 2) (len + shift) r) (text_of width (len + 9 + shift - rtrim))
      else if exponent = 8 then text_of width (len + 11) (r[len + 9 := 0x2E, len + 10 := 0x30])
      else if exponent < 0 \<or> 8 < exponent then
        map_option (\<lambda>b. padCopy width 0x20 (take len r @ b)) (toSci ds exponent rtrim)
      else
        let k = nat exponent; r = (open_point len k r)[len + k + 1 := 0x2E]; rtrim = min rtrim (7 - k)
        in text_of width (len + 10 - rtrim) r)"

definition small_notation :: "int \<Rightarrow> int \<Rightarrow> nat \<Rightarrow> int \<Rightarrow> bytes \<Rightarrow> bytes option" where
  "small_notation width places len exponent r =
     (let shift = nat (1 - exponent);
          r = shift_digits len shift r;
          r = r[len := 0x30]
      in if 0 < places then
           let r = r[len + 1 := 0x2E];
               r = foldl (\<lambda>r i. if len + i < length r then r[len + i := 0x30] else r) r [2..<shift]
           in text_of width (len + 2 + nat places) r
         else text_of width (len + 1) r)"

definition large_notation :: "int \<Rightarrow> int \<Rightarrow> nat \<Rightarrow> nat \<Rightarrow> bytes \<Rightarrow> bytes option" where
  "large_notation width places len exponent r =
     (let r = open_point len exponent r
      in if 0 < places then
           let stop = len + exponent + 2 + nat places
           in Option.bind (store (len + exponent + 1) 0x2E r) (\<lambda>r.
              Option.bind (fill_zeros (len + 10) stop r) (text_of width stop))
         else text_of width (len + exponent + 1) r)"

definition fmt_digits :: "bool \<Rightarrow> bytes \<Rightarrow> u32 \<times> int \<Rightarrow> int \<Rightarrow> int \<Rightarrow> bytes option" where
  "fmt_digits neg stk = (\<lambda>(m, exponent) width places.
     let len = (if neg then 1 else 0);
         ds = mantissa_digits m;
         r = (if neg then wr stk 0 [0x2D] else stk);
         r = wr r len ds;
         rtrim = trailing_zeros ds
     in if places < 0 then auto_notation width len exponent rtrim ds r
        else if 0 < width \<and> width - places - 2 < exponent then
          map_option (\<lambda>b. padCopy width 0x20 (take len r @ b)) (toSci ds exponent rtrim)
        else if exponent < 0 then small_notation width places len exponent r
        else large_notation width places len (nat exponent) r)"

definition fmtFloat :: "bool \<Rightarrow> bytes \<Rightarrow> flt \<Rightarrow> int \<Rightarrow> int \<Rightarrow> bytes option" where
  "fmtFloat neg stk value width places =
     (let sign = (if neg then [0x2D] else [])
      in case value of
           NaN \<Rightarrow> Some (padCopy width 0x20 (sign @ ascii ''nan''))
         | PInf \<Rightarrow> Some (padCopy width 0x20 (ascii ''inf''))
         | NInf \<Rightarrow> Some (padCopy width 0x20 (0x2D # ascii ''inf''))
         | Fin x \<Rightarrow>
             if x = 0 then
               let places = (if places < 0 then 1 else places);
                   text = sign @ 0x30 # (if 0 < places then 0x2E # replicate (nat places) 0x30 else [])
               in if length text \<le> 32 then Some (padCopy width 0x20 text) else None
             else
               Option.bind (decimal_exponent \<bar>x\<bar>) (\<lambda>e.
               Option.bind (scaled_mantissa \<bar>x\<bar> e) (\<lambda>m. fmt_digits (x < 0) stk (align_mantissa m e) width places)))"

section \<open>Scaling\<close>

lemma f32_up: "2 powi (- 126) \<le> x \<Longrightarrow> f32 x \<le> x * (1 + 1 / 2 ^ 24)"
proof -
  assume x: "2 powi (- 126) \<le> x"
  then have "0 < x" by (rule less_le_trans [rotated]) simp
  then have "\<bar>f32 x - x\<bar> \<le> x / 2 ^ 24" using f32_relative [of x] x by simp
  then have "f32 x - x \<le> x / 2 ^ 24" by (rule order_trans [OF abs_ge_self])
  then show ?thesis by (simp add: algebra_simps)
qed

definition p10 :: "int \<Rightarrow> rat" where "p10 e = f32 (10 powi e)"

lemma p10_facts: "is_f32 (p10 e)" "0 \<le> p10 e" by (simp_all add: p10_def f32_nonneg)

lemma p10_mono: "a \<le> b \<Longrightarrow> p10 a \<le> p10 b"
  unfolding p10_def by (intro f32_mono power_int_increasing) simp_all

lemma p10_38: "p10 38 < 2 ^ 128" unfolding p10_def by code_simp

lemma normal_p10: "- 37 \<le> e \<Longrightarrow> (2 :: rat) powi (- 126) \<le> 10 powi e"
proof -
  assume "- 37 \<le> e"
  then have "(10 :: rat) powi (- 37) \<le> 10 powi e" by (intro power_int_increasing) simp_all
  moreover have "(2 :: rat) powi (- 126) \<le> 10 powi (- 37)" by (simp add: power_int_minus_divide)
  ultimately show ?thesis by linarith
qed

lemma p10_up: "- 37 \<le> e \<Longrightarrow> p10 e \<le> 10 powi e * (1 + 1 / 2 ^ 24)"
  unfolding p10_def by (intro f32_up normal_p10)

lemma p10_up_tiny: "- 44 \<le> e \<Longrightarrow> p10 e \<le> 10 powi e * (108 / 100)"
proof -
  assume "- 44 \<le> e"
  then have l: "(10 :: rat) powi (- 44) \<le> 10 powi e" by (intro power_int_increasing) simp_all
  define x where "x = (10 :: rat) powi e"
  have x: "0 < x" by (simp add: x_def)
  have "(2 :: rat) powi (- 149) \<le> 10 powi (- 44) * (16 / 100)" by (simp add: power_int_minus_divide)
  then have a: "(2 :: rat) powi (- 149) \<le> x * (16 / 100)" using l unfolding x_def by linarith
  have "(2 :: rat) powi (flog2 x - 23) = 2 powi flog2 x / 2 ^ 23" by (simp add: power_int_diff)
  then have b: "(2 :: rat) powi (flog2 x - 23) \<le> x * (16 / 100)" using flog2_bounds(1) [OF x] x by simp
  have "ulp x \<le> x * (16 / 100)" unfolding ulp_def using a b x by (simp add: max_def)
  moreover have "f32 x - x \<le> ulp x / 2" by (rule order_trans [OF abs_ge_self f32_error])
  ultimately show ?thesis by (simp add: p10_def x_def [symmetric])
qed

lemma lut_p10: "- 45 \<le> e \<Longrightarrow> e \<le> 38 \<Longrightarrow> lutPow10 e = Some (Fin (p10 e))"
proof -
  assume e: "- 45 \<le> e" "e \<le> 38"
  have "p10 e < 2 ^ 128" using p10_mono [OF e(2)] p10_38 by linarith
  then have "flt_of (10 powi e) = Fin (p10 e)" using p10_facts(2) [of e] by (simp add: flt_of_def p10_def Let_def)
  then show ?thesis using e by (simp add: lutPow10_def)
qed

lemma lut_ends: "lutPow10 39 = Some PInf" "lutPow10 (- 46) = Some (Fin 0)" by (simp_all add: lutPow10_def)

section \<open>The decimal exponent\<close>

definition above :: "int \<Rightarrow> rat" where "above e = (if e = 38 then 2 ^ 128 else p10 (e + 1))"

lemma exponent_up_range:
  assumes "x < 2 ^ 128" "- 46 \<le> e" "e \<le> 38"
  shows "\<exists>k. exponent_up (Fin x) e = Some k \<and> e \<le> k \<and> k \<le> 38 \<and> x \<le> above k"
  using assms(2,3)
proof (induction "nat (38 - e)" arbitrary: e)
  case 0
  then have e: "e = 38" by simp
  then have "exponent_up (Fin x) e = Some 38" by (subst exponent_up.simps) (simp add: lut_ends flt_ops)
  then show ?case using e assms(1) by (simp add: above_def)
next
  case (Suc n)
  then have e: "e \<le> 37" by linarith
  have l: "lutPow10 (e + 1) = Some (Fin (p10 (e + 1)))" using e Suc by (intro lut_p10) simp_all
  show ?case
  proof (cases "p10 (e + 1) < x")
    case True
    then have "exponent_up (Fin x) e = exponent_up (Fin x) (e + 1)" by (subst exponent_up.simps) (simp add: l flt_ops)
    then show ?thesis using Suc.hyps(1) [of "e + 1"] Suc.hyps(2) Suc.prems e by force
  next
    case False
    then have "exponent_up (Fin x) e = Some e" by (subst exponent_up.simps) (simp add: l flt_ops)
    then show ?thesis using False e by (simp add: above_def)
  qed
qed

lemma exponent_down_range:
  assumes "0 \<le> x" "- 45 \<le> e" "e \<le> 38" "x \<le> above e"
  shows "\<exists>k. exponent_down (Fin x) e = Some k \<and> - 45 \<le> k \<and> k \<le> 38 \<and> x \<le> above k"
  using assms(2-)
proof (induction "nat (e + 45)" arbitrary: e)
  case 0
  then have e: "e = - 45" by simp
  then have "exponent_down (Fin x) e = Some (- 45)" using assms(1) by (subst exponent_down.simps) (simp add: lut_ends flt_ops)
  then show ?case using e 0 by simp
next
  case (Suc n)
  then have e: "- 44 \<le> e" by linarith
  have l: "lutPow10 (e - 1) = Some (Fin (p10 (e - 1)))" using e Suc by (intro lut_p10) simp_all
  show ?case
  proof (cases "x < p10 (e - 1)")
    case True
    then have d: "exponent_down (Fin x) e = exponent_down (Fin x) (e - 1)" by (subst exponent_down.simps) (simp add: l flt_ops)
    have "x \<le> above (e - 1)" using True p10_mono [of "e - 1" e] Suc.prems by (simp add: above_def)
    then show ?thesis using Suc.hyps(1) [of "e - 1"] Suc.hyps(2) Suc.prems e unfolding d by simp
  next
    case False
    then have "exponent_down (Fin x) e = Some e" by (subst exponent_down.simps) (simp add: l flt_ops)
    then show ?thesis using Suc.prems by simp
  qed
qed

lemma first_exponent_range:
  assumes "is_f32 x" "0 < x" "x < 2 ^ 128"
  shows "- 45 \<le> first_exponent x" "first_exponent x \<le> 38"
proof -
  define c where "c = f32 (3010299957 / 10 ^ 10)"
  have c: "3 / 10 \<le> c" "c \<le> 302 / 1000" unfolding c_def by (code_simp, code_simp)
  define n where "n = flog2 x"
  have "(2 :: rat) powi n < 2 powi 128" using flog2_bounds(1) [OF assms(2)] assms(3) by (simp add: n_def)
  then have n: "- 149 \<le> n" "n \<le> 127" using two_powi_less [of n 128] f32_least [OF assms(1,2)] by (simp_all add: n_def)
  have i: "flt_int n = Fin (of_int n)" using n by (simp add: flt_int_def f32_of_int)
  have r: "- 45 \<le> (of_int n :: rat)" if "0 \<le> n" using that by linarith
  have m: "- 45 \<le> c * of_int n \<and> c * of_int n \<le> 77 / 2"
  proof (cases "0 \<le> n")
    case True
    have "c * of_int n \<le> 302 / 1000 * 127" using c n True by (intro mult_mono) simp_all
    moreover have "0 \<le> c * of_int n" using c True by simp
    ultimately show ?thesis by simp
  next
    case False
    have "c * (- of_int n) \<le> 302 / 1000 * 149" using c n False by (intro mult_mono) simp_all
    moreover have "c * of_int n \<le> 0" using c False by (intro mult_nonneg_nonpos) simp_all
    ultimately show ?thesis by simp
  qed
  have g: "is_f32 45" "is_f32 (77 / 2)" using is_f32_scaled [of 45 0] is_f32_scaled [of 77 "- 1"] by simp_all
  have "\<bar>c * of_int n\<bar> \<le> 2 ^ 6" using m unfolding abs_le_iff by simp
  from flt_of_within(1) [OF is_f32_pow(1) _ this] have "Fin c * flt_int n = Fin (f32 (c * of_int n))" by (simp add: i flt_ops)
  then have "first_exponent x = \<lfloor>f32 (c * of_int n)\<rfloor>" by (simp add: first_exponent_def n_def c_def)
  moreover have "- 45 \<le> f32 (c * of_int n)" using m g f32_ge [of "- 45"] by simp
  moreover have "f32 (c * of_int n) \<le> 77 / 2" using m g(2) by (intro f32_le) simp_all
  ultimately show "- 45 \<le> first_exponent x" "first_exponent x \<le> 38" by (simp_all add: le_floor_iff floor_le_iff)
qed

lemma decimal_exponent_range:
  assumes "is_f32 x" "0 < x" "x < 2 ^ 128"
  shows "\<exists>e. decimal_exponent x = Some e \<and> - 45 \<le> e \<and> e \<le> 38 \<and> x \<le> above e"
proof -
  note f = first_exponent_range [OF assms]
  obtain k where k: "exponent_up (Fin x) (first_exponent x) = Some k" "first_exponent x \<le> k" "k \<le> 38" "x \<le> above k"
    using exponent_up_range [of x "first_exponent x"] f assms(3) by auto
  obtain j where j: "exponent_down (Fin x) k = Some j" "- 45 \<le> j" "j \<le> 38" "x \<le> above j"
    using exponent_down_range [of x k] k f assms(2) by auto
  show ?thesis using k(1) j by (simp add: decimal_exponent_def)
qed

text \<open>The scaled mantissa fits.\<close>

definition MLIM :: rat where "MLIM = 1200000000"

lemma MLIM_f32: "is_f32 MLIM" using is_f32_scaled [of 9375000 7] by (simp add: MLIM_def)

lemma lroundf_Some: "0 \<le> x \<Longrightarrow> x \<le> MLIM \<Longrightarrow> \<exists>m. lroundf (Fin x) = Some m"
proof -
  assume x: "0 \<le> x" "x \<le> MLIM"
  have "\<bar>x + sgn x / 2\<bar> \<le> MLIM + 1" using x by (auto simp: sgn_if)
  from trunc_int_bound [OF this] show ?thesis by (simp add: lroundf_def MLIM_def Let_def abs_le_iff)
qed

lemma scaled_Some:
  assumes "is_f32 x" "0 \<le> x" "x \<le> above e" "- 45 \<le> e" "e \<le> 38"
  shows "\<exists>m. scaled_mantissa x e = Some m"
proof (cases "e < - 30")
  case False
  have q: "lutPow10 (8 - e) = Some (Fin (p10 (8 - e)))" using assms False by (intro lut_p10) simp_all
  have b: "x * p10 (8 - e) \<le> MLIM"
  proof (cases "e = 38")
    case True
    have "x * p10 (- 30) \<le> 2 ^ 128 * (10 powi (- 30) * (1 + 1 / 2 ^ 24))"
      using assms(2,3) True p10_up [of "- 30"] p10_facts by (intro mult_mono) (simp_all add: above_def)
    also have "\<dots> \<le> MLIM" by (simp add: MLIM_def power_int_minus_divide)
    finally show ?thesis using True by simp
  next
    case F: False
    have "x * p10 (8 - e) \<le> (10 powi (e + 1) * (1 + 1 / 2 ^ 24)) * (10 powi (8 - e) * (1 + 1 / 2 ^ 24))"
      using assms(2-5) False F p10_up [of "e + 1"] p10_up [of "8 - e"] p10_facts by (intro mult_mono) (simp_all add: above_def)
    also have "\<dots> = (10 powi (e + 1) * 10 powi (8 - e)) * ((1 + 1 / 2 ^ 24) * (1 + 1 / 2 ^ 24))" by (simp only: ac_simps)
    also have "(10 :: rat) powi (e + 1) * 10 powi (8 - e) = 10 powi 9" by (simp flip: power_int_add)
    also have "10 powi 9 * ((1 + 1 / 2 ^ 24) * (1 + 1 / 2 ^ 24)) \<le> MLIM" by (simp add: MLIM_def)
    finally show ?thesis .
  qed
  then have l: "\<bar>x * p10 (8 - e)\<bar> \<le> MLIM" using assms(2) p10_facts(2) by simp
  have "Fin x * Fin (p10 (8 - e)) = Fin (f32 (x * p10 (8 - e)))"
    using flt_of_within(1) [OF MLIM_f32 _ l] by (simp add: flt_ops MLIM_def)
  moreover have "0 \<le> f32 (x * p10 (8 - e))" "f32 (x * p10 (8 - e)) \<le> MLIM"
    using b assms(2) p10_facts(2) by (simp_all add: f32_nonneg f32_le MLIM_f32)
  ultimately show ?thesis using lroundf_Some False q by (simp add: scaled_mantissa_def)
next
  case True
  have q: "lutPow10 (- 22 - e) = Some (Fin (p10 (- 22 - e)))" "lutPow10 30 = Some (Fin (p10 30))"
    using assms True by (intro lut_p10; simp)+
  define B :: rat where "B = 10 powi (e + 1) * (108 / 100) * (10 powi 30 * (1 + 1 / 2 ^ 24))"
  have xp: "x * p10 30 \<le> B" unfolding B_def
    using assms(2-5) True p10_up_tiny [of "e + 1"] p10_up [of 30] p10_facts by (intro mult_mono) (simp_all add: above_def)
  have B2: "2 powi (- 126) \<le> B"
  proof -
    have "(10 :: rat) powi (- 14) \<le> 10 powi (e + 1 + 30)" using assms by (intro power_int_increasing) simp_all
    also have "\<dots> = 10 powi (e + 1) * 10 powi 30" by (rule power_int_add) simp
    also have "\<dots> \<le> B" unfolding B_def by (simp add: field_simps)
    finally have "(10 :: rat) powi (- 14) \<le> B" .
    moreover have "(2 :: rat) powi (- 126) \<le> 10 powi (- 14)" by (simp add: power_int_minus_divide)
    ultimately show ?thesis by linarith
  qed
  have B3: "B * (1 + 1 / 2 ^ 24) * (10 powi (- 22 - e) * (1 + 1 / 2 ^ 24)) \<le> MLIM"
  proof -
    have "B * (1 + 1 / 2 ^ 24) * (10 powi (- 22 - e) * (1 + 1 / 2 ^ 24))
      = (10 powi (e + 1) * 10 powi 30 * 10 powi (- 22 - e)) * (108 / 100 * (1 + 1 / 2 ^ 24) * (1 + 1 / 2 ^ 24) * (1 + 1 / 2 ^ 24))"
      unfolding B_def by (simp only: ac_simps)
    also have "(10 :: rat) powi (e + 1) * 10 powi 30 * 10 powi (- 22 - e) = 10 powi 9" by (simp flip: power_int_add)
    also have "10 powi 9 * (108 / 100 * (1 + 1 / 2 ^ 24) * (1 + 1 / 2 ^ 24) * (1 + 1 / 2 ^ 24)) \<le> MLIM" by (simp add: MLIM_def)
    finally show ?thesis .
  qed
  define y where "y = f32 (x * p10 30)"
  have B1: "B \<le> MLIM"
  proof -
    have "(10 :: rat) powi (e + 1) * 10 powi 30 = 10 powi (e + 1 + 30)" by (rule power_int_add [symmetric]) simp
    also have "\<dots> \<le> 10 powi 0" using True by (intro power_int_increasing) simp_all
    finally show ?thesis unfolding B_def MLIM_def by (simp add: field_simps)
  qed
  have "\<bar>x * p10 30\<bar> \<le> MLIM" using xp B1 assms(2) p10_facts(2) [of 30] by simp
  from flt_of_within(1) [OF MLIM_f32 _ this] have m1: "Fin x * Fin (p10 30) = Fin y" by (simp add: flt_ops MLIM_def y_def)
  have y: "0 \<le> y" "y \<le> B * (1 + 1 / 2 ^ 24)"
    using f32_mono [OF xp] f32_up [OF B2] assms(2) p10_facts(2) by (simp_all add: y_def f32_nonneg)
  have "y * p10 (- 22 - e) \<le> B * (1 + 1 / 2 ^ 24) * (10 powi (- 22 - e) * (1 + 1 / 2 ^ 24))"
    using y assms True p10_up [of "- 22 - e"] p10_facts by (intro mult_mono) simp_all
  then have yq: "y * p10 (- 22 - e) \<le> MLIM" using B3 by linarith
  then have "\<bar>y * p10 (- 22 - e)\<bar> \<le> MLIM" using y p10_facts(2) by simp
  from flt_of_within(1) [OF MLIM_f32 _ this] have m2: "Fin y * Fin (p10 (- 22 - e)) = Fin (f32 (y * p10 (- 22 - e)))"
    by (simp add: flt_ops MLIM_def)
  moreover have "0 \<le> f32 (y * p10 (- 22 - e))" "f32 (y * p10 (- 22 - e)) \<le> MLIM"
    using yq y p10_facts(2) by (simp_all add: f32_nonneg f32_le MLIM_f32)
  ultimately show ?thesis using lroundf_Some True q by (simp add: scaled_mantissa_def m1)
qed


section \<open>Layout\<close>

lemma length_shift_digits [simp]: "length (shift_digits len shift r) = length r"
proof -
  have "length (foldl (\<lambda>r i. let j = len + i + shift in if j < length r then r[j := r ! (len + i)] else r) r is) = length r" for "is"
    by (induction "is" arbitrary: r) (simp_all add: Let_def)
  then show ?thesis by (simp add: shift_digits_def)
qed

text \<open>A loop that copies upwards, from the last position down, reads only what it has not written.\<close>

lemma copy_up:
  assumes "0 < d" "a + n \<le> length r"
  shows "foldl (\<lambda>r i. let j = a + i + d in if j < length r then r[j := r ! (a + i)] else r) r (rev [m..<n]) ! k
     = (if a + m + d \<le> k \<and> k < a + n + d \<and> k < length r then r ! (k - d) else r ! k)
   \<and> length (foldl (\<lambda>r i. let j = a + i + d in if j < length r then r[j := r ! (a + i)] else r) r (rev [m..<n])) = length r"
proof (induction "n - m" arbitrary: m k)
  case (Suc x)
  then have m: "rev [m..<n] = rev [Suc m..<n] @ [m]" by (simp add: upt_conv_Cons)
  define q where "q = foldl (\<lambda>r i. let j = a + i + d in if j < length r then r[j := r ! (a + i)] else r) r (rev [Suc m..<n])"
  have q: "q ! k = (if a + Suc m + d \<le> k \<and> k < a + n + d \<and> k < length r then r ! (k - d) else r ! k)" "length q = length r" for k
    unfolding q_def using Suc.hyps(1) [of "Suc m" k] Suc.hyps(2) by simp_all
  have "m < n" using Suc.hyps(2) by simp
  then show ?case unfolding m foldl_append q_def [symmetric]
    using q assms by (auto simp: Let_def nth_list_update)
qed auto

lemma nth_shift_digits:
  "0 < shift \<Longrightarrow> len + 9 \<le> length r \<Longrightarrow> shift_digits len shift r ! k =
     (if len + shift \<le> k \<and> k < len + 9 + shift \<and> k < length r then r ! (k - shift) else r ! k)"
  unfolding shift_digits_def by (subst copy_up [THEN conjunct1]) simp_all

lemma open_point_is:
  assumes "len + 10 \<le> length r"
  shows "open_point len e r = foldl (\<lambda>r i. let j = len + i + 1 in if j < length r then r[j := r ! (len + i)] else r) r (rev [Suc e..<9])"
proof -
  have "foldl (\<lambda>r i. r[len + i + 1 := r ! (len + i)]) r is = foldl (\<lambda>r i. let j = len + i + 1 in if j < length r then r[j := r ! (len + i)] else r) r is"
    if "\<forall>i \<in> set is. i < 9" "len + 10 \<le> length r" for "is" and r :: bytes
    using that by (induction "is" arbitrary: r) (simp_all add: Let_def)
  then show ?thesis using assms by (simp add: open_point_def)
qed

lemma nth_open_point:
  "len + 10 \<le> length r \<Longrightarrow> open_point len e r ! k = (if len + e + 2 \<le> k \<and> k < len + 10 then r ! (k - 1) else r ! k)"
  "len + 10 \<le> length r \<Longrightarrow> length (open_point len e r) = length r"
  using copy_up [of 1 len 9 r "Suc e" k] unfolding open_point_is by auto

lemma fill_zeros_value:
  assumes "b \<le> length r"
  shows "\<exists>q. fill_zeros a b r = Some q \<and> length q = length r \<and> (\<forall>k. q ! k = (if a \<le> k \<and> k < b then 0x30 else r ! k))"
  using assms
proof (induction b)
  case (Suc b)
  show ?case
  proof (cases "a \<le> b")
    case True
    from Suc obtain q where q: "fill_zeros a b r = Some q" "length q = length r" "\<forall>k. q ! k = (if a \<le> k \<and> k < b then 0x30 else r ! k)" by auto
    have "fill_zeros a (Suc b) r = Some (q[b := 0x30])" using True q(1,2) Suc.prems by (simp add: fill_zeros_def store_def)
    then show ?thesis using q Suc.prems True by (auto simp: nth_list_update)
  qed (auto simp: fill_zeros_def)
qed (auto simp: fill_zeros_def)

lemma zero_loop:
  "length (foldl (\<lambda>r i. if len + i < length r then r[len + i := 0x30] else r) r [a..<b]) = length r
   \<and> (k < length r \<longrightarrow> foldl (\<lambda>r i. if len + i < length r then r[len + i := 0x30] else r) r [a..<b] ! k
        = (if len + a \<le> k \<and> k < len + b then 0x30 else r ! k))"
  by (induction b) (auto simp: nth_list_update)

text \<open>The text depends only on the sign and the digits.\<close>

definition agree :: "nat \<Rightarrow> bytes \<Rightarrow> bytes \<Rightarrow> bool" where
  "agree n r q \<longleftrightarrow> length r = 32 \<and> length q = 32 \<and> (\<forall>k < n. r ! k = q ! k)"

lemma agree_take: "agree n r q \<Longrightarrow> take n r = take n q"
  by (auto simp: agree_def intro!: nth_equalityI)

lemma text_of_agree: "agree n r q \<Longrightarrow> n \<le> 32 \<Longrightarrow> 0 < width \<Longrightarrow> 
    \<exists>t. text_of width n r = Some t \<and> text_of width n q = Some t \<and> length t = nat width"
  using agree_take [of n r q] by (auto simp: text_of_def agree_def padCopy_def)

lemma small_notation_agree:
  assumes "agree (len + 9) r q" "len \<le> 1" "1 \<le> places" "places \<le> 9" "0 < width" "exponent < 0"
  shows "\<exists>t. small_notation width places len exponent r = Some t \<and> small_notation width places len exponent q = Some t \<and> length t = nat width"
proof -
  define shift where "shift = nat (1 - exponent)"
  have s: "2 \<le> shift" using assms(6) by (simp add: shift_def)
  define body where "body r = foldl (\<lambda>r i. if len + i < length r then r[len + i := 0x30] else r)
     ((shift_digits len shift r)[len := 0x30, len + 1 := 0x2E]) [2..<shift]" for r :: bytes
  have l: "length r = 32" "length q = 32" using assms(1) by (simp_all add: agree_def)
  have b: "length (body u) = 32" "k < 32 \<Longrightarrow> body u ! k = (if len + 2 \<le> k \<and> k < len + shift then 0x30 else if k = len then 0x30
      else if k = len + 1 then 0x2E else if len + shift \<le> k \<and> k < len + 9 + shift then u ! (k - shift) else u ! k)" if "length u = 32" for u k
    using zero_loop [of len "(shift_digits len shift u)[len := 0x30, len + 1 := 0x2E]" 2 shift k] that assms(2) s
    by (auto simp: body_def nth_list_update nth_shift_digits)
  have "agree (len + 2 + nat places) (body r) (body q)"
  proof -
    have "body r ! k = body q ! k" if k: "k < len + 2 + nat places" for k
    proof -
      have "k < 32" using k assms(2,4) by simp
      moreover have "k - shift < len + 9" using k s assms(4) by linarith
      ultimately show ?thesis using b(2) [OF l(1)] b(2) [OF l(2)] assms(1) k s assms(4) by (auto simp: agree_def)
    qed
    then show ?thesis using b(1) l by (simp add: agree_def)
  qed
  moreover have "len + 2 + nat places \<le> 32" using assms by simp
  ultimately show ?thesis using text_of_agree [OF _ _ assms(5)] assms(3)
    unfolding small_notation_def Let_def shift_def [symmetric] body_def by (simp del: One_nat_def)
qed

lemma large_notation_agree:
  assumes "agree (len + 9) r q" "len \<le> 1" "1 \<le> places" "places \<le> 9" "0 < width" "e \<le> 8"
  shows "\<exists>t. large_notation width places len e r = Some t \<and> large_notation width places len e q = Some t \<and> length t = nat width"
proof -
  have l: "length r = 32" "length q = 32" using assms(1) by (simp_all add: agree_def)
  define stop where "stop = len + e + 2 + nat places"
  have s: "stop \<le> 32" using assms by (simp add: stop_def)
  define pt where "pt u = (open_point len e u)[len + e + 1 := 0x2E]" for u :: bytes
  have pl: "length (pt u) = 32" if "length u = 32" for u using that assms(2) by (simp add: pt_def nth_open_point(2))
  have pn: "pt u ! k = (if k = len + e + 1 then 0x2E else if len + e + 2 \<le> k \<and> k < len + 10 then u ! (k - 1) else u ! k)"
    if "length u = 32" "k < 32" for u k
    using that assms(2,6) by (auto simp: pt_def nth_open_point nth_list_update)
  have st: "store (len + e + 1) 0x2E (open_point len e u) = Some (pt u)" if "length u = 32" for u
    using that assms(2,6) by (simp add: store_def pt_def nth_open_point(2))
  obtain r' q' where f: "fill_zeros (len + 10) stop (pt r) = Some r'" "fill_zeros (len + 10) stop (pt q) = Some q'"
     "length r' = 32" "length q' = 32" "\<forall>k. r' ! k = (if len + 10 \<le> k \<and> k < stop then 0x30 else pt r ! k)"
     "\<forall>k. q' ! k = (if len + 10 \<le> k \<and> k < stop then 0x30 else pt q ! k)"
    using fill_zeros_value [of stop "pt r" "len + 10"] fill_zeros_value [of stop "pt q" "len + 10"] s pl l by auto
  have "agree stop r' q'"
  proof -
    have "r' ! k = q' ! k" if k: "k < stop" for k
    proof (cases "len + 10 \<le> k")
      case False
      have "k < 32" using k s by simp
      have "pt r ! k = pt q ! k" unfolding pn [OF l(1) \<open>k < 32\<close>] pn [OF l(2) \<open>k < 32\<close>]
        using assms(1,6) False by (auto simp: agree_def)
      then show ?thesis using f False by simp
    qed (use f k in simp)
    then show ?thesis using f by (simp add: agree_def)
  qed
  from text_of_agree [OF this s assms(5)] show ?thesis
    unfolding large_notation_def Let_def stop_def [symmetric] st [OF l(1)] st [OF l(2)] using assms(3) f by simp
qed

lemma fmt_digits_agree:
  assumes "length stk = 32" "length stk' = 32" "1 \<le> places" "places \<le> 9" "0 < width" "width \<le> places + 10"
  shows "\<exists>t. fmt_digits neg stk (m, e) width places = Some t \<and> fmt_digits neg stk' (m, e) width places = Some t \<and> length t = nat width"
proof -
  define len :: nat where "len = (if neg then 1 else 0)"
  define ds where "ds = mantissa_digits m"
  define r where "r stk = wr (if neg then wr stk 0 [0x2D] else stk) len ds" for stk
  have d: "length ds = 9" by (simp add: ds_def mantissa_digits_def)
  have n: "r s ! k = (if len \<le> k then ds ! (k - len) else 0x2D)" if "length s = 32" "k < len + 9" for s k
    using that d by (cases "k = 0") (auto simp: r_def nth_wr len_def nth_list_update)
  have a: "agree (len + 9) (r stk) (r stk')"
    using assms(1,2) n by (simp add: agree_def) (simp add: r_def)
  show ?thesis
  proof (cases "width - places - 2 < e")
    case True
    have t: "take len (r s) = (if neg then [0x2D] else [])" if "length s = 32" for s
      using n [OF that, of 0] that by (auto simp: len_def take_Suc_conv_app_nth r_def)
    have "\<exists>b. toSci ds e (trailing_zeros ds) = Some b"
    proof -
      have "\<exists>b. toBase v 10 = Some b" for v using toBase_correct [of 10 v] by auto
      then show ?thesis by (auto simp: toSci_def Let_def)
    qed
    then obtain b where "toSci ds e (trailing_zeros ds) = Some b" by auto
    moreover have "length (padCopy width c u) = nat width" for c u using assms(5) by (simp add: padCopy_def)
    ultimately show ?thesis using True assms(3,5) t [OF assms(1)] t [OF assms(2)]
      by (simp add: fmt_digits_def len_def [symmetric] ds_def [symmetric] r_def [symmetric] Let_def)
  next
    case False
    have l: "len \<le> 1" by (simp add: len_def)
    show ?thesis
    proof (cases "e < 0")
      case True
      from small_notation_agree [OF a l assms(3-5) this] show ?thesis using False True assms(3,5)
        by (simp add: fmt_digits_def len_def [symmetric] ds_def [symmetric] r_def [symmetric])
    next
      case F: False
      have "nat e \<le> 8" using False F assms(6) by simp
      from large_notation_agree [OF a l assms(3-5) this] show ?thesis using False F assms(3,5)
        by (simp add: fmt_digits_def len_def [symmetric] ds_def [symmetric] r_def [symmetric])
    qed
  qed
qed

lemma fmtFloat_fits:
  assumes "float_valid v" "length stk = 32" "length stk' = 32" "1 \<le> places" "places \<le> 9" "0 < width" "width \<le> places + 10"
  shows "\<exists>t. fmtFloat neg stk v width places = Some t \<and> fmtFloat neg stk' v width places = Some t \<and> length t = nat width"
proof (cases v)
  case (Fin x)
  show ?thesis
  proof (cases "x = 0")
    case True
    then show ?thesis using assms(4-6) by (auto simp: fmtFloat_def Fin Let_def padCopy_def)
  next
    case False
    then have x: "is_f32 \<bar>x\<bar>" "0 < \<bar>x\<bar>" "\<bar>x\<bar> < 2 ^ 128" using assms(1) by (auto simp: float_valid_def Fin abs_if)
    from decimal_exponent_range [OF x] obtain e where e: "decimal_exponent \<bar>x\<bar> = Some e" "- 45 \<le> e" "e \<le> 38" "\<bar>x\<bar> \<le> above e" by blast
    from scaled_Some [OF x(1) _ e(4,2,3)] obtain m where m: "scaled_mantissa \<bar>x\<bar> e = Some m" by auto
    obtain m' e' where a: "align_mantissa m e = (m', e')" by fastforce
    from fmt_digits_agree [OF assms(2-7), of "x < 0" m' e'] show ?thesis using False
      by (simp add: fmtFloat_def Fin e(1) m a)
  qed
qed (use assms(6) in \<open>auto simp: fmtFloat_def Let_def padCopy_def\<close>)

section \<open>Properties\<close>

text \<open>
  C17: with a width and a number of places as the status pages use them, every float is printed: the text has exactly the
  width, no access leaves an array, no conversion is out of range, and no byte of it comes from uninitialised memory.
\<close>

theorem fmtFloat_defined:
  assumes "float_valid v" "length stk = 32" "length stk' = 32" "1 \<le> places" "places \<le> 9" "0 < width" "width \<le> places + 10"
  shows "\<exists>t. fmtFloat neg stk v width places = Some t \<and> fmtFloat neg stk' v width places = Some t \<and> length t = nat width"
  by (rule fmtFloat_fits [OF assms])

theorem fmtFloat_defined_witness:
  "\<exists>t. fmtFloat False (replicate 32 0) (Fin (- 123 / 2)) 12 4 = Some t \<and> length t = 12
    \<and> t = ascii ''    -61.5000''"
proof -
  have v: "float_valid (Fin (- 123 / 2))" using is_f32_scaled [of "- 123" "- 1"] by (simp add: float_valid_def)
  obtain t where t: "fmtFloat False (replicate 32 0) (Fin (- 123 / 2)) 12 4 = Some t" "length t = 12"
    using fmtFloat_defined [OF v, of "replicate 32 0" "replicate 32 0" 4 12 False] by auto
  have "fmtFloat False (replicate 32 0) (Fin (- 123 / 2)) 12 4 = Some (ascii ''    -61.5000'')" by code_simp
  with t show ?thesis by simp
qed

text \<open>
  outside that use the text goes wrong. A number too long for its width loses its sign and its first digits, and a
  large number without a width shows a byte of the stack, or is written beyond the array.
\<close>

theorem fmtFloat_overlong:
  "fmtFloat neg (replicate 32 c) (Fin (- 12345678)) 12 4 = Some (ascii ''.23456784e+7'')
   \<and> fmtFloat neg (replicate 32 c) (Fin 12345678) 12 4 = Some (ascii ''.23456784e+7'')
   \<and> fmtFloat neg (replicate 32 c) (Fin 2100000000) 0 0 = Some (ascii ''210000000'' @ [c])
   \<and> fmtFloat neg (replicate 32 c) (Fin (2 ^ 103)) 0 2 = None"
proof -
  have a: "decimal_exponent 12345678 = Some 7" by code_simp
  have b: "scaled_mantissa 12345678 7 = Some 123456784" by code_simp
  have c: "decimal_exponent 2100000000 = Some 9" by code_simp
  have d: "scaled_mantissa 2100000000 9 = Some 210000000" by code_simp
  have e: "decimal_exponent (2 ^ 103) = Some 31" by code_simp
  have f: "scaled_mantissa (2 ^ 103) 31 = Some 101412048" by code_simp
  have g: "align_mantissa 123456784 7 = (123456784, 7)" "align_mantissa 210000000 9 = (210000000, 9)"
    "align_mantissa 101412048 31 = (101412048, 31)" by (simp_all add: align_mantissa_def)
  have h: "fmt_digits True (replicate 32 c) (123456784, 7) 12 4 = Some (ascii ''.23456784e+7'')" by code_simp
  have i: "fmt_digits False (replicate 32 c) (123456784, 7) 12 4 = Some (ascii ''.23456784e+7'')" by code_simp
  have j: "fmt_digits False (replicate 32 c) (210000000, 9) 0 0 = Some (ascii ''210000000'' @ [c])" by code_simp
  have k: "fmt_digits False (replicate 32 c) (101412048, 31) 0 2 = None" by code_simp
  have l: "fmtFloat neg s (Fin x) w q = Option.bind (decimal_exponent \<bar>x\<bar>) (\<lambda>e. Option.bind (scaled_mantissa \<bar>x\<bar> e)
      (\<lambda>m. fmt_digits (x < 0) s (align_mantissa m e) w q))" if "x \<noteq> 0" for s x w q
    using that by (simp add: fmtFloat_def)
  show ?thesis by (intro conjI; subst l) (simp_all add: a b c d e [simplified] f [simplified] g h i j k)
qed

end
