(* ===== verification/Status.thy ===== *)
theory Status
  imports Pll Scheduler Gps FloatText
begin

text \<open>
  The status pages (status.cpp, the status functions of pll.cpp, tcmp.cpp and run.cpp). A page is written
  with \<open>append\<close> into the body of the reply; a function of the model returns the bytes that it appends, and \<open>None\<close>
  is an access outside an array. What is read from the hardware is in \<open>hw_readings\<close>; \<open>stk\<close> is the uninitialised memory that
  the local arrays of \<open>fmtFloat\<close> occupy, and a zero is printed as a positive one.
\<close>

unbundle bit_operations_syntax

section \<open>Text\<close>

type_synonym doc = "bytes option"

definition say :: "string \<Rightarrow> doc" where "say s = Some (ascii s)"

definition nl :: doc where "nl = Some [0x0A]"

primrec docs :: "doc list \<Rightarrow> doc" where
  "docs [] = Some []"
| "docs (d # ds) = Option.bind d (\<lambda>a. map_option (\<lambda>b. a @ b) (docs ds))"

definition hex8 :: "u32 \<Rightarrow> doc" where "hex8 v = toHex v 8 0x30"

definition fixed_text :: "u64 \<Rightarrow> doc" where
  "fixed_text v = docs [say ''0x'', hex8 (ucast (drop_bit 32 v)), say ''.'', hex8 (ucast v)]"

text \<open>A number is formatted into an array of 32 characters and closed with a zero.\<close>

definition float_text :: "bytes \<Rightarrow> flt \<Rightarrow> int \<Rightarrow> int \<Rightarrow> doc" where
  "float_text stk v width places =
     Option.bind (fmtFloat False stk v width places) (\<lambda>t. if length t < 32 then Some (cstr t) else None)"

definition item :: "string \<Rightarrow> doc \<Rightarrow> string \<Rightarrow> doc" where
  "item label d unit = docs [say label, d, say unit, nl]"

section \<open>Pages\<close>

definition mega :: flt where "mega = Fin (10 ^ 6)"

definition tcmp_status :: "bytes \<Rightarrow> tcmp \<Rightarrow> doc" where
  "tcmp_status stk s =
     (let f = (\<lambda>v. float_text stk v 12 4); (m0, m1, m2) = tcmpMean s; (c0, c1, c2) = tcmpCoeff s
      in docs [item ''tcomp status:'' (say []) [],
               item ''  - temp:    '' (f (tempValue s)) '' C'',
               item ''  - noise:   '' (f (tempNoise s)) '' C'',
               item ''  - fill:    '' (f m2) [],
               item ''  - rmse:    '' (f (tcmpRmse s * mega)) '' ppm'',
               item ''  - mean[0]: '' (f m0) '' C'',
               item ''  - mean[1]: '' (f (m1 * mega)) '' ppm'',
               item ''  - coef[0]: '' (f (c0 * mega)) '' ppm'',
               item ''  - coef[1]: '' (f (c1 * mega)) '' ppm/C'',
               item ''  - coef[2]: '' (f (c2 * mega)) '' ppm/C^2'',
               item ''  - curr:    '' (f (tcmpValue s * mega)) '' ppm'', nl])"

definition PLL_status :: "bytes \<Rightarrow> pll \<Rightarrow> tcmp \<Rightarrow> doc" where
  "PLL_status stk p s =
     (let f = (\<lambda>v. float_text stk (v * mega) 12 4)
      in docs [item ''offset status:'' (say []) [],
               item ''  - mean:  '' (f (offsetMean p)) '' us'',
               item ''  - dev:   '' (f (offsetStdDev p)) '' us'',
               item ''  - rms:   '' (f (offsetRms p)) '' us'',
               item ''  - pll p: '' (f (offsetProportion p)) '' ppm'',
               item ''  - pll i: '' (f (offsetIntegral p)) '' ppm'', nl,
               item ''drift status:'' (say []) [],
               item ''  - mean:  '' (f (driftMean p)) '' ppm'',
               item ''  - dev:   '' (f (driftStdDev p)) '' ppm'',
               item ''  - rms:   '' (f (driftRms p)) '' ppm'', nl,
               tcmp_status stk s])"

definition som_line :: "bytes \<Rightarrow> tcmp \<Rightarrow> nat \<Rightarrow> doc" where
  "som_line stk s i =
     (let (n0, n1, n2) = somNode s ! i; f = (\<lambda>v. fmtFloat False stk v 0 (- 1))
      in docs [f n0, say '', '', f (n1 * mega), say '', '', f n2, say (if i < SOM_NODE_CNT - 1 then '','' else []), nl])"

definition statusSom :: "bytes \<Rightarrow> tcmp \<Rightarrow> doc" where
  "statusSom stk s =
     docs ([item ''float som[16][3] = {'' (say []) []] @ map (som_line stk s) [0..<SOM_NODE_CNT] @ [item ''};'' (say []) []])"

definition statusClock :: "u32 \<Rightarrow> u32 \<Rightarrow> u32 \<Rightarrow> 'a cap_clk_scheme \<Rightarrow> doc" where
  "statusClock raw1 raw2 raw3 c =
     (let h = (\<lambda>v. docs [say ''0x'', hex8 v]); (pps0, pps1, pps2) = ppsGps c
      in docs [item ''clk mono:  '' (fixed_text (mono_now c raw1)) [],
               item ''clk comp:  '' (fixed_text (comp_now c raw2)) [],
               item ''clk tai:   '' (fixed_text (tai_now c raw3)) [], nl,
               item ''comp rate: '' (h (clkCompRate c)) [],
               item ''comp ref:  '' (fixed_text (clkCompRef c)) [],
               item ''comp off:  '' (fixed_text (clkCompOffset c)) [], nl,
               item ''tai rate:  '' (h (clkTaiRate c)) [],
               item ''tai ref:   '' (fixed_text (clkTaiRef c)) [],
               item ''tai off:   '' (fixed_text (clkTaiOffset c)) [], nl,
               item ''pps mono:  '' (fixed_text pps0) [],
               item ''pps comp:  '' (fixed_text pps1) [],
               item ''pps tai:   '' (fixed_text pps2) [], nl,
               item ''tai - utc: '' (fixed_text (clkTaiUtcOffset c)) [],
               item ''mon - eth: '' (h (ppsEthernetRaw c)) []])"

text \<open>What the pages read from the hardware and from constants of the build.\<close>

record hw_readings =
  rd_mono :: u32
  rd_comp :: u32
  rd_tai :: u32
  rd_seconds :: u32
  rxGood :: u32
  rxCrcErr :: u32
  rxOver :: u32
  txGood :: u32
  txOver :: u32
  phy100M :: bool
  phyDuplex :: bool
  versionFw :: u32
  did0 :: u32
  did1 :: u32
  uniqueId :: "u32 list"
  ramSize :: u32
  eepromSize :: u32
  flashSize :: u32
  ramUsed :: u32
  flashUsed :: u32
  eepromWord :: "u32 \<Rightarrow> u32"
  doNothingAddr :: u32
  rd_stack :: bytes

definition statusETH :: "hw_readings \<Rightarrow> ('cb, 'e, 'd, 'z) dhcpst_scheme \<Rightarrow> doc" where
  "statusETH r s =
     (let n = (\<lambda>v. toBase v 10)
      in docs [item ''hostname: '' (Some (cstr (hostname s))) [],
               item ''mac address: '' (Some (cstr (macToStr (myMac s)))) [],
               item ''mac router: '' (Some (cstr (macToStr (macRouter s)))) [],
               item ''ip address: '' (Some (addrToStr (ipAddress s))) [],
               item ''ip subnet: '' (Some (addrToStr (ipSubnet s))) [],
               item ''ip broadcast: '' (Some (addrToStr (ipBroadcast s))) [],
               item ''ip router: '' (Some (addrToStr (ipRouter s))) [],
               item ''ip dns: '' (Some (addrToStr (ipDNS s))) [],
               item ''rx packets: '' (n (rxGood r)) [],
               item ''rx crc errors: '' (n (rxCrcErr r)) [],
               item ''rx overflows: '' (n (rxOver r)) [],
               item ''tx packets: '' (n (txGood r)) [],
               item ''tx overflows: '' (n (txOver r)) [],
               item ''link speed: '' (docs [say (if phy100M r then ''100M '' else ''10M ''), say (if phyDuplex r then ''FDX'' else ''HDX'')]) [],
               item ''lease expires: '' (n (DHCP_expires (rd_seconds r) s)) []])"

definition statusGPS :: "bytes \<Rightarrow> gpsst \<Rightarrow> doc" where
  "statusGPS stk g =
     docs [item ''fix good: '' (say (if fixGood g \<noteq> 0 then ''yes'' else ''no'')) [],
           item ''latitude: '' (float_text stk (Fin (locLat g)) 0 5) '' deg'',
           item ''longitude: '' (float_text stk (Fin (locLon g)) 0 5) '' deg'',
           item ''altitude: '' (float_text stk (Fin (locAlt g)) 0 2) '' m'',
           item ''clock bias: '' (float_text stk (flt_int (sint (clkBias g))) 0 0) '' ns'',
           item ''clock drift: '' (float_text stk (flt_int (sint (clkDrift g))) 0 0) '' ns/s'',
           item ''time accuracy: '' (toBase (accTime g) 10) '' ns'',
           item ''frequency accuracy: '' (toBase (accFreq g) 10) '' ps/s'']"

definition statusSystem :: "bytes \<Rightarrow> hw_readings \<Rightarrow> doc" where
  "statusSystem stk r =
     (let n = (\<lambda>v. toBase v 10); h = (\<lambda>v. docs [say '' 0x'', hex8 v])
      in docs [item ''firmware: 0x'' (hex8 (versionFw r)) [],
               item ''device id:'' (docs [h (did0 r), h (did1 r)]) [],
               item ''unique id:'' (docs (map (\<lambda>i. h (uniqueId r ! i)) [0..<4])) [],
               item ''ram size: '' (n (ramSize r)) [],
               item ''eeprom size: '' (n (eepromSize r)) [],
               item ''flash size: '' (n (flashSize r)) [],
               item ''eeprom format: 0x'' (hex8 (eepromWord r 0)) [],
               item ''eeprom version: 0x'' (hex8 (eepromWord r 1)) [],
               item ''ram used: '' (n (ramUsed r)) [],
               item ''flash used: '' (n (flashUsed r)) [],
               item ''cpu clock: '' (float_text stk (flt_int CLK_FREQ * Fin (f32 (1 / 10 ^ 6))) 0 1) '' MHz''])"

definition statusEEPROM :: "hw_readings \<Rightarrow> u32 \<Rightarrow> doc" where
  "statusEEPROM r block =
     docs (item ''block 0x'' (toHex block 2 0x30) [] #
           map (\<lambda>i. item ''  '' (Some (toHexBytes (enc32 (eepromWord r (push_bit 4 block + of_nat i))))) []) [0..<16])"

section \<open>The task list\<close>

fun schedule_code :: "Schedule \<Rightarrow> u8" where
  "schedule_code Free = 0x2D" | "schedule_code Canceled = 0x43" | "schedule_code Sleep = 0x53"
| "schedule_code Periodic = 0x50" | "schedule_code Wait = 0x57" | "schedule_code Wake = 0x51"

fun call_address :: "u32 \<Rightarrow> RunCall \<Rightarrow> u32" where
  "call_address nothing NullCall = 0" | "call_address nothing DoNothing = nothing" | "call_address nothing (Call a) = a"

definition task_print :: "u32 \<Rightarrow> task \<Rightarrow> doc" where
  "task_print nothing t =
     docs [Some [schedule_code (schedule t), 0x20], toHex (call_address nothing (task.callback t)) 5 0x30, Some [0x20],
           toHex (task.reference t) 8 0x30]"

definition runStatus :: "u32 \<Rightarrow> sched \<Rightarrow> doc" where
  "runStatus nothing s =
     docs (item ''  Call  Context'' (say []) [] # map (\<lambda>i. docs [task_print nothing (node s i), nl]) [0..<poolSize])"

section \<open>The service\<close>

record host =
  h_readings :: hw_readings
  h_pll :: pll
  h_tcmp :: tcmp
  h_gps :: gpsst
  h_clock :: cap_clk
  h_tasks :: sched

definition hasTerminus :: "bytes \<Rightarrow> nat \<Rightarrow> bool" where
  "hasTerminus str offset \<longleftrightarrow> str ! offset = 0 \<or> str ! offset = 0x0A \<or> str ! offset = 0x0D"

definition strncmp_eq :: "bytes \<Rightarrow> string \<Rightarrow> bool" where
  "strncmp_eq body name \<longleftrightarrow> take (length name) body = ascii name"

definition strncpy :: "bytes \<Rightarrow> bytes \<Rightarrow> nat \<Rightarrow> bytes" where
  "strncpy dst src n = (let t = take n (cstr src) in t @ replicate (n - length t) 0 @ drop n dst)"

definition invalid_command :: "bytes \<Rightarrow> bytes \<Rightarrow> nat \<Rightarrow> doc" where
  "invalid_command mem body n =
     (let tmp = strncpy mem body n
      in item ''invalid command: '' (if 0 \<in> set tmp then Some (cstr tmp) else None) [])"

definition status_page :: "bytes \<Rightarrow> host \<Rightarrow> ('cb, 'e, 'd, 'z) dhcpst_scheme \<Rightarrow> bytes \<Rightarrow> nat \<Rightarrow> doc" where
  "status_page mem h s body n =
     (let r = h_readings h; stk = rd_stack r
      in if strncmp_eq body ''clock'' \<and> hasTerminus body 8 then statusClock (rd_mono r) (rd_comp r) (rd_tai r) (h_clock h)
         else if strncmp_eq body ''eeprom'' \<and> hasTerminus body 8 then statusEEPROM r (fromHex (rd body 6 2))
         else if strncmp_eq body ''ethernet'' \<and> hasTerminus body 8 then statusETH r s
         else if strncmp_eq body ''gps'' \<and> hasTerminus body 3 then statusGPS stk (h_gps h)
         else if strncmp_eq body ''pll'' \<and> hasTerminus body 3 then PLL_status stk (h_pll h) (h_tcmp h)
         else if strncmp_eq body ''system'' \<and> hasTerminus body 6 then statusSystem stk r
         else if strncmp_eq body ''run'' \<and> hasTerminus body 3 then runStatus (doNothingAddr r) (h_tasks h)
         else if strncmp_eq body ''som'' \<and> hasTerminus body 3 then statusSom stk (h_tcmp h)
         else invalid_command mem body n)"

text \<open>
  \<open>mem\<close> is the memory that the reply buffer (1520 bytes) and the 32 bytes of \<open>tmp\<close> occupy. \<open>append\<close> writes a zero
  behind the text.
\<close>

definition status_process :: "bytes \<times> bytes \<Rightarrow> host \<Rightarrow> bytes \<Rightarrow> nat \<Rightarrow> ('cb, 'e, 'd, 'z) dhcpst_scheme \<Rightarrow> ('cb, 'e, 'd, 'z) dhcpst_scheme option" where
  "status_process mem h frame flen s =
     (if flen > 128 then Some s
      else if isMyMAC s (rd frame eth_macDst 6) \<noteq> 0 then Some s
      else if get32 frame ip4_dst \<noteq> ipAddress s then Some s
      else let size = (ucast (htons (get16 frame udp_length)) :: u32) - 8
           in if size > 31 then Some s
              else let f = returnToSender (take flen frame @ drop flen (fst mem));
                       f = put8 f (42 + unat size) 0
                   in case status_page (snd mem) h s (drop 42 f) (unat size) of
                        None \<Rightarrow> None
                      | Some t \<Rightarrow>
                          if 42 + length t < 1520
                          then let flen = 42 + length t
                               in Some (transmit_frame (IPv4_finalize (UDP_finalize (wr f 42 (t @ [0])) flen) flen) flen s)
                          else None)"

definition status_init :: "'cb \<Rightarrow> ('cb, 'z) ipst_scheme \<Rightarrow> ('cb, 'z) ipst_scheme" where
  "status_init process s = snd (UDP_register 23 process s)"

subsection \<open>Words\<close>

text \<open>The words of the service, and the index at which it looks for their end.\<close>

definition commands :: "(string \<times> nat) list" where
  "commands = [(''clock'', 8), (''eeprom'', 8), (''ethernet'', 8), (''gps'', 3), (''pll'', 3), (''system'', 6), (''run'', 3), (''som'', 3)]"

definition recognised :: "bytes \<Rightarrow> bool" where
  "recognised body \<longleftrightarrow> list_ex (\<lambda>(w, k). strncmp_eq body w \<and> hasTerminus body k) commands"

lemma recognised_clock: "recognised (ascii ''clock'' @ [x, y, z, d] @ rest) \<longleftrightarrow> d \<in> {0, 0x0A, 0x0D}"
  by (simp add: recognised_def commands_def strncmp_eq_def hasTerminus_def ascii_def)

lemma status_page_clock:
  "d \<in> {0, 0x0A, 0x0D} \<Longrightarrow> status_page m h s (ascii ''clock'' @ [x, y, z, d] @ rest) k
    = statusClock (rd_mono (h_readings h)) (rd_comp (h_readings h)) (rd_tai (h_readings h)) (h_clock h)"
  by (auto simp: status_page_def strncmp_eq_def hasTerminus_def ascii_def Let_def)

lemma status_page_unknown: "\<not> recognised body \<Longrightarrow> status_page mem h s body n = invalid_command mem body n"
  unfolding recognised_def commands_def status_page_def Let_def by auto

lemma cstr_append: "cstr (t @ u) = (if 0 \<in> set t then cstr t else t @ cstr u)"
  by (auto simp: cstr_def takeWhile_append takeWhile_eq_all_conv)

lemma invalid_command_text:
  assumes "n \<le> 31" "length mem = 32"
  shows "invalid_command mem body n
    = (let w = take n (cstr body); behind = drop n mem
       in if length w < n then Some (ascii ''invalid command: '' @ w @ [0x0A])
          else if 0 \<in> set behind then Some (ascii ''invalid command: '' @ w @ cstr behind @ [0x0A])
          else None)"
proof -
  define w where "w = take n (cstr body)"
  have z: "0 \<notin> set w" unfolding w_def cstr_def using set_takeWhileD [of 0 "\<lambda>c. c \<noteq> 0" body] by (auto dest: in_set_takeD)
  have t: "strncpy mem body n = w @ replicate (n - length w) 0 @ drop n mem" by (simp add: strncpy_def w_def Let_def)
  have i: "item ''invalid command: '' (Some u) [] = Some (ascii ''invalid command: '' @ u @ [0x0A])" for u
    by (simp add: item_def say_def nl_def ascii_def)
  have j: "item ''invalid command: '' None [] = None" by (simp add: item_def say_def)
  show ?thesis
  proof (cases "length w < n")
    case True
    then have "cstr (strncpy mem body n) = w" "0 \<in> set (strncpy mem body n)"
      using z by (auto simp: t cstr_append) (simp add: cstr_def)
    then show ?thesis using True by (simp add: invalid_command_def Let_def i flip: w_def)
  next
    case False
    then have "strncpy mem body n = w @ drop n mem" by (simp add: t)
    then show ?thesis using False z by (auto simp: invalid_command_def Let_def i j cstr_append simp flip: w_def)
  qed
qed

section \<open>Texts that fit\<close>

text \<open>Two documents are the same text of at most \<open>n\<close> characters, though their arrays held different memory before.\<close>

definition same_text :: "doc \<Rightarrow> doc \<Rightarrow> nat \<Rightarrow> bool" where
  "same_text d d' n \<longleftrightarrow> (\<exists>t. d = Some t \<and> d' = Some t \<and> length t \<le> n)"

named_theorems texts "the sizes of the parts of a page"

lemma text_weaken: "same_text d d' m \<Longrightarrow> m \<le> n \<Longrightarrow> same_text d d' n"
  by (auto simp: same_text_def)

lemma text_docs [texts]:
  "same_text (docs []) (docs []) 0"
  "same_text d d' m \<Longrightarrow> same_text (docs ds) (docs ds') n \<Longrightarrow> same_text (docs (d # ds)) (docs (d' # ds')) (m + n)"
  by (auto simp: same_text_def)

lemma text_say [texts]: "same_text (say s) (say s) (length s)" "same_text nl nl 1" "same_text (Some t) (Some t) (length t)"
  by (simp_all add: same_text_def say_def nl_def ascii_def)

lemma text_item [texts]: "same_text d d' n \<Longrightarrow> same_text (item l d u) (item l d' u) (length l + (n + (length u + (1 + 0))))"
  unfolding item_def by (intro texts)

lemma toHex_digits: "0 < w \<Longrightarrow> \<exists>ds. toHex v w 0x30 = Some ds \<and> length ds = nat w \<and> numeral_val 16 ds = unat v mod 16 ^ nat w"
  using fmtBase_correct [of 16 v w] by (auto simp: toHex_def)

lemma text_hex [texts]: "same_text (hex8 v) (hex8 v) 8" "same_text (toHex v 2 0x30) (toHex v 2 0x30) 2"
  using toHex_digits [of 8 v] toHex_digits [of 2 v] by (auto simp: same_text_def hex8_def)

lemma text_number [texts]: "same_text (toBase v 10) (toBase v 10) 32"
  using toBase_correct [of 10 v] by (auto simp: same_text_def)

lemma text_fixed [texts]: "same_text (fixed_text v) (fixed_text v) (2 + (8 + (1 + (8 + 0))))"
  using text_docs(2) [OF text_say(1) text_docs(2) [OF text_hex(1) text_docs(2) [OF text_say(1) text_docs(2) [OF text_hex(1) text_docs(1)]]],
    of "''0x''" "ucast (drop_bit 32 v)" "''.''" "ucast v"] by (simp add: fixed_text_def)

text \<open>A page of many equal lines.\<close>

lemma text_lines:
  assumes "\<And>x. x \<in> set xs \<Longrightarrow> same_text (f x) (g x) n"
  shows "same_text (docs (map f xs)) (docs (map g xs)) (n * length xs)"
  using assms
proof (induction xs)
  case (Cons x xs)
  then have "same_text (docs (f x # map f xs)) (docs (g x # map g xs)) (n + n * length xs)" by (intro text_docs) auto
  then show ?case by simp
qed (simp add: same_text_def)

lemma text_float:
  assumes "float_valid v" "length stk = 32" "length stk' = 32"
  shows "same_text (float_text stk v 12 4) (float_text stk' v 12 4) 12"
proof -
  from fmtFloat_fits [OF assms, of 4 12 False] obtain t where
    t: "fmtFloat False stk v 12 4 = Some t" "fmtFloat False stk' v 12 4 = Some t" "length t = 12" by auto
  have "length (cstr t) \<le> 12" using length_takeWhile_le [of "\<lambda>c. c \<noteq> 0" t] t(3) by (simp add: cstr_def)
  with t show ?thesis by (simp add: same_text_def float_text_def)
qed

section \<open>The values of the compensation\<close>

definition temp_valid :: "tcmp \<Rightarrow> bool" where
  "temp_valid s \<longleftrightarrow> float_valid (tempValue s) \<and> float_valid (tempNoise s) \<and> node_valid (tcmpMean s) \<and> node_valid (reg_mean s)"

lemma computeMean_valid: "node_valid (reg_mean (computeMean d s))"
proof -
  define f :: "triple \<Rightarrow> triple \<Rightarrow> triple" where "f = (\<lambda>(m0, m1, m2) (d0, d1, d2). (m0 + d0 * d2, m1 + d1 * d2, m2 + d2))"
  have "float_valid (snd (snd (foldl f m d)))" if "float_valid (snd (snd m))" for m d
    using that by (induction d arbitrary: m) (auto simp: f_def split: prod.split)
  from this [of "(Fin 0, Fin 0, Fin 0)" d] show ?thesis
    by (auto simp: computeMean_def f_def [symmetric] Let_def node_valid_def split: prod.split)
qed

lemma temp_frame:
  "tempValue (computeMean d s) = tempValue s" "tempNoise (computeMean d s) = tempNoise s" "tcmpMean (computeMean d s) = tcmpMean s"
  "tempValue (fitQuadratic d s) = tempValue s" "tempNoise (fitQuadratic d s) = tempNoise s" "tcmpMean (fitQuadratic d s) = tcmpMean s"
  "reg_mean (fitQuadratic d s) = reg_mean s" "reg_mean (computeMSE d s) = reg_mean s"
  "tempValue (computeMSE d s) = tempValue s" "tempNoise (computeMSE d s) = tempNoise s" "tcmpMean (computeMSE d s) = tcmpMean s"
  "tempValue (updateSom a b c s) = tempValue s" "tempNoise (updateSom a b c s) = tempNoise s" "tcmpMean (updateSom a b c s) = tcmpMean s"
  "reg_mean (updateSom a b c s) = reg_mean s"
  by (simp_all add: computeMean_def fitQuadratic_def computeMSE_def updateSom_def seedSom_def Let_def case_prod_unfold)

lemma steps_valid: "k < 9 \<Longrightarrow> temp_valid s \<Longrightarrow> temp_valid (snd ((steps expf ! k) s))"
proof -
  assume a: "k < 9" "temp_valid s"
  then have "k \<in> {0,1,2,3,4,5,6,7,8}" by auto
  with a(2) computeMean_valid [of "somNode s" s] computeMean_valid [of "scratch s" s] show ?thesis
    by (auto simp: steps_def step0_def step1_def step2_def step3_def step4_def step5_def step6_def step7_def step8_def temp_valid_def temp_frame Let_def)
qed

lemma temp_step_valid: "tcmp_step expf s t \<Longrightarrow> temp_valid s \<Longrightarrow> temp_valid t"
proof (induction rule: tcmp_step.induct)
  case (Temperature s c)
  then show ?case by (simp add: runTemperature_def temp_valid_def Let_def)
next
  case (Compensation raw s c t d)
  have "float_valid (fst (temp_fit s))" "float_valid (snd (temp_fit s))"
    by (simp_all add: temp_fit_def Let_def case_prod_unfold)
  with Compensation show ?case
    by (auto simp: runCompensation_def temp_valid_def Let_def split: if_splits prod.splits option.splits)
next
  case (Regression s)
  show ?case
  proof (cases "9 \<le> regressionStep s")
    case True
    then show ?thesis using Regression by (simp add: runRegression_def temp_valid_def)
  next
    case False
    with steps_valid [of "regressionStep s" s expf] Regression show ?thesis
      by (simp add: runRegression_def temp_valid_def Let_def case_prod_unfold)
  qed
next
  case (Update target s now weight)
  then show ?case by (simp add: tcmp_update_def saveSom_def temp_valid_def temp_frame Let_def)
qed

lemma temp_reach_valid: "tcmp_reach expf s \<Longrightarrow> temp_valid s"
proof (induction rule: tcmp_reach.induct)
  case (Start ee)
  then show ?case by (simp add: tcmp_init_def loadSom_def tcmp_reset_def temp_valid_def node_valid_def Let_def)
qed (use temp_step_valid in blast)

section \<open>The pages\<close>

lemma text_clock: "same_text (statusClock a b c s) (statusClock a b c s) 470"
proof (cases "ppsGps s")
  case (fields p0 p1 p2)
  show ?thesis unfolding statusClock_def Let_def fields prod.case
    by (rule text_weaken, (rule texts)+) simp
qed

lemma text_pll:
  assumes "temp_valid s" "length stk = 32" "length stk' = 32"
  shows "same_text (PLL_status stk p s) (PLL_status stk' p s) 700"
proof -
  obtain m0 m1 m2 c0 c1 c2 where m: "tcmpMean s = (m0, m1, m2)" "tcmpCoeff s = (c0, c1, c2)" by (cases "tcmpMean s"; cases "tcmpCoeff s") auto
  have v: "float_valid (tempValue s)" "float_valid (tempNoise s)" "float_valid m0" "float_valid m2"
    using assms(1) by (simp_all add: temp_valid_def node_valid_def m)
  note f = text_float [OF _ assms(2,3)]
  show ?thesis unfolding PLL_status_def tcmp_status_def Let_def m prod.case
    by (rule text_weaken, (rule texts f valid_arith v)+) simp
qed

lemma text_mac: "same_text (Some (cstr (macToStr m))) (Some (cstr (macToStr m))) 18"
proof -
  have h: "length (toHex_text b) = 2" for b using toHex_digits [of 2 "ucast b"] by (auto simp: toHex_text_def)
  have "length (concat (map (\<lambda>b. toHex_text b @ [0x3A]) bs)) = 3 * length bs" for bs by (induction bs) (simp_all add: h)
  from this [of "take 6 m"] have "length (macToStr m) \<le> 18" by (simp add: macToStr_def)
  with length_takeWhile_le [of "\<lambda>c. c \<noteq> 0" "macToStr m"] show ?thesis by (simp add: same_text_def cstr_def)
qed

lemma text_addr: "same_text (Some (addrToStr a)) (Some (addrToStr a)) 131"
proof -
  have l: "length (toBase_text v) \<le> 32" for v using toBase_correct [of 10 v] by (auto simp: toBase_text_def)
  show ?thesis
    using l [of "drop_bit 0 a AND 0xFF"] l [of "drop_bit 8 a AND 0xFF"] l [of "drop_bit 16 a AND 0xFF"] l [of "drop_bit 24 a AND 0xFF"]
    by (simp add: same_text_def addrToStr_def)
qed

lemma text_ethernet:
  assumes "length (hostname s) \<le> 16"
  shows "same_text (statusETH r s) (statusETH r s) 1400"
proof -
  have h: "same_text (Some (cstr (hostname s))) (Some (cstr (hostname s))) 16"
    using assms length_takeWhile_le [of "\<lambda>c. c \<noteq> 0" "hostname s"] by (simp add: same_text_def cstr_def)
  show ?thesis unfolding statusETH_def Let_def
    by (rule text_weaken, (rule h text_mac text_addr texts)+) (cases "phy100M r"; cases "phyDuplex r"; simp)
qed

lemma text_125:
  assumes "length stk = 32"
  shows "float_text stk (Fin 125) 0 1 = Some (ascii ''125.0'')"
proof -
  have "fmt_digits False ([a, b, c, d, e, f, g, h, i, j] @ rest) (125000000, 2) 0 1 = Some (ascii ''125.0'')" if "length rest = 22" for a b c d e f g h i j rest
  proof -
    have m: "mantissa_digits 125000000 = ascii ''125000000''" by code_simp
    have o: "open_point 0 2 (ascii ''125000000'' @ j # rest) = ascii ''1250000000'' @ rest"
      by (simp add: open_point_def upt_rec ascii_def nth_append)
    have w: "wr ([a, b, c, d, e, f, g, h, i, j] @ rest) 0 (ascii ''125000000'') = ascii ''125000000'' @ j # rest" by (simp add: ascii_def)
    show ?thesis using that by (simp add: fmt_digits_def m w Let_def large_notation_def o)
        (simp add: store_def fill_zeros_def text_of_def padCopy_def ascii_def o [unfolded ascii_def, simplified])
  qed
  moreover obtain a b c d e f g h i j rest where "stk = [a, b, c, d, e, f, g, h, i, j] @ rest" "length rest = 22"
    using assms by (auto simp: numeral_eq_Suc length_Suc_conv)
  moreover have "decimal_exponent 125 = Some 2" "scaled_mantissa 125 2 = Some 125000000" by code_simp+
  ultimately show ?thesis by (simp add: float_text_def fmtFloat_def align_mantissa_def ascii_def cstr_def)
qed

lemma text_system:
  assumes "length stk = 32" "length stk' = 32"
  shows "same_text (statusSystem stk r) (statusSystem stk' r) 500"
proof -
  have v: "flt_int CLK_FREQ * Fin (f32 (1 / 10 ^ 6)) = Fin 125" by code_simp
  have f: "same_text (float_text stk (Fin 125) 0 1) (float_text stk' (Fin 125) 0 1) 5"
    using assms by (simp add: same_text_def text_125 ascii_def)
  have i: "map g [0..<4] = [g 0, g 1, g 2, g 3]" for g :: "nat \<Rightarrow> doc" by (simp add: upt_rec numeral_2_eq_2 numeral_3_eq_3)
  show ?thesis unfolding statusSystem_def Let_def v i
    by (rule text_weaken, (rule f texts)+) simp
qed

lemma text_eeprom: "same_text (statusEEPROM r b) (statusEEPROM r b) 300"
proof -
  have w: "same_text (Some (toHexBytes (enc32 v))) (Some (toHexBytes (enc32 v))) 11" for v
    by (simp add: same_text_def toHexBytes_def hex_byte_def enc32_def enc16_def)
  have "same_text (docs (map (\<lambda>i. item ''  '' (Some (toHexBytes (enc32 (eepromWord r (push_bit 4 b + of_nat i))))) []) [0..<16]))
      (docs (map (\<lambda>i. item ''  '' (Some (toHexBytes (enc32 (eepromWord r (push_bit 4 b + of_nat i))))) []) [0..<16]))
      ((2 + (11 + (0 + (1 + 0)))) * length [0..<16])"
    by (rule text_lines) (use text_item [OF w, where l = "''  ''" and u = "[]"] in simp)
  from text_docs(2) [OF text_item [OF text_hex(2), where l = "''block 0x''" and u = "[]"] this] show ?thesis
    unfolding statusEEPROM_def by (rule text_weaken) simp
qed

section \<open>The task list\<close>

definition task_line :: "u32 \<Rightarrow> task \<Rightarrow> bytes \<Rightarrow> bool" where
  "task_line nothing t line \<longleftrightarrow>
     length line = 17 \<and> line ! 0 = schedule_code (schedule t) \<and> numeral_val 16 (rd line 2 5) = unat (call_address nothing (task.callback t)) mod 2 ^ 20
     \<and> numeral_val 16 (rd line 8 8) = unat (task.reference t) \<and> line ! 16 = 0x0A"

lemma task_line: "\<exists>line. docs [task_print nothing t, nl] = Some line \<and> task_line nothing t line"
proof -
  obtain a where a: "toHex (call_address nothing (task.callback t)) 5 0x30 = Some a" "length a = 5"
    "numeral_val 16 a = unat (call_address nothing (task.callback t)) mod 2 ^ 20" using toHex_digits [of 5] by fastforce
  obtain b where b: "toHex (task.reference t) 8 0x30 = Some b" "length b = 8" "numeral_val 16 b = unat (task.reference t)"
    using toHex_digits [of 8] unat_u32_lt [of "task.reference t"] by fastforce
  let ?l = "schedule_code (schedule t) # 0x20 # a @ 0x20 # b @ [0x0A]"
  have "docs [task_print nothing t, nl] = Some ?l" by (simp add: task_print_def a b nl_def)
  moreover have "rd ?l 2 5 = a" "rd ?l 8 8 = b" by (simp_all add: rd_def a b)
  moreover have "?l ! 16 = 0x0A" by (simp add: nth_append a b)
  ultimately show ?thesis using a b by (auto simp: task_line_def)
qed

lemma docs_lines:
  assumes "\<And>i. \<exists>l. f i = Some l \<and> length l = n \<and> P i l"
  shows "\<exists>t. docs (map f [0..<k]) = Some t \<and> length t = n * k \<and> (\<forall>i < k. P i (rd t (n * i) n))"
proof (induction k)
  case (Suc k)
  then obtain t where t: "docs (map f [0..<k]) = Some t" "length t = n * k" "\<forall>i < k. P i (rd t (n * i) n)" by blast
  obtain l where l: "f k = Some l" "length l = n" "P k l" using assms by blast
  have d: "docs (xs @ [y]) = Option.bind (docs xs) (\<lambda>a. map_option (\<lambda>b. a @ b) y)" for xs y
    by (cases y; induction xs) (auto split: Option.bind_split)
  have "P i (rd (t @ l) (n * i) n)" if "i < Suc k" for i
  proof (cases "i = k")
    case True
    then show ?thesis using l t(2) by (simp add: rd_def)
  next
    case False
    then have "n * i + n \<le> n * k" using that by (metis less_antisym mult_Suc_right add.commute mult_le_mono2 Suc_leI)
    then show ?thesis using t False that by (simp add: rd_append_left)
  qed
  then show ?case using t(1,2) l(1,2) by (simp add: d)
qed simp

lemma run_lines:
  "\<exists>t. runStatus nothing s = Some t \<and> length t = 16 + 17 * 32 \<and> (\<forall>i < 32. task_line nothing (node s i) (rd t (16 + 17 * i) 17))"
proof -
  have "\<exists>l. docs [task_print nothing (node s i), nl] = Some l \<and> length l = 17 \<and> task_line nothing (node s i) l" for i
    using task_line [of nothing "node s i"] by (auto simp: task_line_def)
  from docs_lines [where f = "\<lambda>i. docs [task_print nothing (node s i), nl]" and P = "\<lambda>i. task_line nothing (node s i)", OF this, of 32] obtain t where
    t: "docs (map (\<lambda>i. docs [task_print nothing (node s i), nl]) [0..<32]) = Some t" "length t = 17 * 32"
    "\<forall>i < 32. task_line nothing (node s i) (rd t (17 * i) 17)" by blast
  define h where "h = ascii ''  Call  Context'' @ [0x0A]"
  have h: "item ''  Call  Context'' (say []) [] = Some h" "length h = 16" by (simp_all add: item_def say_def nl_def h_def ascii_def)
  have "runStatus nothing s = Some (h @ t)"
    unfolding runStatus_def h(1) by (subst docs.simps(2)) (simp add: t(1) del: docs.simps)
  moreover have "rd (h @ t) (16 + 17 * i) 17 = rd t (17 * i) 17" for i by (simp add: rd_def h)
  ultimately show ?thesis using t h by (intro exI [of _ "h @ t"]) simp
qed

section \<open>Replies\<close>

text \<open>What the service reads as the command, and a request that it answers.\<close>

definition status_size :: "bytes \<Rightarrow> nat" where
  "status_size frame = unat ((ucast (htons (get16 frame udp_length)) :: u32) - 8)"

definition status_body :: "bytes \<Rightarrow> bytes \<Rightarrow> nat \<Rightarrow> bytes" where
  "status_body mem frame flen = (drop 42 (take flen frame @ drop flen mem))[status_size frame := 0]"

definition status_asks :: "('cb, 'z) ipst_scheme \<Rightarrow> bytes \<Rightarrow> nat \<Rightarrow> bool" where
  "status_asks s frame flen \<longleftrightarrow> 60 \<le> flen \<and> flen \<le> 128 \<and> flen \<le> length frame \<and> isMyMAC s (rd frame eth_macDst 6) = 0
     \<and> get32 frame ip4_dst = ipAddress s \<and> status_size frame \<le> 31"

definition status_answers :: "bytes \<Rightarrow> bytes \<Rightarrow> bytes \<Rightarrow> bool" where
  "status_answers frame r t \<longleftrightarrow>
     udp_verifies r (42 + length t) \<and> RFC1071_checksum (rd r ip4_head 20) = 0 \<and> rd r eth_macDst 6 = rd frame eth_macSrc 6
     \<and> get32 r ip4_dst = get32 frame ip4_src \<and> get32 r ip4_src = get32 frame ip4_dst
     \<and> get16 r udp_portDst = get16 frame udp_portSrc \<and> get16 r udp_portSrc = get16 frame udp_portDst
     \<and> rd r 42 (length t) = t"

lemma toSender_length [simp]: "length (returnToSender f) = length f"
  by (simp add: returnToSender_def copyMAC_def Let_def)

lemma toSender_body: "42 \<le> length f \<Longrightarrow> 42 \<le> j \<Longrightarrow> rd (returnToSender f) j n = rd f j n"
  unfolding returnToSender_def Let_def copyMAC_def
  by (simp add: rd_put_other) (subst rd_wr_disj; simp add: length_rd)+

lemma status_process_page:
  assumes "status_asks s frame flen" "length (fst mem) = 1520"
  shows "status_process mem h frame flen s = (case status_page (snd mem) h s (status_body (fst mem) frame flen) (status_size frame) of
      None \<Rightarrow> None
    | Some t \<Rightarrow> if 42 + length t < 1520
        then Some (transmit_frame (IPv4_finalize (UDP_finalize
          (wr (put8 (returnToSender (take flen frame @ drop flen (fst mem))) (42 + status_size frame) 0) 42 (t @ [0])) (42 + length t)) (42 + length t)) (42 + length t) s)
        else None)"
proof -
  let ?f = "take flen frame @ drop flen (fst mem)"
  have l: "length ?f = 1520" using assms by (auto simp: status_asks_def)
  have "rd (returnToSender ?f) 42 (1520 - 42) = rd ?f 42 (1520 - 42)" by (rule toSender_body) (use l in linarith)+
  then have d: "drop 42 (returnToSender ?f) = drop 42 ?f" using l by (simp add: rd_def)
  have b: "drop 42 (put8 (returnToSender ?f) (42 + status_size frame) 0) = status_body (fst mem) frame flen"
    unfolding status_body_def d [symmetric] by (simp add: put8_def enc8_def drop_update_swap)
  have "\<not> (31 :: u32) < ucast (htons (get16 frame udp_length)) - 8"
    using assms(1) by (simp add: status_asks_def status_size_def word_less_nat_alt)
  then show ?thesis using assms
    unfolding status_process_def Let_def status_size_def [symmetric] b
    by (auto simp: status_asks_def not_less split: option.split)
qed

lemma status_reply_frame:
  assumes "status_asks s frame flen" "length (fst mem) = 1520"
    "status_page (snd mem) h s (status_body (fst mem) frame flen) (status_size frame) = Some t" "42 + length t < 1520"
  shows "\<exists>r. status_process mem h frame flen s = Some (transmit_frame r (42 + length t) s) \<and> status_answers frame r t"
proof -
  let ?b = "take flen frame @ drop flen (fst mem)"
  define f where "f = wr (put8 (returnToSender ?b) (42 + status_size frame) 0) 42 (t @ [0])"
  define n where "n = 42 + length t"
  define r where "r = IPv4_finalize (UDP_finalize f n) n"
  have lb: "length ?b = 1520" using assms(1,2) by (auto simp: status_asks_def)
  then have lf: "length f = 1520" by (simp add: f_def)
  have p: "status_process mem h frame flen s = Some (transmit_frame r n s)"
    using status_process_page [OF assms(1,2), of h] assms(3,4) by (simp add: r_def n_def f_def)
  have fin: "RFC1071_checksum (rd r ip4_head 20) = 0" "udp_verifies r n" "rd r 42 (n - 42) = rd f 42 (n - 42)" "rd r ip4_src 8 = rd f ip4_src 8"
    using finalized_datagram [of n f] assms(4) lf by (simp_all add: r_def n_def Let_def)
  have "rd f 42 (length t + 1) = t @ [0]" unfolding f_def
    using assms(4) lb by (intro rd_wr_same) simp_all
  from arg_cong [OF this, of "take (length t)"] have t: "rd f 42 (length t) = t" by (simp add: rd_def)
  have k: "rd r j m = rd (returnToSender ?b) j m" if "j + m \<le> 12 \<or> 26 \<le> j \<and> j + m \<le> 38" for j m
  proof -
    have "rd r j m = rd (UDP_finalize f n) j m" unfolding r_def by (rule IPv4_finalize_rd) (use that in auto)
    also have "\<dots> = rd f j m" by (rule UDP_finalize_rd) (use that in auto)
    also have "\<dots> = rd (put8 (returnToSender ?b) (42 + status_size frame) 0) j m" unfolding f_def by (rule rd_wr_disj) (use that in auto)
    also have "\<dots> = rd (returnToSender ?b) j m" by (rule rd_put_other) (use that in auto)
    finally show ?thesis .
  qed
  have b: "rd ?b j m = rd frame j m" if "j + m \<le> 42" for j m
    using that assms(1) by (simp add: status_asks_def rd_append_left rd_take)
  have "status_answers frame r t"
    using fin t returnToSender_get [of ?b] lb
    by (simp add: status_answers_def n_def k get_defs b)
  with p show ?thesis by (auto simp: n_def)
qed

section \<open>Properties\<close>

text \<open>
  C33: an accepted request is answered with its page: one datagram to the sender, from the port and address that it was sent to,
  whose checksums verify and whose data is exactly the page, the text that the command in the request selects.
\<close>

theorem status_reply:
  assumes "status_asks s frame flen" "length (fst mem) = 1520"
    "status_page (snd mem) h s (status_body (fst mem) frame flen) (status_size frame) = Some t" "42 + length t < 1520"
  shows "\<exists>r. status_process mem h frame flen s = Some (transmit_frame r (42 + length t) s) \<and> status_answers frame r t"
  by (rule status_reply_frame [OF assms])

text \<open>
  C18: the pages are safe to print. Whatever the clocks, the loop and the reachable compensation hold, the clock, EEPROM, network,
  loop, system and task pages are defined, fit into the reply buffer with the closing zero, and show no memory that was not set.
\<close>

theorem status_pages_fit:
  assumes "tcmp_reach expf c" "length stk = 32" "length stk' = 32" "length (hostname s) \<le> 16"
  shows "\<forall>page \<in> {\<lambda>_. statusClock raw1 raw2 raw3 k, \<lambda>_. statusEEPROM r block, \<lambda>_. statusETH r s, \<lambda>m. PLL_status m p c,
      \<lambda>m. statusSystem m r, \<lambda>_. runStatus nothing q}. \<exists>t. page stk = Some t \<and> page stk' = Some t \<and> 42 + length t < 1520"
proof -
  note n = run_lines [of nothing q] text_clock [THEN text_weaken, of 1400] text_eeprom [THEN text_weaken, of 1400] text_ethernet [OF assms(4)]
    text_pll [OF temp_reach_valid [OF assms(1)] assms(2,3), THEN text_weaken, of 1400] text_system [OF assms(2,3), THEN text_weaken, of 1400]
  show ?thesis
  proof
    fix page assume "page \<in> {\<lambda>_. statusClock raw1 raw2 raw3 k, \<lambda>_. statusEEPROM r block, \<lambda>_. statusETH r s, \<lambda>m. PLL_status m p c,
      \<lambda>m. statusSystem m r, \<lambda>_. runStatus nothing q}"
    with n have "same_text (page stk) (page stk') 1400" by (auto simp: same_text_def)
    then show "\<exists>t. page stk = Some t \<and> page stk' = Some t \<and> 42 + length t < 1520" by (auto simp: same_text_def)
  qed
qed

text \<open>
  the task page shows the scheduler. It has one line for each task of the pool, in the order of the pool, and a reader gets from
  the line the kind of the schedule, the low 20 bits of the callback's address, and the context.
\<close>

theorem run_page_tasks:
  "\<exists>t. runStatus nothing s = Some t \<and> length t = 560 \<and> (\<forall>i. i < 32 \<longrightarrow> task_line nothing (node s i) (rd t (16 + 17 * i) 17))"
  using run_lines [of nothing s] by simp

definition idle_tasks :: sched where
  "idle_tasks = \<lparr>node = (\<lambda>i. \<lparr>qNext = None, qPrev = None, schedule = (if i = 3 then Periodic else Free),
     callback = (if i = 3 then Call 0x12345 else NullCall), reference = 7, runNext = 0, runInterval = 0\<rparr>), taskFree = None, taskUpdate = False\<rparr>"

theorem run_page_tasks_witness:
  "\<exists>t. runStatus 0 idle_tasks = Some t \<and> length t = 560 \<and> numeral_val 16 (rd (rd t 67 17) 2 5) = 0x12345"
proof -
  obtain t where t: "runStatus 0 idle_tasks = Some t" "length t = 560" "\<forall>i. i < 32 \<longrightarrow> task_line 0 (node idle_tasks i) (rd t (16 + 17 * i) 17)"
    using run_page_tasks by blast
  from t(3) [rule_format, of 3] have "task_line 0 (node idle_tasks 3) (rd t 67 17)" by simp
  then have "numeral_val 16 (rd (rd t 67 17) 2 5) = 0x12345" by (simp add: task_line_def idle_tasks_def)
  with t show ?thesis by blast
qed

text \<open>
  C39: The service mistakes words, and repeats memory. After "clock" the code looks for the end of the word three bytes too
  far: whatever the three bytes behind it are, an end of line or zero at the ninth byte makes it the clock page, and any
  other byte there makes it no command, be it closed by a line end or not. And the answer to a request \<open>body\<close> of \<open>n\<close>
  bytes that is no command (\<open>commands\<close> has the words and where their ends are looked for) repeats it up to its first
  zero; if it has none in its \<open>n\<close> bytes, as any plain word, the answer goes on with what the stack held behind it in the
  32 bytes \<open>mem\<close> of the array up to a zero, and past the array if there is none (\<open>None\<close>).
\<close>

theorem status_word_faults:
  assumes "\<not> recognised body" "n \<le> 31" "length mem = 32"
  shows "(recognised (ascii ''clock'' @ [x, y, z, d] @ rest) \<longleftrightarrow> d \<in> {0, 0x0A, 0x0D})
    \<and> (d \<in> {0, 0x0A, 0x0D} \<longrightarrow> status_page m h s (ascii ''clock'' @ [x, y, z, d] @ rest) k
         = statusClock (rd_mono (h_readings h)) (rd_comp (h_readings h)) (rd_tai (h_readings h)) (h_clock h))
    \<and> status_page mem h s body n
      = (let w = take n (cstr body); behind = drop n mem
         in if length w < n then Some (ascii ''invalid command: '' @ w @ [0x0A])
            else if 0 \<in> set behind then Some (ascii ''invalid command: '' @ w @ cstr behind @ [0x0A])
            else None)"
  using recognised_clock [of x y z d rest] status_page_clock [of d m h s x y z rest k] status_page_unknown [OF assms(1), of mem h s n]
    invalid_command_text [OF assms(2,3), of body] by auto

theorem status_word_faults_witness:
  "\<forall>m h s rest k. (recognised (ascii ''clock'' @ [0x66, 0x6F, 0x6F, 0] @ rest) \<longleftrightarrow> (0 :: u8) \<in> {0, 0x0A, 0x0D})
    \<and> ((0 :: u8) \<in> {0, 0x0A, 0x0D} \<longrightarrow> status_page m h (s :: nat ntpst) (ascii ''clock'' @ [0x66, 0x6F, 0x6F, 0] @ rest) k
         = statusClock (rd_mono (h_readings h)) (rd_comp (h_readings h)) (rd_tai (h_readings h)) (h_clock h))
    \<and> status_page (replicate 5 0 @ ascii ''secret'' @ replicate 21 0) h s (ascii ''hello'' @ replicate 13 0) 5
      = Some (ascii ''invalid command: hellosecret'' @ [0x0A])"
proof (intro allI)
  fix m h rest k and s :: "nat ntpst"
  let ?b = "ascii ''hello'' @ replicate 13 0" and ?m = "replicate 5 0 @ ascii ''secret'' @ replicate 21 0"
  have r: "\<not> recognised ?b" "length ?m = 32" by code_simp+
  have w: "take 5 (cstr ?b) = ascii ''hello''" "0 \<in> set (drop 5 ?m)" "cstr (drop 5 ?m) = ascii ''secret''" by code_simp+
  have a: "ascii ''invalid command: hellosecret'' = ascii ''invalid command: '' @ ascii ''hello'' @ ascii ''secret''" by code_simp
  have l: "length (ascii ''hello'') = 5" by code_simp
  show "(recognised (ascii ''clock'' @ [0x66, 0x6F, 0x6F, 0] @ rest) \<longleftrightarrow> (0 :: u8) \<in> {0, 0x0A, 0x0D})
    \<and> ((0 :: u8) \<in> {0, 0x0A, 0x0D} \<longrightarrow> status_page m h s (ascii ''clock'' @ [0x66, 0x6F, 0x6F, 0] @ rest) k
         = statusClock (rd_mono (h_readings h)) (rd_comp (h_readings h)) (rd_tai (h_readings h)) (h_clock h))
    \<and> status_page ?m h s ?b 5 = Some (ascii ''invalid command: hellosecret'' @ [0x0A])"
    using status_word_faults [OF r(1) _ r(2), of 5 "0x66" "0x6F" "0x6F" 0 rest m h s k] w l unfolding a Let_def by simp
qed

definition sample_query :: bytes where
  "sample_query = put16 (wr (put32 (wr (replicate 60 0) 0 [2, 0, 0, 0, 0, 1, 2, 0, 0, 0, 0, 9]) ip4_dst 5) 42 (ascii ''hello'')) udp_length (htons 13)"

theorem status_reply_witness:
  "\<forall>h. \<exists>r. status_process (replicate 1520 0, replicate 32 0) h sample_query 60 (ntp_boot [2, 0, 0, 0, 0, 1] 5)
     = Some (transmit_frame r 65 (ntp_boot [2, 0, 0, 0, 0, 1] 5)) \<and> status_answers sample_query r (ascii ''invalid command: hello'' @ [0x0A])"
proof
  fix h :: host
  let ?s = "ntp_boot [2, 0, 0, 0, 0, 1] 5" and ?t = "ascii ''invalid command: hello'' @ [0x0A]"
  define m :: bytes where "m = replicate 1520 0"
  have a: "status_asks ?s sample_query 60" by code_simp
  have z: "status_size sample_query = 5" by code_simp
  have d: "drop 42 sample_query = ascii ''hello'' @ replicate 13 0" by code_simp
  have l: "length sample_query = 60" by (simp add: sample_query_def)
  have "status_body m sample_query 60 = (drop 42 sample_query @ drop 60 m)[5 := 0]" by (simp add: status_body_def z l)
  then have b: "status_body m sample_query 60 = ascii ''hello'' @ replicate 13 0 @ drop 60 m" unfolding d by (simp add: ascii_def list_update_append numeral_eq_Suc)
  have p: "status_page (replicate 32 0) h ?s (status_body m sample_query 60) (status_size sample_query) = Some ?t"
    unfolding b z
    by (simp add: status_page_def strncmp_eq_def hasTerminus_def ascii_def invalid_command_def strncpy_def cstr_def Let_def item_def say_def nl_def)
  have "length m = 1520" by (simp only: m_def length_replicate)
  then have "\<exists>r. status_process (m, replicate 32 0) h sample_query 60 ?s = Some (transmit_frame r (42 + length ?t) ?s)
      \<and> status_answers sample_query r ?t"
    by (intro status_reply [OF a]) (simp_all only: fst_conv snd_conv p, simp_all add: ascii_def)
  then show "\<exists>r. status_process (replicate 1520 0, replicate 32 0) h sample_query 60 ?s = Some (transmit_frame r 65 ?s)
      \<and> status_answers sample_query r ?t"
    unfolding m_def by (simp add: ascii_def)
qed

theorem status_pages_fit_witness:
  "\<exists>t. PLL_status (replicate 32 7) pll_reset sample_tcmp = Some t \<and> PLL_status (replicate 32 9) pll_reset sample_tcmp = Some t \<and> 42 + length t < 1520"
proof -
  have "tcmp_reach (\<lambda>_. Fin 1) sample_tcmp" unfolding sample_tcmp_def by (rule tcmp_reach.Start) simp
  from status_pages_fit [OF this, of "replicate 32 7" "replicate 32 9" "ntp_boot [2, 0, 0, 0, 0, 1] 5" 0 0 0 sensorless undefined 0 pll_reset 0 idle_tasks]
  show ?thesis by (simp add: ntp_boot_def)
qed

end
