(* ===== verification/Board.thy ===== *)
theory Board
  imports Status Snmp
begin

text \<open>
  The parts on the board: the random generator (lib/random.cpp), the busy waits (lib/delay.cpp), the activity lights and the
  fault code (lib/led.cpp), and the values of the SNMP sensors (lib/snmp/sensors.cpp), which read the loop, the compensation
  and the GPS receiver.
\<close>

unbundle bit_operations_syntax

section \<open>Random numbers\<close>

definition random_init :: "u32 list \<Rightarrow> u32 \<Rightarrow> u32" where
  "random_init uniqueid s = foldl (\<lambda>s i. s + uniqueid ! i) s [0..<4]"

definition random_next :: "u32 \<Rightarrow> u32" where
  "random_next s =
     (let x = s;
          x = x XOR push_bit 13 x;
          x = x XOR drop_bit 17 x;
          x = x XOR push_bit 5 x
      in x)"

lemma shift_fixed_left:
  assumes "0 < k" "x = push_bit k x"
  shows "x = (0 :: u32)"
proof -
  have "\<not> bit x n" for n
  proof (induction n rule: less_induct)
    case (less n)
    have "bit x n = bit (push_bit k x) n" using assms(2) by simp
    then show ?case using less assms(1) by (auto simp: bit_push_bit_iff)
  qed
  then show ?thesis by (simp add: bit_eq_iff)
qed

lemma shift_fixed_right: "x = drop_bit 17 x \<Longrightarrow> x = (0 :: u32)"
proof -
  assume a: "x = drop_bit 17 x"
  have "\<not> bit x n" for n
  proof -
    have "bit x n = bit (drop_bit 17 (drop_bit 17 x)) n" using a by metis
    then show ?thesis by (auto simp: bit_drop_bit_eq dest: bit_imp_le_length)
  qed
  then show ?thesis by (simp add: bit_eq_iff)
qed

lemma random_linear: "random_next (x XOR y) = random_next x XOR random_next y"
  by (simp add: random_next_def push_bit_xor drop_bit_xor xor.assoc xor.commute xor.left_commute)

lemma random_zero:
  assumes "random_next x = 0"
  shows "x = 0"
proof -
  have e: "a = b" if "a XOR b = 0" for a b :: u32
  proof -
    have "a XOR (a XOR b) = b" by (simp flip: xor.assoc)
    with that show ?thesis by simp
  qed
  define y z where "y = x XOR push_bit 13 x" and "z = y XOR drop_bit 17 y"
  have "z XOR push_bit 5 z = 0" using assms unfolding random_next_def Let_def y_def z_def .
  from shift_fixed_left [OF _ e [OF this]] have "z = 0" by simp
  from shift_fixed_right [OF e [OF this [unfolded z_def]]] have "y = 0" .
  from shift_fixed_left [OF _ e [OF this [unfolded y_def]]] show ?thesis by simp
qed

section \<open>Delays\<close>

text \<open>
  \<open>raw i\<close> is what the \<open>i\<close>th read of the timer yields; a wait returns the number of reads so far, and \<open>None\<close> is a wait
  that never ends.
\<close>

abbreviation (input) CLK_KHZ :: "'a :: numeral" where "CLK_KHZ \<equiv> 125000"
abbreviation (input) CLK_MHZ :: "'a :: numeral" where "CLK_MHZ \<equiv> 125"
abbreviation (input) DELAY_MAX_MS :: "'a :: numeral" where "DELAY_MAX_MS \<equiv> 8589"

partial_function (option) wait_until :: "(nat \<Rightarrow> u32) \<Rightarrow> u32 \<Rightarrow> nat \<Rightarrow> nat option" where
  "wait_until raw target i = (if 0 <s target - raw i then wait_until raw target (Suc i) else Some (Suc i))"

definition delay_micros :: "(nat \<Rightarrow> u32) \<Rightarrow> u16 \<Rightarrow> nat \<Rightarrow> nat option" where
  "delay_micros raw d i = wait_until raw (raw i + ucast d * CLK_MHZ) (Suc i)"

function millis_loop :: "(nat \<Rightarrow> u32) \<Rightarrow> u16 \<Rightarrow> u32 \<Rightarrow> nat \<Rightarrow> nat option" where
  "millis_loop raw d target i =
     (if DELAY_MAX_MS < d
      then let target = target + DELAY_MAX_MS * CLK_KHZ
           in Option.bind (wait_until raw target i) (millis_loop raw (d - DELAY_MAX_MS) target)
      else wait_until raw (target + ucast d * CLK_KHZ) i)"
  by auto
termination
  by (relation "measure (\<lambda>(_, d, _). unat d)") (simp_all add: word_less_nat_alt unat_sub_if')

declare millis_loop.simps [simp del]

definition delay_millis :: "(nat \<Rightarrow> u32) \<Rightarrow> u16 \<Rightarrow> nat \<Rightarrow> nat option" where
  "delay_millis raw d i = millis_loop raw d (raw i) (Suc i)"

text \<open>A timer that is read often enough, and whose count goes on for ever; \<open>gap\<close> is the longest time between two reads.\<close>

definition timer_reads :: "nat \<Rightarrow> (nat \<Rightarrow> nat) \<Rightarrow> bool" where
  "timer_reads gap T \<longleftrightarrow> gap \<le> 10 ^ 9 \<and> (\<forall>i. T i \<le> T (Suc i) \<and> T (Suc i) \<le> T i + gap) \<and> (\<forall>b. \<exists>i. b \<le> T i)"

lemma signed_ahead:
  assumes "a \<le> b + 2 ^ 30" "b < a + 2 ^ 31"
  shows "(0 <s (of_nat a - of_nat b :: u32)) = (b < a)"
proof -
  have "(of_nat a - of_nat b :: u32) = word_of_int (int a - int b)" by simp
  then have "sint (of_nat a - of_nat b :: u32) = int a - int b"
    using assms by (simp only:) (rule sint_of_int_32; simp)
  then show ?thesis by (simp add: word_sless_alt)
qed

lemma wait_until_reaches:
  assumes "timer_reads gap T" "raw = (\<lambda>i. of_nat (T i))" "D \<le> T i + 2 ^ 30" "T i < D + 2 ^ 31"
  shows "\<exists>j > i. wait_until raw (of_nat D) i = Some j \<and> D \<le> T (j - 1) \<and> (\<forall>k. i \<le> k \<and> k < j - 1 \<longrightarrow> T k < D)"
proof -
  obtain b where "D \<le> T b" using assms(1) by (auto simp: timer_reads_def)
  then have "\<exists>n. D \<le> T (i + n)"
  proof -
    have "mono T" using assms(1) by (intro mono_iff_le_Suc [THEN iffD2]) (simp add: timer_reads_def)
    then have "T b \<le> T (i + b)" by (rule monoD) simp
    with \<open>D \<le> T b\<close> show ?thesis using le_trans by blast
  qed
  then obtain n where "D \<le> T (i + n)" by blast
  then show ?thesis using assms(3,4)
  proof (induction n arbitrary: i)
    case 0
    then have "wait_until raw (of_nat D) i = Some (Suc i)"
      using signed_ahead [of D "T i"] by (subst wait_until.simps) (simp add: assms(2))
    with 0 show ?case by (intro exI [of _ "Suc i"]) simp
  next
    case (Suc n)
    show ?case
    proof (cases "T i < D")
      case True
      have s: "T i \<le> T (Suc i)" "T (Suc i) \<le> T i + 10 ^ 9" using assms(1) le_trans [of "T (Suc i)" "T i + gap"] by (auto simp: timer_reads_def)
      from Suc.IH [of "Suc i"] obtain j where j: "j > Suc i" "wait_until raw (of_nat D) (Suc i) = Some j" "D \<le> T (j - 1)"
        "\<forall>k. Suc i \<le> k \<and> k < j - 1 \<longrightarrow> T k < D" using Suc.prems s True by auto
      have "wait_until raw (of_nat D) i = Some j"
        using signed_ahead [of D "T i"] True Suc.prems j(2) by (subst wait_until.simps) (simp add: assms(2))
      moreover have "T k < D" if "i \<le> k" "k < j - 1" for k using j(4) True that by (cases "k = i") auto
      ultimately show ?thesis using j(1,3) by (intro exI [of _ j]) auto
    next
      case False
      then have "wait_until raw (of_nat D) i = Some (Suc i)"
        using signed_ahead [of D "T i"] Suc.prems by (subst wait_until.simps) (simp add: assms(2))
      with False show ?thesis by (intro exI [of _ "Suc i"]) simp
    qed
  qed
qed

text \<open>A wait ends at most one gap after its target, or with its first read.\<close>

lemma wait_until_ends:
  assumes "timer_reads gap T" "raw = (\<lambda>i. of_nat (T i))" "D \<le> T i + 2 ^ 30" "T i < D + 2 ^ 31"
  shows "\<exists>j > i. wait_until raw (of_nat D) i = Some j \<and> D \<le> T (j - 1) \<and> T (j - 1) \<le> max (T i) (D + gap)"
proof -
  from wait_until_reaches [OF assms] obtain j where
    j: "j > i" "wait_until raw (of_nat D) i = Some j" "D \<le> T (j - 1)" "\<forall>k. i \<le> k \<and> k < j - 1 \<longrightarrow> T k < D" by blast
  have "T (j - 1) \<le> max (T i) (D + gap)"
  proof (cases "j = Suc i")
    case False
    have "i \<le> j - 2" "j - 2 < j - 1" using j(1) False by arith+
    then have "T (j - 2) < D" using j(4) by blast
    moreover have "T (Suc (j - 2)) \<le> T (j - 2) + gap" using assms(1) by (auto simp: timer_reads_def)
    moreover have "Suc (j - 2) = j - 1" using j(1) False by simp
    ultimately show ?thesis by simp
  qed simp
  with j show ?thesis by blast
qed

lemma millis_loop_ends:
  assumes "timer_reads gap T" "raw = (\<lambda>i. of_nat (T i))"
  shows "D \<le> T i \<Longrightarrow> T i \<le> D + gap \<Longrightarrow>
    \<exists>j > i. millis_loop raw d (of_nat D) (Suc i) = Some j \<and> D + unat d * 125000 \<le> T (j - 1) \<and> T (j - 1) \<le> D + unat d * 125000 + 2 * gap"
proof (induction "unat d" arbitrary: d D i rule: less_induct)
  case less
  have g: "gap \<le> 1000000000" using assms(1) by (simp add: timer_reads_def)
  have s: "T i \<le> T (Suc i)" "T (Suc i) \<le> T i + gap" using assms(1) by (auto simp: timer_reads_def)
  show ?case
  proof (cases "(8589 :: u16) < d")
    case True
    define E where "E = D + 1073625000"
    from wait_until_ends [OF assms, of E "Suc i"] obtain j where
      j: "j > Suc i" "wait_until raw (of_nat E) (Suc i) = Some j" "E \<le> T (j - 1)" "T (j - 1) \<le> max (T (Suc i)) (E + gap)"
      using less.prems s g by (auto simp: E_def)
    have d: "unat (d - 8589) = unat d - 8589" "8589 < unat d" using True by (simp_all add: unat_sub_if' word_less_nat_alt word_le_nat_alt)
    have "T (j - 1) \<le> E + gap" using j(4) s less.prems g by (simp add: E_def)
    from less.hyps [OF _ j(3) this, of "d - 8589"] d obtain k where
      k: "k > j - 1" "millis_loop raw (d - 8589) (of_nat E) (Suc (j - 1)) = Some k"
        "E + unat (d - 8589) * 125000 \<le> T (k - 1)" "T (k - 1) \<le> E + unat (d - 8589) * 125000 + 2 * gap" by auto
    have "(of_nat E :: u32) = of_nat D + 8589 * 125000" by (simp add: E_def)
    with k(2) j(1,2) True have "millis_loop raw d (of_nat D) (Suc i) = Some k" by (subst millis_loop.simps) (simp add: Let_def)
    moreover have "E + unat (d - 8589) * 125000 = D + unat d * 125000" using d by (simp add: E_def)
    ultimately show ?thesis using k j(1) by (intro exI [of _ k]) auto
  next
    case False
    define E where "E = D + unat d * 125000"
    have d: "unat d \<le> 8589" using False by (simp add: word_less_nat_alt not_less)
    from wait_until_ends [OF assms, of E "Suc i"] obtain j where
      j: "j > Suc i" "wait_until raw (of_nat E) (Suc i) = Some j" "E \<le> T (j - 1)" "T (j - 1) \<le> max (T (Suc i)) (E + gap)"
      using less.prems s g d by (auto simp: E_def)
    have "(of_nat E :: u32) = of_nat D + ucast d * 125000" by (simp add: E_def)
    with j(2) False have "millis_loop raw d (of_nat D) (Suc i) = Some j" by (subst millis_loop.simps) simp
    moreover have "T (j - 1) \<le> E + 2 * gap" using j(4) s less.prems by (simp add: E_def)
    ultimately show ?thesis using j by (intro exI [of _ j]) (auto simp: E_def)
  qed
qed

lemma delays_end:
  assumes "timer_reads gap T" "raw = (\<lambda>i. of_nat (T i))"
  shows "\<exists>j. delay_millis raw d i = Some j \<and> T i + unat d * 125000 \<le> T (j - 1) \<and> T (j - 1) \<le> T i + unat d * 125000 + 2 * gap"
    "\<exists>j. delay_micros raw d i = Some j \<and> T i + unat d * 125 \<le> T (j - 1) \<and> T (j - 1) \<le> T i + unat d * 125 + 2 * gap"
proof -
  have "raw i = of_nat (T i)" by (simp add: assms(2))
  with millis_loop_ends [OF assms, of "T i" i d]
  show "\<exists>j. delay_millis raw d i = Some j \<and> T i + unat d * 125000 \<le> T (j - 1) \<and> T (j - 1) \<le> T i + unat d * 125000 + 2 * gap"
    by (auto simp: delay_millis_def)
  have s: "T i \<le> T (Suc i)" "T (Suc i) \<le> T i + gap" "gap \<le> 1000000000" using assms(1) by (auto simp: timer_reads_def)
  have "(of_nat (T i + unat d * 125) :: u32) = raw i + ucast d * 125" by (simp add: assms(2))
  with wait_until_ends [OF assms, of "T i + unat d * 125" "Suc i"] s unat_u16_lt [of d]
  show "\<exists>j. delay_micros raw d i = Some j \<and> T i + unat d * 125 \<le> T (j - 1) \<and> T (j - 1) \<le> T i + unat d * 125 + 2 * gap"
    by (auto simp: delay_micros_def)
qed

section \<open>Lights\<close>

text \<open>A write through the masked address of a port changes the bits of the mask.\<close>

definition write_data :: "u8 \<Rightarrow> u8 \<Rightarrow> u8 \<Rightarrow> u8" where
  "write_data m v port = (port AND NOT m) OR (v AND m)"

definition LED0_ON :: "u8 \<Rightarrow> u8" where "LED0_ON p = write_data 1 1 p"
definition LED0_OFF :: "u8 \<Rightarrow> u8" where "LED0_OFF p = write_data 1 0 p"
definition LED0_TGL :: "u8 \<Rightarrow> u8" where "LED0_TGL p = write_data 1 ((p AND 1) XOR 1) p"
definition LED1_ON :: "u8 \<Rightarrow> u8" where "LED1_ON p = write_data 2 2 p"
definition LED1_OFF :: "u8 \<Rightarrow> u8" where "LED1_OFF p = write_data 2 0 p"
definition LED1_TGL :: "u8 \<Rightarrow> u8" where "LED1_TGL p = write_data 2 ((p AND 2) XOR 2) p"

record leds =
  led_status :: u8
  led_port :: u8

definition LED_act0 :: "leds \<Rightarrow> leds" where "LED_act0 s = s\<lparr>led_status := led_status s OR 1\<rparr>"
definition LED_act1 :: "leds \<Rightarrow> leds" where "LED_act1 s = s\<lparr>led_status := led_status s OR 2\<rparr>"

definition runLed :: "leds \<Rightarrow> leds" where
  "runLed s = s\<lparr>led_port := write_data 3 (led_status s) (led_port s), led_status := 0\<rparr>"

text \<open>One round of the endless loop of \<open>faultBlink\<close>: what it does to the port, and the pauses.\<close>

datatype blink = Pause u16 | Lamp "u8 \<Rightarrow> u8"

abbreviation (input) FAULT_BLINK :: u16 where "FAULT_BLINK \<equiv> 200"
abbreviation (input) FAULT_PAUSE :: u16 where "FAULT_PAUSE \<equiv> 1000"

definition fault_round :: "nat \<Rightarrow> nat \<Rightarrow> blink list" where
  "fault_round a b =
     [Lamp LED0_OFF, Lamp LED1_OFF]
     @ concat (replicate a [Pause FAULT_BLINK, Lamp LED0_ON, Pause FAULT_BLINK, Lamp LED0_OFF])
     @ [Pause FAULT_BLINK]
     @ concat (replicate b [Pause FAULT_BLINK, Lamp LED1_ON, Pause FAULT_BLINK, Lamp LED1_OFF])
     @ [Pause FAULT_PAUSE]"

text \<open>What is seen: the lamps during each pause.\<close>

primrec seen :: "u8 \<Rightarrow> blink list \<Rightarrow> (u16 \<times> bool \<times> bool) list" where
  "seen p [] = []"
| "seen p (b # bs) = (case b of Pause ms \<Rightarrow> (ms, bit p 0, bit p 1) # seen p bs | Lamp f \<Rightarrow> seen (f p) bs)"

lemma lamp_bits [simp]:
  "bit (LED0_ON p) n = (n = 0 \<or> bit p n)" "bit (LED0_OFF p) n = (n \<noteq> 0 \<and> bit p n)"
  "bit (LED1_ON p) n = (n = 1 \<or> bit p n)" "bit (LED1_OFF p) n = (n \<noteq> 1 \<and> bit p n)"
  by (auto simp: LED0_ON_def LED0_OFF_def LED1_ON_def LED1_OFF_def write_data_def bit_simps dest: bit_imp_le_length)

lemma seen_pulses:
  assumes "\<not> bit p 0" "\<not> bit p 1"
  shows "\<exists>q. \<not> bit q 0 \<and> \<not> bit q 1 \<and> seen p (concat (replicate a [Pause FAULT_BLINK, Lamp LED0_ON, Pause FAULT_BLINK, Lamp LED0_OFF]) @ bs)
      = concat (replicate a [(200, False, False), (200, True, False)]) @ seen q bs"
    "\<exists>q. \<not> bit q 0 \<and> \<not> bit q 1 \<and> seen p (concat (replicate a [Pause FAULT_BLINK, Lamp LED1_ON, Pause FAULT_BLINK, Lamp LED1_OFF]) @ bs)
      = concat (replicate a [(200, False, False), (200, False, True)]) @ seen q bs"
  using assms
proof (induction a arbitrary: p)
  case (Suc a)
  { case 1
    with Suc.IH(1) [of "LED0_OFF (LED0_ON p)"] show ?case by simp
  next
    case 2
    with Suc.IH(2) [of "LED1_OFF (LED1_ON p)"] show ?case by simp }
qed auto

lemma fault_round_seen:
  "seen p (fault_round a b) = concat (replicate a [(200, False, False), (200, True, False)]) @ [(200, False, False)]
     @ concat (replicate b [(200, False, False), (200, False, True)]) @ [(1000, False, False)]"
proof -
  let ?p = "LED1_OFF (LED0_OFF p)"
  obtain q where q: "\<not> bit q 0" "\<not> bit q 1"
    "seen ?p (concat (replicate a [Pause FAULT_BLINK, Lamp LED0_ON, Pause FAULT_BLINK, Lamp LED0_OFF]) @ ([Pause FAULT_BLINK]
       @ concat (replicate b [Pause FAULT_BLINK, Lamp LED1_ON, Pause FAULT_BLINK, Lamp LED1_OFF]) @ [Pause FAULT_PAUSE]))
     = concat (replicate a [(200, False, False), (200, True, False)]) @ seen q ([Pause FAULT_BLINK]
       @ concat (replicate b [Pause FAULT_BLINK, Lamp LED1_ON, Pause FAULT_BLINK, Lamp LED1_OFF]) @ [Pause FAULT_PAUSE])"
    using seen_pulses(1) [of ?p a] by fastforce
  obtain r where "\<not> bit r 0" "\<not> bit r 1"
    "seen q (concat (replicate b [Pause FAULT_BLINK, Lamp LED1_ON, Pause FAULT_BLINK, Lamp LED1_OFF]) @ [Pause FAULT_PAUSE])
     = concat (replicate b [(200, False, False), (200, False, True)]) @ seen r [Pause FAULT_PAUSE]"
    using seen_pulses(2) [OF q(1,2), of b "[Pause FAULT_PAUSE]"] by blast
  with q show ?thesis by (simp add: fault_round_def)
qed

section \<open>Sensor values\<close>

definition getCpuTemp :: "tcmp \<Rightarrow> u32 option" where
  "getCpuTemp c = lroundf (tempValue c * Fin (f32 (10 ^ 4)))"

definition getGpsHasFix :: "gpsst \<Rightarrow> u32" where
  "getGpsHasFix g = (if fixGood g \<noteq> 0 then 1 else 2)"

text \<open>The getters of the loop, \<open>getPllOffsetLast\<close> to \<open>getPllDriftFreq\<close>, differ in what they read.\<close>

definition getPll :: "flt \<Rightarrow> u32 option" where
  "getPll v = lroundf (v * Fin (f32 (10 ^ 10)))"

definition pll_values :: "'cb timing \<Rightarrow> flt list" where
  "pll_values t =
     (let p = t_pll t
      in [offsetLast p, pll.offsetMean p, offsetRms p, pll.offsetStdDev p, offsetProportion p, offsetIntegral p, PLL_offsetCorr t,
          driftLast p, driftMean p, driftRms p, driftStdDev p, PLL_driftCorr t, driftFreq p])"

definition sensor_values :: "'cb timing \<Rightarrow> gpsst \<Rightarrow> u32 list option" where
  "sensor_values t g =
     those ([getCpuTemp (t_tcmp t), Some (getGpsHasFix g), Some (taiOffset g), Some (accTime g), Some (accFreq g)]
       @ map getPll (pll_values t))"

text \<open>Rounding to the nearest integer, halves away from zero.\<close>

lemma lroundf_near:
  assumes "\<bar>x\<bar> \<le> 2000000000"
  shows "\<exists>w. lroundf (Fin x) = Some w \<and> \<bar>of_int (sint w) - x\<bar> \<le> 1 / 2"
proof -
  define n where "n = trunc_int (x + sgn x / 2)"
  have n: "\<bar>of_int n - x\<bar> \<le> 1 / 2"
  proof (cases "0 \<le> x")
    case True
    then have "n = \<lfloor>x + sgn x / 2\<rfloor>" by (cases "x = 0") (auto simp: n_def trunc_int_def sgn_if)
    then have "of_int n \<le> x + 1 / 2" "x - 1 / 2 \<le> of_int n"
      using True floor_correct [of "x + 1 / 2"] by (cases "x = 0"; auto simp: sgn_if)+
    then show ?thesis by (simp only: abs_le_iff) linarith
  next
    case False
    then have "n = \<lceil>x - 1 / 2\<rceil>" by (simp add: n_def trunc_int_def sgn_if ceiling_def)
    then have "of_int n \<le> x + 1 / 2" "x - 1 / 2 \<le> of_int n" using ceiling_correct [of "x - 1 / 2"] by simp_all
    then show ?thesis by (simp only: abs_le_iff) linarith
  qed
  then have "(of_int n :: rat) \<le> of_int 2000000001" "of_int (- 2000000001) \<le> (of_int n :: rat)"
    using assms unfolding abs_le_iff by simp_all
  then have r: "n \<le> 2000000001" "- 2000000001 \<le> n" unfolding of_int_le_iff by simp_all
  then have "lroundf (Fin x) = Some (word_of_int n)" by (simp add: lroundf_def n_def [symmetric])
  moreover have "sint (word_of_int n :: u32) = n" using r by (intro sint_of_int_32) simp_all
  ultimately show ?thesis using n by (intro exI [of _ "word_of_int n"] conjI) (simp_all only:)
qed

lemma f32_10: "f32 (10 ^ 10) = 10 ^ 10" by code_simp

lemma getPll_near:
  assumes "is_f32 x" "\<bar>x\<bar> \<le> 19 / 100"
  shows "\<exists>w. getPll (Fin x) = Some w \<and> \<bar>of_int (sint w) - x * 10 ^ 10\<bar> \<le> 1 + \<bar>x\<bar> * 10 ^ 10 / 2 ^ 24"
proof -
  define y where "y = x * 10 ^ 10"
  have b: "\<bar>y\<bar> \<le> 1900000000" using assms(2) by (simp add: y_def abs_mult)
  have e: "\<bar>f32 y - y\<bar> \<le> 1 / 2 + \<bar>y\<bar> / 2 ^ 24"
  proof (cases "2 powi (- 126) \<le> \<bar>y\<bar>")
    case True
    from f32_relative [OF this] show ?thesis by simp
  next
    case False
    have "is_f32 (2 powi (- 126))" by (rule is_f32_powi) simp
    then have "\<bar>f32 y\<bar> \<le> 2 powi (- 126)" using False by (intro f32_abs_le) simp_all
    moreover have "(2 :: rat) powi (- 126) \<le> 2 powi (- 2)" by (rule power_int_increasing) simp_all
    ultimately show ?thesis using False by (simp add: abs_le_iff) linarith
  qed
  have "\<bar>f32 y\<bar> \<le> \<bar>y\<bar> + (1 / 2 + \<bar>y\<bar> / 2 ^ 24)" using e by linarith
  also have "\<dots> \<le> 2000000000" using b by simp
  finally have f: "\<bar>f32 y\<bar> \<le> 2000000000" .
  from lroundf_near [OF this] obtain w where w: "lroundf (Fin (f32 y)) = Some w" "\<bar>of_int (sint w) - f32 y\<bar> \<le> 1 / 2" by blast
  have "Fin x * Fin (f32 (10 ^ 10)) = flt_of y" by (simp only: f32_10 y_def flt_ops flt_mul.simps)
  also have "\<dots> = Fin (f32 y)" using f by (auto simp: flt_of_def Let_def abs_le_iff)
  finally have "Fin x * Fin (f32 (10 ^ 10)) = Fin (f32 y)" .
  then have "getPll (Fin x) = Some w" unfolding getPll_def by (simp only: w(1))
  moreover have "\<bar>of_int (sint w) - y\<bar> \<le> 1 + \<bar>y\<bar> / 2 ^ 24" using w(2) e by linarith
  ultimately show ?thesis by (intro exI [of _ w]) (simp add: y_def abs_mult)
qed

lemma those_map:
  assumes "\<forall>x \<in> set xs. \<exists>w. f x = Some w \<and> P x w"
  shows "\<exists>ws. those (map f xs) = Some ws \<and> length ws = length xs \<and> (\<forall>i < length xs. P (xs ! i) (ws ! i))"
  using assms
proof (induction xs)
  case (Cons x xs)
  then obtain w ws where "f x = Some w" "P x w" "those (map f xs) = Some ws" "length ws = length xs" "\<forall>i < length xs. P (xs ! i) (ws ! i)" by auto
  then show ?case by (auto simp: nth_Cons')
qed simp

lemma getCpuTemp_Some:
  assumes "flt_within 100000 (tempValue c)"
  shows "\<exists>w. getCpuTemp c = Some w"
proof -
  have k: "f32 (10 ^ 4) = 10000" by code_simp
  have "is_f32 10000" unfolding is_f32_def by code_simp
  moreover have "is_f32 1000000000" unfolding is_f32_def by code_simp
  ultimately have "flt_within (100000 * 10000) (tempValue c * Fin (f32 (10 ^ 4)))"
    unfolding k using assms by (intro within_mul) simp_all
  then obtain x where "tempValue c * Fin (f32 (10 ^ 4)) = Fin x" "\<bar>x\<bar> \<le> 2000000000" by (elim flt_withinE) fastforce
  with lroundf_near [of x] show ?thesis by (auto simp: getCpuTemp_def)
qed

section \<open>Properties\<close>

text \<open>
  the generator is a permutation of its states, and only zero leads to zero: a generator that is seeded with anything
  but zero never gets stuck.
\<close>

theorem random_permutes: "bij random_next \<and> (random_next s = 0) = (s = 0)"
proof -
  have "inj random_next"
  proof (rule injI)
    fix x y assume "random_next x = random_next y"
    then have "random_next (x XOR y) = 0" by (simp add: random_linear)
    then have "x XOR y = 0" by (rule random_zero)
    moreover have "x XOR (x XOR y) = y" by (simp flip: xor.assoc)
    ultimately show "x = y" by simp
  qed
  then have "bij random_next" by (simp add: bij_def finite_UNIV_inj_surj)
  moreover have "random_next 0 = 0" by (simp add: random_next_def)
  ultimately show ?thesis using random_zero by auto
qed

text \<open>
  C31: a delay ends, and lasts as long as it says. If the timer is read often enough, a delay of any number of milliseconds or
  microseconds ends, also across the overflow of the counter, no earlier than asked for and at most two reads later.
\<close>

theorem delay_lasts:
  assumes "timer_reads gap T" "raw = (\<lambda>i. of_nat (T i))"
  shows "(\<exists>j. delay_millis raw d i = Some j \<and> T i + unat d * 125000 \<le> T (j - 1) \<and> T (j - 1) \<le> T i + unat d * 125000 + 2 * gap)
    \<and> (\<exists>j. delay_micros raw d i = Some j \<and> T i + unat d * 125 \<le> T (j - 1) \<and> T (j - 1) \<le> T i + unat d * 125 + 2 * gap)"
  using delays_end [OF assms] by simp

theorem delay_lasts_witness:
  "\<exists>j. delay_millis (\<lambda>i. of_nat (4294967000 + 100 * i)) 60000 0 = Some j
     \<and> 4294967000 + 60000 * 125000 \<le> 4294967000 + 100 * (j - 1) \<and> 4294967000 + 100 * (j - 1) \<le> 4294967000 + 60000 * 125000 + 2 * (100 :: nat)"
proof -
  have t: "timer_reads 100 (\<lambda>i. 4294967000 + 100 * i)"
    unfolding timer_reads_def by (auto intro: exI [where P = "\<lambda>i. b \<le> 4294967000 + 100 * i" and x = b for b])
  show ?thesis using delay_lasts [OF t refl, of 60000 0] by simp
qed

text \<open>
  the fault code can be read. Whatever the lamps showed before, a round for the fault (a, b) shows a pulses of the first lamp
  and then b pulses of the second, each of 200 ms after as long a pause, with an extra pause between and a second of darkness after.
\<close>

theorem fault_code_seen:
  "seen p (fault_round a b) = concat (replicate a [(200, False, False), (200, True, False)]) @ [(200, False, False)]
     @ concat (replicate b [(200, False, False), (200, False, True)]) @ [(1000, False, False)]"
  by (rule fault_round_seen)

text \<open>
  C32: the sensors report the loop. While the statistics and trims of the loop are below 0.19 and the temperature is one, every
  sensor has a value, and a value of the loop is the one in the loop in units of 1e-10, to the rounding of one operation.
\<close>

theorem sensor_report:
  assumes "\<forall>v \<in> set (pll_values t). flt_within (19 / 100) v" "flt_within 100000 (tempValue (t_tcmp t))"
  shows "\<exists>vs. sensor_values t g = Some vs \<and> length vs = length snmpSensors
    \<and> (\<forall>i < 13. \<exists>x. pll_values t ! i = Fin x \<and> \<bar>of_int (sint (vs ! (5 + i))) - x * 10 ^ 10\<bar> \<le> 1 + \<bar>x\<bar> * 10 ^ 10 / 2 ^ 24)"
proof -
  let ?P = "\<lambda>v (w :: u32). \<exists>x. v = Fin x \<and> \<bar>of_int (sint w) - x * 10 ^ 10\<bar> \<le> 1 + \<bar>x\<bar> * 10 ^ 10 / 2 ^ 24"
  have "\<exists>w. getPll v = Some w \<and> ?P v w" if "flt_within (19 / 100) v" for v
    using that by (elim flt_withinE) (use getPll_near in blast)
  then have "\<forall>v \<in> set (pll_values t). \<exists>w. getPll v = Some w \<and> ?P v w" using assms(1) by blast
  from those_map [OF this] obtain ws where
    w: "those (map getPll (pll_values t)) = Some ws" "length ws = length (pll_values t)" "\<forall>i < length (pll_values t). ?P (pll_values t ! i) (ws ! i)" by blast
  have l: "length (pll_values t) = 13" by (simp add: pll_values_def Let_def)
  obtain c where c: "getCpuTemp (t_tcmp t) = Some c" using getCpuTemp_Some [OF assms(2)] by blast
  have "sensor_values t g = Some ([c, getGpsHasFix g, taiOffset g, accTime g, accFreq g] @ ws)" by (simp add: sensor_values_def c w(1))
  with w l show ?thesis by (intro exI [of _ "[c, getGpsHasFix g, taiOffset g, accTime g, accFreq g] @ ws"]) (simp add: snmpSensors_def nth_append)
qed

definition cold_start :: "nat timing" where
  "cold_start = \<lparr>t_pll = pll_reset\<lparr>offsetLast := Fin (1 / 2 ^ 10)\<rparr>, t_tcmp = sample_tcmp, t_clk = tai_reset, t_ntp = ntp_boot [2, 0, 0, 0, 0, 1] 5\<rparr>"

theorem sensor_report_witness:
  "\<forall>g. \<exists>vs. sensor_values cold_start g = Some vs \<and> length vs = 18 \<and> \<bar>of_int (sint (vs ! 5)) - (9765625 :: rat)\<bar> \<le> 2"
proof
  fix g
  have "trim_ratio (tai_getTrim tai_reset) = Fin 0" "trim_ratio (comp_getTrim tai_reset) = Fin 0" by code_simp+
  then have c: "\<forall>v \<in> set (pll_values cold_start). flt_within (19 / 100) v"
    using is_f32_pow(2) [of 10] by (simp add: pll_values_def cold_start_def pll_reset_def PLL_offsetCorr_def PLL_driftCorr_def Let_def)
  moreover have "flt_within 100000 (tempValue (t_tcmp cold_start))"
    by (simp add: cold_start_def sample_tcmp_def tcmp_init_def loadSom_def tcmp_reset_def Let_def)
  ultimately obtain vs where v: "sensor_values cold_start g = Some vs" "length vs = 18"
    "\<forall>i < 13. \<exists>x. pll_values cold_start ! i = Fin x \<and> \<bar>of_int (sint (vs ! (5 + i))) - x * 10 ^ 10\<bar> \<le> 1 + \<bar>x\<bar> * 10 ^ 10 / 2 ^ 24"
    using sensor_report [of cold_start g] by (auto simp: snmpSensors_def)
  from v(3) [rule_format, of 0] have "\<bar>of_int (sint (vs ! 5)) - (9765625 :: rat)\<bar> \<le> 2"
    by (auto simp: pll_values_def cold_start_def pll_reset_def Let_def)
  with v show "\<exists>vs. sensor_values cold_start g = Some vs \<and> length vs = 18 \<and> \<bar>of_int (sint (vs ! 5)) - (9765625 :: rat)\<bar> \<le> 2" by blast
qed

end
