(* ===== verification/Spec2Isabelle.thy ===== *)
theory Spec2Isabelle
  imports Clocks Scheduler Format Inet NetRing Snmp GpsTime NtpService Ptp Chrony Pll Board
begin

text \<open>
  Firmware of a GPS-disciplined oscillator (src/tm4c): a time server for NTP and PTP on a TM4C1294 with
  a GPS receiver, an Ethernet port and no operating system.

  The program. Hardware timers count at 125 MHz. The monotonic clock reads them, the compensated clock adds
  a temperature trim to it, and the TAI clock the rate and offset of a phase-locked loop. The GPS receiver
  reports the time of day over a UART and marks the second by a pulse, which the capture unit stamps. A
  cooperative scheduler runs tasks by due time; interrupt handlers only wake tasks. The Ethernet driver
  moves frames between descriptor rings and the handlers of ARP, IPv4, ICMP, UDP and PTP. On UDP sit the
  clients of DHCP, DNS and NTP, the NTP server, the SNMP agent and the status queries of chronyc. Samples of
  GPS and of remote peers become sources; the best one drives the loop, and the server's replies name it.

  Theories, in the order of the layers, and what their lemmas show.

  \<^item> \<open>Prelude\<close>: integer types, byte buffers (\<open>rd\<close>, \<open>wr\<close>, \<open>get32\<close>, \<open>put32\<close>), byte order; the collections \<open>buf_simps\<close>
    and \<open>word_conv\<close>, and the locale \<open>field_codec\<close> of integers in buffers.
  \<^item> \<open>ClockMath\<close> (lib/clock/util): \<open>nanosToFrac\<close>, \<open>corrValue\<close>, \<open>corrFracRem\<close> equal exact integer formulas. \<open>Clocks\<close>
    (mono.cpp, comp.cpp, tai.cpp, capture.cpp): records that extend one another as each clock reads the one below; the locale
    \<open>disciplined_clock\<close> proves once, for the compensated and the TAI clock, that updates lose nothing to rounding.
  \<^item> \<open>Scheduler\<close> (lib/run.cpp): the task pool and the circular run queue by explicit dereferences; the invariant over every reachable
    state, the locale \<open>run_queue\<close> of an ordered queue that the linked list implements, due times modulo \<open>2 ^ 32\<close>; timed runs
    (\<open>timed_step\<close>), in which every operation keeps the queue sorted by due time as long as no task is 8.6 seconds late.
  \<^item> \<open>Format\<close>, \<open>FloatText\<close> (lib/format.cpp): numerals, hexadecimal and their reading; floating-point numbers as text, with every
    access to an array, every conversion and every uninitialised byte in the model.
  \<^item> \<open>Inet\<close> (lib/net/util, ip, udp, icmp): checksums verify at the receiver, echo replies, the port registry (locale \<open>port_service\<close>).
    \<open>NetRing\<close> (lib/net.cpp): both rings with the DMA engine as environment; the locale \<open>frame_link\<close> of a link that delivers in order,
    exactly once, which the transmit ring implements.
  \<^item> \<open>Arp\<close>, \<open>Dns\<close>, \<open>Dhcp\<close> (lib/net/arp, dns, dhcp): request tables, parsers and builders of messages. Callbacks are values; the locales
    \<open>arp_clients\<close>, \<open>dns_clients\<close> and \<open>other_clients\<close> state what a callback may change, and \<open>Ntp\<close> interprets them on the peers'.
  \<^item> \<open>Snmp\<close> (lib/snmp): ASN.1 readers with every access checked, writers, sensor tables, and the request handler.
  \<^item> \<open>Gps\<close>, \<open>GpsTime\<close> (lib/gps.cpp): rings of the UART, the byte parser, the UBX encoder, the time of day against the calendar.
  \<^item> \<open>Float32\<close>, \<open>Ieee\<close>: single precision as rounded rationals, with infinities, NaN, bits, and the class operators on \<open>flt\<close>.
    \<open>FloatLaws\<close>: the bounds of rounded sums and products that the loop and the compensation rest on.
  \<^item> \<open>NtpPeer\<close> (lib/ntp/Source, Peer): sources, the poll of a peer. \<open>Ntp\<close> (ntp.cpp, GPS.cpp): the server, the source list, selection,
    and the events \<open>ntp_step\<close> of the time server, for every set \<open>A\<close> of addresses that DNS and DHCP report, with an invariant
    for all of them (\<open>sources_safe\<close>) and one for those without 0.0.0.0 (\<open>sources_ok\<close>). \<open>NtpExchange\<close>, \<open>NtpService\<close>: requests, replies and whole exchanges
    between two hosts. \<open>Regression\<close> (Source.cpp): the statistics of a source.
  \<^item> \<open>Ptp\<close> (lib/ptp): sync, follow-up, announce and delay messages. \<open>Candm\<close>, \<open>Chrony\<close> (lib/chrony, ntp.cpp, Source.cpp): status queries.
  \<^item> \<open>Tcmp\<close> (lib/ntp/tcmp.cpp): the temperature compensation, its self-organising map, the regression in nine steps, and the EEPROM.
    \<open>Pll\<close> (lib/ntp/pll.cpp): the phase-locked loop, and the runs of server, loop, clocks and compensation together (\<open>timing_step\<close>).
  \<^item> \<open>Status\<close> (status.cpp and the pages of the other files): the text service and its pages. \<open>Board\<close> (lib/random, delay, led,
    snmp/sensors): the random generator, the busy waits, the lights and the fault code, and the sensor values.

  Correspondence. A definition has the name of the function, method or type that it models, with the file's name or a suffix
  where two files share one; a handler's global variables are the fields of its record, and each layer's record extends the
  one below, so that a handler of an upper layer runs on the whole state. A frame is the list of its bytes and a field of a packed
  structure an offset. Transmitted frames are appended to \<open>outbox\<close>; \<open>NetRing\<close> shows what the driver does with them. Machine integers
  are words of their width. What cannot be computed by the code is an argument: timer readings, the FIFOs of the UART, the unique
  identifier, sensor values, random words, and the hardware stamps of a frame. \<open>None\<close> and \<open>Inl\<close> mark accesses outside an object,
  null pointers and conversions that the language leaves undefined.

  Bounds. Loops are structural recursions or have a measure, with these exceptions. \<open>runParse\<close> takes the distance of the ring
  indices, at most 255, as fuel, and is shown to consume exactly that. \<open>insert_point\<close> and \<open>cancel_walk\<close> take 34 steps, two more
  than the pool has tasks, and \<open>scheduler_safe\<close> shows that they never run out. The years of a position message are 2001 to 2399, the
  range of the leap-year table against the calendar. Statements about the monotonic clock are for as many second
  interrupts as the 32-bit counter of seconds can hold. A reply to chronyc has at most 566 bytes of its own; longer
  ones carry what follows on the stack, which is one of the findings.

  Not modelled. The set-up of registers and pins, the choice of the system clock and the start-up sequence are left out in
  every component, and the cycles of \<open>delay::cycles\<close>. A callback that an operation registers, a task that an interrupt handler
  wakes and the tasks that a destructor cancels are separate events: the model of the operation does not name them. The
  EEPROM is the 48 words of the map, without its base address. The exponential function, the sign of a zero or NaN and the
  random word of an operation are arguments. The compiler may contract a product and a sum into one rounding; the model of floats
  rounds every operation. What a peer does after its slot was destroyed or built over (possible only with the address
  0.0.0.0) is modelled on the fields of the slot, not on the lifetime rules of the language. The files of ptp_ref_code
  are samples of other projects and are not built.
\<close>

end
